(* ===== verification/Prelude.thy ===== *)
theory Prelude
  imports Main "HOL-Library.Word"
begin

text \<open>
  Shared vocabulary of the development.

  C integers are words of their width: \<open>u8\<close>, \<open>u16\<close>, \<open>u32\<close>, \<open>u64\<close> for the unsigned
  types, read as signed through \<^const>\<open>sint\<close> where the C type is signed.  The platform is
  LP64 (32-bit \<open>int\<close>, 64-bit \<open>long\<close>, \<open>size_t\<close> and pointers), little or big endian.
  Byte buffers are lists of \<open>u8\<close>.
\<close>

unbundle bit_operations_syntax

type_synonym u8 = "8 word"
type_synonym u16 = "16 word"
type_synonym u32 = "32 word"
type_synonym u64 = "64 word"
type_synonym bytes = "u8 list"

named_theorems wf_intros \<open>preservation of the well-formedness invariants\<close>

section \<open>Options\<close>

text \<open>The first answer of two partial handlers: how a C \<open>switch\<close> split in groups composes.\<close>

fun first_some :: "'a option \<Rightarrow> 'a option \<Rightarrow> 'a option" where
  "first_some (Some x) y = Some x"
| "first_some None y = y"

lemma first_some_None [simp]: "first_some x y = None \<longleftrightarrow> x = None \<and> y = None"
  by (cases x) auto

lemma first_some_Some: "first_some x y = Some z \<longleftrightarrow> x = Some z \<or> x = None \<and> y = Some z"
  by (cases x) auto

section \<open>Lists\<close>

lemma nth_in_range: "i < length xs \<Longrightarrow> xs ! i \<in> set xs"
  by simp

lemma distinct_remove1_eq_filter: "distinct xs \<Longrightarrow> remove1 x xs = filter (\<lambda>y. y \<noteq> x) xs"
  by (simp add: distinct_remove1_removeAll removeAll_filter_not_eq eq_commute)

lemma length_remove1_member: "x \<in> set xs \<Longrightarrow> length (remove1 x xs) = length xs - 1"
  by (simp add: length_remove1)

section \<open>Words\<close>

lemma unat_u32_bound [simp]: "unat (x :: u32) < 4294967296"
proof -
  have "(unsigned x :: nat) < 2 ^ LENGTH(32)" by (rule unsigned_less)
  then show ?thesis by simp
qed

lemma unat_u16_bound [simp]: "unat (x :: u16) < 65536"
proof -
  have "(unsigned x :: nat) < 2 ^ LENGTH(16)" by (rule unsigned_less)
  then show ?thesis by simp
qed

lemma unat_u8_bound [simp]: "unat (x :: u8) < 256"
proof -
  have "(unsigned x :: nat) < 2 ^ LENGTH(8)" by (rule unsigned_less)
  then show ?thesis by simp
qed

lemma unat_of_nat_u32: "n < 4294967296 \<Longrightarrow> unat (of_nat n :: u32) = n"
  by (simp add: unat_of_nat)

lemma word_succ_nonzero: "(x :: 'a :: len word) < y \<Longrightarrow> x + 1 \<noteq> 0"
proof
  assume "x < y" "x + 1 = 0"
  then have "x = -1" by (simp add: eq_neg_iff_add_eq_0)
  then show False using \<open>x < y\<close> word_n1_ge [of y] by simp
qed

lemma word_succ_greater: "(x :: 'a :: len word) + 1 \<noteq> 0 \<Longrightarrow> x < x + 1"
  using unatSuc [of x] by (simp add: word_less_nat_alt add.commute)

lemma unat_succ: "(x :: 'a :: len word) + 1 \<noteq> 0 \<Longrightarrow> unat (x + 1) = Suc (unat x)"
  using unatSuc [of x] by (simp add: add.commute)

text \<open>Widening keeps the value.\<close>

lemma unat_ucast_wider [simp]:
  "unat (ucast (b :: u8) :: u16) = unat b" "unat (ucast (b :: u8) :: u32) = unat b"
  "unat (ucast (h :: u16) :: u32) = unat h"
proof -
  have "unat b < 2 ^ 16" "unat b < 2 ^ 32" "unat h < 2 ^ 32"
    by (rule less_trans [OF unat_u8_bound], simp)+ (rule less_trans [OF unat_u16_bound], simp)
  then show "unat (ucast b :: u16) = unat b" "unat (ucast b :: u32) = unat b" "unat (ucast h :: u32) = unat h"
    by (simp_all add: unsigned_ucast_eq take_bit_nat_eq_self)
qed

end
