(* ===== verification/BpfFilter.thy ===== *)
theory BpfFilter
  imports Prelude
begin

text \<open>
  The packet filter machine of the DAQ library, \<open>data/daq-2.0.7/sfbpf/sf_bpf_filter.c\<close>:
  the interpreter \<open>bpf_filter\<close> and the static checker \<open>bpf_validate\<close>, in the user-space
  build (the \<open>KERNEL\<close> branches are not compiled and not modelled).

  The interpreter's \<open>switch\<close> is cut into groups of cases (\<open>bpf_ret\<close>, \<open>bpf_ld\<close>,
  \<open>bpf_st\<close>, \<open>bpf_jmp\<close>, \<open>bpf_alu\<close>, \<open>bpf_misc\<close>), each \<open>None\<close> on an opcode that is not
  its own; \<open>bpf_step\<close> tries them in turn and aborts when none answers.  What C leaves
  undefined or the code does not check (an instruction fetched outside the program, a
  packet byte outside the buffer, a scratch cell outside \<open>mem\<close>, a division by zero, a
  shift by 32 or more) is a value \<open>Fault\<close>.  The program counter is an index and jump
  offsets are added without wrap-around, as the 64-bit pointer \<open>pc\<close> does it.  The
  scratch memory is not initialised in C: its first contents are a parameter.
\<close>

section \<open>Instructions\<close>

record bpf_insn =
  insn_code :: u16
  insn_jt :: u8
  insn_jf :: u8
  insn_k :: u32

abbreviation "BPF_LD \<equiv> (0x00 :: u16)"
abbreviation "BPF_LDX \<equiv> (0x01 :: u16)"
abbreviation "BPF_ST \<equiv> (0x02 :: u16)"
abbreviation "BPF_STX \<equiv> (0x03 :: u16)"
abbreviation "BPF_ALU \<equiv> (0x04 :: u16)"
abbreviation "BPF_JMP \<equiv> (0x05 :: u16)"
abbreviation "BPF_RET \<equiv> (0x06 :: u16)"
abbreviation "BPF_MISC \<equiv> (0x07 :: u16)"

abbreviation "BPF_W \<equiv> (0x00 :: u16)"
abbreviation "BPF_H \<equiv> (0x08 :: u16)"
abbreviation "BPF_B \<equiv> (0x10 :: u16)"

abbreviation "BPF_IMM \<equiv> (0x00 :: u16)"
abbreviation "BPF_ABS \<equiv> (0x20 :: u16)"
abbreviation "BPF_IND \<equiv> (0x40 :: u16)"
abbreviation "BPF_MEM \<equiv> (0x60 :: u16)"
abbreviation "BPF_LEN \<equiv> (0x80 :: u16)"
abbreviation "BPF_MSH \<equiv> (0xa0 :: u16)"

abbreviation "BPF_ADD \<equiv> (0x00 :: u16)"
abbreviation "BPF_SUB \<equiv> (0x10 :: u16)"
abbreviation "BPF_MUL \<equiv> (0x20 :: u16)"
abbreviation "BPF_DIV \<equiv> (0x30 :: u16)"
abbreviation "BPF_OR \<equiv> (0x40 :: u16)"
abbreviation "BPF_AND \<equiv> (0x50 :: u16)"
abbreviation "BPF_LSH \<equiv> (0x60 :: u16)"
abbreviation "BPF_RSH \<equiv> (0x70 :: u16)"
abbreviation "BPF_NEG \<equiv> (0x80 :: u16)"

abbreviation "BPF_JA \<equiv> (0x00 :: u16)"
abbreviation "BPF_JEQ \<equiv> (0x10 :: u16)"
abbreviation "BPF_JGT \<equiv> (0x20 :: u16)"
abbreviation "BPF_JGE \<equiv> (0x30 :: u16)"
abbreviation "BPF_JSET \<equiv> (0x40 :: u16)"

abbreviation "BPF_K \<equiv> (0x00 :: u16)"
abbreviation "BPF_X \<equiv> (0x08 :: u16)"
abbreviation "BPF_A \<equiv> (0x10 :: u16)"
abbreviation "BPF_TAX \<equiv> (0x00 :: u16)"
abbreviation "BPF_TXA \<equiv> (0x80 :: u16)"

definition BPF_CLASS :: "u16 \<Rightarrow> u16" where "BPF_CLASS c = c AND 0x07"
definition BPF_MODE :: "u16 \<Rightarrow> u16" where "BPF_MODE c = c AND 0xe0"
definition BPF_OP :: "u16 \<Rightarrow> u16" where "BPF_OP c = c AND 0xf0"
definition BPF_RVAL :: "u16 \<Rightarrow> u16" where "BPF_RVAL c = c AND 0x18"

definition BPF_MEMWORDS :: nat where "BPF_MEMWORDS = 16"

section \<open>Machine\<close>

record bpf_regs =
  bA :: u32
  bX :: u32
  bM :: "u32 list"

datatype bpf_fault =
  Bad_Fetch | Bad_Packet_Read | Bad_Scratch | Div_Zero | Bad_Shift

datatype bpf_result = Ret u32 | Aborted | Fault bpf_fault

datatype bpf_out = Cont nat bpf_regs | Done bpf_result

text \<open>\<open>EXTRACT_LONG\<close> and \<open>EXTRACT_SHORT\<close>: big-endian reads at a signed offset from \<open>p\<close>.\<close>

definition extract_long :: "bytes \<Rightarrow> int \<Rightarrow> u32 option" where
  "extract_long p i =
     (if 0 \<le> i \<and> nat i + 4 \<le> length p
      then Some (push_bit 24 (ucast (p ! nat i)) OR push_bit 16 (ucast (p ! (nat i + 1)))
                 OR push_bit 8 (ucast (p ! (nat i + 2))) OR ucast (p ! (nat i + 3)))
      else None)"

definition extract_short :: "bytes \<Rightarrow> int \<Rightarrow> u32 option" where
  "extract_short p i =
     (if 0 \<le> i \<and> nat i + 2 \<le> length p
      then Some (push_bit 8 (ucast (p ! nat i)) OR ucast (p ! (nat i + 1)))
      else None)"

definition extract_byte :: "bytes \<Rightarrow> int \<Rightarrow> u32 option" where
  "extract_byte p i = (if 0 \<le> i \<and> nat i < length p then Some (ucast (p ! nat i)) else None)"

text \<open>
  The run-time checks of the three load widths.  \<open>k\<close> is an \<open>int\<close>: in
  \<open>k + sizeof(int32) > buflen\<close> it is sign-extended to \<open>size_t\<close> and the sum wraps at 64
  bits, while \<open>k >= buflen\<close> compares 32-bit unsigned values.
\<close>

definition load_A :: "u32 option \<Rightarrow> bpf_regs \<Rightarrow> bpf_out" where
  "load_A v r = (case v of None \<Rightarrow> Done (Fault Bad_Packet_Read) | Some w \<Rightarrow> Cont 0 (r\<lparr>bA := w\<rparr>))"

definition ld_word :: "bytes \<Rightarrow> u32 \<Rightarrow> u32 \<Rightarrow> bpf_regs \<Rightarrow> bpf_out" where
  "ld_word p buflen k r =
     (if (scast k :: u64) + 4 > ucast buflen then Done (Ret 0)
      else load_A (extract_long p (sint k)) r)"

definition ld_half :: "bytes \<Rightarrow> u32 \<Rightarrow> u32 \<Rightarrow> bpf_regs \<Rightarrow> bpf_out" where
  "ld_half p buflen k r =
     (if (scast k :: u64) + 2 > ucast buflen then Done (Ret 0)
      else load_A (extract_short p (sint k)) r)"

definition ld_byte :: "bytes \<Rightarrow> u32 \<Rightarrow> u32 \<Rightarrow> bpf_regs \<Rightarrow> bpf_out" where
  "ld_byte p buflen k r =
     (if k \<ge> buflen then Done (Ret 0) else load_A (extract_byte p (sint k)) r)"

definition bpf_ret :: "bpf_insn \<Rightarrow> bpf_regs \<Rightarrow> bpf_out option" where
  "bpf_ret i r =
     (if insn_code i = BPF_RET OR BPF_K then Some (Done (Ret (insn_k i)))
      else if insn_code i = BPF_RET OR BPF_A then Some (Done (Ret (bA r)))
      else None)"

definition ldx_msh :: "bytes \<Rightarrow> u32 \<Rightarrow> u32 \<Rightarrow> bpf_regs \<Rightarrow> bpf_out" where
  "ldx_msh p buflen k r =
     (if k \<ge> buflen then Done (Ret 0)
      else case extract_byte p (uint k) of
             None \<Rightarrow> Done (Fault Bad_Packet_Read)
           | Some b \<Rightarrow> Cont 0 (r\<lparr>bX := push_bit 2 (b AND 0xf)\<rparr>))"

definition mem_load :: "u32 \<Rightarrow> bpf_regs \<Rightarrow> (u32 \<Rightarrow> bpf_regs) \<Rightarrow> bpf_out" where
  "mem_load k r upd =
     (if unat k < length (bM r) then Cont 0 (upd (bM r ! unat k)) else Done (Fault Bad_Scratch))"

definition mem_store :: "u32 \<Rightarrow> u32 \<Rightarrow> bpf_regs \<Rightarrow> bpf_out" where
  "mem_store k v r =
     (if unat k < length (bM r) then Cont 0 (r\<lparr>bM := (bM r)[unat k := v]\<rparr>)
      else Done (Fault Bad_Scratch))"

definition bpf_ld :: "bytes \<Rightarrow> u32 \<Rightarrow> u32 \<Rightarrow> bpf_insn \<Rightarrow> bpf_regs \<Rightarrow> bpf_out option" where
  "bpf_ld p wirelen buflen i r =
     (let c = insn_code i; k = insn_k i in
      if c = BPF_LD OR BPF_W OR BPF_ABS then Some (ld_word p buflen k r)
      else if c = BPF_LD OR BPF_H OR BPF_ABS then Some (ld_half p buflen k r)
      else if c = BPF_LD OR BPF_B OR BPF_ABS then Some (ld_byte p buflen k r)
      else if c = BPF_LD OR BPF_W OR BPF_LEN then Some (Cont 0 (r\<lparr>bA := wirelen\<rparr>))
      else if c = BPF_LDX OR BPF_W OR BPF_LEN then Some (Cont 0 (r\<lparr>bX := wirelen\<rparr>))
      else if c = BPF_LD OR BPF_W OR BPF_IND then Some (ld_word p buflen (bX r + k) r)
      else if c = BPF_LD OR BPF_H OR BPF_IND then Some (ld_half p buflen (bX r + k) r)
      else if c = BPF_LD OR BPF_B OR BPF_IND then Some (ld_byte p buflen (bX r + k) r)
      else if c = BPF_LDX OR BPF_MSH OR BPF_B then Some (ldx_msh p buflen k r)
      else if c = BPF_LD OR BPF_IMM then Some (Cont 0 (r\<lparr>bA := k\<rparr>))
      else if c = BPF_LDX OR BPF_IMM then Some (Cont 0 (r\<lparr>bX := k\<rparr>))
      else None)"

definition bpf_st :: "bpf_insn \<Rightarrow> bpf_regs \<Rightarrow> bpf_out option" where
  "bpf_st i r =
     (let c = insn_code i; k = insn_k i in
      if c = BPF_LD OR BPF_MEM then Some (mem_load k r (\<lambda>v. r\<lparr>bA := v\<rparr>))
      else if c = BPF_LDX OR BPF_MEM then Some (mem_load k r (\<lambda>v. r\<lparr>bX := v\<rparr>))
      else if c = BPF_ST then Some (mem_store k (bA r) r)
      else if c = BPF_STX then Some (mem_store k (bX r) r)
      else None)"

definition branch :: "bool \<Rightarrow> bpf_insn \<Rightarrow> bpf_regs \<Rightarrow> bpf_out option" where
  "branch b i r = Some (Cont (unat (if b then insn_jt i else insn_jf i)) r)"

definition bpf_jmp :: "bpf_insn \<Rightarrow> bpf_regs \<Rightarrow> bpf_out option" where
  "bpf_jmp i r =
     (let c = insn_code i; k = insn_k i; A = bA r; X = bX r in
      if c = BPF_JMP OR BPF_JA then Some (Cont (unat k) r)
      else if c = BPF_JMP OR BPF_JGT OR BPF_K then branch (A > k) i r
      else if c = BPF_JMP OR BPF_JGE OR BPF_K then branch (A \<ge> k) i r
      else if c = BPF_JMP OR BPF_JEQ OR BPF_K then branch (A = k) i r
      else if c = BPF_JMP OR BPF_JSET OR BPF_K then branch (A AND k \<noteq> 0) i r
      else if c = BPF_JMP OR BPF_JGT OR BPF_X then branch (A > X) i r
      else if c = BPF_JMP OR BPF_JGE OR BPF_X then branch (A \<ge> X) i r
      else if c = BPF_JMP OR BPF_JEQ OR BPF_X then branch (A = X) i r
      else if c = BPF_JMP OR BPF_JSET OR BPF_X then branch (A AND X \<noteq> 0) i r
      else None)"

definition setA :: "u32 \<Rightarrow> bpf_regs \<Rightarrow> bpf_out option" where
  "setA v r = Some (Cont 0 (r\<lparr>bA := v\<rparr>))"

definition shiftA :: "(nat \<Rightarrow> u32 \<Rightarrow> u32) \<Rightarrow> u32 \<Rightarrow> bpf_regs \<Rightarrow> bpf_out option" where
  "shiftA sh n r = (if n < 32 then setA (sh (unat n) (bA r)) r else Some (Done (Fault Bad_Shift)))"

definition bpf_alu :: "bpf_insn \<Rightarrow> bpf_regs \<Rightarrow> bpf_out option" where
  "bpf_alu i r =
     (let c = insn_code i; k = insn_k i; A = bA r; X = bX r in
      if c = BPF_ALU OR BPF_ADD OR BPF_X then setA (A + X) r
      else if c = BPF_ALU OR BPF_SUB OR BPF_X then setA (A - X) r
      else if c = BPF_ALU OR BPF_MUL OR BPF_X then setA (A * X) r
      else if c = BPF_ALU OR BPF_DIV OR BPF_X then
        (if X = 0 then Some (Done (Ret 0)) else setA (A div X) r)
      else if c = BPF_ALU OR BPF_AND OR BPF_X then setA (A AND X) r
      else if c = BPF_ALU OR BPF_OR OR BPF_X then setA (A OR X) r
      else if c = BPF_ALU OR BPF_LSH OR BPF_X then shiftA push_bit X r
      else if c = BPF_ALU OR BPF_RSH OR BPF_X then shiftA drop_bit X r
      else if c = BPF_ALU OR BPF_ADD OR BPF_K then setA (A + k) r
      else if c = BPF_ALU OR BPF_SUB OR BPF_K then setA (A - k) r
      else if c = BPF_ALU OR BPF_MUL OR BPF_K then setA (A * k) r
      else if c = BPF_ALU OR BPF_DIV OR BPF_K then
        (if k = 0 then Some (Done (Fault Div_Zero)) else setA (A div k) r)
      else if c = BPF_ALU OR BPF_AND OR BPF_K then setA (A AND k) r
      else if c = BPF_ALU OR BPF_OR OR BPF_K then setA (A OR k) r
      else if c = BPF_ALU OR BPF_LSH OR BPF_K then shiftA push_bit k r
      else if c = BPF_ALU OR BPF_RSH OR BPF_K then shiftA drop_bit k r
      else if c = BPF_ALU OR BPF_NEG then setA (- A) r
      else None)"

definition bpf_misc :: "bpf_insn \<Rightarrow> bpf_regs \<Rightarrow> bpf_out option" where
  "bpf_misc i r =
     (if insn_code i = BPF_MISC OR BPF_TAX then Some (Cont 0 (r\<lparr>bX := bA r\<rparr>))
      else if insn_code i = BPF_MISC OR BPF_TXA then Some (Cont 0 (r\<lparr>bA := bX r\<rparr>))
      else None)"

definition bpf_step :: "bytes \<Rightarrow> u32 \<Rightarrow> u32 \<Rightarrow> bpf_insn \<Rightarrow> bpf_regs \<Rightarrow> bpf_out" where
  "bpf_step p wirelen buflen i r =
     (case first_some (bpf_ret i r) (first_some (bpf_ld p wirelen buflen i r)
             (first_some (bpf_st i r) (first_some (bpf_jmp i r)
                (first_some (bpf_alu i r) (bpf_misc i r))))) of
        None \<Rightarrow> Done Aborted
      | Some out \<Rightarrow> out)"

text \<open>The loop: \<open>pc\<close> only grows, so it ends at the latest when it runs off the program.\<close>

function bpf_run :: "bytes \<Rightarrow> u32 \<Rightarrow> u32 \<Rightarrow> bpf_insn list \<Rightarrow> nat \<Rightarrow> bpf_regs \<Rightarrow> bpf_result" where
  "bpf_run p wirelen buflen prog pc r =
     (if pc < length prog then
        (case bpf_step p wirelen buflen (prog ! pc) r of
           Cont d r' \<Rightarrow> bpf_run p wirelen buflen prog (pc + d + 1) r'
         | Done res \<Rightarrow> res)
      else Fault Bad_Fetch)"
  by pat_completeness auto
termination
  by (relation "measure (\<lambda>(p, wirelen, buflen, prog, pc, r). length prog - pc)") auto

declare bpf_run.simps [simp del]

definition bpf_filter ::
    "u32 list \<Rightarrow> bpf_insn list option \<Rightarrow> bytes \<Rightarrow> u32 \<Rightarrow> u32 \<Rightarrow> bpf_result" where
  "bpf_filter mem0 pc p wirelen buflen =
     (case pc of
        None \<Rightarrow> Ret (- 1)
      | Some prog \<Rightarrow> bpf_run p wirelen buflen prog 0 \<lparr>bA = 0, bX = 0, bM = mem0\<rparr>)"

section \<open>Validation\<close>

text \<open>One round of the loop of \<open>bpf_validate\<close>; \<open>i\<close> and \<open>from\<close> are \<open>u_int\<close>, so the sums wrap.\<close>

definition validate_insn :: "u32 \<Rightarrow> u32 \<Rightarrow> bpf_insn \<Rightarrow> bool" where
  "validate_insn len i p =
     (let c = insn_code p; cl = BPF_CLASS c; k = insn_k p in
      if cl = BPF_LD \<or> cl = BPF_LDX then
        (let m = BPF_MODE c in
         if m = BPF_IMM then True
         else if m = BPF_ABS \<or> m = BPF_IND \<or> m = BPF_MSH then True
         else if m = BPF_MEM then \<not> k \<ge> of_nat BPF_MEMWORDS
         else if m = BPF_LEN then True
         else False)
      else if cl = BPF_ST \<or> cl = BPF_STX then \<not> k \<ge> of_nat BPF_MEMWORDS
      else if cl = BPF_ALU then
        (let opc = BPF_OP c in
         if opc = BPF_ADD \<or> opc = BPF_SUB \<or> opc = BPF_MUL \<or> opc = BPF_OR \<or> opc = BPF_AND
            \<or> opc = BPF_LSH \<or> opc = BPF_RSH \<or> opc = BPF_NEG then True
         else if opc = BPF_DIV then \<not> (BPF_RVAL c = BPF_K \<and> k = 0)
         else False)
      else if cl = BPF_JMP then
        (let from = i + 1; opc = BPF_OP c in
         if opc = BPF_JA then \<not> from + k \<ge> len
         else if opc = BPF_JEQ \<or> opc = BPF_JGT \<or> opc = BPF_JGE \<or> opc = BPF_JSET then
           \<not> (from + ucast (insn_jt p) \<ge> len \<or> from + ucast (insn_jf p) \<ge> len)
         else False)
      else if cl = BPF_RET then True
      else if cl = BPF_MISC then True
      else False)"

primrec validate_loop :: "u32 \<Rightarrow> u32 \<Rightarrow> bpf_insn list \<Rightarrow> bool" where
  "validate_loop len i [] = True"
| "validate_loop len i (p # ps) =
     (if validate_insn len i p then validate_loop len (i + 1) ps else False)"

definition bpf_validate :: "bpf_insn list \<Rightarrow> bool" where
  "bpf_validate f =
     (if length f < 1 then False
      else if validate_loop (of_nat (length f)) 0 f
      then BPF_CLASS (insn_code (f ! (length f - 1))) = BPF_RET
      else False)"


section \<open>What validation gives\<close>

lemma validate_loop_nth:
  "validate_loop len i ps \<Longrightarrow> j < length ps \<Longrightarrow> validate_insn len (i + of_nat j) (ps ! j)"
proof (induction ps arbitrary: i j)
  case (Cons p ps)
  show ?case
  proof (cases j)
    case (Suc l)
    with Cons.prems Cons.IH [of "i + 1" l] show ?thesis
      by (simp add: algebra_simps split: if_splits)
  qed (use Cons.prems in \<open>simp split: if_splits\<close>)
qed simp

lemma bpf_validate_nth:
  assumes "bpf_validate f" and "j < length f"
  shows "validate_insn (of_nat (length f)) (of_nat j) (f ! j)"
  using assms validate_loop_nth [of "of_nat (length f)" 0 f j]
  by (auto simp: bpf_validate_def split: if_splits)

lemma bpf_validate_last:
  "bpf_validate f \<Longrightarrow> f \<noteq> [] \<and> BPF_CLASS (insn_code (f ! (length f - 1))) = BPF_RET"
  by (auto simp: bpf_validate_def split: if_splits)

lemmas bpf_fields = BPF_CLASS_def BPF_MODE_def BPF_OP_def BPF_RVAL_def BPF_MEMWORDS_def

text \<open>A jump's target, computed with 32-bit wrap-around, as a natural number.\<close>

lemma target_unat:
  fixes k :: u32
  assumes "\<not> of_nat pc + 1 + k \<ge> of_nat n" and "n < 2 ^ 31" and "pc + 1 + unat k < 2 ^ 32"
  shows "pc + unat k + 1 < n"
proof -
  have "unat (of_nat pc + 1 + k) = pc + 1 + unat k"
  proof -
    have "of_nat pc + 1 + k = (of_nat (pc + 1 + unat k) :: u32)" by simp
    then show ?thesis using assms(3) by (simp only: unat_of_nat) simp
  qed
  moreover have "unat (of_nat n :: u32) = n" using assms(2) by (simp add: unat_of_nat)
  ultimately show ?thesis using assms(1) by (simp add: word_le_nat_alt)
qed

lemma target_unat_byte:
  fixes j :: u8
  assumes "\<not> of_nat pc + 1 + (ucast j :: u32) \<ge> of_nat n" and "n < 2 ^ 31" and "pc < n"
  shows "pc + unat j + 1 < n"
proof -
  have "unat (ucast j :: u32) = unat j"
    by (simp add: unsigned_ucast_eq take_bit_nat_eq_self less_trans [OF unat_u8_bound])
  then show ?thesis
    using target_unat [of n pc "ucast j"] assms unat_u8_bound [of j] by simp
qed

lemma scratch_index: "\<not> k \<ge> (16 :: u32) \<Longrightarrow> unat k < 16"
  by (simp add: word_le_nat_alt)

text \<open>
  What the checker leaves open (see the last section): an unconditional jump whose 32-bit
  target wraps, and a division by the constant zero.
\<close>

definition static_ok :: "nat \<Rightarrow> bpf_insn \<Rightarrow> bool" where
  "static_ok pc i =
     ((insn_code i = BPF_JMP OR BPF_JA \<longrightarrow> pc + 1 + unat (insn_k i) < 2 ^ 32) \<and>
      (insn_code i = BPF_ALU OR BPF_DIV OR BPF_K \<longrightarrow> insn_k i \<noteq> 0))"

definition bpf_static_ok :: "bpf_insn list \<Rightarrow> bool" where
  "bpf_static_ok f = list_all (\<lambda>(pc, i). static_ok pc i) (enumerate 0 f)"

lemma bpf_static_ok_nth: "bpf_static_ok f \<Longrightarrow> pc < length f \<Longrightarrow> static_ok pc (f ! pc)"
  by (fastforce simp: bpf_static_ok_def list_all_iff in_set_enumerate_eq)

section \<open>One instruction\<close>

lemma bpf_ret_Done: "bpf_ret i r = Some out \<Longrightarrow> \<exists>v. out = Done (Ret v)"
  by (auto simp: bpf_ret_def split: if_splits)

lemma bpf_ret_class: "bpf_ret i r = Some out \<Longrightarrow> BPF_CLASS (insn_code i) = BPF_RET"
  by (auto simp: bpf_ret_def bpf_fields split: if_splits)

definition quiet :: "bpf_regs \<Rightarrow> bpf_out \<Rightarrow> bool" where
  \<comment> \<open>falls through to the next instruction with the scratch memory's size kept, or stops
      without a fault that validation excludes\<close>
  "quiet r out =
     (case out of
        Cont d r' \<Rightarrow> d = 0 \<and> length (bM r') = length (bM r)
      | Done (Fault f) \<Rightarrow> f = Bad_Packet_Read \<or> f = Bad_Shift
      | Done _ \<Rightarrow> True)"

lemma quiet_simps [simp]:
  "quiet r (Cont d r') \<longleftrightarrow> d = 0 \<and> length (bM r') = length (bM r)"
  "quiet r (Done (Fault f)) \<longleftrightarrow> f = Bad_Packet_Read \<or> f = Bad_Shift"
  "quiet r (Done (Ret v))"
  "quiet r (Done Aborted)"
  by (simp_all add: quiet_def)

lemma quiet_load_A [simp]: "quiet r (load_A v r)"
  by (simp add: load_A_def split: option.split)

lemma quiet_loads [simp]:
  "quiet r (ld_word p b k r)" "quiet r (ld_half p b k r)" "quiet r (ld_byte p b k r)"
  "quiet r (ldx_msh p b k r)"
  by (simp_all add: ld_word_def ld_half_def ld_byte_def ldx_msh_def split: option.split)

lemma bpf_ld_quiet: "bpf_ld p w b i r = Some out \<Longrightarrow> quiet r out"
  by (auto simp: bpf_ld_def Let_def split: if_splits)

lemma bpf_ld_class:
  "bpf_ld p w b i r = Some out \<Longrightarrow>
     BPF_CLASS (insn_code i) = BPF_LD \<or> BPF_CLASS (insn_code i) = BPF_LDX"
  by (auto simp: bpf_ld_def bpf_fields Let_def split: if_splits)

lemma bpf_st_quiet:
  assumes "bpf_st i r = Some out" and "validate_insn len j i" and "length (bM r) = BPF_MEMWORDS"
  shows "quiet r out"
  using assms
  by (auto simp: bpf_st_def validate_insn_def bpf_fields mem_load_def mem_store_def Let_def
           split: if_splits dest: scratch_index)

lemma bpf_misc_quiet: "bpf_misc i r = Some out \<Longrightarrow> quiet r out"
  by (auto simp: bpf_misc_def split: if_splits)

lemma bpf_alu_quiet:
  "bpf_alu i r = Some out \<Longrightarrow> static_ok pc i \<Longrightarrow> quiet r out"
  by (auto simp: bpf_alu_def static_ok_def setA_def shiftA_def Let_def split: if_splits)

text \<open>A jump stays inside the program.\<close>

lemma bpf_jmp_target:
  assumes "bpf_jmp i r = Some out" and "validate_insn (of_nat n) (of_nat pc) i"
    and "static_ok pc i" and "n < 2 ^ 31" and "pc < n"
  shows "\<exists>d. out = Cont d r \<and> pc + d + 1 < n"
  using assms
  by (auto simp: bpf_jmp_def validate_insn_def bpf_fields branch_def static_ok_def Let_def
           split: if_splits intro: target_unat [simplified] target_unat_byte [simplified])

lemma bpf_jmp_class: "bpf_jmp i r = Some out \<Longrightarrow> BPF_CLASS (insn_code i) = BPF_JMP"
  by (auto simp: bpf_jmp_def bpf_fields Let_def split: if_splits)

lemma bpf_alu_class: "bpf_alu i r = Some out \<Longrightarrow> BPF_CLASS (insn_code i) = BPF_ALU"
  by (auto simp: bpf_alu_def bpf_fields Let_def split: if_splits)

lemma bpf_st_class:
  "bpf_st i r = Some out \<Longrightarrow>
     BPF_CLASS (insn_code i) \<in> {BPF_LD, BPF_LDX, BPF_ST, BPF_STX}"
  by (auto simp: bpf_st_def bpf_fields Let_def split: if_splits)

lemma bpf_misc_class: "bpf_misc i r = Some out \<Longrightarrow> BPF_CLASS (insn_code i) = BPF_MISC"
  by (auto simp: bpf_misc_def bpf_fields split: if_splits)

text \<open>
  The step lemma: in a validated program, an instruction either stops without a fault that
  validation excludes, or goes on inside the program with \<open>mem\<close> of its size.
\<close>

definition safe_out :: "nat \<Rightarrow> nat \<Rightarrow> bpf_out \<Rightarrow> bool" where
  "safe_out n pc out =
     (case out of
        Cont d r' \<Rightarrow> pc + d + 1 < n \<and> length (bM r') = BPF_MEMWORDS
      | Done (Fault f) \<Rightarrow> f = Bad_Packet_Read \<or> f = Bad_Shift
      | Done _ \<Rightarrow> True)"

lemma quiet_safe_out:
  "quiet r out \<Longrightarrow> length (bM r) = BPF_MEMWORDS \<Longrightarrow> pc + 1 < n \<Longrightarrow> safe_out n pc out"
  by (auto simp: quiet_def safe_out_def split: bpf_out.splits bpf_result.splits)

lemma bpf_step_safe:
  assumes f: "bpf_validate f" "bpf_static_ok f" "length f < 2 ^ 31"
    and pc: "pc < length f" and mem: "length (bM r) = BPF_MEMWORDS"
  shows "safe_out (length f) pc (bpf_step p w b (f ! pc) r)"
proof -
  let ?i = "f ! pc"
  note v = bpf_validate_nth [OF f(1) pc] and s = bpf_static_ok_nth [OF f(2) pc]
  note last = bpf_validate_last [OF f(1)]
  have next_pc: "pc + 1 < length f" if "BPF_CLASS (insn_code ?i) \<noteq> BPF_RET"
    using that last pc by (cases "pc = length f - 1") auto
  have groups: "bpf_step p w b ?i r = Done Aborted \<or>
      (\<exists>out. bpf_step p w b ?i r = out \<and>
        (bpf_ret ?i r = Some out \<or> bpf_ld p w b ?i r = Some out \<or> bpf_st ?i r = Some out \<or>
         bpf_jmp ?i r = Some out \<or> bpf_alu ?i r = Some out \<or> bpf_misc ?i r = Some out))"
    by (auto simp: bpf_step_def first_some_Some split: option.split)
  have "safe_out (length f) pc out" if "bpf_ret ?i r = Some out" for out
    using bpf_ret_Done [OF that] by (auto simp: safe_out_def)
  moreover have "safe_out (length f) pc out" if "bpf_ld p w b ?i r = Some out" for out
    using bpf_ld_quiet [OF that] bpf_ld_class [OF that] next_pc mem by (auto intro: quiet_safe_out)
  moreover have "safe_out (length f) pc out" if "bpf_st ?i r = Some out" for out
    using bpf_st_quiet [OF that v mem] bpf_st_class [OF that] next_pc mem
    by (auto intro: quiet_safe_out)
  moreover have "safe_out (length f) pc out" if "bpf_jmp ?i r = Some out" for out
    using bpf_jmp_target [OF that v s f(3) pc] mem by (auto simp: safe_out_def)
  moreover have "safe_out (length f) pc out" if "bpf_alu ?i r = Some out" for out
    using bpf_alu_quiet [OF that s] bpf_alu_class [OF that] next_pc mem
    by (auto intro: quiet_safe_out)
  moreover have "safe_out (length f) pc out" if "bpf_misc ?i r = Some out" for out
    using bpf_misc_quiet [OF that] bpf_misc_class [OF that] next_pc mem
    by (auto intro: quiet_safe_out)
  ultimately show ?thesis using groups by (auto simp: safe_out_def)
qed

section \<open>Whole programs\<close>

definition safe_result :: "bpf_result \<Rightarrow> bool" where
  "safe_result res = (res \<noteq> Fault Bad_Fetch \<and> res \<noteq> Fault Bad_Scratch \<and> res \<noteq> Fault Div_Zero)"

lemma bpf_run_safe:
  "bpf_validate f \<Longrightarrow> bpf_static_ok f \<Longrightarrow> length f < 2 ^ 31 \<Longrightarrow>
    pc < length f \<Longrightarrow> length (bM r) = BPF_MEMWORDS \<Longrightarrow> safe_result (bpf_run p w b f pc r)"
proof (induction p w b f pc r rule: bpf_run.induct)
  case (1 p w b f pc r)
  note safe = bpf_step_safe [OF "1.prems", of p w b]
  show ?case
  proof (cases "bpf_step p w b (f ! pc) r")
    case (Cont d r')
    then show ?thesis
      using safe "1.IH" [OF "1.prems"(4) Cont] "1.prems"
      by (simp add: bpf_run.simps [of p w b f pc r] safe_out_def)
  next
    case (Done res)
    then show ?thesis
      using safe "1.prems"
      by (cases res) (auto simp: bpf_run.simps [of p w b f pc r] safe_out_def safe_result_def)
  qed
qed


text \<open>The opcodes the \<open>switch\<close> of \<open>bpf_filter\<close> has a case for; on any other it aborts.\<close>

definition bpf_opcodes :: "u16 list" where
  "bpf_opcodes =
     [BPF_RET OR BPF_K, BPF_RET OR BPF_A,
      BPF_LD OR BPF_W OR BPF_ABS, BPF_LD OR BPF_H OR BPF_ABS, BPF_LD OR BPF_B OR BPF_ABS,
      BPF_LD OR BPF_W OR BPF_LEN, BPF_LDX OR BPF_W OR BPF_LEN,
      BPF_LD OR BPF_W OR BPF_IND, BPF_LD OR BPF_H OR BPF_IND, BPF_LD OR BPF_B OR BPF_IND,
      BPF_LDX OR BPF_MSH OR BPF_B, BPF_LD OR BPF_IMM, BPF_LDX OR BPF_IMM,
      BPF_LD OR BPF_MEM, BPF_LDX OR BPF_MEM, BPF_ST, BPF_STX,
      BPF_JMP OR BPF_JA,
      BPF_JMP OR BPF_JGT OR BPF_K, BPF_JMP OR BPF_JGE OR BPF_K,
      BPF_JMP OR BPF_JEQ OR BPF_K, BPF_JMP OR BPF_JSET OR BPF_K,
      BPF_JMP OR BPF_JGT OR BPF_X, BPF_JMP OR BPF_JGE OR BPF_X,
      BPF_JMP OR BPF_JEQ OR BPF_X, BPF_JMP OR BPF_JSET OR BPF_X,
      BPF_ALU OR BPF_ADD OR BPF_X, BPF_ALU OR BPF_SUB OR BPF_X, BPF_ALU OR BPF_MUL OR BPF_X,
      BPF_ALU OR BPF_DIV OR BPF_X, BPF_ALU OR BPF_AND OR BPF_X, BPF_ALU OR BPF_OR OR BPF_X,
      BPF_ALU OR BPF_LSH OR BPF_X, BPF_ALU OR BPF_RSH OR BPF_X,
      BPF_ALU OR BPF_ADD OR BPF_K, BPF_ALU OR BPF_SUB OR BPF_K, BPF_ALU OR BPF_MUL OR BPF_K,
      BPF_ALU OR BPF_DIV OR BPF_K, BPF_ALU OR BPF_AND OR BPF_K, BPF_ALU OR BPF_OR OR BPF_K,
      BPF_ALU OR BPF_LSH OR BPF_K, BPF_ALU OR BPF_RSH OR BPF_K, BPF_ALU OR BPF_NEG,
      BPF_MISC OR BPF_TAX, BPF_MISC OR BPF_TXA]"

lemma no_abort_groups:
  "bpf_ret i r \<noteq> Some (Done Aborted)" "bpf_ld p w b i r \<noteq> Some (Done Aborted)"
  "bpf_st i r \<noteq> Some (Done Aborted)" "bpf_jmp i r \<noteq> Some (Done Aborted)"
  "bpf_alu i r \<noteq> Some (Done Aborted)" "bpf_misc i r \<noteq> Some (Done Aborted)"
  by (simp_all add: bpf_ret_def bpf_ld_def bpf_st_def bpf_jmp_def bpf_alu_def bpf_misc_def Let_def
      branch_def setA_def shiftA_def mem_load_def mem_store_def load_A_def
      ld_word_def ld_half_def ld_byte_def ldx_msh_def split: option.split)

lemma groups_None_opcode:
  assumes "bpf_ret i r = None" "bpf_ld p w b i r = None" "bpf_st i r = None"
    "bpf_jmp i r = None" "bpf_alu i r = None" "bpf_misc i r = None"
  shows "insn_code i \<notin> set bpf_opcodes"
  using assms
  by (simp add: bpf_opcodes_def bpf_ret_def bpf_ld_def bpf_st_def bpf_jmp_def bpf_alu_def
      bpf_misc_def Let_def branch_def setA_def shiftA_def split: if_splits)

lemma bpf_step_Aborted: "bpf_step p w b i r = Done Aborted \<Longrightarrow> insn_code i \<notin> set bpf_opcodes"
  using groups_None_opcode [of i r p w b]
  by (auto simp: bpf_step_def first_some_Some no_abort_groups split: option.splits)

lemma bpf_run_Aborted:
  "bpf_run p w b f pc r = Aborted \<Longrightarrow> \<exists>i \<in> set f. insn_code i \<notin> set bpf_opcodes"
proof (induction p w b f pc r rule: bpf_run.induct)
  case (1 p w b f pc r)
  note unfold = bpf_run.simps [of p w b f pc r]
  show ?case
  proof (cases "pc < length f")
    case True
    show ?thesis
    proof (cases "bpf_step p w b (f ! pc) r")
      case (Cont d r')
      with "1.IH" [OF True Cont] "1.prems" True show ?thesis by (simp add: unfold)
    next
      case (Done res)
      with "1.prems" True have "bpf_step p w b (f ! pc) r = Done Aborted" by (simp add: unfold)
      then have "insn_code (f ! pc) \<notin> set bpf_opcodes" by (rule bpf_step_Aborted)
      with True show ?thesis by (auto intro: nth_in_range)
    qed
  qed (use "1.prems" in \<open>simp add: unfold\<close>)
qed

section \<open>Packet reads\<close>

lemma sint_u32_range: "- 2147483648 \<le> sint (k :: u32)" "sint (k :: u32) < 2147483648"
  using sint_ge [of k] sint_lt [of k] by simp_all

lemma uint_scast_u64:
  "uint (scast (k :: u32) :: u64) = (if 0 \<le> sint k then sint k else sint k + 2 ^ 64)"
proof -
  have "uint (scast k :: u64) = sint k mod 2 ^ 64"
    unfolding scast_eq by (subst uint_word_of_int) simp
  moreover have "sint k mod 2 ^ 64 = sint k" if "0 \<le> sint k"
    using that sint_u32_range [of k] by (intro mod_pos_pos_trivial) simp_all
  moreover have "sint k mod 2 ^ 64 = sint k + 2 ^ 64" if "sint k < 0"
  proof -
    have "sint k mod 2 ^ 64 = (sint k + 2 ^ 64) mod 2 ^ 64" by simp
    also have "\<dots> = sint k + 2 ^ 64"
      using that sint_u32_range [of k] by (intro mod_pos_pos_trivial) simp_all
    finally show ?thesis .
  qed
  ultimately show ?thesis by auto
qed

text \<open>The run-time check of a word or half-word load, read as integers.\<close>

lemma size_check:
  fixes k buflen :: u32 and n :: u64
  assumes "n < 16"
  shows "((scast k :: u64) + n > ucast buflen) =
    (if 0 \<le> sint k \<or> - uint n \<le> sint k then sint k + uint n > uint buflen else True)"
proof -
  have n: "0 \<le> uint n" "uint n < 16" using assms by (simp_all add: word_less_def)
  have b: "uint (ucast buflen :: u64) = uint buflen" "uint buflen < 4294967296"
    using uint_lt2p [of buflen] by (simp_all add: unsigned_ucast_eq take_bit_int_eq_self)
  have "uint ((scast k :: u64) + n) = (uint (scast k :: u64) + uint n) mod 2 ^ 64"
    by (simp add: uint_word_ariths)
  also have "(uint (scast k :: u64) + uint n) mod 2 ^ 64 = (sint k + uint n) mod 2 ^ 64"
    using mod_add_self2 [of "sint k + uint n" "2 ^ 64"]
    by (simp add: uint_scast_u64 algebra_simps)
  also have "\<dots> = (if 0 \<le> sint k \<or> - uint n \<le> sint k then sint k + uint n
                  else sint k + uint n + 2 ^ 64)"
  proof (cases "0 \<le> sint k + uint n")
    case True
    then show ?thesis using n sint_u32_range [of k] by (subst mod_pos_pos_trivial) auto
  next
    case False
    have "(sint k + uint n) mod 2 ^ 64 = (sint k + uint n + 2 ^ 64) mod 2 ^ 64" by simp
    also have "\<dots> = sint k + uint n + 2 ^ 64"
    proof (rule mod_pos_pos_trivial)
      have "0 \<le> sint k + uint n + 18446744073709551616"
        using n sint_u32_range [of k] by linarith
      then show "0 \<le> sint k + uint n + 2 ^ 64" by simp
    qed (use False in simp)
    finally show ?thesis using False n by auto
  qed
  finally have "uint ((scast k :: u64) + n) =
      (if 0 \<le> sint k \<or> - uint n \<le> sint k then sint k + uint n
       else sint k + uint n + 18446744073709551616)" by simp
  moreover have "uint buflen < sint k + uint n + 18446744073709551616"
    using n(1) b(2) sint_u32_range [of k] by linarith
  ultimately show ?thesis using b(1) by (auto simp: word_less_def)
qed


lemma ld_word_exact:
  assumes "unat buflen = length p"
  shows "ld_word p buflen k r =
     (if sint k + 4 \<le> int (length p) \<and> 0 \<le> sint k
      then load_A (extract_long p (sint k)) r
      else if sint k + 4 \<le> int (length p) \<and> - 4 \<le> sint k then Done (Fault Bad_Packet_Read)
      else Done (Ret 0))"
proof -
  have "uint buflen = int (length p)" using assms by (simp add: uint_nat)
  then show ?thesis
    using size_check [of 4 buflen k]
    by (auto simp: ld_word_def load_A_def extract_long_def)
qed

lemma ld_half_exact:
  assumes "unat buflen = length p"
  shows "ld_half p buflen k r =
     (if sint k + 2 \<le> int (length p) \<and> 0 \<le> sint k
      then load_A (extract_short p (sint k)) r
      else if sint k + 2 \<le> int (length p) \<and> - 2 \<le> sint k then Done (Fault Bad_Packet_Read)
      else Done (Ret 0))"
proof -
  have "uint buflen = int (length p)" using assms by (simp add: uint_nat)
  then show ?thesis
    using size_check [of 2 buflen k]
    by (auto simp: ld_half_def load_A_def extract_short_def)
qed

lemma extract_in_range [simp]:
  "0 \<le> i \<Longrightarrow> i + 4 \<le> int (length p) \<Longrightarrow> extract_long p i \<noteq> None"
  "0 \<le> i \<Longrightarrow> i + 2 \<le> int (length p) \<Longrightarrow> extract_short p i \<noteq> None"
  by (auto simp: extract_long_def extract_short_def)

lemma load_A_fault [simp]: "load_A v r = Done (Fault Bad_Packet_Read) \<longleftrightarrow> v = None"
  by (simp add: load_A_def split: option.split)

text \<open>
  C1.  A program that \<open>bpf_validate\<close> accepts, whose unconditional jumps do not wrap at 32
  bits and whose constant divisors are not zero, runs on any packet without fetching an
  instruction outside the program, without touching the scratch memory outside its 16
  words and without dividing by zero; it aborts only if one of its opcodes is not
  implemented by the interpreter.
\<close>

theorem bpf_filter_safe:
  assumes "bpf_validate f" and "bpf_static_ok f" and "length f < 2 ^ 31"
    and "length mem0 = BPF_MEMWORDS"
  shows "safe_result (bpf_filter mem0 (Some f) p wirelen buflen) \<and>
    (bpf_filter mem0 (Some f) p wirelen buflen = Aborted \<longrightarrow>
       (\<exists>i \<in> set f. insn_code i \<notin> set bpf_opcodes))"
  using bpf_validate_last [OF assms(1)] assms
  by (auto simp: bpf_filter_def intro!: bpf_run_safe dest: bpf_run_Aborted)

definition ip_filter :: "bpf_insn list" where
  \<comment> \<open>what \<open>sfbpf_compile\<close> gives for \<open>ip\<close> on Ethernet\<close>
  "ip_filter =
     [\<lparr>insn_code = BPF_LD OR BPF_H OR BPF_ABS, insn_jt = 0, insn_jf = 0, insn_k = 12\<rparr>,
      \<lparr>insn_code = BPF_JMP OR BPF_JEQ OR BPF_K, insn_jt = 0, insn_jf = 1, insn_k = 0x800\<rparr>,
      \<lparr>insn_code = BPF_RET OR BPF_K, insn_jt = 0, insn_jf = 0, insn_k = 96\<rparr>,
      \<lparr>insn_code = BPF_RET OR BPF_K, insn_jt = 0, insn_jf = 0, insn_k = 0\<rparr>]"

lemma ip_filter_valid: "bpf_validate ip_filter" "bpf_static_ok ip_filter"
  by (simp_all add: ip_filter_def bpf_validate_def validate_insn_def bpf_fields
      bpf_static_ok_def static_ok_def)

theorem bpf_filter_safe_witness:
  "safe_result (bpf_filter (replicate 16 0) (Some ip_filter) [] 0 0)"
  using bpf_filter_safe [OF ip_filter_valid, of "replicate 16 0" "[]" 0 0]
  by (simp add: ip_filter_def BPF_MEMWORDS_def)

text \<open>
  C17.  The run-time length check of word and half-word loads: with \<open>buflen\<close> the number of
  bytes of the packet, a load at a non-negative offset reads inside the packet or rejects;
  the load reads outside the packet exactly when the offset, as an \<open>int\<close>, is one of the
  last four (two) negative values, where the 64-bit sum \<open>k + sizeof\<close> wraps around.
\<close>

theorem bpf_load_out_of_bounds_iff:
  assumes "unat buflen = length p"
  shows "(ld_word p buflen k r = Done (Fault Bad_Packet_Read) \<longleftrightarrow>
            - 4 \<le> sint k \<and> sint k < 0 \<and> sint k + 4 \<le> int (length p)) \<and>
         (ld_half p buflen k r = Done (Fault Bad_Packet_Read) \<longleftrightarrow>
            - 2 \<le> sint k \<and> sint k < 0 \<and> sint k + 2 \<le> int (length p))"
  by (auto simp: ld_word_exact [OF assms] ld_half_exact [OF assms])

theorem bpf_load_out_of_bounds_iff_witness:
  "ld_word [0, 0, 0, 0] 4 (- 1) \<lparr>bA = 0, bX = 0, bM = []\<rparr> = Done (Fault Bad_Packet_Read)"
  using bpf_load_out_of_bounds_iff [of 4 "[0, 0, 0, 0]" "- 1" "\<lparr>bA = 0, bX = 0, bM = []\<rparr>"] by simp

text \<open>
  Four accepted programs that the interpreter does not survive: the check against
  division by a constant zero looks at \<open>BPF_RVAL\<close>, whose mask meets the opcode bits of
  \<open>BPF_DIV\<close>, so it never fires; an unconditional jump whose 32-bit target wraps leaves the
  program; a word load at offset -1 reads before the packet; \<open>BPF_RET | BPF_X\<close> aborts.
\<close>

lemma bpf_validate_gaps:
  "bpf_validate [\<lparr>insn_code = BPF_ALU OR BPF_DIV OR BPF_K, insn_jt = 0, insn_jf = 0, insn_k = 0\<rparr>,
                 \<lparr>insn_code = BPF_RET OR BPF_A, insn_jt = 0, insn_jf = 0, insn_k = 0\<rparr>] \<and>
   bpf_filter m (Some
                [\<lparr>insn_code = BPF_ALU OR BPF_DIV OR BPF_K, insn_jt = 0, insn_jf = 0, insn_k = 0\<rparr>,
                 \<lparr>insn_code = BPF_RET OR BPF_A, insn_jt = 0, insn_jf = 0, insn_k = 0\<rparr>]) p w b
     = Fault Div_Zero \<and>
   bpf_validate [\<lparr>insn_code = BPF_JMP OR BPF_JA, insn_jt = 0, insn_jf = 0, insn_k = 0xffffffff\<rparr>,
                 \<lparr>insn_code = BPF_RET OR BPF_A, insn_jt = 0, insn_jf = 0, insn_k = 0\<rparr>] \<and>
   bpf_filter m (Some
                [\<lparr>insn_code = BPF_JMP OR BPF_JA, insn_jt = 0, insn_jf = 0, insn_k = 0xffffffff\<rparr>,
                 \<lparr>insn_code = BPF_RET OR BPF_A, insn_jt = 0, insn_jf = 0, insn_k = 0\<rparr>]) p w b
     = Fault Bad_Fetch \<and>
   bpf_validate [\<lparr>insn_code = BPF_LD OR BPF_W OR BPF_ABS, insn_jt = 0, insn_jf = 0,
                   insn_k = 0xffffffff\<rparr>,
                 \<lparr>insn_code = BPF_RET OR BPF_A, insn_jt = 0, insn_jf = 0, insn_k = 0\<rparr>] \<and>
   bpf_filter m (Some
                [\<lparr>insn_code = BPF_LD OR BPF_W OR BPF_ABS, insn_jt = 0, insn_jf = 0,
                   insn_k = 0xffffffff\<rparr>,
                 \<lparr>insn_code = BPF_RET OR BPF_A, insn_jt = 0, insn_jf = 0, insn_k = 0\<rparr>])
              [1, 2, 3, 4] w 4
     = Fault Bad_Packet_Read \<and>
   bpf_validate [\<lparr>insn_code = BPF_RET OR BPF_X, insn_jt = 0, insn_jf = 0, insn_k = 0\<rparr>] \<and>
   bpf_filter m (Some [\<lparr>insn_code = BPF_RET OR BPF_X, insn_jt = 0, insn_jf = 0, insn_k = 0\<rparr>]) p w b
     = Aborted"
  by (simp add: bpf_validate_def validate_insn_def bpf_fields bpf_filter_def bpf_run.simps
      bpf_step_def bpf_ret_def bpf_ld_def bpf_st_def bpf_jmp_def bpf_alu_def bpf_misc_def
      ld_word_def load_A_def extract_long_def)

end
