(* ===== verification/MemCap.thy ===== *)
theory MemCap
  imports Prelude
begin

text \<open>
  The capped allocator \<open>sfutil/sfmemcap.c\<close>.  A block is its size word: \<open>sfmemcap_alloc\<close>
  answers the size it stored in front of the block, \<open>sfmemcap_free\<close> takes it back.  Whether
  \<open>calloc\<close> returns memory is the argument \<open>os\<close> (a function of the requested size).
\<close>

record memcap =
  mc_used :: u64
  mc_cap :: u64
  mc_nblocks :: u32

definition sfmemcap_init :: "u64 \<Rightarrow> memcap" where
  "sfmemcap_init nbytes = \<lparr>mc_used = 0, mc_cap = nbytes, mc_nblocks = 0\<rparr>"

definition sfmemcap_alloc :: "(u64 \<Rightarrow> bool) \<Rightarrow> memcap \<Rightarrow> u64 \<Rightarrow> u64 option \<times> memcap" where
  "sfmemcap_alloc os mc nbytes =
     (let n = nbytes + 8 in
      if mc_cap mc > 0 \<and> mc_used mc + n > mc_cap mc then (None, mc)
      else if \<not> os n then (None, mc)
      else (Some n, mc\<lparr>mc_used := mc_used mc + n, mc_nblocks := mc_nblocks mc + 1\<rparr>))"

definition sfmemcap_free :: "memcap \<Rightarrow> u64 \<Rightarrow> memcap" where
  "sfmemcap_free mc q =
     mc\<lparr>mc_used := mc_used mc - ucast (ucast q :: u32), mc_nblocks := mc_nblocks mc - 1\<rparr>"

definition memcap_ok :: "memcap \<Rightarrow> bool" where
  "memcap_ok mc \<longleftrightarrow> (mc_cap mc > 0 \<longrightarrow> mc_used mc \<le> mc_cap mc)"

lemma memcap_ok_init: "memcap_ok (sfmemcap_init n)"
  by (simp add: memcap_ok_def sfmemcap_init_def)

lemma memcap_ok_alloc: "memcap_ok mc \<Longrightarrow> memcap_ok (snd (sfmemcap_alloc os mc n))"
  by (auto simp: memcap_ok_def sfmemcap_alloc_def Let_def)

lemma sfmemcap_alloc_fields:
  "sfmemcap_alloc os mc n = (r, mc') \<Longrightarrow>
     mc_cap mc' = mc_cap mc \<and> (r = None \<longrightarrow> mc' = mc) \<and> (r \<noteq> None \<longrightarrow> r = Some (n + 8))"
  by (auto simp: sfmemcap_alloc_def Let_def split: if_splits)

lemma ucast_u32_small:
  assumes "(q :: u64) < 2 ^ 32"
  shows "ucast (ucast q :: u32) = q"
proof -
  have q: "unat q < 4294967296" using assms by (simp add: word_less_nat_alt)
  have "unat (ucast (ucast q :: u32) :: u64) = take_bit 64 (take_bit 32 (unat q))"
    by (simp only: unsigned_ucast_eq len_num1 len_bit0 len_bit1) (simp add: unsigned_take_bit_eq)
  also have "\<dots> = unat q" using q by (simp add: take_bit_nat_eq_self)
  finally show ?thesis by (simp add: word_unat_eq_iff)
qed

text \<open>Freeing what was allocated gives the bytes and the block back, for blocks under 4 GB.\<close>

lemma sfmemcap_free_alloc:
  assumes "sfmemcap_alloc os mc n = (Some q, mc')" and "n + 8 < 2 ^ 32"
  shows "sfmemcap_free mc' q = mc"
  using assms ucast_u32_small [of "n + 8"]
  by (auto simp: sfmemcap_alloc_def sfmemcap_free_def Let_def split: if_splits)

end
