(* ===== verification/XHash.thy ===== *)
theory XHash
  imports MemCap
begin

text \<open>
  The hash table with ageing and node recovery, \<open>sfutil/sfxhash.c\<close>, with its hash function
  \<open>sfutil/sfhashfcn.c\<close>.

  Nodes have addresses (\<open>nat\<close>) and live in the heap \<open>xh_nodes\<close>.  A doubly linked list is the
  list of its nodes' addresses from head to tail, so \<open>next\<close>, \<open>prev\<close>, \<open>gnext\<close> and
  \<open>gprev\<close> are the neighbours in the row list, the global list \<open>xh_glist\<close> (\<open>ghead\<close> first,
  \<open>gtail\<close> last) and the free list \<open>xh_flist\<close>; unlinking a node is \<^const>\<open>remove1\<close>.
  The user data of a node has type \<open>'d\<close>; \<open>xh_zero\<close> is the data read from a zeroed block.
  A recycled or recovered node keeps its old data until it is written, as in C.  The
  callback \<open>anrfree\<close> is a predicate (true: keep the node), calls of \<open>usrfree\<close> are recorded
  in \<open>xh_freed\<close>.
\<close>

section \<open>Data\<close>

record 'd xnode =
  xn_key :: bytes
  xn_data :: 'd
  xn_rindex :: nat
  xn_size :: u64

record hashfcn =
  hf_seed :: u32
  hf_scale :: u32
  hf_hardener :: u32

record 'd xhash =
  xh_fcn :: hashfcn
  xh_keysize :: nat
  xh_datasize :: nat
  xh_table :: "nat list list"
  xh_nrows :: u32
  xh_count :: u32
  xh_crow :: nat
  xh_cnode :: "nat option"
  xh_splay :: bool
  xh_max_nodes :: u32
  xh_mc :: memcap
  xh_find_fail :: u32
  xh_find_success :: u32
  xh_glist :: "nat list"
  xh_flist :: "nat list"
  xh_gnode :: "nat option"
  xh_recycle :: bool
  xh_anr_tries :: u32
  xh_anr_count :: u32
  xh_anr_flag :: bool
  xh_anrfree :: "(bytes \<Rightarrow> 'd \<Rightarrow> bool) option"
  xh_usrfree :: bool
  xh_freed :: "(bytes \<times> 'd) list"
  xh_nodes :: "nat \<Rightarrow> 'd xnode option"
  xh_fresh :: nat
  xh_zero :: 'd

definition xn :: "'d xhash \<Rightarrow> nat \<Rightarrow> 'd xnode" where
  "xn h a = the (xh_nodes h a)"

abbreviation nkey :: "'d xhash \<Rightarrow> nat \<Rightarrow> bytes" where "nkey h a \<equiv> xn_key (xn h a)"
abbreviation ndata :: "'d xhash \<Rightarrow> nat \<Rightarrow> 'd" where "ndata h a \<equiv> xn_data (xn h a)"
abbreviation nrow :: "'d xhash \<Rightarrow> nat \<Rightarrow> nat" where "nrow h a \<equiv> xn_rindex (xn h a)"

text \<open>\<open>SFXHASH_OK\<close>, \<open>SFXHASH_INTABLE\<close>, \<open>SFXHASH_NOMEM\<close>, \<open>SFXHASH_ERR\<close>.\<close>

datatype xstatus = XOk | XInTable | XNoMem | XErr

section \<open>Hash function\<close>

primrec hash_loop :: "hashfcn \<Rightarrow> u32 \<Rightarrow> bytes \<Rightarrow> u32" where
  "hash_loop p hash [] = hash"
| "hash_loop p hash (d # ds) = hash_loop p (hash * hf_scale p + ucast d) ds"

definition sfhashfcn_hash :: "hashfcn \<Rightarrow> bytes \<Rightarrow> nat \<Rightarrow> u32" where
  "sfhashfcn_hash p d n = hash_loop p (hf_seed p) (take n d) XOR hf_hardener p"

definition sfhashfcn_static :: hashfcn where
  "sfhashfcn_static = \<lparr>hf_seed = 3193, hf_scale = 719, hf_hardener = 133824503\<rparr>"

definition row_index :: "'d xhash \<Rightarrow> bytes \<Rightarrow> nat" where
  "row_index t key = unat (sfhashfcn_hash (xh_fcn t) key (xh_keysize t) AND (xh_nrows t - 1))"

section \<open>Lists of nodes\<close>

fun succ_in :: "nat list \<Rightarrow> nat \<Rightarrow> nat option" where
  "succ_in [] a = None"
| "succ_in [x] a = None"
| "succ_in (x # y # zs) a = (if x = a then Some y else succ_in (y # zs) a)"

definition sfxhash_save_free_node :: "'d xhash \<Rightarrow> nat \<Rightarrow> 'd xhash" where
  "sfxhash_save_free_node t a =
     t\<lparr>xh_flist := a # xh_flist t, xh_anr_count := xh_anr_count t + 1\<rparr>"

definition sfxhash_get_free_node :: "'d xhash \<Rightarrow> nat option \<times> 'd xhash" where
  "sfxhash_get_free_node t =
     (case xh_flist t of
        [] \<Rightarrow> (None, t)
      | a # fs \<Rightarrow> (Some a, t\<lparr>xh_flist := fs, xh_anr_count := xh_anr_count t - 1\<rparr>))"

definition sfxhash_glink_node :: "'d xhash \<Rightarrow> nat \<Rightarrow> 'd xhash" where
  "sfxhash_glink_node t a = t\<lparr>xh_glist := a # xh_glist t\<rparr>"

definition sfxhash_gunlink_node :: "'d xhash \<Rightarrow> nat \<Rightarrow> 'd xhash" where
  "sfxhash_gunlink_node t a =
     t\<lparr>xh_gnode := (if xh_gnode t = Some a then succ_in (xh_glist t) a else xh_gnode t),
       xh_glist := remove1 a (xh_glist t)\<rparr>"

definition sfxhash_gmovetofront :: "'d xhash \<Rightarrow> nat \<Rightarrow> 'd xhash" where
  "sfxhash_gmovetofront t a =
     (if take 1 (xh_glist t) \<noteq> [a] then sfxhash_glink_node (sfxhash_gunlink_node t a) a else t)"

definition sfxhash_link_node :: "'d xhash \<Rightarrow> nat \<Rightarrow> 'd xhash" where
  "sfxhash_link_node t a =
     t\<lparr>xh_table := (xh_table t)[nrow t a := a # xh_table t ! nrow t a]\<rparr>"

definition sfxhash_unlink_node :: "'d xhash \<Rightarrow> nat \<Rightarrow> 'd xhash" where
  "sfxhash_unlink_node t a =
     t\<lparr>xh_table := (xh_table t)[nrow t a := remove1 a (xh_table t ! nrow t a)]\<rparr>"

definition movetofront :: "'d xhash \<Rightarrow> nat \<Rightarrow> 'd xhash" where
  "movetofront t a =
     (let t1 = (if take 1 (xh_table t ! nrow t a) \<noteq> [a]
                then sfxhash_link_node (sfxhash_unlink_node t a) a else t);
          t2 = (if xh_gnode t1 = Some a then t1\<lparr>xh_gnode := succ_in (xh_glist t1) a\<rparr> else t1)
      in sfxhash_gmovetofront t2 a)"

section \<open>Allocation and node recovery\<close>

definition SFXHASH_NODE_SIZE :: nat where
  \<comment> \<open>four list pointers, \<open>rindex\<close> with its padding, \<open>key\<close>, \<open>data\<close>\<close>
  "SFXHASH_NODE_SIZE = 56"

definition node_bytes :: "'d xhash \<Rightarrow> u64" where
  "node_bytes t = of_nat (SFXHASH_NODE_SIZE + xh_keysize t + xh_datasize t)"

text \<open>\<open>s_alloc\<close> takes the size as an \<open>int\<close>, which is widened again by \<open>sfmemcap_alloc\<close>.\<close>

definition s_alloc :: "(u64 \<Rightarrow> bool) \<Rightarrow> memcap \<Rightarrow> u64 \<Rightarrow> u64 option \<times> memcap" where
  "s_alloc os mc n = sfmemcap_alloc os mc (scast (ucast n :: u32))"

definition s_alloc_node :: "(u64 \<Rightarrow> bool) \<Rightarrow> 'd xhash \<Rightarrow> nat option \<times> 'd xhash" where
  "s_alloc_node os t =
     (case s_alloc os (xh_mc t) (node_bytes t) of
        (None, mc) \<Rightarrow> (None, t\<lparr>xh_mc := mc\<rparr>)
      | (Some q, mc) \<Rightarrow>
          (Some (xh_fresh t),
           t\<lparr>xh_mc := mc, xh_fresh := xh_fresh t + 1,
             xh_nodes := (xh_nodes t)(xh_fresh t :=
               Some \<lparr>xn_key = [], xn_data = xh_zero t, xn_rindex = 0, xn_size = q\<rparr>)\<rparr>))"

definition s_free_node :: "'d xhash \<Rightarrow> nat \<Rightarrow> 'd xhash" where
  "s_free_node t a =
     t\<lparr>xh_mc := sfmemcap_free (xh_mc t) (xn_size (xn t a)),
       xh_nodes := (xh_nodes t)(a := None)\<rparr>"

text \<open>The recovery loop of \<open>sfxhash_newnode\<close>, over the nodes from \<open>gtail\<close> to \<open>ghead\<close>.\<close>

fun anr_scan :: "'d xhash \<Rightarrow> nat list \<Rightarrow> nat option \<times> 'd xhash" where
  "anr_scan t [] = (None, t)"
| "anr_scan t (a # as) =
     (let t1 = (if xh_anrfree t = None then t else t\<lparr>xh_anr_tries := xh_anr_tries t + 1\<rparr>) in
      if (case xh_anrfree t of None \<Rightarrow> False | Some keep \<Rightarrow> keep (nkey t a) (ndata t a))
      then anr_scan t1 as
      else let t2 = sfxhash_unlink_node (sfxhash_gunlink_node t1 a) a in
           (Some a, t2\<lparr>xh_count := xh_count t2 - 1, xh_anr_count := xh_anr_count t2 + 1\<rparr>))"

definition sfxhash_newnode :: "(u64 \<Rightarrow> bool) \<Rightarrow> 'd xhash \<Rightarrow> nat option \<times> 'd xhash" where
  "sfxhash_newnode os t =
     (case sfxhash_get_free_node t of
        (Some a, t1) \<Rightarrow> (Some a, t1)
      | (None, t1) \<Rightarrow>
          (case (if xh_max_nodes t1 = 0 \<or> xh_count t1 < xh_max_nodes t1
                 then s_alloc_node os t1 else (None, t1)) of
             (Some a, t2) \<Rightarrow> (Some a, t2)
           | (None, t2) \<Rightarrow>
               (if xh_anr_flag t2 \<and> xh_glist t2 \<noteq> [] then anr_scan t2 (rev (xh_glist t2))
                else (None, t2))))"

section \<open>Operations\<close>

definition sfxhash_find_node_row :: "'d xhash \<Rightarrow> bytes \<Rightarrow> nat option \<times> nat \<times> 'd xhash" where
  "sfxhash_find_node_row t key =
     (let index = row_index t key in
      case find (\<lambda>a. nkey t a = take (xh_keysize t) key) (xh_table t ! index) of
        Some a \<Rightarrow>
          (let t1 = (if xh_splay t then movetofront t a else t)
           in (Some a, index, t1\<lparr>xh_find_success := xh_find_success t1 + 1\<rparr>))
      | None \<Rightarrow> (None, index, t\<lparr>xh_find_fail := xh_find_fail t + 1\<rparr>))"

text \<open>The part \<open>sfxhash_add_ex\<close> and \<open>sfxhash_get_node\<close> share: key, row, data, links, count.\<close>

definition install_node :: "'d xhash \<Rightarrow> nat \<Rightarrow> bytes \<Rightarrow> nat \<Rightarrow> 'd \<Rightarrow> 'd xhash" where
  "install_node t a key index d =
     (let n = (xn t a)\<lparr>xn_key := take (xh_keysize t) key, xn_rindex := index, xn_data := d\<rparr>;
          t1 = t\<lparr>xh_nodes := (xh_nodes t)(a := Some n)\<rparr>;
          t2 = sfxhash_glink_node (sfxhash_link_node t1 a) a
      in t2\<lparr>xh_count := xh_count t2 + 1\<rparr>)"

text \<open>
  \<open>sfxhash_add_ex\<close>: \<open>data = None\<close> is the null pointer.  With \<open>datasize > 0\<close> the data is
  copied into the node (not touched for a null pointer); with \<open>datasize = 0\<close> the node's
  data is the pointer itself.
\<close>

definition sfxhash_add_ex ::
    "(u64 \<Rightarrow> bool) \<Rightarrow> 'd xhash \<Rightarrow> bytes \<Rightarrow> 'd option \<Rightarrow> xstatus \<times> nat option \<times> 'd xhash" where
  "sfxhash_add_ex os t key data =
     (case sfxhash_find_node_row t key of
        (Some a, index, t1) \<Rightarrow> (XInTable, Some a, t1\<lparr>xh_cnode := Some a\<rparr>)
      | (None, index, t1) \<Rightarrow>
          (case sfxhash_newnode os t1 of
             (None, t2) \<Rightarrow> (XNoMem, None, t2)
           | (Some a, t2) \<Rightarrow>
               (let d = (case data of Some d \<Rightarrow> d
                         | None \<Rightarrow> if xh_datasize t > 0 then ndata t2 a else xh_zero t);
                    t3 = install_node t2 a key index d
                in (XOk, Some a, t3\<lparr>xh_cnode := Some a\<rparr>))))"

definition sfxhash_add :: "(u64 \<Rightarrow> bool) \<Rightarrow> 'd xhash \<Rightarrow> bytes \<Rightarrow> 'd option \<Rightarrow> xstatus \<times> 'd xhash" where
  "sfxhash_add os t key data = (case sfxhash_add_ex os t key data of (st, _, t') \<Rightarrow> (st, t'))"

definition sfxhash_get_node :: "(u64 \<Rightarrow> bool) \<Rightarrow> 'd xhash \<Rightarrow> bytes \<Rightarrow> nat option \<times> 'd xhash" where
  "sfxhash_get_node os t key =
     (case sfxhash_find_node_row t key of
        (Some a, index, t1) \<Rightarrow> (Some a, t1\<lparr>xh_cnode := Some a\<rparr>)
      | (None, index, t1) \<Rightarrow>
          (case sfxhash_newnode os t1 of
             (None, t2) \<Rightarrow> (None, t2)
           | (Some a, t2) \<Rightarrow>
               (let d = (if xh_datasize t > 0 then ndata t2 a else xh_zero t)
                in (Some a, install_node t2 a key index d))))"

definition sfxhash_find_node :: "'d xhash \<Rightarrow> bytes \<Rightarrow> nat option \<times> 'd xhash" where
  "sfxhash_find_node t key = (case sfxhash_find_node_row t key of (a, _, t') \<Rightarrow> (a, t'))"

definition sfxhash_find :: "'d xhash \<Rightarrow> bytes \<Rightarrow> 'd option \<times> 'd xhash" where
  "sfxhash_find t key =
     (case sfxhash_find_node_row t key of (a, _, t') \<Rightarrow> (map_option (ndata t') a, t'))"

definition sfxhash_free_node :: "'d xhash \<Rightarrow> nat \<Rightarrow> 'd xhash" where
  "sfxhash_free_node t a =
     (let t1 = sfxhash_gunlink_node (sfxhash_unlink_node t a) a;
          t2 = t1\<lparr>xh_count := xh_count t1 - 1\<rparr>;
          t3 = (if xh_usrfree t2 then t2\<lparr>xh_freed := xh_freed t2 @ [(nkey t2 a, ndata t2 a)]\<rparr> else t2)
      in if xh_recycle t3 then sfxhash_save_free_node t3 a else s_free_node t3 a)"

definition sfxhash_remove :: "'d xhash \<Rightarrow> bytes \<Rightarrow> xstatus \<times> 'd xhash" where
  "sfxhash_remove t key =
     (case find (\<lambda>a. nkey t a = take (xh_keysize t) key) (xh_table t ! row_index t key) of
        Some a \<Rightarrow> (XOk, sfxhash_free_node t a)
      | None \<Rightarrow> (XErr, t))"

definition sfxhash_free_anr :: "'d xhash \<Rightarrow> xstatus \<times> 'd xhash" where
  "sfxhash_free_anr t =
     (case sfxhash_get_free_node t of
        (Some a, t1) \<Rightarrow> (XOk, s_free_node t1 a)
      | (None, t1) \<Rightarrow> (XErr, t1))"

definition sfxhash_free_anr_lru :: "'d xhash \<Rightarrow> xstatus \<times> 'd xhash" where
  "sfxhash_free_anr_lru t =
     (case sfxhash_get_free_node t of
        (Some a, t1) \<Rightarrow> (XOk, s_free_node t1 a)
      | (None, t1) \<Rightarrow>
          (if xh_glist t1 = [] then (XErr, t1)
           else let t2 = sfxhash_free_node t1 (last (xh_glist t1)) in
                case sfxhash_get_free_node t2 of
                  (Some a, t3) \<Rightarrow> (XOk, s_free_node t3 a)
                | (None, t3) \<Rightarrow> if xh_recycle t3 then (XErr, t3) else (XOk, t3)))"

definition sfxhash_mru :: "'d xhash \<Rightarrow> 'd option" where
  "sfxhash_mru t = (case xh_glist t of [] \<Rightarrow> None | a # _ \<Rightarrow> Some (ndata t a))"

definition sfxhash_lru :: "'d xhash \<Rightarrow> 'd option" where
  "sfxhash_lru t = (if xh_glist t = [] then None else Some (ndata t (last (xh_glist t))))"

definition sfxhash_gfindfirst :: "'d xhash \<Rightarrow> nat option \<times> 'd xhash" where
  "sfxhash_gfindfirst t =
     (case xh_glist t of
        [] \<Rightarrow> (None, t\<lparr>xh_gnode := None\<rparr>)
      | a # _ \<Rightarrow> (Some a, t\<lparr>xh_gnode := succ_in (xh_glist t) a\<rparr>))"

definition sfxhash_gfindnext :: "'d xhash \<Rightarrow> nat option \<times> 'd xhash" where
  "sfxhash_gfindnext t =
     (case xh_gnode t of
        None \<Rightarrow> (None, t)
      | Some a \<Rightarrow> (Some a, t\<lparr>xh_gnode := succ_in (xh_glist t) a\<rparr>))"

text \<open>Row iteration: \<open>cnode\<close> is the node answered next, \<open>crow\<close> its row.\<close>

definition sfxhash_next :: "'d xhash \<Rightarrow> 'd xhash" where
  "sfxhash_next t =
     (case xh_cnode t of
        None \<Rightarrow> t
      | Some a \<Rightarrow>
          (case succ_in (xh_table t ! nrow t a) a of
             Some b \<Rightarrow> t\<lparr>xh_cnode := Some b\<rparr>
           | None \<Rightarrow>
               (case find (\<lambda>r. xh_table t ! r \<noteq> []) [Suc (xh_crow t) ..< unat (xh_nrows t)] of
                  Some r \<Rightarrow> t\<lparr>xh_crow := r, xh_cnode := Some (hd (xh_table t ! r))\<rparr>
                | None \<Rightarrow>
                    t\<lparr>xh_crow := max (Suc (xh_crow t)) (unat (xh_nrows t)), xh_cnode := None\<rparr>)))"

definition sfxhash_findfirst :: "'d xhash \<Rightarrow> nat option \<times> 'd xhash" where
  "sfxhash_findfirst t =
     (case find (\<lambda>r. xh_table t ! r \<noteq> []) [0 ..< unat (xh_nrows t)] of
        Some r \<Rightarrow>
          (let a = hd (xh_table t ! r)
           in (Some a, sfxhash_next (t\<lparr>xh_crow := r, xh_cnode := Some a\<rparr>)))
      | None \<Rightarrow>
          (None, t\<lparr>xh_crow := unat (xh_nrows t),
                   xh_cnode := (if xh_nrows t = 0 then xh_cnode t else None)\<rparr>))"

definition sfxhash_findnext :: "'d xhash \<Rightarrow> nat option \<times> 'd xhash" where
  "sfxhash_findnext t =
     (case xh_cnode t of None \<Rightarrow> (None, t) | Some a \<Rightarrow> (Some a, sfxhash_next t))"

definition sfxhash_set_max_nodes :: "'d xhash \<Rightarrow> u32 \<Rightarrow> 'd xhash" where
  "sfxhash_set_max_nodes h n = h\<lparr>xh_max_nodes := n\<rparr>"

text \<open>\<open>sfxhash_make_empty\<close>: every row in turn, every node of the row from its head.\<close>

definition sfxhash_make_empty :: "'d xhash \<Rightarrow> 'd xhash" where
  "sfxhash_make_empty h =
     (let h1 = foldl (\<lambda>h i. foldl sfxhash_free_node h (xh_table h ! i)) h [0 ..< length (xh_table h)]
      in h1\<lparr>xh_max_nodes := 0, xh_crow := 0, xh_cnode := None, xh_count := 0, xh_glist := [],
            xh_anr_count := 0, xh_anr_tries := 0, xh_find_success := 0, xh_find_fail := 0\<rparr>)"

definition smear :: "u32 \<Rightarrow> nat \<Rightarrow> u32" where
  "smear n i = n OR signed_drop_bit i n"

definition sfxhash_nearest_powerof2 :: "u32 \<Rightarrow> u32" where
  "sfxhash_nearest_powerof2 nrows = foldl smear (nrows - 1) [1, 2, 4, 8, 16] + 1"

definition sfxhash_new ::
    "(u64 \<Rightarrow> bool) \<Rightarrow> hashfcn \<Rightarrow> 'd \<Rightarrow> u32 \<Rightarrow> nat \<Rightarrow> nat \<Rightarrow> u64 \<Rightarrow> bool \<Rightarrow>
     (bytes \<Rightarrow> 'd \<Rightarrow> bool) option \<Rightarrow> bool \<Rightarrow> bool \<Rightarrow> 'd xhash option" where
  "sfxhash_new os fcn zero nrows0 keysize datasize maxmem anr_flag anrfree usrfree recycle =
     (let nrows = sfxhash_nearest_powerof2 nrows0 in
      case s_alloc os (sfmemcap_init maxmem) (8 * ucast nrows) of
        (None, _) \<Rightarrow> None
      | (Some _, mc) \<Rightarrow>
          Some \<lparr>xh_fcn = fcn, xh_keysize = keysize, xh_datasize = datasize,
                xh_table = replicate (unat nrows) [], xh_nrows = nrows, xh_count = 0,
                xh_crow = 0, xh_cnode = None, xh_splay = True, xh_max_nodes = 0, xh_mc = mc,
                xh_find_fail = 0, xh_find_success = 0, xh_glist = [], xh_flist = [],
                xh_gnode = None, xh_recycle = recycle, xh_anr_tries = 0, xh_anr_count = 0,
                xh_anr_flag = anr_flag, xh_anrfree = anrfree, xh_usrfree = usrfree,
                xh_freed = [], xh_nodes = (\<lambda>_. None), xh_fresh = 0, xh_zero = zero\<rparr>)"

end
