(* ===== verification/XHashMap.thy ===== *)
theory XHashMap
  imports XHash
begin

text \<open>
  \<open>sfxhash\<close> refines a finite map with an access order: the well-formedness invariant
  \<open>xh_wf\<close> (row lists, global list, free list and node heap agree), the abstraction
  \<open>xh_map\<close> from keys to data, and one lemma per operation.
\<close>

section \<open>Invariant and abstraction\<close>

definition xh_linked :: "'d xhash \<Rightarrow> bool" where
  "xh_linked t \<longleftrightarrow>
     (\<forall>r < length (xh_table t).
        distinct (xh_table t ! r) \<and> set (xh_table t ! r) = {a \<in> set (xh_glist t). nrow t a = r})"

definition xh_keys_ok :: "'d xhash \<Rightarrow> bool" where
  "xh_keys_ok t \<longleftrightarrow>
     inj_on (nkey t) (set (xh_glist t)) \<and>
     (\<forall>a \<in> set (xh_glist t).
        nrow t a = row_index t (nkey t a) \<and> length (nkey t a) = xh_keysize t)"

definition xh_heap_ok :: "'d xhash \<Rightarrow> bool" where
  "xh_heap_ok t \<longleftrightarrow>
     distinct (xh_glist t @ xh_flist t) \<and>
     (\<forall>a \<in> set (xh_glist t @ xh_flist t). xh_nodes t a \<noteq> None) \<and>
     (\<forall>a. xh_nodes t a \<noteq> None \<longrightarrow> a < xh_fresh t)"

definition xh_wf :: "'d xhash \<Rightarrow> bool" where
  "xh_wf t \<longleftrightarrow>
     0 < xh_nrows t \<and> length (xh_table t) = unat (xh_nrows t) \<and>
     xh_linked t \<and> xh_keys_ok t \<and> xh_heap_ok t \<and>
     xh_count t = of_nat (length (xh_glist t))"

lemmas xh_wf_defs = xh_wf_def xh_linked_def xh_keys_ok_def xh_heap_ok_def

definition xh_map :: "'d xhash \<Rightarrow> bytes \<Rightarrow> 'd option" where
  "xh_map t k = map_option (ndata t) (find (\<lambda>a. nkey t a = k) (xh_glist t))"

text \<open>The node of a key, as the refinement sees it.\<close>

definition xh_node_of :: "'d xhash \<Rightarrow> bytes \<Rightarrow> nat option" where
  "xh_node_of t k = find (\<lambda>a. nkey t a = k) (xh_glist t)"

lemma xh_node_of_Some:
  "xh_wf t \<Longrightarrow> xh_node_of t k = Some a \<longleftrightarrow> a \<in> set (xh_glist t) \<and> nkey t a = k"
proof
  assume "xh_node_of t k = Some a"
  then show "a \<in> set (xh_glist t) \<and> nkey t a = k"
    by (auto simp: xh_node_of_def find_Some_iff)
next
  assume wf: "xh_wf t" and a: "a \<in> set (xh_glist t) \<and> nkey t a = k"
  then obtain b where b: "xh_node_of t k = Some b"
    by (cases "xh_node_of t k") (auto simp: xh_node_of_def find_None_iff)
  then have "b \<in> set (xh_glist t)" "nkey t b = k"
    by (auto simp: xh_node_of_def find_Some_iff)
  then show "xh_node_of t k = Some a"
    using wf a b by (auto simp: xh_wf_def xh_keys_ok_def dest: inj_onD)
qed

lemma xh_node_of_None: "xh_node_of t k = None \<longleftrightarrow> (\<forall>a \<in> set (xh_glist t). nkey t a \<noteq> k)"
  by (auto simp: xh_node_of_def find_None_iff)

lemma xh_map_node: "xh_map t k = map_option (ndata t) (xh_node_of t k)"
  by (simp add: xh_map_def xh_node_of_def)

lemma xh_map_Some:
  "xh_wf t \<Longrightarrow> xh_map t k = Some d \<longleftrightarrow> (\<exists>a \<in> set (xh_glist t). nkey t a = k \<and> ndata t a = d)"
  by (auto simp: xh_map_node xh_node_of_Some)

lemma xh_map_eqI:
  assumes "xh_wf t" and "xh_wf t'"
    and "\<And>k d. (\<exists>a \<in> set (xh_glist t). nkey t a = k \<and> ndata t a = d) \<longleftrightarrow> m k = Some d"
  shows "xh_map t = m"
proof
  fix k
  show "xh_map t k = m k"
    using assms xh_map_Some [OF assms(1), of k] by (cases "m k"; cases "xh_map t k") auto
qed

text \<open>Fields the invariant and the abstraction do not read.\<close>

lemma xh_wf_frame [simp]:
  "xh_wf (t\<lparr>xh_find_success := x1\<rparr>) = xh_wf t" "xh_wf (t\<lparr>xh_find_fail := x1\<rparr>) = xh_wf t"
  "xh_wf (t\<lparr>xh_cnode := x2\<rparr>) = xh_wf t" "xh_wf (t\<lparr>xh_gnode := x2\<rparr>) = xh_wf t"
  "xh_wf (t\<lparr>xh_anr_tries := x1\<rparr>) = xh_wf t" "xh_wf (t\<lparr>xh_anr_count := x1\<rparr>) = xh_wf t"
  "xh_wf (t\<lparr>xh_max_nodes := x1\<rparr>) = xh_wf t" "xh_wf (t\<lparr>xh_mc := x3\<rparr>) = xh_wf t"
  "xh_wf (t\<lparr>xh_freed := x4\<rparr>) = xh_wf t"
  by (simp_all add: xh_wf_defs xn_def row_index_def)

lemma xh_map_frame [simp]:
  "xh_map (t\<lparr>xh_find_success := x1\<rparr>) = xh_map t" "xh_map (t\<lparr>xh_find_fail := x1\<rparr>) = xh_map t"
  "xh_map (t\<lparr>xh_cnode := x2\<rparr>) = xh_map t" "xh_map (t\<lparr>xh_gnode := x2\<rparr>) = xh_map t"
  "xh_map (t\<lparr>xh_anr_tries := x1\<rparr>) = xh_map t" "xh_map (t\<lparr>xh_anr_count := x1\<rparr>) = xh_map t"
  "xh_map (t\<lparr>xh_max_nodes := x1\<rparr>) = xh_map t" "xh_map (t\<lparr>xh_mc := x3\<rparr>) = xh_map t"
  "xh_map (t\<lparr>xh_freed := x4\<rparr>) = xh_map t" "xh_map (t\<lparr>xh_count := x1\<rparr>) = xh_map t"
  "xh_map (t\<lparr>xh_flist := x5\<rparr>) = xh_map t" "xh_map (t\<lparr>xh_table := x6\<rparr>) = xh_map t"
  by (simp_all add: xh_map_def xn_def fun_eq_iff)

section \<open>Looking a key up\<close>

lemma row_index_bound: "0 < xh_nrows t \<Longrightarrow> row_index t key < unat (xh_nrows t)"
proof -
  assume "0 < xh_nrows t"
  then have "xh_nrows t - 1 < xh_nrows t"
    by (metis word_gt_0 measure_unat unat_0 word_less_nat_alt)
  moreover have "sfhashfcn_hash (xh_fcn t) key (xh_keysize t) AND (xh_nrows t - 1) \<le> xh_nrows t - 1"
    by (rule word_and_le1)
  ultimately show ?thesis
    unfolding row_index_def by (meson le_less_trans word_less_nat_alt)
qed

lemma row_index_take [simp]: "row_index t (take (xh_keysize t) key) = row_index t key"
  by (simp add: row_index_def sfhashfcn_hash_def)

lemma find_row_node:
  assumes "xh_wf t"
  shows "find (\<lambda>a. nkey t a = take (xh_keysize t) key) (xh_table t ! row_index t key)
       = xh_node_of t (take (xh_keysize t) key)"
    (is "find ?P ?row = _")
proof -
  have row: "set ?row = {a \<in> set (xh_glist t). nrow t a = row_index t key}"
    using assms row_index_bound [of t key] by (simp add: xh_wf_defs)
  have same: "nrow t a = row_index t key" if "a \<in> set (xh_glist t)" "?P a" for a
    using that assms by (auto simp: xh_wf_def xh_keys_ok_def)
  show ?thesis
  proof (cases "find ?P ?row")
    case None
    then have "\<forall>a \<in> set (xh_glist t). \<not> ?P a" using row same by (auto simp: find_None_iff)
    then show ?thesis using None by (simp add: xh_node_of_None [THEN iffD2])
  next
    case (Some a)
    then have "a \<in> set ?row \<and> ?P a" by (auto simp: find_Some_iff in_set_conv_nth)
    then have "xh_node_of t (take (xh_keysize t) key) = Some a"
      using row by (simp add: xh_node_of_Some [OF assms])
    then show ?thesis using Some by simp
  qed
qed

section \<open>Moving a node to the front\<close>

lemma take1_front: "take 1 xs = [a] \<Longrightarrow> a # remove1 a xs = xs"
  by (cases xs) auto

lemma movetofront_eq:
  "\<exists>g. movetofront t a =
     t\<lparr>xh_table := (xh_table t)[nrow t a := a # remove1 a (xh_table t ! nrow t a)],
       xh_glist := a # remove1 a (xh_glist t), xh_gnode := g\<rparr>"
  if "nrow t a < length (xh_table t)"
proof -
  let ?tab = "(xh_table t)[nrow t a := a # remove1 a (xh_table t ! nrow t a)]"
  have t1: "(if take 1 (xh_table t ! nrow t a) \<noteq> [a]
             then sfxhash_link_node (sfxhash_unlink_node t a) a else t) = t\<lparr>xh_table := ?tab\<rparr>"
    using that take1_front [of "xh_table t ! nrow t a" a]
    by (auto simp: sfxhash_link_node_def sfxhash_unlink_node_def xn_def)
  have g: "\<exists>g. sfxhash_gmovetofront s a = s\<lparr>xh_glist := a # remove1 a (xh_glist s), xh_gnode := g\<rparr>"
    for s :: "'d xhash"
  proof (cases "take 1 (xh_glist s) = [a]")
    case True
    then have "s\<lparr>xh_glist := a # remove1 a (xh_glist s), xh_gnode := xh_gnode s\<rparr> = s"
      by (simp add: take1_front)
    with True show ?thesis by (metis sfxhash_gmovetofront_def)
  next
    case False
    then show ?thesis
      by (intro exI [of _ "if xh_gnode s = Some a then succ_in (xh_glist s) a else xh_gnode s"],
          cases s)
         (simp add: sfxhash_gmovetofront_def sfxhash_glink_node_def sfxhash_gunlink_node_def)
  qed
  show ?thesis
    using g [of "t\<lparr>xh_table := ?tab, xh_gnode := succ_in (xh_glist t) a\<rparr>"]
      g [of "t\<lparr>xh_table := ?tab\<rparr>"]
    unfolding movetofront_def t1 by (auto simp: Let_def)
qed

lemma xh_wf_reorder:
  assumes wf: "xh_wf t" and tab: "length tab = length (xh_table t)"
    and rows: "\<And>r. r < length tab \<Longrightarrow> distinct (tab ! r) \<and> set (tab ! r) = set (xh_table t ! r)"
    and gl: "distinct gl" "set gl = set (xh_glist t)"
  shows "xh_wf (t\<lparr>xh_table := tab, xh_glist := gl, xh_gnode := g\<rparr>)"
proof -
  have "length gl = length (xh_glist t)"
    using wf gl by (metis distinct_card distinct_append xh_heap_ok_def xh_wf_def)
  then show ?thesis
    using wf tab rows gl by (auto simp: xh_wf_defs xn_def row_index_def)
qed

lemma xh_map_reorder:
  assumes wf: "xh_wf t" and wf': "xh_wf t'" and "set (xh_glist t') = set (xh_glist t)"
    and "xh_nodes t' = xh_nodes t"
  shows "xh_map t' = xh_map t"
proof
  fix k
  have "\<And>d. xh_map t' k = Some d \<longleftrightarrow> xh_map t k = Some d"
    unfolding xh_map_Some [OF wf] xh_map_Some [OF wf'] using assms(3,4) by (simp add: xn_def)
  then show "xh_map t' k = xh_map t k" by (metis not_Some_eq)
qed

lemma movetofront_wf:
  assumes wf: "xh_wf t" and a: "a \<in> set (xh_glist t)"
  shows "xh_wf (movetofront t a)" "xh_map (movetofront t a) = xh_map t"
    "xh_glist (movetofront t a) = a # remove1 a (xh_glist t)"
proof -
  let ?tab = "(xh_table t)[nrow t a := a # remove1 a (xh_table t ! nrow t a)]"
  have r: "nrow t a < length (xh_table t)"
    using wf a row_index_bound [of t "nkey t a"] by (auto simp: xh_wf_def xh_keys_ok_def)
  have dist: "distinct (xh_glist t)" using wf by (simp add: xh_wf_def xh_heap_ok_def)
  obtain g where g: "movetofront t a =
      t\<lparr>xh_table := ?tab, xh_glist := a # remove1 a (xh_glist t), xh_gnode := g\<rparr>"
    using movetofront_eq [OF r] by blast
  have row: "distinct (xh_table t ! nrow t a)" "a \<in> set (xh_table t ! nrow t a)"
    using wf a r by (auto simp: xh_wf_def xh_linked_def)
  show wf': "xh_wf (movetofront t a)"
    unfolding g
  proof (rule xh_wf_reorder [OF wf])
    fix s assume s: "s < length ?tab"
    have "distinct (xh_table t ! s)" using wf s by (simp add: xh_wf_def xh_linked_def)
    then show "distinct (?tab ! s) \<and> set (?tab ! s) = set (xh_table t ! s)"
      using row r s by (cases "s = nrow t a") (auto simp: set_remove1_eq)
  qed (use dist a in \<open>auto simp: set_remove1_eq\<close>)
  show "xh_map (movetofront t a) = xh_map t"
    by (rule xh_map_reorder [OF wf wf']) (use dist a in \<open>auto simp: g set_remove1_eq\<close>)
  show "xh_glist (movetofront t a) = a # remove1 a (xh_glist t)" by (simp add: g)
qed

section \<open>Find\<close>

text \<open>What every lookup does, by the outcome of the abstract node search.\<close>

lemma find_node_row_hit:
  assumes wf: "xh_wf t" and hit: "xh_node_of t (take (xh_keysize t) key) = Some a"
  shows "\<exists>t'. sfxhash_find_node_row t key = (Some a, row_index t key, t') \<and>
    xh_wf t' \<and> xh_map t' = xh_map t \<and> ndata t' a = ndata t a \<and>
    xh_glist t' = (if xh_splay t then a # remove1 a (xh_glist t) else xh_glist t)"
proof -
  have a: "a \<in> set (xh_glist t)" using hit by (simp add: xh_node_of_Some [OF wf])
  have r: "nrow t a < length (xh_table t)"
    using wf a row_index_bound [of t "nkey t a"] by (auto simp: xh_wf_def xh_keys_ok_def)
  have "xh_nodes (movetofront t a) = xh_nodes t" using movetofront_eq [OF r] by auto
  then show ?thesis
    using movetofront_wf [OF wf a] wf
    by (simp add: sfxhash_find_node_row_def find_row_node [OF wf] hit Let_def) (simp add: xn_def)
qed

lemma find_node_row_miss:
  assumes wf: "xh_wf t" and miss: "xh_node_of t (take (xh_keysize t) key) = None"
  shows "sfxhash_find_node_row t key =
    (None, row_index t key, t\<lparr>xh_find_fail := xh_find_fail t + 1\<rparr>)"
  by (simp add: sfxhash_find_node_row_def find_row_node [OF wf] miss Let_def)

lemma sfxhash_find_correct:
  assumes wf: "xh_wf t"
  shows "fst (sfxhash_find t key) = xh_map t (take (xh_keysize t) key) \<and>
    xh_wf (snd (sfxhash_find t key)) \<and> xh_map (snd (sfxhash_find t key)) = xh_map t"
proof (cases "xh_node_of t (take (xh_keysize t) key)")
  case None
  then show ?thesis
    using find_node_row_miss [OF wf None] wf by (simp add: sfxhash_find_def xh_map_node)
next
  case (Some a)
  then show ?thesis
    using find_node_row_hit [OF wf Some] by (auto simp: sfxhash_find_def xh_map_node)
qed

section \<open>Unlinking a node\<close>

definition evict :: "'d xhash \<Rightarrow> nat \<Rightarrow> 'd xhash" where
  \<comment> \<open>off the global list and its row, one node less\<close>
  "evict t a =
     t\<lparr>xh_table := (xh_table t)[nrow t a := remove1 a (xh_table t ! nrow t a)],
       xh_glist := remove1 a (xh_glist t),
       xh_gnode := (if xh_gnode t = Some a then succ_in (xh_glist t) a else xh_gnode t),
       xh_count := xh_count t - 1\<rparr>"

lemma evict_unlink:
  "(sfxhash_unlink_node (sfxhash_gunlink_node t a) a)\<lparr>xh_count := xh_count t - 1\<rparr> = evict t a"
  "(sfxhash_gunlink_node (sfxhash_unlink_node t a) a)\<lparr>xh_count := xh_count t - 1\<rparr> = evict t a"
  by (cases t; simp add: evict_def sfxhash_unlink_node_def sfxhash_gunlink_node_def xn_def)+

lemma evict_fields [simp]:
  "xh_glist (evict t a) = remove1 a (xh_glist t)" "xh_flist (evict t a) = xh_flist t"
  "xh_nodes (evict t a) = xh_nodes t" "xh_keysize (evict t a) = xh_keysize t"
  "xh_fcn (evict t a) = xh_fcn t" "xh_nrows (evict t a) = xh_nrows t"
  "xh_recycle (evict t a) = xh_recycle t" "xh_usrfree (evict t a) = xh_usrfree t"
  "xh_count (evict t a) = xh_count t - 1" "xh_mc (evict t a) = xh_mc t"
  "xh_anr_count (evict t a) = xh_anr_count t" "xh_freed (evict t a) = xh_freed t"
  "xn (evict t a) = xn t" "xh_datasize (evict t a) = xh_datasize t" "xh_zero (evict t a) = xh_zero t"
  "xh_fresh (evict t a) = xh_fresh t" "xh_max_nodes (evict t a) = xh_max_nodes t"
  by (simp_all add: evict_def xn_def fun_eq_iff)

lemma row_index_evict [simp]: "row_index (evict t a) k = row_index t k"
  by (simp add: row_index_def)

lemma evict_wf:
  assumes wf: "xh_wf t" and a: "a \<in> set (xh_glist t)"
  shows "xh_wf (evict t a)" "xh_map (evict t a) = (xh_map t)(nkey t a := None)"
proof -
  have dist: "distinct (xh_glist t)" using wf by (simp add: xh_wf_def xh_heap_ok_def)
  have r: "nrow t a < length (xh_table t)"
    using wf a row_index_bound [of t "nkey t a"] by (auto simp: xh_wf_def xh_keys_ok_def)
  have len: "length (xh_glist t) = Suc (length (remove1 a (xh_glist t)))"
    using length_pos_if_in_set [OF a] a by (simp add: length_remove1)
  have tab: "xh_table (evict t a) ! s =
      (if s = nrow t a then remove1 a (xh_table t ! s) else xh_table t ! s)"
    if "s < length (xh_table t)" for s
    using that r by (simp add: evict_def)
  have "xh_linked (evict t a)"
    unfolding xh_linked_def
  proof (intro allI impI)
    fix s assume s: "s < length (xh_table (evict t a))"
    then have "s < length (xh_table t)" by (simp add: evict_def)
    then show "distinct (xh_table (evict t a) ! s) \<and>
        set (xh_table (evict t a) ! s) = {b \<in> set (xh_glist (evict t a)). nrow (evict t a) b = s}"
      using wf dist tab [of s] by (auto simp: xh_wf_def xh_linked_def set_remove1_eq)
  qed
  moreover have "xh_keys_ok (evict t a)"
    using wf dist by (auto simp: xh_wf_def xh_keys_ok_def set_remove1_eq inj_on_diff)
  moreover have "xh_heap_ok (evict t a)"
    using wf dist by (auto simp: xh_wf_def xh_heap_ok_def set_remove1_eq)
  ultimately show wf': "xh_wf (evict t a)"
    using wf len by (simp add: xh_wf_def) (simp add: evict_def)
  show "xh_map (evict t a) = (xh_map t)(nkey t a := None)"
  proof (rule xh_map_eqI [OF wf' wf'])
    fix k d
    have inj: "inj_on (nkey t) (set (xh_glist t))" using wf by (simp add: xh_wf_def xh_keys_ok_def)
    show "(\<exists>b \<in> set (xh_glist (evict t a)). nkey (evict t a) b = k \<and> ndata (evict t a) b = d) \<longleftrightarrow>
        ((xh_map t)(nkey t a := None)) k = Some d"
      using inj a dist by (auto simp: set_remove1_eq xh_map_Some [OF wf] dest: inj_onD)
  qed
qed

section \<open>A node for a new key\<close>

text \<open>The recovery loop takes the first node from the tail the user lets go.\<close>

definition anr_keeps :: "'d xhash \<Rightarrow> nat \<Rightarrow> bool" where
  "anr_keeps t a = (case xh_anrfree t of None \<Rightarrow> False | Some keep \<Rightarrow> keep (nkey t a) (ndata t a))"

lemma anr_scan_Some:
  "anr_scan t as = (Some a, t') \<Longrightarrow>
     \<exists>pre post x y. as = pre @ a # post \<and> (\<forall>b \<in> set pre. anr_keeps t b) \<and> \<not> anr_keeps t a \<and>
       t' = evict (t\<lparr>xh_anr_tries := x, xh_anr_count := y\<rparr>) a"
proof (induction t as arbitrary: t' rule: anr_scan.induct)
  case (2 t b bs)
  let ?t1 = "if xh_anrfree t = None then t else t\<lparr>xh_anr_tries := xh_anr_tries t + 1\<rparr>"
  have keep: "anr_keeps ?t1 c = anr_keeps t c" for c
    by (cases "xh_anrfree t") (simp_all add: anr_keeps_def xn_def)
  show ?case
  proof (cases "anr_keeps t b")
    case True
    then have "anr_scan ?t1 bs = (Some a, t')" using 2(2) by (simp add: anr_keeps_def Let_def)
    from 2(1) [OF refl _ this] True obtain pre post x y where
      "bs = pre @ a # post" "\<forall>b \<in> set pre. anr_keeps ?t1 b" "\<not> anr_keeps ?t1 a"
      "t' = evict (?t1\<lparr>xh_anr_tries := x, xh_anr_count := y\<rparr>) a"
      by (auto simp: anr_keeps_def)
    moreover have "?t1\<lparr>xh_anr_tries := x, xh_anr_count := y\<rparr> = t\<lparr>xh_anr_tries := x, xh_anr_count := y\<rparr>"
      by simp
    ultimately have "b # bs = (b # pre) @ a # post \<and> (\<forall>c \<in> set (b # pre). anr_keeps t c) \<and>
        \<not> anr_keeps t a \<and> t' = evict (t\<lparr>xh_anr_tries := x, xh_anr_count := y\<rparr>) a"
      using True by (simp add: keep)
    then show ?thesis by blast
  next
    case False
    then have ab: "a = b"
      and t': "t' = (evict ?t1 b)\<lparr>xh_anr_count := xh_anr_count ?t1 + 1\<rparr>"
      using 2(2) evict_unlink(1) [of ?t1 b]
      by (auto simp: anr_keeps_def Let_def sfxhash_unlink_node_def sfxhash_gunlink_node_def
          evict_def xn_def split: if_splits)
    have "t' = evict (t\<lparr>xh_anr_tries := xh_anr_tries ?t1, xh_anr_count := xh_anr_count ?t1 + 1\<rparr>) b"
      unfolding t' by (cases t) (simp add: evict_def xn_def)
    then have "b # bs = [] @ a # bs \<and> (\<forall>c \<in> set []. anr_keeps t c) \<and> \<not> anr_keeps t a \<and>
        t' = evict (t\<lparr>xh_anr_tries := xh_anr_tries ?t1, xh_anr_count := xh_anr_count ?t1 + 1\<rparr>) a"
      using ab False by simp
    then show ?thesis by blast
  qed
qed simp

lemma anr_scan_None:
  "anr_scan t as = (None, t') \<Longrightarrow>
     (\<forall>b \<in> set as. anr_keeps t b) \<and> (\<exists>x. t' = t\<lparr>xh_anr_tries := x\<rparr>)"
proof (induction t as arbitrary: t' rule: anr_scan.induct)
  case (1 t)
  then show ?case by (auto intro: exI [of _ "xh_anr_tries t"])
next
  case (2 t b bs)
  let ?t1 = "if xh_anrfree t = None then t else t\<lparr>xh_anr_tries := xh_anr_tries t + 1\<rparr>"
  have keep: "anr_keeps ?t1 c = anr_keeps t c" for c
    by (cases "xh_anrfree t") (simp_all add: anr_keeps_def xn_def)
  have b: "anr_keeps t b" and rest: "anr_scan ?t1 bs = (None, t')"
    using 2(2) by (auto simp: anr_keeps_def Let_def split: if_splits)
  from 2(1) [OF refl _ rest] b obtain x where
    "\<forall>c \<in> set bs. anr_keeps ?t1 c" "t' = ?t1\<lparr>xh_anr_tries := x\<rparr>"
    by (auto simp: anr_keeps_def)
  then show ?case using b by (auto simp: keep)
qed

section \<open>Getting a node for a new key\<close>

definition xh_same_cfg :: "'d xhash \<Rightarrow> 'd xhash \<Rightarrow> bool" where
  "xh_same_cfg t t' \<longleftrightarrow>
     xh_fcn t' = xh_fcn t \<and> xh_keysize t' = xh_keysize t \<and> xh_datasize t' = xh_datasize t \<and>
     xh_nrows t' = xh_nrows t \<and> xh_max_nodes t' = xh_max_nodes t \<and> xh_splay t' = xh_splay t \<and>
     xh_recycle t' = xh_recycle t \<and> xh_usrfree t' = xh_usrfree t \<and> xh_zero t' = xh_zero t \<and>
     xh_anr_flag t' = xh_anr_flag t \<and> xh_anrfree t' = xh_anrfree t"

lemma xh_same_cfg_refl [simp]: "xh_same_cfg t t"
  by (simp add: xh_same_cfg_def)

lemma xh_same_cfg_trans: "xh_same_cfg t u \<Longrightarrow> xh_same_cfg u v \<Longrightarrow> xh_same_cfg t v"
  by (simp add: xh_same_cfg_def)

lemma xh_same_cfg_row: "xh_same_cfg t t' \<Longrightarrow> row_index t' k = row_index t k"
  by (simp add: xh_same_cfg_def row_index_def)

definition xh_cap :: "'d xhash \<Rightarrow> bool" where
  \<comment> \<open>live and parked nodes stay within \<open>max_nodes\<close> when it is set\<close>
  "xh_cap t \<longleftrightarrow>
     xh_max_nodes t \<noteq> 0 \<longrightarrow> length (xh_glist t) + length (xh_flist t) \<le> unat (xh_max_nodes t)"

text \<open>
  The four ways \<open>sfxhash_newnode\<close> answers: a parked node, a fresh block, a stolen node, none.
\<close>

definition stolen :: "'d xhash \<Rightarrow> nat \<Rightarrow> bool" where
  \<comment> \<open>the least recently used node the user lets go\<close>
  "stolen t a \<longleftrightarrow>
     xh_flist t = [] \<and> xh_anr_flag t \<and> \<not> anr_keeps t a \<and>
     (\<exists>pre post. rev (xh_glist t) = pre @ a # post \<and> (\<forall>b \<in> set pre. anr_keeps t b))"

lemma stolen_in: "stolen t a \<Longrightarrow> a \<in> set (xh_glist t)"
proof -
  assume "stolen t a"
  then obtain pre post where "rev (xh_glist t) = pre @ a # post" by (auto simp: stolen_def)
  then have "a \<in> set (rev (xh_glist t))" by simp
  then show ?thesis by simp
qed

definition off_lists :: "'d xhash \<Rightarrow> nat \<Rightarrow> bool" where
  "off_lists t a \<longleftrightarrow> a \<notin> set (xh_glist t) \<and> a \<notin> set (xh_flist t) \<and> xh_nodes t a \<noteq> None"

definition newnode_post :: "'d xhash \<Rightarrow> nat \<Rightarrow> 'd xhash \<Rightarrow> bool" where
  "newnode_post t a t' \<longleftrightarrow>
     xh_wf t' \<and> xh_same_cfg t t' \<and> off_lists t' a \<and>
     (\<forall>b \<in> set (xh_glist t'). xn t' b = xn t b) \<and>
     (if a \<in> set (xh_glist t)
      then stolen t a \<and> xh_glist t' = remove1 a (xh_glist t) \<and> xh_flist t' = [] \<and>
        xh_map t' = (xh_map t)(nkey t a := None) \<and> ndata t' a = ndata t a
      else xh_glist t' = xh_glist t \<and> xh_map t' = xh_map t \<and>
        (if xh_flist t = [] then xh_flist t' = [] \<and> ndata t' a = xh_zero t \<and>
             (xh_max_nodes t = 0 \<or> xh_count t < xh_max_nodes t)
         else xh_flist t = a # xh_flist t' \<and> ndata t' a = ndata t a))"

lemma xh_wf_heap:
  assumes wf: "xh_wf t" and same: "\<And>b. b \<in> set (xh_glist t) \<Longrightarrow> xn t' b = xn t b"
    and gl: "xh_glist t' = xh_glist t" and tab: "xh_table t' = xh_table t"
    and cfg: "xh_nrows t' = xh_nrows t" "xh_fcn t' = xh_fcn t" "xh_keysize t' = xh_keysize t"
    and cnt: "xh_count t' = xh_count t" and heap: "xh_heap_ok t'"
  shows "xh_wf t'" "xh_map t' = xh_map t"
proof -
  have "row_index t' k = row_index t k" for k by (simp add: row_index_def cfg)
  moreover have "xh_linked t'"
    using wf same gl tab by (auto simp: xh_wf_def xh_linked_def)
  moreover have "inj_on (nkey t') (set (xh_glist t'))"
    using wf same gl by (auto simp: xh_wf_def xh_keys_ok_def inj_on_def)
  ultimately show wf': "xh_wf t'"
    using wf same gl tab cfg cnt heap by (simp add: xh_wf_def xh_keys_ok_def)
  show "xh_map t' = xh_map t"
  proof (rule xh_map_eqI [OF wf' wf'])
    show "\<And>k d. (\<exists>b \<in> set (xh_glist t'). nkey t' b = k \<and> ndata t' b = d) \<longleftrightarrow> xh_map t k = Some d"
      unfolding xh_map_Some [OF wf] using same gl by simp
  qed
qed

lemma get_free_node_post:
  assumes wf: "xh_wf t" and fl: "xh_flist t = a # fs"
  shows "newnode_post t a (t\<lparr>xh_flist := fs, xh_anr_count := x\<rparr>)"
proof -
  have "xh_wf (t\<lparr>xh_flist := fs, xh_anr_count := x\<rparr>)"
    using wf fl by (auto simp: xh_wf_defs xn_def row_index_def)
  moreover have "a \<notin> set (xh_glist t)" "a \<notin> set fs" "xh_nodes t a \<noteq> None"
    using wf fl by (auto simp: xh_wf_def xh_heap_ok_def)
  ultimately show ?thesis
    using fl by (simp add: newnode_post_def xh_same_cfg_def off_lists_def xn_def)
qed

lemma fresh_node_post:
  assumes wf: "xh_wf t" and fl: "xh_flist t = []"
    and room: "xh_max_nodes t = 0 \<or> xh_count t < xh_max_nodes t"
    and al: "s_alloc_node os t = (Some a, t')"
  shows "newnode_post t a t'"
proof -
  let ?n = "\<lambda>q. \<lparr>xn_key = [], xn_data = xh_zero t, xn_rindex = 0, xn_size = q\<rparr>"
  obtain q mc where a: "a = xh_fresh t" and
    t': "t' = t\<lparr>xh_mc := mc, xh_fresh := xh_fresh t + 1, xh_nodes := (xh_nodes t)(xh_fresh t := Some (?n q))\<rparr>"
    using al by (auto simp: s_alloc_node_def split: prod.splits option.splits)
  have new: "xh_nodes t a = None"
    using wf a by (metis less_irrefl xh_heap_ok_def xh_wf_def)
  then have off: "a \<notin> set (xh_glist t)"
    using wf unfolding xh_wf_def xh_heap_ok_def by fastforce
  have same: "xn t' b = xn t b" if "b \<in> set (xh_glist t)" for b
    using that off a by (auto simp: t' xn_def)
  have heap: "xh_heap_ok t'"
    using wf off a fl by (auto simp: xh_wf_def xh_heap_ok_def t' less_SucI)
  have "xh_wf t'" "xh_map t' = xh_map t"
    using xh_wf_heap [OF wf same] heap by (simp_all add: t')
  then show ?thesis
    using fl off a same room by (simp add: newnode_post_def xh_same_cfg_def off_lists_def t' xn_def)
qed

lemma steal_post:
  assumes wf: "xh_wf t" and fl: "xh_flist t = []" and anr: "xh_anr_flag t"
    and scan: "anr_scan t (rev (xh_glist t)) = (Some a, t')"
  shows "newnode_post t a t'"
proof -
  obtain pre post x y where st: "rev (xh_glist t) = pre @ a # post" "\<forall>b \<in> set pre. anr_keeps t b"
    "\<not> anr_keeps t a" and t': "t' = evict (t\<lparr>xh_anr_tries := x, xh_anr_count := y\<rparr>) a"
    using anr_scan_Some [OF scan] by blast
  have stolen: "stolen t a" using st fl anr unfolding stolen_def by blast
  have a: "a \<in> set (xh_glist t)" by (rule stolen_in [OF stolen])
  let ?u = "t\<lparr>xh_anr_tries := x, xh_anr_count := y\<rparr>"
  have u: "xh_wf ?u" "a \<in> set (xh_glist ?u)" using wf a by simp_all
  have xn: "xn ?u = xn t" by (simp add: xn_def fun_eq_iff)
  have dist: "distinct (xh_glist t)" using wf by (simp add: xh_wf_def xh_heap_ok_def)
  have heap: "xh_nodes t a \<noteq> None" using wf a by (auto simp: xh_wf_def xh_heap_ok_def)
  have cfg: "xh_same_cfg t t'" by (simp add: xh_same_cfg_def t' evict_def)
  show ?thesis
    using evict_wf [OF u] xn dist a heap stolen fl cfg
    by (simp add: newnode_post_def off_lists_def t' set_remove1_eq)
qed

lemma sfxhash_newnode_Some:
  assumes wf: "xh_wf t" and new: "sfxhash_newnode os t = (Some a, t')"
  shows "newnode_post t a t'"
proof (cases "xh_flist t")
  case (Cons b fs)
  then show ?thesis
    using new get_free_node_post [OF wf Cons]
    by (auto simp: sfxhash_newnode_def sfxhash_get_free_node_def)
next
  case Nil
  let ?room = "xh_max_nodes t = 0 \<or> xh_count t < xh_max_nodes t"
  show ?thesis
  proof (cases "?room \<and> fst (s_alloc_node os t) \<noteq> None")
    case True
    then have "s_alloc_node os t = (Some a, t')"
      using new Nil
      by (auto simp: sfxhash_newnode_def sfxhash_get_free_node_def split: prod.splits option.splits)
    then show ?thesis using fresh_node_post [OF wf Nil] True by blast
  next
    case False
    have mc: "sfmemcap_alloc os (xh_mc t) n = (None, mc) \<Longrightarrow> mc = xh_mc t" for n mc
      using sfmemcap_alloc_fields by blast
    have "(if ?room then s_alloc_node os t else (None, t)) = (None, t)"
      using False mc by (auto simp: s_alloc_node_def s_alloc_def split: prod.splits option.splits)
    then have "xh_anr_flag t \<and> anr_scan t (rev (xh_glist t)) = (Some a, t')"
      using new Nil
      by (auto simp: sfxhash_newnode_def sfxhash_get_free_node_def split: if_splits)
    then show ?thesis using steal_post [OF wf Nil] by blast
  qed
qed

lemma sfxhash_newnode_None:
  assumes new: "sfxhash_newnode os t = (None, t')"
  shows "\<exists>x. t' = t\<lparr>xh_anr_tries := x\<rparr>" and "xh_flist t = []"
    and "xh_anr_flag t \<Longrightarrow> \<forall>a \<in> set (xh_glist t). anr_keeps t a"
    and "(xh_max_nodes t = 0 \<or> xh_count t < xh_max_nodes t) \<Longrightarrow> fst (s_alloc_node os t) = None"
proof -
  have fl: "xh_flist t = []"
    using new by (cases "xh_flist t") (auto simp: sfxhash_newnode_def sfxhash_get_free_node_def)
  have mc: "sfmemcap_alloc os (xh_mc t) n = (None, mc) \<Longrightarrow> mc = xh_mc t" for n mc
    using sfmemcap_alloc_fields by blast
  let ?room = "xh_max_nodes t = 0 \<or> xh_count t < xh_max_nodes t"
  have al: "(if ?room then s_alloc_node os t else (None, t)) = (None, t)"
    using new fl mc
    by (auto simp: sfxhash_newnode_def sfxhash_get_free_node_def s_alloc_node_def s_alloc_def
        split: prod.splits option.splits if_splits)
  then have rest: "(if xh_anr_flag t \<and> xh_glist t \<noteq> [] then anr_scan t (rev (xh_glist t))
      else (None, t)) = (None, t')"
    using new fl by (simp add: sfxhash_newnode_def sfxhash_get_free_node_def)
  show "xh_flist t = []" by (rule fl)
  show "?room \<Longrightarrow> fst (s_alloc_node os t) = None" using al by (simp split: if_splits)
  show "\<exists>x. t' = t\<lparr>xh_anr_tries := x\<rparr>"
  proof (cases "xh_anr_flag t \<and> xh_glist t \<noteq> []")
    case True
    then show ?thesis using rest anr_scan_None [of t "rev (xh_glist t)" t'] by simp
  next
    case False
    then have "t' = t\<lparr>xh_anr_tries := xh_anr_tries t\<rparr>" using rest by auto
    then show ?thesis by blast
  qed
  show "xh_anr_flag t \<Longrightarrow> \<forall>a \<in> set (xh_glist t). anr_keeps t a"
  proof (cases "xh_glist t = []")
    case False
    assume "xh_anr_flag t"
    with False rest have scan: "anr_scan t (rev (xh_glist t)) = (None, t')" by simp
    from anr_scan_None [OF scan, THEN conjunct1] show ?thesis by simp
  qed simp
qed

section \<open>Adding\<close>

lemma install_node_fields [simp]:
  "xh_glist (install_node t a key i d) = a # xh_glist t"
  "xh_flist (install_node t a key i d) = xh_flist t"
  "xh_count (install_node t a key i d) = xh_count t + 1"
  "xh_max_nodes (install_node t a key i d) = xh_max_nodes t"
  "ndata (install_node t a key i d) a = d"
  "nkey (install_node t a key i d) a = take (xh_keysize t) key"
  "b \<noteq> a \<Longrightarrow> xn (install_node t a key i d) b = xn t b"
  by (simp_all add: install_node_def sfxhash_glink_node_def sfxhash_link_node_def xn_def Let_def)

lemma install_node_cfg: "xh_same_cfg t (install_node t a key i d)"
  by (simp add: xh_same_cfg_def install_node_def sfxhash_glink_node_def sfxhash_link_node_def Let_def)

lemma install_node_wf:
  fixes d :: 'd
  assumes wf: "xh_wf t" and off: "off_lists t a" and len: "xh_keysize t \<le> length key"
    and new: "xh_node_of t (take (xh_keysize t) key) = None"
  defines "t' \<equiv> install_node t a key (row_index t key) d"
  shows "xh_wf t'" "xh_map t' = (xh_map t)(take (xh_keysize t) key \<mapsto> d)"
proof -
  let ?k = "take (xh_keysize t) key" and ?i = "row_index t key"
  have i: "?i < length (xh_table t)" using wf row_index_bound [of t key] by (simp add: xh_wf_def)
  have cfg: "row_index t' k = row_index t k" "xh_keysize t' = xh_keysize t" "xh_nrows t' = xh_nrows t" for k
    using install_node_cfg [of t a key ?i d] xh_same_cfg_row [of t t' k]
    by (simp_all add: t'_def xh_same_cfg_def)
  have gl: "xh_glist t' = a # xh_glist t" "xh_flist t' = xh_flist t" by (simp_all add: t'_def)
  have a: "a \<notin> set (xh_glist t)" "a \<notin> set (xh_flist t)" "xh_nodes t a \<noteq> None"
    using off by (simp_all add: off_lists_def)
  have row: "nrow t' a = ?i" "nkey t' a = ?k" "ndata t' a = d"
    by (simp_all add: t'_def install_node_def sfxhash_glink_node_def sfxhash_link_node_def xn_def Let_def)
  have same: "xn t' b = xn t b" if "b \<in> set (xh_glist t)" for b
    unfolding t'_def by (rule install_node_fields(7)) (use that a in blast)
  have tab: "xh_table t' = (xh_table t)[?i := a # xh_table t ! ?i]"
    by (simp add: t'_def install_node_def sfxhash_glink_node_def sfxhash_link_node_def xn_def Let_def)
  have "xh_linked t'"
    unfolding xh_linked_def
  proof (intro allI impI)
    fix r assume r: "r < length (xh_table t')"
    then have r': "distinct (xh_table t ! r)" "set (xh_table t ! r) = {b \<in> set (xh_glist t). nrow t b = r}"
      using wf by (auto simp: tab xh_wf_def xh_linked_def)
    show "distinct (xh_table t' ! r) \<and> set (xh_table t' ! r) = {b \<in> set (xh_glist t'). nrow t' b = r}"
      using r' r i a same row by (cases "r = ?i") (auto simp: tab gl)
  qed
  moreover have "xh_keys_ok t'"
  proof -
    have "inj_on (nkey t) (set (xh_glist t))" using wf by (simp add: xh_wf_def xh_keys_ok_def)
    then have "inj_on (nkey t') (set (xh_glist t))" using same by (simp add: inj_on_def)
    moreover have "?k \<notin> nkey t' ` set (xh_glist t)"
      using new same by (auto simp: xh_node_of_None)
    ultimately show ?thesis
      using wf same row len cfg a by (auto simp: xh_wf_def xh_keys_ok_def gl)
  qed
  moreover have "xh_heap_ok t'"
    using wf a
    by (auto simp: xh_wf_def xh_heap_ok_def t'_def install_node_def sfxhash_glink_node_def
        sfxhash_link_node_def Let_def)
  ultimately show wf': "xh_wf t'"
    using wf cfg gl by (simp add: xh_wf_def tab) (simp add: t'_def)
  show "xh_map t' = (xh_map t)(?k \<mapsto> d)"
  proof (rule xh_map_eqI [OF wf' wf'])
    fix k e
    have "(\<exists>b \<in> set (xh_glist t'). nkey t' b = k \<and> ndata t' b = e) \<longleftrightarrow>
        ?k = k \<and> d = e \<or> (\<exists>b \<in> set (xh_glist t). nkey t b = k \<and> ndata t b = e)"
      using row same by (auto simp: gl)
    also have "\<dots> \<longleftrightarrow> ((xh_map t)(?k \<mapsto> d)) k = Some e"
      using new by (auto simp: xh_map_Some [OF wf] xh_node_of_None)
    finally show "(\<exists>b \<in> set (xh_glist t'). nkey t' b = k \<and> ndata t' b = e) \<longleftrightarrow>
        ((xh_map t)(?k \<mapsto> d)) k = Some e" .
  qed
qed

lemma sfxhash_newnode_memcap:
  fixes t :: "'d xhash"
  assumes ok: "memcap_ok (xh_mc t)"
  shows "memcap_ok (xh_mc (snd (sfxhash_newnode os t)))"
proof -
  have scan: "xh_mc (snd (anr_scan u as)) = xh_mc u" for u :: "'d xhash" and as
    by (induction u as rule: anr_scan.induct)
       (auto simp: Let_def sfxhash_unlink_node_def sfxhash_gunlink_node_def)
  have al: "memcap_ok (xh_mc (snd (s_alloc_node os u)))" if "memcap_ok (xh_mc u)" for u :: "'d xhash"
    using memcap_ok_alloc [OF that, of os "scast (ucast (node_bytes u) :: u32)"]
    by (auto simp: s_alloc_node_def s_alloc_def split: prod.splits option.splits)
  have free: "xh_mc (snd (sfxhash_get_free_node t)) = xh_mc t"
    by (simp add: sfxhash_get_free_node_def split: list.split)
  show ?thesis
  proof (cases "sfxhash_get_free_node t")
    case (Pair r t1)
    have ok1: "memcap_ok (xh_mc t1)" using free ok Pair by simp
    then have "memcap_ok (xh_mc (snd (s_alloc_node os t1)))" by (rule al)
    then show ?thesis
      using ok1 Pair scan
      by (cases r; cases "s_alloc_node os t1"; cases "fst (s_alloc_node os t1)")
         (auto simp: sfxhash_newnode_def)
  qed
qed

lemma newnode_room:
  assumes wf: "xh_wf t" and cap: "xh_cap t" and post: "newnode_post t a t2"
    and max: "xh_max_nodes t \<noteq> 0"
  shows "length (xh_glist t2) + length (xh_flist t2) < unat (xh_max_nodes t)"
proof -
  have le: "length (xh_glist t) + length (xh_flist t) \<le> unat (xh_max_nodes t)"
    using cap max by (simp add: xh_cap_def)
  show ?thesis
  proof (cases "a \<in> set (xh_glist t)")
    case True
    then have "xh_glist t2 = remove1 a (xh_glist t)" "xh_flist t2 = []"
      using post by (simp_all add: newnode_post_def)
    then show ?thesis using le length_pos_if_in_set [OF True] True
      by (simp add: length_remove1 del: length_greater_0_conv)
  next
    case False
    then have gl: "xh_glist t2 = xh_glist t" using post by (simp add: newnode_post_def)
    show ?thesis
    proof (cases "xh_flist t")
      case Nil
      have "length (xh_glist t) < 4294967296"
        using le unat_u32_bound [of "xh_max_nodes t"] by linarith
      moreover have "xh_count t < xh_max_nodes t" "xh_flist t2 = []"
        using post False Nil max by (simp_all add: newnode_post_def)
      ultimately show ?thesis
        using wf gl by (simp add: xh_wf_def word_less_nat_alt unat_of_nat_u32)
    next
      case (Cons b fs)
      then have "xh_flist t = a # xh_flist t2" using post False by (simp add: newnode_post_def)
      then show ?thesis using le gl by simp
    qed
  qed
qed

lemma install_node_bounded:
  assumes wf: "xh_wf t" and new: "sfxhash_newnode os t = (Some a, t2)"
  shows "xh_cap t \<Longrightarrow> xh_cap (install_node t2 a key i d)"
    "memcap_ok (xh_mc t) \<Longrightarrow> memcap_ok (xh_mc (install_node t2 a key i d))"
proof -
  have post: "newnode_post t a t2" by (rule sfxhash_newnode_Some [OF wf new])
  have "xh_max_nodes t2 = xh_max_nodes t"
    using post by (simp add: newnode_post_def xh_same_cfg_def)
  then show "xh_cap t \<Longrightarrow> xh_cap (install_node t2 a key i d)"
    using newnode_room [OF wf _ post] by (auto simp: xh_cap_def Suc_le_eq)
  have "xh_mc (install_node t2 a key i d) = xh_mc t2"
    by (simp add: install_node_def sfxhash_glink_node_def sfxhash_link_node_def Let_def)
  then show "memcap_ok (xh_mc t) \<Longrightarrow> memcap_ok (xh_mc (install_node t2 a key i d))"
    using sfxhash_newnode_memcap [of t os] new by simp
qed

text \<open>The map a new key goes into: what a stolen node held is gone.\<close>

definition without_node :: "'d xhash \<Rightarrow> nat \<Rightarrow> bytes \<Rightarrow> 'd option" where
  "without_node t a = (if a \<in> set (xh_glist t) then (xh_map t)(nkey t a := None) else xh_map t)"

definition added :: "'d xhash \<Rightarrow> bytes \<Rightarrow> 'd \<Rightarrow> nat \<Rightarrow> 'd xhash \<Rightarrow> bool" where
  "added t k d a t' \<longleftrightarrow>
     xh_wf t' \<and> xh_same_cfg t t' \<and> xh_map t' = (without_node t a)(k \<mapsto> d) \<and>
     xh_node_of t' k = Some a \<and> xh_glist t' = a # remove1 a (xh_glist t) \<and> (a \<in> set (xh_glist t) \<longrightarrow> stolen t a) \<and>
     (xh_cap t \<longrightarrow> xh_cap t') \<and> (memcap_ok (xh_mc t) \<longrightarrow> memcap_ok (xh_mc t'))"

lemma newnode_install:
  assumes wf: "xh_wf t" and new: "sfxhash_newnode os t = (Some a, t2)"
    and len: "xh_keysize t \<le> length key" and miss: "xh_node_of t (take (xh_keysize t) key) = None"
  shows "added t (take (xh_keysize t) key) d a (install_node t2 a key (row_index t key) d)"
proof -
  let ?k = "take (xh_keysize t) key"
  have post: "newnode_post t a t2" by (rule sfxhash_newnode_Some [OF wf new])
  then have wf2: "xh_wf t2" and off: "off_lists t2 a" and cfg: "xh_same_cfg t t2"
    by (simp_all add: newnode_post_def)
  have ks: "xh_keysize t2 = xh_keysize t" and row: "row_index t2 key = row_index t key"
    using cfg xh_same_cfg_row [OF cfg] by (simp_all add: xh_same_cfg_def)
  have gl: "xh_glist t2 = remove1 a (xh_glist t)" "a \<in> set (xh_glist t) \<longrightarrow> stolen t a"
    using post by (auto simp: newnode_post_def remove1_idem split: if_splits)
  have miss2: "xh_node_of t2 (take (xh_keysize t2) key) = None"
    using miss post gl by (auto simp: xh_node_of_None newnode_post_def ks dest: notin_set_remove1)
  have map2: "xh_map t2 = without_node t a"
    using post by (auto simp: newnode_post_def without_node_def split: if_splits)
  have "xh_wf (install_node t2 a key (row_index t2 key) d)"
    "xh_map (install_node t2 a key (row_index t2 key) d) = (xh_map t2)(?k \<mapsto> d)"
    using install_node_wf [OF wf2 off _ miss2, of d] len by (simp_all add: ks)
  moreover from this have "xh_node_of (install_node t2 a key (row_index t2 key) d) ?k = Some a"
    by (simp add: xh_node_of_Some ks)
  ultimately show ?thesis
    using gl map2 xh_same_cfg_trans [OF cfg install_node_cfg] install_node_bounded [OF wf new]
    by (simp add: added_def row)
qed

lemma find_fail_frame [simp]:
  "xh_node_of (t\<lparr>xh_find_fail := x\<rparr>) k = xh_node_of t k"
    "added (t\<lparr>xh_find_fail := x\<rparr>) k d a t' = added t k d a t'"
    "row_index (t\<lparr>xh_find_fail := x\<rparr>) k = row_index t k"
  by (simp_all add: xh_node_of_def xn_def added_def xh_same_cfg_def without_node_def stolen_def
      anr_keeps_def row_index_def xh_cap_def cong: option.case_cong)

lemma hit_iff: "xh_map t k \<noteq> None \<longleftrightarrow> xh_node_of t k \<noteq> None"
  by (simp add: xh_map_node)

lemma movetofront_cfg:
  assumes wf: "xh_wf t" and a: "a \<in> set (xh_glist t)"
  shows "xh_same_cfg t (movetofront t a)" "xh_flist (movetofront t a) = xh_flist t"
    "xh_mc (movetofront t a) = xh_mc t" "xh_nodes (movetofront t a) = xh_nodes t"
proof -
  have "nrow t a < length (xh_table t)"
    using wf a row_index_bound [of t "nkey t a"] by (auto simp: xh_wf_def xh_keys_ok_def)
  then show "xh_same_cfg t (movetofront t a)" "xh_flist (movetofront t a) = xh_flist t"
    "xh_mc (movetofront t a) = xh_mc t" "xh_nodes (movetofront t a) = xh_nodes t"
    using movetofront_eq [of t a] by (auto simp: xh_same_cfg_def)
qed

definition touched :: "'d xhash \<Rightarrow> nat \<Rightarrow> 'd xhash \<Rightarrow> bool" where
  \<comment> \<open>a successful lookup: same map, the node moved to the front when splaying\<close>
  "touched t a t' \<longleftrightarrow>
     xh_wf t' \<and> xh_same_cfg t t' \<and> xh_map t' = xh_map t \<and> ndata t' a = ndata t a \<and>
     xh_flist t' = xh_flist t \<and> xh_mc t' = xh_mc t \<and> xh_nodes t' = xh_nodes t \<and>
     xh_glist t' = (if xh_splay t then a # remove1 a (xh_glist t) else xh_glist t)"

lemma find_node_row_touched:
  assumes wf: "xh_wf t" and hit: "xh_node_of t (take (xh_keysize t) key) = Some a"
  shows "\<exists>t'. sfxhash_find_node_row t key = (Some a, row_index t key, t') \<and> touched t a t'"
proof -
  have a: "a \<in> set (xh_glist t)" using hit by (simp add: xh_node_of_Some [OF wf])
  obtain t' where t': "sfxhash_find_node_row t key = (Some a, row_index t key, t')" "xh_wf t'"
    "xh_map t' = xh_map t" "ndata t' a = ndata t a"
    "xh_glist t' = (if xh_splay t then a # remove1 a (xh_glist t) else xh_glist t)"
    using find_node_row_hit [OF wf hit] by blast
  then have "xh_same_cfg t t'" "xh_flist t' = xh_flist t" "xh_mc t' = xh_mc t"
    "xh_nodes t' = xh_nodes t"
    using movetofront_cfg [OF wf a]
    by (auto simp: sfxhash_find_node_row_def find_row_node [OF wf] hit Let_def xh_same_cfg_def)
  then show ?thesis using t' by (auto simp: touched_def)
qed

lemma touched_cnode [simp]: "touched t a (t'\<lparr>xh_cnode := x\<rparr>) = touched t a t'"
  by (simp add: touched_def xh_same_cfg_def xn_def)

lemma added_cnode [simp]: "added t k d a (t'\<lparr>xh_cnode := x\<rparr>) = added t k d a t'"
  by (simp add: added_def xh_same_cfg_def xh_cap_def xh_node_of_def xn_def)

lemma added_data:
  assumes "added t k d a t'" shows "xh_map t' k = Some d" "xh_wf t'"
  using assms by (simp_all add: added_def)

text \<open>
  Nothing to give out: no parked node, and either recovery is off or every node is kept; if
  \<open>max_nodes\<close> leaves room, the allocator itself refused.
\<close>

definition out_of_nodes :: "(u64 \<Rightarrow> bool) \<Rightarrow> 'd xhash \<Rightarrow> bool" where
  "out_of_nodes os t \<longleftrightarrow>
     xh_flist t = [] \<and>
     (xh_anr_flag t \<longrightarrow> (\<forall>a \<in> set (xh_glist t). anr_keeps t a)) \<and>
     (xh_max_nodes t = 0 \<or> xh_count t < xh_max_nodes t \<longrightarrow>
        fst (sfmemcap_alloc os (xh_mc t) (scast (ucast (node_bytes t) :: u32))) = None)"

definition unchanged :: "'d xhash \<Rightarrow> 'd xhash \<Rightarrow> bool" where
  "unchanged t t' \<longleftrightarrow> xh_wf t' \<and> xh_same_cfg t t' \<and> xh_map t' = xh_map t \<and> xh_glist t' = xh_glist t \<and>
     xh_flist t' = xh_flist t \<and> xh_mc t' = xh_mc t"

lemma newnode_fails:
  assumes wf: "xh_wf t" and new: "sfxhash_newnode os (t\<lparr>xh_find_fail := x\<rparr>) = (None, t')"
  shows "unchanged t t'" "out_of_nodes os t"
proof -
  note n = sfxhash_newnode_None [OF new]
  obtain y where "t' = t\<lparr>xh_find_fail := x, xh_anr_tries := y\<rparr>" using n(1) by blast
  then show "unchanged t t'" using wf by (simp add: unchanged_def xh_same_cfg_def)
  show "out_of_nodes os t"
    using n(2-4)
    by (auto simp: out_of_nodes_def anr_keeps_def xn_def s_alloc_node_def s_alloc_def node_bytes_def
        cong: option.case_cong split: prod.splits option.splits)
qed

text \<open>
  When a node is taken from another key: no parked node, and no room or no memory for another.
\<close>

definition no_spare :: "(u64 \<Rightarrow> bool) \<Rightarrow> 'd xhash \<Rightarrow> bool" where
  "no_spare os t \<longleftrightarrow>
     xh_flist t = [] \<and>
     (xh_max_nodes t = 0 \<or> xh_count t < xh_max_nodes t \<longrightarrow>
        fst (sfmemcap_alloc os (xh_mc t) (scast (ucast (node_bytes t) :: u32))) = None)"

lemma newnode_steals:
  assumes wf: "xh_wf t" and new: "sfxhash_newnode os (t\<lparr>xh_find_fail := x\<rparr>) = (Some a, t2)"
    and a: "a \<in> set (xh_glist t)"
  shows "stolen t a \<and> no_spare os t"
proof -
  let ?t = "t\<lparr>xh_find_fail := x\<rparr>"
  have wf': "xh_wf ?t" using wf by simp
  have st: "stolen t a"
    using sfxhash_newnode_Some [OF wf' new] a
    by (simp add: newnode_post_def stolen_def anr_keeps_def xn_def cong: option.case_cong)
  then have fl: "xh_flist t = []" by (simp add: stolen_def)
  have "fst (sfmemcap_alloc os (xh_mc t) (scast (ucast (node_bytes t) :: u32))) = None"
    if room: "xh_max_nodes t = 0 \<or> xh_count t < xh_max_nodes t"
  proof (rule ccontr)
    assume "fst (sfmemcap_alloc os (xh_mc t) (scast (ucast (node_bytes t) :: u32))) \<noteq> None"
    then have al: "fst (s_alloc_node os ?t) = Some (xh_fresh t)"
      by (auto simp: s_alloc_node_def s_alloc_def node_bytes_def split: prod.splits option.splits)
    then have "sfxhash_newnode os ?t = s_alloc_node os ?t"
      using fl room by (auto simp: sfxhash_newnode_def sfxhash_get_free_node_def split: prod.splits option.splits)
    then have "Some a = Some (xh_fresh t)" using new al by (metis fst_conv)
    then have "a = xh_fresh t" by simp
    moreover have "xh_nodes t a \<noteq> None" "\<forall>b. xh_nodes t b \<noteq> None \<longrightarrow> b < xh_fresh t"
      using wf a by (auto simp: xh_wf_def xh_heap_ok_def)
    ultimately show False by (metis less_irrefl)
  qed
  then show ?thesis using st fl by (simp add: no_spare_def)
qed

text \<open>Without \<open>anrfree\<close> it is the least recently used node.\<close>

lemma newnode_lru:
  assumes wf: "xh_wf t" and ns: "no_spare os t" and anr: "xh_anr_flag t" "xh_anrfree t = None" and ne: "xh_glist t \<noteq> []"
  shows "\<exists>t2. sfxhash_newnode os (t\<lparr>xh_find_fail := x\<rparr>) = (Some (last (xh_glist t)), t2)"
proof -
  let ?t = "t\<lparr>xh_find_fail := x\<rparr>"
  have mc: "sfmemcap_alloc os (xh_mc t) n = (None, mc) \<Longrightarrow> mc = xh_mc t" for n mc
    using sfmemcap_alloc_fields by blast
  have al: "(if xh_max_nodes ?t = 0 \<or> xh_count ?t < xh_max_nodes ?t then s_alloc_node os ?t else (None, ?t)) = (None, ?t)"
    using ns mc by (auto simp: no_spare_def s_alloc_node_def s_alloc_def node_bytes_def split: prod.splits option.splits)
  then have eq: "sfxhash_newnode os ?t = anr_scan ?t (rev (xh_glist t))"
    using ns anr ne by (simp add: sfxhash_newnode_def sfxhash_get_free_node_def no_spare_def)
  obtain b t2 where "rev (xh_glist t) = last (xh_glist t) # b" "anr_scan ?t (rev (xh_glist t)) = (Some (last (xh_glist t)), t2)"
    using anr ne by (cases "xh_glist t" rule: rev_cases) (auto simp: Let_def)
  then show ?thesis using eq by simp
qed

text \<open>The binding of \<open>j\<close> that a new node for \<open>k\<close> costs.\<close>

definition xh_lost :: "(u64 \<Rightarrow> bool) \<Rightarrow> 'd xhash \<Rightarrow> bytes \<Rightarrow> bytes \<Rightarrow> bool" where
  "xh_lost os t k j \<longleftrightarrow>
     xh_map t k = None \<and> no_spare os t \<and> (\<exists>a. stolen t a \<and> xh_node_of t j = Some a)"

lemma added_lost:
  assumes wf: "xh_wf t" and new: "sfxhash_newnode os (t\<lparr>xh_find_fail := x\<rparr>) = (Some a, t2)"
    and miss: "xh_node_of t k = None" and add: "added t k d a t'" and j: "j \<noteq> k"
  shows "xh_map t' j = xh_map t j \<or> xh_map t' j = None \<and> xh_lost os t k j"
proof (cases "a \<in> set (xh_glist t) \<and> nkey t a = j")
  case True
  then have "xh_node_of t j = Some a" by (simp add: xh_node_of_Some [OF wf])
  then show ?thesis
    using True add j miss newnode_steals [OF wf new]
    by (auto simp: added_def without_node_def xh_lost_def xh_map_node)
next
  case False
  then show ?thesis using add j by (auto simp: added_def without_node_def)
qed

lemma add_ex_cases:
  assumes wf: "xh_wf t" and len: "xh_keysize t \<le> length key"
  defines "k \<equiv> take (xh_keysize t) key"
  obtains (found) a t' where "xh_node_of t k = Some a"
      "sfxhash_add_ex os t key data = (XInTable, Some a, t')" "touched t a t'"
      "sfxhash_get_node os t key = (Some a, t')"
  | (nomem) t' where "xh_node_of t k = None" "sfxhash_add_ex os t key data = (XNoMem, None, t')"
      "unchanged t t'" "out_of_nodes os t" "sfxhash_get_node os t key = (None, t')"
  | (ok) a t2 t' t'' where "xh_node_of t k = None"
      "sfxhash_newnode os (t\<lparr>xh_find_fail := xh_find_fail t + 1\<rparr>) = (Some a, t2)"
      "sfxhash_add_ex os t key data = (XOk, Some a, t')" "sfxhash_get_node os t key = (Some a, t'')"
      "added t k (case data of Some d \<Rightarrow> d
                  | None \<Rightarrow> if xh_datasize t > 0 then ndata t2 a else xh_zero t) a t'"
      "added t k (if xh_datasize t > 0 then ndata t2 a else xh_zero t) a t''"
proof (cases "xh_node_of t k")
  case (Some a)
  then obtain t' where t': "sfxhash_find_node_row t key = (Some a, row_index t key, t')" "touched t a t'"
    using find_node_row_touched [OF wf] k_def by blast
  show thesis
    by (rule found [OF Some, of "t'\<lparr>xh_cnode := Some a\<rparr>"])
       (use t' in \<open>simp_all add: sfxhash_add_ex_def sfxhash_get_node_def\<close>)
next
  case None
  let ?t1 = "t\<lparr>xh_find_fail := xh_find_fail t + 1\<rparr>"
  have row: "sfxhash_find_node_row t key = (None, row_index t key, ?t1)"
    using find_node_row_miss [OF wf] None k_def by blast
  show thesis
  proof (cases "sfxhash_newnode os ?t1")
    case (Pair r t2)
    show thesis
    proof (cases r)
      case None': None
      have "sfxhash_newnode os ?t1 = (None, t2)" using Pair None' by simp
      from newnode_fails [OF wf this] show thesis
        by (rule nomem [OF None, rotated]) (use row Pair None' in \<open>simp_all add: sfxhash_add_ex_def sfxhash_get_node_def\<close>)
    next
      case (Some a)
      have new: "sfxhash_newnode os ?t1 = (Some a, t2)" using Pair Some by simp
      have wf1: "xh_wf ?t1" and len1: "xh_keysize ?t1 \<le> length key"
        and miss: "xh_node_of ?t1 (take (xh_keysize ?t1) key) = None"
        using wf len None by (simp_all add: k_def)
      have cfg: "xh_datasize t2 = xh_datasize t" "xh_zero t2 = xh_zero t"
        using sfxhash_newnode_Some [OF wf1 new] by (simp_all add: newnode_post_def xh_same_cfg_def)
      have add: "added t k d a (install_node t2 a key (row_index t key) d)" for d
        using newnode_install [OF wf1 new len1 miss, of d] by (simp add: k_def)
      show thesis
        by (rule ok [OF None new])
           (use row new cfg add in \<open>(simp add: sfxhash_add_ex_def sfxhash_get_node_def Let_def
              split del: if_split)+\<close>)
    qed
  qed
qed

end
