(* ===== verification/XHashProps.thy ===== *)
theory XHashProps
  imports XHashMap
begin

text \<open>
  The properties of \<open>sfxhash\<close>: removal, recovery, sequences of operations, row iteration and the
  row count, over the refinement of \<open>XHashMap\<close>.
\<close>

section \<open>Removing\<close>

definition removed :: "'d xhash \<Rightarrow> nat \<Rightarrow> 'd xhash \<Rightarrow> bool" where
  "removed t a t' \<longleftrightarrow>
     xh_wf t' \<and> xh_same_cfg t t' \<and> xh_map t' = (xh_map t)(nkey t a := None) \<and>
     xh_glist t' = remove1 a (xh_glist t) \<and>
     xh_flist t' = (if xh_recycle t then a # xh_flist t else xh_flist t) \<and>
     xh_nodes t' a = (if xh_recycle t then xh_nodes t a else None) \<and>
     xh_freed t' = xh_freed t @ (if xh_usrfree t then [(nkey t a, ndata t a)] else [])"

lemma park_wf:
  assumes wf: "xh_wf t" and off: "off_lists t a"
  shows "xh_wf (sfxhash_save_free_node t a)" "xh_map (sfxhash_save_free_node t a) = xh_map t"
proof -
  have heap: "xh_heap_ok (sfxhash_save_free_node t a)"
    using wf off by (auto simp: xh_wf_def xh_heap_ok_def off_lists_def sfxhash_save_free_node_def)
  show "xh_wf (sfxhash_save_free_node t a)" "xh_map (sfxhash_save_free_node t a) = xh_map t"
    using xh_wf_heap [OF wf _ _ _ _ _ _ _ heap]
    by (simp_all add: sfxhash_save_free_node_def xn_def)
qed

lemma drop_wf:
  assumes wf: "xh_wf t" and off: "off_lists t a"
  shows "xh_wf (s_free_node t a)" "xh_map (s_free_node t a) = xh_map t"
proof -
  have a: "a \<notin> set (xh_glist t)" "a \<notin> set (xh_flist t)" using off by (simp_all add: off_lists_def)
  then have heap: "xh_heap_ok (s_free_node t a)"
    using wf by (auto simp: xh_wf_def xh_heap_ok_def s_free_node_def)
  have "xn (s_free_node t a) b = xn t b" if "b \<in> set (xh_glist t)" for b
    using that a by (auto simp: s_free_node_def xn_def)
  then show "xh_wf (s_free_node t a)" "xh_map (s_free_node t a) = xh_map t"
    using xh_wf_heap [OF wf _ _ _ _ _ _ _ heap] by (simp_all add: s_free_node_def)
qed

lemma free_node_removed:
  assumes wf: "xh_wf t" and a: "a \<in> set (xh_glist t)"
  shows "removed t a (sfxhash_free_node t a)"
proof -
  define fr where "fr = xh_freed t @ (if xh_usrfree t then [(nkey t a, ndata t a)] else [])"
  let ?e = "(evict t a)\<lparr>xh_freed := fr\<rparr>"
  have xn_e: "xn ?e = xn t" by (simp add: xn_def fun_eq_iff)
  have dist: "distinct (xh_glist t)" and fl: "a \<notin> set (xh_flist t)" and nd: "xh_nodes t a \<noteq> None"
    using wf a by (auto simp: xh_wf_def xh_heap_ok_def)
  have eq: "sfxhash_free_node t a =
      (if xh_recycle t then sfxhash_save_free_node ?e a else s_free_node ?e a)"
  proof -
    have cnt: "xh_count (sfxhash_gunlink_node (sfxhash_unlink_node t a) a) = xh_count t"
      by (simp add: sfxhash_gunlink_node_def sfxhash_unlink_node_def)
    have id: "(evict t a)\<lparr>xh_freed := xh_freed t\<rparr> = evict t a" by (simp add: evict_def)
    show ?thesis
      by (cases "xh_usrfree t")
         (simp_all add: sfxhash_free_node_def Let_def cnt evict_unlink(2) fr_def id)
  qed
  have wf_e: "xh_wf ?e" "xh_map ?e = (xh_map t)(nkey t a := None)" using evict_wf [OF wf a] by simp_all
  have off: "off_lists ?e a" using dist fl nd by (simp add: off_lists_def set_remove1_eq)
  have cfg: "xh_same_cfg t (sfxhash_free_node t a)"
    by (simp add: eq xh_same_cfg_def sfxhash_save_free_node_def s_free_node_def evict_def)
  show ?thesis
    using park_wf [OF wf_e(1) off] drop_wf [OF wf_e(1) off] wf_e(2) cfg
    by (cases "xh_recycle t")
       (simp_all add: removed_def eq fr_def sfxhash_save_free_node_def s_free_node_def)
qed

lemma removed_cap: "removed t a t' \<Longrightarrow> a \<in> set (xh_glist t) \<Longrightarrow> xh_cap t \<Longrightarrow> xh_cap t'"
proof -
  assume "removed t a t'" "a \<in> set (xh_glist t)" "xh_cap t"
  then have "length (xh_glist t') + length (xh_flist t') \<le> length (xh_glist t) + length (xh_flist t)"
    using length_pos_if_in_set [of a "xh_glist t"]
    by (simp add: removed_def length_remove1 del: length_greater_0_conv)
  then show "xh_cap t'"
    using \<open>removed t a t'\<close> \<open>xh_cap t\<close> by (auto simp: xh_cap_def removed_def xh_same_cfg_def)
qed

lemma remove_cases:
  assumes wf: "xh_wf t"
  obtains (gone) a where "xh_node_of t (take (xh_keysize t) key) = Some a"
      "sfxhash_remove t key = (XOk, sfxhash_free_node t a)" "a \<in> set (xh_glist t)"
      "nkey t a = take (xh_keysize t) key"
  | (absent) "xh_node_of t (take (xh_keysize t) key) = None" "sfxhash_remove t key = (XErr, t)"
proof (cases "xh_node_of t (take (xh_keysize t) key)")
  case None
  then show thesis using absent find_row_node [OF wf] by (simp add: sfxhash_remove_def)
next
  case (Some a)
  then show thesis
    by (intro gone [of a])
       (simp_all add: sfxhash_remove_def find_row_node [OF wf] xh_node_of_Some [OF wf, THEN iffD1])
qed

text \<open>A parked node leaves for good.\<close>

lemma get_free_drop:
  assumes wf: "xh_wf t" and get: "sfxhash_get_free_node t = (Some a, t1)"
  shows "xh_wf (s_free_node t1 a)" "xh_map (s_free_node t1 a) = xh_map t"
    "xh_glist (s_free_node t1 a) = xh_glist t" "xh_flist t = a # xh_flist (s_free_node t1 a)"
    "xh_same_cfg t (s_free_node t1 a)"
proof -
  obtain fs x where fl: "xh_flist t = a # fs" and t1: "t1 = t\<lparr>xh_flist := fs, xh_anr_count := x\<rparr>"
    using get by (cases "xh_flist t") (auto simp: sfxhash_get_free_node_def)
  have post: "newnode_post t a t1" unfolding t1 by (rule get_free_node_post [OF wf fl])
  have al: "a \<notin> set (xh_glist t)" using wf fl by (auto simp: xh_wf_def xh_heap_ok_def)
  from post have wf1: "xh_wf t1" and off: "off_lists t1 a" and mp: "xh_map t1 = xh_map t"
    using al by (simp_all add: newnode_post_def)
  show "xh_wf (s_free_node t1 a)" "xh_map (s_free_node t1 a) = xh_map t"
    using drop_wf [OF wf1 off] mp by simp_all
  show "xh_glist (s_free_node t1 a) = xh_glist t" "xh_flist t = a # xh_flist (s_free_node t1 a)"
    "xh_same_cfg t (s_free_node t1 a)"
    by (simp_all add: s_free_node_def t1 fl xh_same_cfg_def)
qed

section \<open>Sequences of operations\<close>

datatype 'd xop =
  OpAdd bytes "'d option" | OpGet bytes | OpFind bytes | OpRemove bytes | OpFreeAnr | OpFreeAnrLru

primrec xh_step :: "(u64 \<Rightarrow> bool) \<Rightarrow> 'd xhash \<Rightarrow> 'd xop \<Rightarrow> 'd xhash" where
  "xh_step os t (OpAdd key data) = snd (sfxhash_add os t key data)"
| "xh_step os t (OpGet key) = snd (sfxhash_get_node os t key)"
| "xh_step os t (OpFind key) = snd (sfxhash_find t key)"
| "xh_step os t (OpRemove key) = snd (sfxhash_remove t key)"
| "xh_step os t OpFreeAnr = snd (sfxhash_free_anr t)"
| "xh_step os t OpFreeAnrLru = snd (sfxhash_free_anr_lru t)"

primrec xop_key_ok :: "'d xhash \<Rightarrow> 'd xop \<Rightarrow> bool" where
  "xop_key_ok t (OpAdd key data) = (xh_keysize t \<le> length key)"
| "xop_key_ok t (OpGet key) = (xh_keysize t \<le> length key)"
| "xop_key_ok t (OpFind key) = (xh_keysize t \<le> length key)"
| "xop_key_ok t (OpRemove key) = (xh_keysize t \<le> length key)"
| "xop_key_ok t OpFreeAnr = True"
| "xop_key_ok t OpFreeAnrLru = True"

definition xh_inv :: "'d xhash \<Rightarrow> 'd xhash \<Rightarrow> bool" where
  "xh_inv t0 t \<longleftrightarrow> xh_wf t \<and> xh_cap t \<and> xh_same_cfg t0 t"

lemma touched_inv: "touched t a t' \<Longrightarrow> a \<in> set (xh_glist t) \<Longrightarrow> xh_inv t0 t \<Longrightarrow> xh_inv t0 t'"
proof -
  assume h: "touched t a t'" "a \<in> set (xh_glist t)" "xh_inv t0 t"
  have "length (xh_glist t') = length (xh_glist t)"
    using h(1) length_pos_if_in_set [OF h(2)] h(2)
    by (simp add: touched_def length_remove1 del: length_greater_0_conv)
  then show ?thesis
    using h xh_same_cfg_trans [of t0 t t']
    by (auto simp: touched_def xh_inv_def xh_cap_def xh_same_cfg_def)
qed

lemma added_inv: "added t k d a t' \<Longrightarrow> xh_inv t0 t \<Longrightarrow> xh_inv t0 t'"
  using xh_same_cfg_trans [of t0 t t'] by (auto simp: added_def xh_inv_def)

lemma unchanged_inv: "unchanged t t' \<Longrightarrow> xh_inv t0 t \<Longrightarrow> xh_inv t0 t'"
  using xh_same_cfg_trans [of t0 t t'] by (auto simp: unchanged_def xh_inv_def xh_cap_def xh_same_cfg_def)

lemma removed_inv: "removed t a t' \<Longrightarrow> a \<in> set (xh_glist t) \<Longrightarrow> xh_inv t0 t \<Longrightarrow> xh_inv t0 t'"
  using xh_same_cfg_trans [of t0 t t'] removed_cap [of t a t'] by (auto simp: removed_def xh_inv_def)

lemma get_free_drop_inv:
  assumes inv: "xh_inv t0 t" and get: "sfxhash_get_free_node t = (Some a, t1)"
  shows "xh_inv t0 (s_free_node t1 a)"
proof -
  have wf: "xh_wf t" using inv by (simp add: xh_inv_def)
  note d = get_free_drop [OF wf get]
  have "xh_cap (s_free_node t1 a)"
    using inv d by (auto simp: xh_inv_def xh_cap_def xh_same_cfg_def)
  then show ?thesis using inv d xh_same_cfg_trans by (auto simp: xh_inv_def)
qed

lemma find_inv:
  assumes inv: "xh_inv t0 t"
  shows "xh_inv t0 (snd (sfxhash_find t key))"
proof -
  have wf: "xh_wf t" using inv by (simp add: xh_inv_def)
  show ?thesis
  proof (cases "xh_node_of t (take (xh_keysize t) key)")
    case None
    have "unchanged t (t\<lparr>xh_find_fail := xh_find_fail t + 1\<rparr>)"
      using wf by (simp add: unchanged_def xh_same_cfg_def)
    then show ?thesis
      using unchanged_inv [OF _ inv] find_node_row_miss [OF wf None] by (simp add: sfxhash_find_def)
  next
    case (Some a)
    then obtain t' where "sfxhash_find_node_row t key = (Some a, row_index t key, t')" "touched t a t'"
      using find_node_row_touched [OF wf] by blast
    moreover have "a \<in> set (xh_glist t)" using Some by (simp add: xh_node_of_Some [OF wf])
    ultimately show ?thesis using touched_inv inv by (auto simp: sfxhash_find_def)
  qed
qed

lemma add_inv:
  assumes inv: "xh_inv t0 t" and len: "xh_keysize t \<le> length key"
  shows "xh_inv t0 (snd (sfxhash_add os t key data))" "xh_inv t0 (snd (sfxhash_get_node os t key))"
proof -
  have wf: "xh_wf t" using inv by (simp add: xh_inv_def)
  have "xh_inv t0 (snd (sfxhash_add os t key data)) \<and> xh_inv t0 (snd (sfxhash_get_node os t key))"
  proof (cases rule: add_ex_cases [OF wf len, of os data, case_names found nomem ok])
    case (found a t')
    then have "a \<in> set (xh_glist t)" by (simp add: xh_node_of_Some [OF wf])
    then show ?thesis using found touched_inv inv by (auto simp: sfxhash_add_def)
  next
    case (nomem t')
    then show ?thesis using unchanged_inv inv by (auto simp: sfxhash_add_def)
  next
    case (ok a t2 t' t'')
    then show ?thesis using added_inv inv by (auto simp: sfxhash_add_def)
  qed
  then show "xh_inv t0 (snd (sfxhash_add os t key data))"
    "xh_inv t0 (snd (sfxhash_get_node os t key))" by simp_all
qed

lemma remove_inv:
  assumes inv: "xh_inv t0 t" shows "xh_inv t0 (snd (sfxhash_remove t key))"
proof -
  have wf: "xh_wf t" using inv by (simp add: xh_inv_def)
  show ?thesis
  proof (cases rule: remove_cases [OF wf, of key])
    case (1 a)
    then show ?thesis using removed_inv [OF free_node_removed [OF wf] _ inv] by simp
  next
    case 2
    then show ?thesis using inv by simp
  qed
qed

lemma get_free_none: "sfxhash_get_free_node t = (None, t1) \<Longrightarrow> t1 = t \<and> xh_flist t = []"
  by (cases "xh_flist t") (auto simp: sfxhash_get_free_node_def)

lemma free_anr_inv:
  assumes inv: "xh_inv t0 t"
  shows "xh_inv t0 (snd (sfxhash_free_anr t))" "xh_inv t0 (snd (sfxhash_free_anr_lru t))"
proof -
  have wf: "xh_wf t" using inv by (simp add: xh_inv_def)
  obtain r t1 where get: "sfxhash_get_free_node t = (r, t1)" by (cases "sfxhash_get_free_node t")
  show "xh_inv t0 (snd (sfxhash_free_anr t))"
    using get_free_drop_inv [OF inv] get_free_none get inv
    by (cases r) (auto simp: sfxhash_free_anr_def)
  show "xh_inv t0 (snd (sfxhash_free_anr_lru t))"
  proof (cases r)
    case (Some a)
    then show ?thesis using get_free_drop_inv [OF inv] get by (simp add: sfxhash_free_anr_lru_def)
  next
    case None
    then have t1: "t1 = t" using get_free_none get by blast
    let ?t2 = "sfxhash_free_node t (last (xh_glist t))"
    show ?thesis
    proof (cases "xh_glist t = []")
      case True
      then show ?thesis using None t1 get inv by (simp add: sfxhash_free_anr_lru_def)
    next
      case False
      then have inv2: "xh_inv t0 ?t2"
        using removed_inv [OF free_node_removed [OF wf]] inv by simp
      obtain r2 t3 where get2: "sfxhash_get_free_node ?t2 = (r2, t3)"
        by (cases "sfxhash_get_free_node ?t2")
      show ?thesis
        using False None t1 get get2 get_free_drop_inv [OF inv2] get_free_none [of ?t2] inv2
        by (cases r2) (auto simp: sfxhash_free_anr_lru_def Let_def)
    qed
  qed
qed

lemma xh_step_inv: "xh_inv t0 t \<Longrightarrow> xop_key_ok t0 op \<Longrightarrow> xh_inv t0 (xh_step os t op)"
proof -
  assume h: "xh_inv t0 t" "xop_key_ok t0 op"
  then have "xh_keysize t = xh_keysize t0" by (simp add: xh_inv_def xh_same_cfg_def)
  then show ?thesis
    using h add_inv [OF h(1)] find_inv [OF h(1)] remove_inv [OF h(1)] free_anr_inv [OF h(1)]
    by (cases op) simp_all
qed

lemma xh_run_inv:
  "xh_inv t0 t \<Longrightarrow> \<forall>op \<in> set ops. xop_key_ok t0 op \<Longrightarrow> xh_inv t0 (foldl (xh_step os) t ops)"
  by (induction ops arbitrary: t) (simp_all add: xh_step_inv)

section \<open>Row iteration\<close>

primrec xh_walk :: "nat \<Rightarrow> 'd xhash \<Rightarrow> nat list" where
  "xh_walk 0 t = []"
| "xh_walk (Suc n) t =
     (case sfxhash_findnext t of (None, _) \<Rightarrow> [] | (Some a, t') \<Rightarrow> a # xh_walk n t')"

definition xh_walk_all :: "nat \<Rightarrow> 'd xhash \<Rightarrow> nat list" where
  "xh_walk_all n t =
     (case sfxhash_findfirst t of (None, _) \<Rightarrow> [] | (Some a, t') \<Rightarrow> a # xh_walk n t')"

definition xh_rest :: "'d xhash \<Rightarrow> nat list" where
  \<comment> \<open>what the iteration still answers\<close>
  "xh_rest t =
     (case xh_cnode t of
        None \<Rightarrow> []
      | Some a \<Rightarrow> dropWhile (\<lambda>b. b \<noteq> a) (xh_table t ! xh_crow t) @ concat (drop (Suc (xh_crow t)) (xh_table t)))"

definition xh_walk_ok :: "'d xhash \<Rightarrow> bool" where
  "xh_walk_ok t \<longleftrightarrow>
     length (xh_table t) = unat (xh_nrows t) \<and>
     (\<forall>r < length (xh_table t). distinct (xh_table t ! r) \<and> (\<forall>a \<in> set (xh_table t ! r). nrow t a = r)) \<and>
     (\<forall>a. xh_cnode t = Some a \<longrightarrow>
        xh_crow t < length (xh_table t) \<and> a \<in> set (xh_table t ! xh_crow t))"

lemma succ_in_Some:
  "distinct xs \<Longrightarrow> succ_in xs a = Some b \<Longrightarrow>
     b \<in> set xs \<and> dropWhile (\<lambda>x. x \<noteq> a) xs = a # dropWhile (\<lambda>x. x \<noteq> b) xs"
proof (induction xs a rule: succ_in.induct)
  case (3 x y zs a)
  show ?case
  proof (cases "x = a")
    case True
    then show ?thesis using 3(2,3) by auto
  next
    case False
    then have ih: "b \<in> set (y # zs)" "dropWhile (\<lambda>x. x \<noteq> a) (y # zs) = a # dropWhile (\<lambda>x. x \<noteq> b) (y # zs)"
      using 3 by simp_all
    moreover have "x \<noteq> b" using 3(2) ih(1) by auto
    ultimately show ?thesis using False by simp
  qed
qed simp_all

lemma succ_in_None:
  "a \<in> set xs \<Longrightarrow> distinct xs \<Longrightarrow> succ_in xs a = None \<Longrightarrow> dropWhile (\<lambda>x. x \<noteq> a) xs = [a]"
  by (induction xs a rule: succ_in.induct) (auto split: if_splits)

lemma find_row:
  assumes "i \<le> n" "n = length tab"
  shows "find (\<lambda>r. tab ! r \<noteq> []) [i ..< n] = None \<Longrightarrow> concat (drop i tab) = []"
    "find (\<lambda>r. tab ! r \<noteq> []) [i ..< n] = Some r \<Longrightarrow>
       i \<le> r \<and> r < n \<and> tab ! r \<noteq> [] \<and> concat (drop i tab) = tab ! r @ concat (drop (Suc r) tab)"
proof -
  show "concat (drop i tab) = []" if "find (\<lambda>r. tab ! r \<noteq> []) [i ..< n] = None"
    using that assms by (auto simp: find_None_iff set_conv_nth less_diff_conv add.commute)
  show "i \<le> r \<and> r < n \<and> tab ! r \<noteq> [] \<and> concat (drop i tab) = tab ! r @ concat (drop (Suc r) tab)"
    if "find (\<lambda>r. tab ! r \<noteq> []) [i ..< n] = Some r"
    using assms that
  proof (induction "n - i" arbitrary: i)
    case 0
    then show ?case by simp
  next
    case (Suc k)
    then have i: "i < n" by simp
    then have up: "[i ..< n] = i # [Suc i ..< n]" by (simp add: upt_conv_Cons)
    have dr: "concat (drop i tab) = tab ! i @ concat (drop (Suc i) tab)"
      using i Suc.prems by (metis Cons_nth_drop_Suc concat.simps(2))
    show ?case
    proof (cases "tab ! i = []")
      case True
      have k: "k = n - Suc i" using Suc.hyps(2) by simp
      have "find (\<lambda>r. tab ! r \<noteq> []) [Suc i ..< n] = Some r" using Suc.prems(3) up True by simp
      from Suc.hyps(1) [OF k _ Suc.prems(2) this] i show ?thesis using dr True by auto
    next
      case False
      then show ?thesis using Suc.prems up i dr by simp
    qed
  qed
qed

lemma next_rest:
  assumes ok: "xh_walk_ok t" and cn: "xh_cnode t = Some a"
  shows "xh_rest t = a # xh_rest (sfxhash_next t) \<and> xh_walk_ok (sfxhash_next t)"
proof -
  let ?row = "xh_table t ! xh_crow t"
  have r: "xh_crow t < length (xh_table t)" "a \<in> set ?row" and dist: "distinct ?row"
    and nr: "nrow t a = xh_crow t" and len: "length (xh_table t) = unat (xh_nrows t)"
    using ok cn by (auto simp: xh_walk_ok_def)
  show ?thesis
  proof (cases "succ_in ?row a")
    case (Some b)
    then have nx: "sfxhash_next t = t\<lparr>xh_cnode := Some b\<rparr>" using cn nr by (simp add: sfxhash_next_def)
    show ?thesis
      using succ_in_Some [OF dist Some] cn ok by (auto simp: nx xh_rest_def xh_walk_ok_def xn_def)
  next
    case None
    have dw: "dropWhile (\<lambda>x. x \<noteq> a) ?row = [a]" by (rule succ_in_None [OF r(2) dist None])
    let ?f = "find (\<lambda>r. xh_table t ! r \<noteq> []) [Suc (xh_crow t) ..< unat (xh_nrows t)]"
    have le: "Suc (xh_crow t) \<le> unat (xh_nrows t)" using r len by simp
    show ?thesis
    proof (cases ?f)
      case f: None
      then have "sfxhash_next t =
          t\<lparr>xh_crow := max (Suc (xh_crow t)) (unat (xh_nrows t)), xh_cnode := None\<rparr>"
        using cn nr None by (simp add: sfxhash_next_def)
      then show ?thesis
        using find_row(1) [OF le len [symmetric] f] dw cn ok by (simp add: xh_rest_def xh_walk_ok_def xn_def)
    next
      case f: (Some s)
      then have nx: "sfxhash_next t = t\<lparr>xh_crow := s, xh_cnode := Some (hd (xh_table t ! s))\<rparr>"
        using cn nr None by (simp add: sfxhash_next_def)
      have s: "s < unat (xh_nrows t)" "xh_table t ! s \<noteq> []"
        "concat (drop (Suc (xh_crow t)) (xh_table t)) = xh_table t ! s @ concat (drop (Suc s) (xh_table t))"
        using find_row(2) [OF le len [symmetric] f] by simp_all
      then have "dropWhile (\<lambda>b. b \<noteq> hd (xh_table t ! s)) (xh_table t ! s) = xh_table t ! s"
        by (cases "xh_table t ! s") auto
      then show ?thesis
        using s dw cn ok len by (auto simp: nx xh_rest_def xh_walk_ok_def xn_def)
    qed
  qed
qed

lemma walk_rest: "xh_walk_ok t \<Longrightarrow> length (xh_rest t) \<le> n \<Longrightarrow> xh_walk n t = xh_rest t"
proof (induction n arbitrary: t)
  case 0
  then show ?case by simp
next
  case (Suc n)
  show ?case
  proof (cases "xh_cnode t")
    case None
    then show ?thesis by (simp add: sfxhash_findnext_def xh_rest_def)
  next
    case (Some a)
    then show ?thesis
      using next_rest [OF Suc.prems(1) Some] Suc by (simp add: sfxhash_findnext_def)
  qed
qed

lemma walk_all_rows:
  assumes wf: "xh_wf t" and n: "length (concat (xh_table t)) \<le> Suc n"
  shows "xh_walk_all n t = concat (xh_table t)"
proof -
  have len: "unat (xh_nrows t) = length (xh_table t)" using wf by (simp add: xh_wf_def)
  let ?f = "find (\<lambda>r. xh_table t ! r \<noteq> []) [0 ..< unat (xh_nrows t)]"
  show ?thesis
  proof (cases ?f)
    case None
    then show ?thesis
      using find_row(1) [OF _ len None] by (simp add: xh_walk_all_def sfxhash_findfirst_def)
  next
    case (Some r)
    let ?a = "hd (xh_table t ! r)" let ?t = "t\<lparr>xh_crow := r, xh_cnode := Some ?a\<rparr>"
    have r: "r < unat (xh_nrows t)" "xh_table t ! r \<noteq> []"
      "concat (xh_table t) = xh_table t ! r @ concat (drop (Suc r) (xh_table t))"
      using find_row(2) [OF _ len Some] by simp_all
    have "?a \<in> set (xh_table t ! r)" using r(2) by simp
    then have ok: "xh_walk_ok ?t"
      using wf r(1) by (auto simp: xh_walk_ok_def xh_wf_def xh_linked_def xn_def)
    have "dropWhile (\<lambda>b. b \<noteq> ?a) (xh_table t ! r) = xh_table t ! r"
      using r(2) by (cases "xh_table t ! r") auto
    then have rest: "xh_rest ?t = concat (xh_table t)" by (simp add: xh_rest_def r(3))
    have nx: "xh_rest ?t = ?a # xh_rest (sfxhash_next ?t)" "xh_walk_ok (sfxhash_next ?t)"
      using next_rest [OF ok] by simp_all
    have "Suc (length (xh_rest (sfxhash_next ?t))) = length (concat (xh_table t))"
      using nx(1) rest by (metis length_Cons)
    then have "xh_walk n (sfxhash_next ?t) = xh_rest (sfxhash_next ?t)"
      using walk_rest [OF nx(2)] n by simp
    then show ?thesis
      using Some nx(1) rest by (simp add: xh_walk_all_def sfxhash_findfirst_def Let_def)
  qed
qed

lemma concat_table_glist:
  assumes wf: "xh_wf t"
  shows "distinct (concat (xh_table t))" "set (concat (xh_table t)) = set (xh_glist t)"
    "length (concat (xh_table t)) = length (xh_glist t)"
proof -
  have lk: "\<forall>r < length (xh_table t). distinct (xh_table t ! r) \<and>
      set (xh_table t ! r) = {a \<in> set (xh_glist t). nrow t a = r}"
    using wf by (simp add: xh_wf_def xh_linked_def)
  have bound: "nrow t a < length (xh_table t)" if "a \<in> set (xh_glist t)" for a
    using wf that row_index_bound [of t "nkey t a"] by (auto simp: xh_wf_def xh_keys_ok_def)
  have "distinct (concat tab)" if "\<forall>r < length tab. distinct (tab ! r) \<and> (\<forall>a \<in> set (tab ! r). f a = r + k)"
    for tab :: "nat list list" and f k
    using that
  proof (induction tab arbitrary: k)
    case (Cons x xs)
    have x: "distinct x" "\<forall>a \<in> set x. f a = k" using Cons.prems [rule_format, of 0] by simp_all
    have xs: "\<forall>r < length xs. distinct (xs ! r) \<and> (\<forall>a \<in> set (xs ! r). f a = r + Suc k)"
    proof (intro allI impI)
      fix r assume "r < length xs"
      then show "distinct (xs ! r) \<and> (\<forall>a \<in> set (xs ! r). f a = r + Suc k)"
        using Cons.prems [rule_format, of "Suc r"] by simp
    qed
    have "f a \<noteq> k" if "a \<in> set (concat xs)" for a
    proof -
      obtain r where "r < length xs" "a \<in> set (xs ! r)"
      proof -
        obtain x where "x \<in> set xs" "a \<in> set x" using \<open>a \<in> set (concat xs)\<close> by auto
        then show thesis using that by (auto simp: in_set_conv_nth [of x])
      qed
      then have "f a = r + Suc k" using xs by blast
      then show ?thesis by simp
    qed
    then show ?case using Cons.IH [OF xs] x by (auto simp: set_concat)
  qed simp
  from this [of "xh_table t" "nrow t" 0] show d: "distinct (concat (xh_table t))" using lk by auto
  show s: "set (concat (xh_table t)) = set (xh_glist t)"
  proof (rule set_eqI, rule iffI)
    fix a assume "a \<in> set (concat (xh_table t))"
    then obtain x where "x \<in> set (xh_table t)" and ax: "a \<in> set x" by auto
    then obtain r where "r < length (xh_table t)" "xh_table t ! r = x" by (auto simp: in_set_conv_nth)
    then show "a \<in> set (xh_glist t)" using lk ax by blast
  next
    fix a assume a: "a \<in> set (xh_glist t)"
    then have "a \<in> set (xh_table t ! nrow t a)" using lk bound by blast
    then show "a \<in> set (concat (xh_table t))" using bound [OF a] by (auto intro: nth_mem)
  qed
  show "length (concat (xh_table t)) = length (xh_glist t)"
    using d s wf by (metis distinct_append distinct_card xh_heap_ok_def xh_wf_def)
qed


section \<open>The row count\<close>

definition covers :: "u32 \<Rightarrow> nat \<Rightarrow> u32 \<Rightarrow> bool" where
  \<comment> \<open>bit \<open>n\<close> of \<open>x\<close> tells whether \<open>m\<close> has a bit in \<open>n, \<dots>, n + k - 1\<close>\<close>
  "covers m k x \<longleftrightarrow> (\<forall>n. bit x n \<longleftrightarrow> (\<exists>j<k. bit m (n + j)))"

lemma bit_u32_bound: "bit (w :: u32) n \<Longrightarrow> n < 32"
  using bit_imp_le_length [of w n] by simp

lemma covers_smear:
  assumes c: "covers m k x" and pos: "\<not> bit m 31" and k: "k \<le> 32"
  shows "covers m (2 * k) (smear x k)"
  unfolding covers_def
proof
  fix n
  have x31: "\<not> bit x 31"
  proof
    assume "bit x 31"
    then obtain j where "bit m (31 + j)" using c unfolding covers_def by blast
    then show False using pos bit_u32_bound [of m "31 + j"] by (cases "j = 0") auto
  qed
  have "bit (signed_drop_bit k x) n \<longleftrightarrow> bit x (n + k)"
  proof (cases "n + k < 32")
    case True
    then show ?thesis by (auto simp: bit_signed_drop_bit_iff add.commute)
  next
    case False
    then have "\<not> bit x (n + k)" using bit_u32_bound by blast
    moreover have "\<not> bit (signed_drop_bit k x) n"
      using False x31 bit_u32_bound [of "signed_drop_bit k x" n]
      by (auto simp: bit_signed_drop_bit_iff split: if_splits)
    ultimately show ?thesis by simp
  qed
  then have "bit (smear x k) n \<longleftrightarrow> bit x n \<or> bit x (n + k)"
    by (simp add: smear_def bit_or_iff)
  also have "\<dots> \<longleftrightarrow> (\<exists>j<k. bit m (n + j)) \<or> (\<exists>j<k. bit m (n + (k + j)))"
    using c by (simp add: covers_def add.assoc)
  also have "\<dots> \<longleftrightarrow> (\<exists>j<2 * k. bit m (n + j))"
  proof
    assume "\<exists>j<2 * k. bit m (n + j)"
    then obtain j where j: "j < 2 * k" "bit m (n + j)" by blast
    then show "(\<exists>j<k. bit m (n + j)) \<or> (\<exists>j<k. bit m (n + (k + j)))"
    proof (cases "j < k")
      case False
      then have "j - k < k" "n + (k + (j - k)) = n + j" using j by simp_all
      then show ?thesis using j by metis
    qed blast
  next
    assume "(\<exists>j<k. bit m (n + j)) \<or> (\<exists>j<k. bit m (n + (k + j)))"
    then show "\<exists>j<2 * k. bit m (n + j)"
    proof
      assume "\<exists>j<k. bit m (n + j)"
      then obtain j where "j < k" "bit m (n + j)" by blast
      then show ?thesis by (intro exI [of _ j]) simp
    next
      assume "\<exists>j<k. bit m (n + (k + j))"
      then obtain j where "j < k" "bit m (n + (k + j))" by blast
      then show ?thesis by (intro exI [of _ "k + j"]) simp
    qed
  qed
  finally show "bit (smear x k) n \<longleftrightarrow> (\<exists>j<2 * k. bit m (n + j))" .
qed

lemma smear_all:
  assumes "\<not> bit m 31"
  shows "bit (foldl smear m [1, 2, 4, 8, 16]) n \<longleftrightarrow> (\<exists>i \<ge> n. bit m i)"
proof -
  have "covers m 1 m" by (simp add: covers_def)
  then have "covers m 2 (smear m 1)" using covers_smear [OF _ assms, of 1] by simp
  then have "covers m 4 (smear (smear m 1) 2)" using covers_smear [OF _ assms, of 2] by simp
  then have "covers m 8 (smear (smear (smear m 1) 2) 4)" using covers_smear [OF _ assms, of 4] by simp
  then have "covers m 16 (smear (smear (smear (smear m 1) 2) 4) 8)"
    using covers_smear [OF _ assms, of 8] by simp
  then have "covers m 32 (foldl smear m [1, 2, 4, 8, 16])"
    using covers_smear [OF _ assms, of 16] by simp
  then have "bit (foldl smear m [1, 2, 4, 8, 16]) n \<longleftrightarrow> (\<exists>j<32. bit m (n + j))"
    unfolding covers_def by blast
  also have "\<dots> \<longleftrightarrow> (\<exists>i \<ge> n. bit m i)"
  proof
    assume "\<exists>i \<ge> n. bit m i"
    then obtain i where i: "n \<le> i" "bit m i" by blast
    then have "i - n < 32" "n + (i - n) = i" using bit_u32_bound [of m i] by auto
    then show "\<exists>j<32. bit m (n + j)" using i by metis
  next
    assume "\<exists>j<32. bit m (n + j)"
    then show "\<exists>i \<ge> n. bit m i" using le_add1 by blast
  qed
  finally show ?thesis .
qed

lemma nat_bit_ge: "bit (x :: nat) k \<Longrightarrow> 2 ^ k \<le> x"
proof (rule ccontr)
  assume b: "bit x k" and "\<not> 2 ^ k \<le> x"
  then have "take_bit k x = x" by (simp add: take_bit_nat_eq_self)
  then show False using b by (metis bit_take_bit_iff less_irrefl)
qed

lemma nearest_power:
  assumes m: "m = n - 1" and pos: "\<not> bit m 31"
  shows "\<exists>k \<le> 31. sfxhash_nearest_powerof2 n = 2 ^ k \<and> unat m < 2 ^ k \<and> 2 ^ k \<le> 2 * unat m + 1"
proof -
  define k where "k = (LEAST k. \<forall>i \<ge> k. \<not> bit m i)"
  have ex: "\<forall>i \<ge> 31. \<not> bit m i"
  proof (intro allI impI)
    fix i :: nat assume "31 \<le> i"
    then show "\<not> bit m i" using pos bit_u32_bound [of m i] by (cases "i = 31") auto
  qed
  have top: "\<forall>i \<ge> k. \<not> bit m i" 
    unfolding k_def using ex by (rule LeastI [of "\<lambda>k. \<forall>i \<ge> k. \<not> bit m i" 31])
  have le: "k \<le> 31" 
    unfolding k_def using ex by (rule Least_le [of "\<lambda>k. \<forall>i \<ge> k. \<not> bit m i" 31])
  have below: "\<exists>i \<ge> j. bit m i" if "j < k" for j
    using not_less_Least [of j "\<lambda>k. \<forall>i \<ge> k. \<not> bit m i"] that unfolding k_def by blast
  have "foldl smear m [1, 2, 4, 8, 16] = mask k"
  proof (rule bit_word_eqI)
    fix j assume "j < LENGTH(32)"
    then show "bit (foldl smear m [1, 2, 4, 8, 16]) j = bit (mask k :: u32) j"
      using smear_all [OF pos, of j] below [of j] top
      by (auto simp: bit_mask_iff simp del: foldl.simps) (meson le_trans not_le)
  qed
  then have res: "sfxhash_nearest_powerof2 n = 2 ^ k"
    by (simp add: sfxhash_nearest_powerof2_def m mask_eq_exp_minus_1 del: foldl.simps)
  have "take_bit k m = m" by (rule bit_word_eqI) (use top in \<open>auto simp: bit_take_bit_iff not_le\<close>)
  then have up: "unat m < 2 ^ k"
    by (metis take_bit_nat_less_exp unsigned_take_bit_eq)
  have lo: "2 ^ k \<le> 2 * unat m + 1"
  proof (cases k)
    case (Suc j)
    then obtain i where i: "j \<le> i" "bit m i" using below [of j] by auto
    then have "i = j" using top Suc by (metis Suc_leI le_neq_implies_less)
    then have "bit (unat m) j" using i by (simp add: bit_unsigned_iff)
    then show ?thesis using nat_bit_ge [of "unat m" j] Suc by simp
  qed simp
  show ?thesis using res up lo le by blast
qed

lemma nearest_power_bounds:
  assumes "0 < n" and "n \<le> 0x80000000"
  shows "\<exists>k \<le> 31. sfxhash_nearest_powerof2 n = 2 ^ k \<and> unat n \<le> 2 ^ k \<and> 2 ^ k < 2 * unat n"
proof -
  have u: "unat (n - 1) = unat n - 1" "0 < unat n"
    using assms(1) by (simp_all add: unat_sub unat_gt_0 word_less_nat_alt word_le_nat_alt Suc_leI)
  have "unat n \<le> 2147483648" using assms(2) by (simp add: word_le_nat_alt)
  then have "unat (n - 1) < 2 ^ 31" using u by simp
  then have "\<not> bit (unat (n - 1)) 31" using nat_bit_ge not_le by blast
  then have "\<not> bit (n - 1) 31" by (simp add: bit_unsigned_iff)
  from nearest_power [OF refl this] obtain k where "k \<le> 31" "sfxhash_nearest_powerof2 n = 2 ^ k"
    "unat (n - 1) < 2 ^ k" "2 ^ k \<le> 2 * unat (n - 1) + 1" by blast
  moreover from this u have "unat n \<le> 2 ^ k" "2 ^ k < 2 * unat n" by linarith+
  ultimately show ?thesis by blast
qed

section \<open>A new table\<close>

definition xh_empty :: "'d xhash \<Rightarrow> bool" where
  "xh_empty t \<longleftrightarrow>
     0 < xh_nrows t \<and> xh_table t = replicate (unat (xh_nrows t)) [] \<and> xh_glist t = [] \<and>
     xh_flist t = [] \<and> xh_count t = 0 \<and> xh_nodes t = (\<lambda>_. None)"

lemma xh_empty_wf: "xh_empty t \<Longrightarrow> xh_wf t" "xh_empty t \<Longrightarrow> xh_cap t" "xh_empty t \<Longrightarrow> xh_map t = Map.empty"
  by (auto simp: xh_empty_def xh_wf_defs xh_cap_def xh_map_def)

lemma sfxhash_new_empty:
  assumes "0 < n" "n \<le> 0x80000000"
    and new: "sfxhash_new os fcn z n ks ds mm anr keep fr rc = Some t"
  shows "xh_empty t"
proof -
  obtain k where k: "k \<le> 31" "sfxhash_nearest_powerof2 n = 2 ^ k"
    using nearest_power_bounds [OF assms(1,2)] by blast
  have "(2 :: u32) ^ k \<noteq> 0" using k(1) by (simp add: exp_eq_zero_iff)
  then have "0 < sfxhash_nearest_powerof2 n" by (simp add: k(2) word_gt_0)
  then show ?thesis
    using new by (auto simp: sfxhash_new_def xh_empty_def Let_def split: prod.splits option.splits)
qed

definition xh_demo :: "nat xhash" where
  \<comment> \<open>two rows, four-byte keys, at most one node, recovery on\<close>
  "xh_demo =
     sfxhash_set_max_nodes
       (the (sfxhash_new (\<lambda>_. True) sfhashfcn_static 0 2 4 8 0 True None False True)) 1"

lemma xh_demo_eq: "sfxhash_new (\<lambda>_. True) sfhashfcn_static 0 2 4 8 0 True None False True =
    Some (the (sfxhash_new (\<lambda>_. True) sfhashfcn_static (0 :: nat) 2 4 8 0 True None False True))"
proof -
  have "sfxhash_new (\<lambda>_. True) sfhashfcn_static (0 :: nat) 2 4 8 0 True None False True \<noteq> None"
    by (simp add: sfxhash_new_def s_alloc_def sfmemcap_alloc_def sfmemcap_init_def Let_def)
  then show ?thesis by simp
qed

lemma xh_demo_wf: "xh_wf xh_demo"
proof -
  have "xh_empty (the (sfxhash_new (\<lambda>_. True) sfhashfcn_static (0 :: nat) 2 4 8 0 True None False True))"
    by (rule sfxhash_new_empty [OF _ _ xh_demo_eq]) simp_all
  then show ?thesis by (simp add: xh_demo_def sfxhash_set_max_nodes_def xh_empty_wf)
qed

section \<open>Properties\<close>

text \<open>
  C7. \<open>sfxhash_add\<close> on a well-formed table.  A key that is present is reported as such and the
  table keeps its contents, its node moved to the front.  Otherwise the map gains exactly the
  new binding, its node becomes the most recently used one, and the only binding that can be
  lost is the one of the least recently used node that \<open>anrfree\<close> lets go, taken when no
  parked node is left.  \<open>SFXHASH_NOMEM\<close> means that nothing changed and that there is
  really no node to be had.
\<close>

theorem sfxhash_add_correct:
  assumes "xh_wf t" and "xh_keysize t \<le> length key"
    and "sfxhash_add os t key (Some d) = (st, t')"
  shows "case st of
      XInTable \<Rightarrow> (\<exists>a. xh_node_of t (take (xh_keysize t) key) = Some a \<and> touched t a t')
    | XOk \<Rightarrow> xh_map t (take (xh_keysize t) key) = None \<and>
        (\<exists>a. added t (take (xh_keysize t) key) d a t')
    | XNoMem \<Rightarrow> xh_map t (take (xh_keysize t) key) = None \<and> unchanged t t' \<and> out_of_nodes os t
    | XErr \<Rightarrow> False"
proof (cases rule: add_ex_cases [OF assms(1,2), of os "Some d", case_names found nomem ok])
  case (found a u)
  then show ?thesis using assms(3) by (auto simp: sfxhash_add_def)
next
  case (nomem u)
  then show ?thesis using assms(3) by (auto simp: sfxhash_add_def xh_map_node)
next
  case (ok a t2 u v)
  then show ?thesis using assms(3) by (auto simp: sfxhash_add_def xh_map_node)
qed

lemma xh_demo_add:
  "fst (sfxhash_add (\<lambda>_. True) xh_demo [1, 2, 3, 4] (Some 7)) = XOk"
  "xh_keysize xh_demo = 4" "xh_datasize xh_demo = 8" "xh_glist xh_demo = []" "xh_flist xh_demo = []"
  by code_simp+

theorem sfxhash_add_witness:
  "\<exists>t'. sfxhash_add (\<lambda>_. True) xh_demo [1, 2, 3, 4] (Some 7) = (XOk, t') \<and>
     xh_map t' [1, 2, 3, 4] = Some 7"
proof -
  obtain t' where t': "sfxhash_add (\<lambda>_. True) xh_demo [1, 2, 3, 4] (Some 7) = (XOk, t')"
    using xh_demo_add(1) by (metis prod.collapse)
  then show ?thesis
    using sfxhash_add_correct [OF xh_demo_wf _ t'] by (auto simp: xh_demo_add added_data)
qed

text \<open>\<open>sfxhash_get_node\<close> for a key that is not in the table (with node data inside the
  node) does not initialise the data: a fresh block reads as zeros, but a parked node or a
  node recovered from another key still holds that node's old data, which is what a lookup of
  the new key then answers.
\<close>

theorem sfxhash_get_node_data:
  assumes "xh_wf t" and "xh_keysize t \<le> length key" and "0 < xh_datasize t"
    and "xh_map t (take (xh_keysize t) key) = None"
    and "sfxhash_get_node os t key = (Some a, t')"
  shows "xh_map t' (take (xh_keysize t) key) =
    Some (if a \<in> set (xh_glist t) \<or> a \<in> set (xh_flist t) then ndata t a else xh_zero t)"
proof (cases rule: add_ex_cases [OF assms(1,2), of os None, case_names found nomem ok])
  case (found b u)
  then show ?thesis using assms(4) by (simp add: xh_map_node)
next
  case (nomem u)
  then show ?thesis using assms(5) by simp
next
  case (ok b t2 u v)
  let ?t1 = "t\<lparr>xh_find_fail := xh_find_fail t + 1\<rparr>"
  have b: "b = a" "v = t'" using ok(4) assms(5) by simp_all
  have wf1: "xh_wf ?t1" using assms(1) by simp
  have "newnode_post ?t1 a t2" using sfxhash_newnode_Some [OF wf1 ok(2)] b by simp
  moreover have "xn ?t1 = xn t" by (simp add: xn_def fun_eq_iff)
  ultimately have "ndata t2 a =
      (if a \<in> set (xh_glist t) \<or> a \<in> set (xh_flist t) then ndata t a else xh_zero t)"
    by (auto simp: newnode_post_def split: if_splits)
  then show ?thesis using added_data(1) [OF ok(6)] assms(3) b by simp
qed

definition xh_demo_full :: "nat xhash" where
  "xh_demo_full = snd (sfxhash_add (\<lambda>_. True) xh_demo [1, 2, 3, 4] (Some 7))"

lemma xh_demo_full_get:
  "fst (sfxhash_get_node (\<lambda>_. True) xh_demo_full [5, 6, 7, 8]) = Some 0"
  "xh_keysize xh_demo_full = 4" "xh_datasize xh_demo_full = 8" "xh_glist xh_demo_full = [0]"
  "nkey xh_demo_full 0 = [1, 2, 3, 4]" "ndata xh_demo_full 0 = 7"
  by code_simp+

lemma xh_demo_full_wf: "xh_wf xh_demo_full"
proof -
  have inv: "xh_inv xh_demo xh_demo"
    using xh_demo_wf by (simp add: xh_inv_def xh_cap_def xh_demo_add)
  show ?thesis
    unfolding xh_demo_full_def
    using add_inv(1) [OF inv, of "[1, 2, 3, 4]"] by (simp add: xh_inv_def xh_demo_add)
qed

theorem sfxhash_get_node_data_witness:
  "\<exists>t'. sfxhash_get_node (\<lambda>_. True) xh_demo_full [5, 6, 7, 8] = (Some 0, t') \<and>
     xh_map t' [5, 6, 7, 8] = Some 7"
proof -
  obtain t' where t': "sfxhash_get_node (\<lambda>_. True) xh_demo_full [5, 6, 7, 8] = (Some 0, t')"
    using xh_demo_full_get(1) by (metis prod.collapse)
  have "xh_map xh_demo_full [5, 6, 7, 8] = None"
    by (simp add: xh_map_def xh_demo_full_get)
  then show ?thesis
    using sfxhash_get_node_data [OF xh_demo_full_wf _ _ _ t'] t' by (simp add: xh_demo_full_get)
qed

text \<open>
  C19. \<open>sfxhash_find\<close> answers what the map holds for the key and leaves the map as it is; when
  the table splays, the node found becomes the most recently used one and the order of the
  others is kept.
\<close>

theorem sfxhash_find_lru:
  assumes "xh_wf t" and "sfxhash_find t key = (r, t')"
  shows "r = xh_map t (take (xh_keysize t) key) \<and> xh_wf t' \<and> xh_map t' = xh_map t \<and>
    (r \<noteq> None \<and> xh_splay t \<longrightarrow>
       sfxhash_mru t' = r \<and>
       (\<exists>a. xh_node_of t (take (xh_keysize t) key) = Some a \<and>
            xh_glist t' = a # remove1 a (xh_glist t)))"
proof (cases "xh_node_of t (take (xh_keysize t) key)")
  case None
  then show ?thesis
    using assms find_node_row_miss [OF assms(1) None] by (auto simp: sfxhash_find_def xh_map_node)
next
  case (Some a)
  obtain u where u: "sfxhash_find_node_row t key = (Some a, row_index t key, u)" "touched t a u"
    using find_node_row_touched [OF assms(1) Some] by blast
  then have "t' = u" "r = Some (ndata t a)"
    using assms(2) by (auto simp: sfxhash_find_def touched_def)
  then show ?thesis
    using u(2) Some by (simp add: touched_def xh_map_node sfxhash_mru_def)
qed

theorem sfxhash_find_lru_witness: "\<exists>t'. sfxhash_find xh_demo_full [1, 2, 3, 4] = (Some 7, t') \<and> xh_wf t'"
proof -
  obtain r t' where t': "sfxhash_find xh_demo_full [1, 2, 3, 4] = (r, t')"
    by (cases "sfxhash_find xh_demo_full [1, 2, 3, 4]")
  then show ?thesis
    using sfxhash_find_lru [OF xh_demo_full_wf t'] by (simp add: xh_map_def xh_demo_full_get)
qed

text \<open>The heap and the memory account after a node was freed.\<close>

lemma free_node_heap:
  "xh_nodes (sfxhash_free_node t a) = (if xh_recycle t then xh_nodes t else (xh_nodes t)(a := None))"
  "xh_mc (sfxhash_free_node t a) = (if xh_recycle t then xh_mc t else sfmemcap_free (xh_mc t) (xn_size (xn t a)))"
  by (simp_all add: sfxhash_free_node_def Let_def sfxhash_gunlink_node_def sfxhash_unlink_node_def
      sfxhash_save_free_node_def s_free_node_def xn_def)

text \<open>
  C20. \<open>sfxhash_remove\<close> fails exactly on the keys that are not in the table and then changes
  nothing.  Otherwise it deletes that binding and no other, takes the node of the key off the lists
  and reports its data to \<open>usrfree\<close>.  This node goes to the front of the free list when nodes are
  recycled; otherwise its memory is returned to the memory cap.  All other nodes stay as they are.
\<close>

theorem sfxhash_remove_correct:
  assumes "xh_wf t" and "sfxhash_remove t key = (st, t')"
  shows "case xh_node_of t (take (xh_keysize t) key) of
      None \<Rightarrow> xh_map t (take (xh_keysize t) key) = None \<and> st = XErr \<and> t' = t
    | Some a \<Rightarrow>
        st = XOk \<and> xh_wf t' \<and> xh_map t (take (xh_keysize t) key) = Some (ndata t a)
        \<and> xh_map t' = (xh_map t)(take (xh_keysize t) key := None)
        \<and> xh_glist t' = remove1 a (xh_glist t)
        \<and> xh_flist t' = (if xh_recycle t then a # xh_flist t else xh_flist t)
        \<and> xh_nodes t' = (if xh_recycle t then xh_nodes t else (xh_nodes t)(a := None))
        \<and> xh_mc t' = (if xh_recycle t then xh_mc t else sfmemcap_free (xh_mc t) (xn_size (xn t a)))
        \<and> xh_freed t' = xh_freed t @ (if xh_usrfree t then [(take (xh_keysize t) key, ndata t a)] else [])"
proof (cases rule: remove_cases [OF assms(1), of key, case_names gone absent])
  case (gone a)
  then have "removed t a t'" using free_node_removed [OF assms(1)] assms(2) by auto
  then show ?thesis
    using gone assms(2) free_node_heap [of t a] by (auto simp: removed_def xh_map_node)
next
  case absent
  then show ?thesis using assms(2) by (simp add: xh_map_node)
qed

theorem sfxhash_remove_witness:
  "xh_map (snd (sfxhash_remove xh_demo_full [1, 2, 3, 4])) = (xh_map xh_demo_full)([1, 2, 3, 4] := None)
   \<and> xh_flist (snd (sfxhash_remove xh_demo_full [1, 2, 3, 4])) = 0 # xh_flist xh_demo_full"
proof -
  have "xh_node_of xh_demo_full [1, 2, 3, 4] = Some 0" by (simp add: xh_node_of_def xh_demo_full_get)
  moreover have "xh_recycle xh_demo_full" by code_simp
  ultimately show ?thesis
    using sfxhash_remove_correct [OF xh_demo_full_wf, of "[1, 2, 3, 4]" "fst (sfxhash_remove xh_demo_full [1, 2, 3, 4])"
        "snd (sfxhash_remove xh_demo_full [1, 2, 3, 4])"]
    by (simp add: xh_demo_full_get)
qed

text \<open>
  C13. From \<open>sfxhash_new\<close> and \<open>sfxhash_set_max_nodes\<close> on, after any sequence of additions, lookups,
  removals and releases, the table is well-formed (every live node is in its row and on the
  global list, no node is linked twice, \<open>count\<close> is right) and the live and parked nodes
  together never exceed \<open>max_nodes\<close>.
\<close>

theorem sfxhash_capacity:
  assumes "0 < n" and "n \<le> 0x80000000" and "m \<noteq> 0"
    and "sfxhash_new os fcn z n ks ds mm anr keep fr rc = Some t0"
    and "\<forall>op \<in> set ops. xop_key_ok t0 op"
    and "t = foldl (xh_step os) (sfxhash_set_max_nodes t0 m) ops"
  shows "xh_wf t \<and> unat (xh_count t) = length (xh_glist t) \<and>
    length (xh_glist t) + length (xh_flist t) \<le> unat m"
proof -
  let ?s = "sfxhash_set_max_nodes t0 m"
  have e: "xh_empty t0" by (rule sfxhash_new_empty [OF assms(1,2,4)])
  then have inv: "xh_inv ?s ?s"
    by (simp add: xh_inv_def sfxhash_set_max_nodes_def xh_empty_wf xh_cap_def xh_empty_def)
  have "xop_key_ok ?s op = xop_key_ok t0 op" for op
    by (cases op) (simp_all add: sfxhash_set_max_nodes_def)
  then have "xh_inv ?s t" using xh_run_inv [OF inv] assms(5,6) by simp
  then have wf: "xh_wf t" and le: "length (xh_glist t) + length (xh_flist t) \<le> unat m"
    using assms(3) by (auto simp: xh_inv_def xh_cap_def xh_same_cfg_def sfxhash_set_max_nodes_def)
  moreover have "length (xh_glist t) < 4294967296" using le unat_u32_bound [of m] by linarith
  ultimately show ?thesis by (simp add: xh_wf_def unat_of_nat_u32)
qed

theorem sfxhash_capacity_witness:
  "\<exists>t. t = foldl (xh_step (\<lambda>_. True)) xh_demo [OpAdd [1, 2, 3, 4] (Some 7), OpGet [5, 6, 7, 8]] \<and>
     length (xh_glist t) + length (xh_flist t) \<le> 1"
proof -
  let ?t0 = "the (sfxhash_new (\<lambda>_. True) sfhashfcn_static (0 :: nat) 2 4 8 0 True None False True)"
  have "xh_keysize ?t0 = 4" by code_simp
  then show ?thesis
    using sfxhash_capacity [OF _ _ _ xh_demo_eq, of 1 "[OpAdd [1, 2, 3, 4] (Some 7), OpGet [5, 6, 7, 8]]"]
    by (simp add: xh_demo_def del: foldl.simps)
qed

text \<open>
  C21. Walking a well-formed table with \<open>sfxhash_findfirst\<close> and \<open>sfxhash_findnext\<close> answers every
  live node exactly once and then ends, whatever the distribution over the rows; so the keys
  seen are the keys of the map.
\<close>

theorem sfxhash_walk_complete:
  assumes "xh_wf t" and "length (xh_glist t) \<le> Suc n"
  shows "distinct (xh_walk_all n t) \<and> set (xh_walk_all n t) = set (xh_glist t) \<and>
    nkey t ` set (xh_walk_all n t) = dom (xh_map t)"
proof -
  have "xh_walk_all n t = concat (xh_table t)"
    using walk_all_rows [OF assms(1)] concat_table_glist(3) [OF assms(1)] assms(2) by simp
  moreover have "dom (xh_map t) = nkey t ` set (xh_glist t)"
    using xh_map_Some [OF assms(1)] by (auto simp: dom_def)
  ultimately show ?thesis using concat_table_glist [OF assms(1)] by simp
qed

theorem sfxhash_walk_complete_witness: "set (xh_walk_all 0 xh_demo_full) = {0}"
  using sfxhash_walk_complete [OF xh_demo_full_wf, of 0] by (simp add: xh_demo_full_get)

text \<open>
  \<open>sfxhash_nearest_powerof2\<close> answers the least power of two that is not below its argument
  (for arguments from 1 to \<open>2\<^sup>3\<^sup>1\<close>), which makes \<open>nrows - 1\<close> a valid row mask.
\<close>

theorem sfxhash_nearest_powerof2_correct:
  assumes "0 < n" and "n \<le> 0x80000000"
  shows "\<exists>k \<le> 31. sfxhash_nearest_powerof2 n = 2 ^ k \<and> unat n \<le> 2 ^ k \<and> 2 ^ k < 2 * unat n"
  by (rule nearest_power_bounds [OF assms])

theorem sfxhash_nearest_powerof2_witness:
  "\<exists>k \<le> 31. sfxhash_nearest_powerof2 1000 = 2 ^ k \<and> (1000 :: nat) \<le> 2 ^ k \<and> 2 ^ k < (2000 :: nat)"
  using sfxhash_nearest_powerof2_correct [of 1000] by simp

end
