(* ===== verification/TrackerStore.thy ===== *)
theory TrackerStore
  imports XHashProps
begin

text \<open>
  The interface between the event filters (\<open>sfrf.c\<close>, \<open>sfthd.c\<close>) and the hash table that
  keeps one tracking record per key: get or create the record of a key, read it, write it.
  The locale states what the filters may rely on, with \<open>lost s k j\<close> for the records that a new one
  for \<open>k\<close> may cost; the interpretation discharges it for
  \<open>sfxhash_get_node\<close> on well-formed tables.
\<close>

section \<open>Read-modify-write of a tracking record\<close>

definition track_update ::
    "('s \<Rightarrow> 'k \<Rightarrow> 'a option \<times> 's) \<Rightarrow> ('s \<Rightarrow> 'a \<Rightarrow> 'd) \<Rightarrow> ('s \<Rightarrow> 'a \<Rightarrow> 'd \<Rightarrow> 's) \<Rightarrow>
     ('d \<Rightarrow> 'r \<times> 'd) \<Rightarrow> 's \<Rightarrow> 'k \<Rightarrow> 'r option \<times> 's" where
  "track_update touch rd wr f s k =
     (case touch s k of
        (None, s1) \<Rightarrow> (None, s1)
      | (Some a, s1) \<Rightarrow> (let (r, d) = f (rd s1 a) in (Some r, wr s1 a d)))"

primrec track_run ::
    "('s \<Rightarrow> 'k \<Rightarrow> 'a option \<times> 's) \<Rightarrow> ('s \<Rightarrow> 'a \<Rightarrow> 'd) \<Rightarrow> ('s \<Rightarrow> 'a \<Rightarrow> 'd \<Rightarrow> 's) \<Rightarrow>
     ('d \<Rightarrow> 'r \<times> 'd) list \<Rightarrow> 's \<Rightarrow> 'k \<Rightarrow> 'r option list \<times> 's" where
  "track_run touch rd wr [] s k = ([], s)"
| "track_run touch rd wr (f # fs) s k =
     (let (r, s1) = track_update touch rd wr f s k;
          (rs, s2) = track_run touch rd wr fs s1 k
      in (r # rs, s2))"

text \<open>The same run on the record alone.\<close>

primrec node_run :: "('d \<Rightarrow> 'r \<times> 'd) list \<Rightarrow> 'd \<Rightarrow> 'r list \<times> 'd" where
  "node_run [] d = ([], d)"
| "node_run (f # fs) d = (let (r, d1) = f d; (rs, d2) = node_run fs d1 in (r # rs, d2))"

lemma node_run_append:
  "node_run (fs @ gs) d = (let (rs, d1) = node_run fs d; (ss, d2) = node_run gs d1 in (rs @ ss, d2))"
  by (induction fs arbitrary: d) (auto split: prod.splits)

lemma node_run_Cons:
  "fst (node_run (f # fs) d) = fst (f d) # fst (node_run fs (snd (f d)))"
  "snd (node_run (f # fs) d) = snd (node_run fs (snd (f d)))"
  by (simp_all add: case_prod_beta)

locale tracker_store =
  fixes ok :: "'s \<Rightarrow> bool" and keyok :: "'k \<Rightarrow> bool"
    and lookup :: "'s \<Rightarrow> 'k \<Rightarrow> 'd option" and addr :: "'s \<Rightarrow> 'k \<Rightarrow> 'a option"
    and touch :: "'s \<Rightarrow> 'k \<Rightarrow> 'a option \<times> 's"
    and rd :: "'s \<Rightarrow> 'a \<Rightarrow> 'd" and wr :: "'s \<Rightarrow> 'a \<Rightarrow> 'd \<Rightarrow> 's"
    and lost :: "'s \<Rightarrow> 'k \<Rightarrow> 'k \<Rightarrow> bool"
  assumes lookup_addr: "lookup s k = map_option (rd s) (addr s k)"
    and touch_ok: "ok s \<Longrightarrow> keyok k \<Longrightarrow> touch s k = (r, s') \<Longrightarrow> ok s'"
    and touch_none: "ok s \<Longrightarrow> keyok k \<Longrightarrow> touch s k = (None, s') \<Longrightarrow> lookup s' = lookup s"
    and touch_hit: "ok s \<Longrightarrow> keyok k \<Longrightarrow> addr s k = Some a \<Longrightarrow>
      \<exists>s'. touch s k = (Some a, s') \<and> lookup s' = lookup s"
    and touch_some: "ok s \<Longrightarrow> keyok k \<Longrightarrow> touch s k = (Some a, s') \<Longrightarrow> addr s' k = Some a"
    and touch_frame: "ok s \<Longrightarrow> keyok k \<Longrightarrow> touch s k = (r, s') \<Longrightarrow> j \<noteq> k \<Longrightarrow>
      lookup s' j = lookup s j \<or> lookup s' j = None \<and> lost s k j"
    and write_ok: "ok s \<Longrightarrow> addr s k = Some a \<Longrightarrow> ok (wr s a d)"
    and write_lookup: "ok s \<Longrightarrow> addr s k = Some a \<Longrightarrow> lookup (wr s a d) = (lookup s)(k \<mapsto> d)"
begin

lemma update_hit:
  assumes "ok s" "keyok k" and hit: "lookup s k = Some d" and f: "f d = (r, d')"
  shows "\<exists>s'. track_update touch rd wr f s k = (Some r, s') \<and> ok s' \<and> lookup s' = (lookup s)(k \<mapsto> d')"
proof -
  obtain a where a: "addr s k = Some a" using hit by (auto simp: lookup_addr)
  obtain s1 where s1: "touch s k = (Some a, s1)" "lookup s1 = lookup s"
    using touch_hit [OF assms(1,2) a] by blast
  have ok1: "ok s1" and a1: "addr s1 k = Some a"
    using touch_ok [OF assms(1,2) s1(1)] touch_some [OF assms(1,2) s1(1)] by simp_all
  have "lookup s1 k = Some d" using hit by (simp add: s1(2))
  then have "rd s1 a = d" by (simp add: lookup_addr a1)
  then show ?thesis
    using write_ok [OF ok1 a1] write_lookup [OF ok1 a1] s1 f by (simp add: track_update_def)
qed

lemma update_frame:
  assumes "ok s" "keyok k" and up: "track_update touch rd wr f s k = (r, s')" and j: "j \<noteq> k"
  shows "ok s' \<and> (lookup s' j = lookup s j \<or> lookup s' j = None \<and> lost s k j)"
proof (cases "touch s k")
  case (Pair x s1)
  have ok1: "ok s1" by (rule touch_ok [OF assms(1,2) Pair])
  have fr: "lookup s1 j = lookup s j \<or> lookup s1 j = None \<and> lost s k j" by (rule touch_frame [OF assms(1,2) Pair j])
  show ?thesis
  proof (cases x)
    case None
    then show ?thesis using up Pair ok1 fr by (simp add: track_update_def)
  next
    case (Some a)
    have "addr s1 k = Some a" using touch_some [OF assms(1,2)] Pair Some by simp
    then show ?thesis
      using up Pair Some fr j write_ok [OF ok1] write_lookup [OF ok1]
      by (auto simp: track_update_def split: prod.splits)
  qed
qed

lemma run_hit:
  "ok s \<Longrightarrow> keyok k \<Longrightarrow> lookup s k = Some d \<Longrightarrow> node_run fs d = (rs, d') \<Longrightarrow>
     \<exists>s'. track_run touch rd wr fs s k = (map Some rs, s') \<and> ok s' \<and> lookup s' = (lookup s)(k \<mapsto> d')"
proof (induction fs arbitrary: s d rs)
  case Nil
  then show ?case by (auto simp: fun_upd_idem)
next
  case (Cons f fs)
  obtain r d1 where f: "f d = (r, d1)" by (cases "f d")
  obtain qs where qs: "node_run fs d1 = (qs, d')" "rs = r # qs"
    using Cons.prems(4) f by (auto split: prod.splits)
  obtain s1 where s1: "track_update touch rd wr f s k = (Some r, s1)" "ok s1"
    "lookup s1 = (lookup s)(k \<mapsto> d1)"
    using update_hit [OF Cons.prems(1-3), of f, OF f] by blast
  then have "lookup s1 k = Some d1" by simp
  from Cons.IH [OF s1(2) Cons.prems(2) this qs(1)] obtain s' where
    s': "track_run touch rd wr fs s1 k = (map Some qs, s')" "ok s'" "lookup s' = (lookup s1)(k \<mapsto> d')"
    by blast
  have l: "lookup s' = (lookup s)(k \<mapsto> d')" unfolding s'(3) s1(3) by (rule fun_upd_upd)
  have "track_run touch rd wr (f # fs) s k = (map Some rs, s')" using s' s1(1) qs(2) by simp
  then show ?case using l s'(2) by blast
qed

end

section \<open>The hash table as a tracker store\<close>

definition node_write :: "'d xhash \<Rightarrow> nat \<Rightarrow> 'd \<Rightarrow> 'd xhash" where
  \<comment> \<open>writing through the \<open>data\<close> pointer of a node\<close>
  "node_write t a d = t\<lparr>xh_nodes := (xh_nodes t)(a := Some ((xn t a)\<lparr>xn_data := d\<rparr>))\<rparr>"

lemma node_write_xn [simp]:
  "xn (node_write t a d) b = (if b = a then (xn t a)\<lparr>xn_data := d\<rparr> else xn t b)"
  by (simp add: node_write_def xn_def)

lemma node_write_fields [simp]:
  "xh_glist (node_write t a d) = xh_glist t" "xh_flist (node_write t a d) = xh_flist t"
  "xh_keysize (node_write t a d) = xh_keysize t" "xh_datasize (node_write t a d) = xh_datasize t"
  "xh_nrows (node_write t a d) = xh_nrows t" "xh_fcn (node_write t a d) = xh_fcn t"
  "xh_table (node_write t a d) = xh_table t" "xh_count (node_write t a d) = xh_count t"
  "xh_max_nodes (node_write t a d) = xh_max_nodes t" "xh_zero (node_write t a d) = xh_zero t"
  by (simp_all add: node_write_def)

lemma node_write_node_of [simp]: "xh_node_of (node_write t a d) k = xh_node_of t k"
proof -
  have "nkey (node_write t a d) b = nkey t b" for b by simp
  then show ?thesis by (simp add: xh_node_of_def del: node_write_xn)
qed

lemma node_write_wf:
  assumes wf: "xh_wf t" and a: "a \<in> set (xh_glist t)"
  shows "xh_wf (node_write t a d)"
proof -
  have "nkey (node_write t a d) = nkey t" "nrow (node_write t a d) = nrow t"
    by (auto simp: fun_eq_iff)
  then have "xh_linked (node_write t a d)" "xh_keys_ok (node_write t a d)"
    using wf by (auto simp: xh_wf_def xh_linked_def xh_keys_ok_def row_index_def cong: if_cong)
  moreover have "xh_heap_ok (node_write t a d)"
  proof -
    have "xh_nodes t a \<noteq> None" using wf a by (auto simp: xh_wf_def xh_heap_ok_def)
    then show ?thesis using wf by (auto simp: xh_wf_def xh_heap_ok_def node_write_def)
  qed
  ultimately show ?thesis using wf by (simp add: xh_wf_def)
qed

lemma node_write_map:
  assumes wf: "xh_wf t" and a: "xh_node_of t k = Some a"
  shows "xh_map (node_write t a d) = (xh_map t)(k \<mapsto> d)"
proof
  fix j
  have "xh_node_of t j = Some a \<longleftrightarrow> j = k" using a by (auto simp: xh_node_of_Some [OF wf])
  then show "xh_map (node_write t a d) j = ((xh_map t)(k \<mapsto> d)) j"
    by (cases "xh_node_of t j") (auto simp: xh_map_node a)
qed

definition xh_ready :: "nat \<Rightarrow> 'd xhash \<Rightarrow> bool" where
  "xh_ready n t \<longleftrightarrow> xh_wf t \<and> xh_keysize t = n"

lemma get_node_cases:
  assumes ok: "xh_ready n t" and len: "length k = n"
  obtains (found) a t' where "xh_node_of t k = Some a" "sfxhash_get_node os t k = (Some a, t')"
      "xh_ready n t'" "xh_map t' = xh_map t" "xh_node_of t' k = Some a"
  | (nomem) t' where "xh_node_of t k = None" "sfxhash_get_node os t k = (None, t')"
      "xh_ready n t'" "xh_map t' = xh_map t"
  | (new) a t' d where "xh_node_of t k = None" "sfxhash_get_node os t k = (Some a, t')"
      "xh_ready n t'" "xh_map t' = (without_node t a)(k \<mapsto> d)" "xh_node_of t' k = Some a"
      "\<And>j. j \<noteq> k \<Longrightarrow> xh_map t' j = xh_map t j \<or> xh_map t' j = None \<and> xh_lost os t k j"
proof -
  have wf: "xh_wf t" and ks: "xh_keysize t \<le> length k" and tk: "take (xh_keysize t) k = k"
    using ok len by (simp_all add: xh_ready_def)
  have tn: "take n k = k" using len by simp
  have cfg: "xh_keysize t' = n" if "xh_same_cfg t t'" for t'
    using that ok by (simp add: xh_ready_def xh_same_cfg_def)
  show thesis
  proof (cases rule: add_ex_cases [OF wf ks, of os None, case_names found nomem ok])
    case (found a t')
    then have h: "a \<in> set (xh_glist t)" "nkey t a = k" by (simp_all add: xh_node_of_Some [OF wf] tk)
    from found(3) have t': "xh_wf t'" "xh_map t' = xh_map t" "xh_same_cfg t t'"
      by (simp_all add: touched_def)
    have "set (xh_glist t') = set (xh_glist t)" "xh_nodes t' = xh_nodes t"
      using found(3) h wf by (auto simp: touched_def xh_wf_def xh_heap_ok_def set_remove1_eq)
    then have "xh_node_of t' k = Some a" using h by (simp add: xh_node_of_Some [OF t'(1)] xn_def)
    then show thesis using that(1) found t' tk tn cfg by (simp add: xh_ready_def)
  next
    case (nomem t')
    then show thesis using that(2) cfg by (simp add: unchanged_def xh_ready_def tk tn)
  next
    case (ok a t2 t' t'')
    note lost = added_lost [OF wf ok(2) ok(1) ok(6), unfolded tk]
    show thesis using that(3) [OF _ ok(4)] ok lost cfg by (simp add: added_def xh_ready_def tk tn)
  qed
qed

interpretation xts: tracker_store "xh_ready n" "\<lambda>k. length k = n" xh_map xh_node_of
    "sfxhash_get_node os" ndata node_write "xh_lost os" for n os
proof
  fix s :: "'d xhash" and k a d
  show "xh_map s k = map_option (ndata s) (xh_node_of s k)" by (rule xh_map_node)
  assume ok: "xh_ready n s"
  then have wf: "xh_wf s" by (simp add: xh_ready_def)
  show "xh_ready n (node_write s a d)" if a: "xh_node_of s k = Some a"
    using ok node_write_wf [OF wf] a by (simp add: xh_ready_def xh_node_of_Some [OF wf])
  show "xh_map (node_write s a d) = (xh_map s)(k \<mapsto> d)" if a: "xh_node_of s k = Some a"
    by (rule node_write_map [OF wf a])
next
  fix s s' :: "'d xhash" and k :: bytes and r a j
  assume ok: "xh_ready n s" and len: "length k = n"
  note cases = get_node_cases [OF ok len, of os, case_names found nomem new]
  show "xh_ready n s'" if "sfxhash_get_node os s k = (r, s')"
    using that by (cases rule: cases) auto
  show "xh_map s' = xh_map s" if "sfxhash_get_node os s k = (None, s')"
    using that by (cases rule: cases) auto
  show "\<exists>s'. sfxhash_get_node os s k = (Some a, s') \<and> xh_map s' = xh_map s"
    if "xh_node_of s k = Some a"
    using that by (cases rule: cases) auto
  show "xh_node_of s' k = Some a" if "sfxhash_get_node os s k = (Some a, s')"
    using that by (cases rule: cases) auto
  show "xh_map s' j = xh_map s j \<or> xh_map s' j = None \<and> xh_lost os s k j"
    if "sfxhash_get_node os s k = (r, s')" "j \<noteq> k"
    using that by (cases rule: cases) auto
qed

end
