(* ===== verification/RateFilter.thy ===== *)
theory RateFilter
  imports TrackerStore
begin

text \<open>
  The rate filter, \<open>sfutil/sfrf.c\<close>: thresholds per generator, signature and policy, and one
  tracking node per threshold and address, kept in an \<open>sfxhash\<close> table (\<open>rf_hash\<close>).

  Addresses are the sixteen raw bytes a tracking key stores; times are \<open>time_t\<close> seconds in
  64 bits.  The address set \<open>applyTo\<close> is a predicate, \<open>genHash\<close> a map from generator
  ids to tables keyed by policy and signature.  The runtime policies, the allocator and the
  random hash function are parameters.
\<close>

section \<open>Data\<close>

datatype rf_track = TrackBySrc | TrackByDst | TrackByRule | TrackOther

datatype rf_op = CountNop | CountReset | CountIncrement | CountDecrement

datatype filter_state = FS_NEW | FS_OFF | FS_ON

definition RULE_TYPE__DROP :: int where "RULE_TYPE__DROP = 2"
definition RULE_TYPE__REJECT :: int where "RULE_TYPE__REJECT = 5"
definition RULE_TYPE__SDROP :: int where "RULE_TYPE__SDROP = 6"
definition RULE_TYPE__MAX :: int where "RULE_TYPE__MAX = 7"

record rf_cfg =
  cf_tid :: u32
  cf_gid :: u32
  cf_sid :: u32
  cf_policy :: u32
  cf_tracking :: rf_track
  cf_count :: u32
  cf_seconds :: u32
  cf_action :: int
  cf_timeout :: u32
  cf_apply :: "(bytes \<Rightarrow> bool) option"

record rf_node =
  rn_state :: filter_state
  rn_over :: bool
  rn_tlast :: u64
  rn_count :: u32
  rn_tstart :: u64
  rn_revert :: u64

definition rf_zero_node :: rf_node where
  "rf_zero_node = \<lparr>rn_state = FS_NEW, rn_over = False, rn_tlast = 0, rn_count = 0, rn_tstart = 0,
     rn_revert = 0\<rparr>"

text \<open>\<open>sn_freed\<close> marks a node whose memory was released while the table still holds it.\<close>

record rf_sid =
  sn_gid :: u32
  sn_sid :: u32
  sn_list :: "rf_cfg list"
  sn_freed :: bool

record rf_config =
  rc_gen :: "u32 \<Rightarrow> (u32 \<times> u32 \<Rightarrow> rf_sid option) option"
  rc_count :: u32
  rc_norevert :: u32
  rc_memcap :: u32

record rf_env =
  env_os :: "u64 \<Rightarrow> bool"
  env_nap :: u32
  env_ips :: u32

definition GENERATOR_INTERNAL :: u32 where "GENERATOR_INTERNAL = 135"
definition INTERNAL_EVENT_SYN_RECEIVED :: u32 where "INTERNAL_EVENT_SYN_RECEIVED = 1"
definition INTERNAL_EVENT_SESSION_ADD :: u32 where "INTERNAL_EVENT_SESSION_ADD = 2"
definition INTERNAL_EVENT_SESSION_DEL :: u32 where "INTERNAL_EVENT_SESSION_DEL = 3"
definition SFRF_MAX_GENID :: u32 where "SFRF_MAX_GENID = 8129"
definition SFRF_NO_REVERT_LIMIT :: u32 where "SFRF_NO_REVERT_LIMIT = 1000"

definition getApplicableRuntimePolicy :: "rf_env \<Rightarrow> u32 \<Rightarrow> u32" where
  "getApplicableRuntimePolicy env gid = (if gid = GENERATOR_INTERNAL then env_nap env else env_ips env)"

section \<open>The tracking table\<close>

definition u32_bytes :: "u32 \<Rightarrow> bytes" where
  \<comment> \<open>a 32-bit field in memory, low byte first\<close>
  "u32_bytes w = [ucast w, ucast (drop_bit 8 w), ucast (drop_bit 16 w), ucast (drop_bit 24 w)]"

definition rf_key :: "u32 \<Rightarrow> u32 \<Rightarrow> bytes \<Rightarrow> bytes" where
  "rf_key policy tid ip = u32_bytes policy @ u32_bytes tid @ ip"

definition SFRF_New :: "(u64 \<Rightarrow> bool) \<Rightarrow> hashfcn \<Rightarrow> u32 \<Rightarrow> rf_node xhash option" where
  "SFRF_New os fcn nbytes0 =
     (let nbytes = (if nbytes0 < 64 then 64 else nbytes0)
      in sfxhash_new os fcn rf_zero_node (nbytes div 64) 24 40 (ucast nbytes) True None False True)"

definition SFRF_Flush :: "rf_node xhash option \<Rightarrow> rf_node xhash option" where
  "SFRF_Flush h = map_option sfxhash_make_empty h"

definition getSFRFTrackingNode ::
    "rf_env \<Rightarrow> bytes \<Rightarrow> u32 \<Rightarrow> u64 \<Rightarrow> rf_node xhash \<Rightarrow> nat option \<times> rf_node xhash" where
  "getSFRFTrackingNode env ip tid curTime h =
     (case sfxhash_get_node (env_os env) h (rf_key (env_nap env) tid ip) of
        (None, h1) \<Rightarrow> (None, h1)
      | (Some a, h1) \<Rightarrow>
          (let d = ndata h1 a in
           if rn_state d = FS_NEW
           then (Some a, node_write h1 a (d\<lparr>rn_tstart := curTime, rn_tlast := curTime, rn_state := FS_OFF\<rparr>))
           else (Some a, h1)))"

section \<open>One threshold, one tracking node\<close>

definition checkSamplingPeriod :: "rf_cfg \<Rightarrow> rf_node \<Rightarrow> u64 \<Rightarrow> int \<times> rf_node" where
  "checkSamplingPeriod c d curTime =
     (if cf_seconds c \<noteq> 0 then
        if ucast (curTime - rn_tstart d) \<ge> cf_seconds c then
          (let d1 = d\<lparr>rn_tstart := curTime\<rparr>;
               d2 = d1\<lparr>rn_over := (if ucast (curTime - rn_tlast d1) > cf_seconds c then False
                                   else rn_count d1 > cf_count c)\<rparr>
           in (1, d2\<lparr>rn_tlast := curTime, rn_count := 0\<rparr>))
        else (0, d\<lparr>rn_tlast := curTime\<rparr>)
      else (0, d\<lparr>rn_over := (rn_count d > cf_count c), rn_tlast := curTime\<rparr>))"

definition rf_count_op :: "rf_cfg \<Rightarrow> rf_op \<Rightarrow> rf_node \<Rightarrow> rf_node" where
  "rf_count_op c op d =
     (case op of
        CountIncrement \<Rightarrow> if rn_count d + 1 \<noteq> 0 then d\<lparr>rn_count := rn_count d + 1\<rparr> else d
      | CountDecrement \<Rightarrow>
          if cf_seconds c = 0 \<and> rn_count d \<noteq> 0 then d\<lparr>rn_count := rn_count d - 1\<rparr> else d
      | CountReset \<Rightarrow> d\<lparr>rn_count := 0\<rparr>
      | CountNop \<Rightarrow> d)"

definition rf_start :: "rf_cfg \<Rightarrow> rf_node \<Rightarrow> u64 \<Rightarrow> int \<times> rf_node" where
  \<comment> \<open>the end of \<open>_checkThreshold\<close>: nothing to do, or the limit is reached\<close>
  "rf_start c d curTime =
     (if rn_count d \<le> cf_count c \<and> \<not> rn_over d then (-1, d)
      else (RULE_TYPE__MAX + cf_action c, d\<lparr>rn_revert := curTime, rn_state := FS_ON, rn_over := True\<rparr>))"

definition checkThreshold :: "rf_cfg \<Rightarrow> rf_node \<Rightarrow> u64 \<Rightarrow> int \<times> rf_node" where
  "checkThreshold c d curTime =
     (if rn_state d = FS_ON then
        if cf_timeout c \<noteq> 0 \<and> ucast (curTime - rn_revert d) \<ge> cf_timeout c then
          if rn_count d > cf_count c \<or> rn_over d
          then (cf_action c, d\<lparr>rn_revert := curTime\<rparr>)
          else rf_start c (d\<lparr>rn_state := FS_OFF\<rparr>) curTime
        else (cf_action c, d)
      else rf_start c d curTime)"

definition SFRF_TestObject ::
    "rf_env \<Rightarrow> rf_cfg \<Rightarrow> bytes \<Rightarrow> u64 \<Rightarrow> rf_op \<Rightarrow> rf_node xhash \<Rightarrow> int \<times> rf_node xhash" where
  "SFRF_TestObject env c ip curTime op h =
     (case getSFRFTrackingNode env ip (cf_tid c) curTime h of
        (None, h1) \<Rightarrow> (-1, h1)
      | (Some a, h1) \<Rightarrow>
          (let d1 = snd (checkSamplingPeriod c (ndata h1 a) curTime);
               d2 = rf_count_op c op d1;
               (r, d3) = checkThreshold c d2 curTime;
               d4 = (if cf_seconds c = 0 \<and> rn_count d3 > cf_count c \<and> cf_action c = RULE_TYPE__DROP
                     then d3\<lparr>rn_count := rn_count d3 - 1\<rparr> else d3)
           in (r, node_write h1 a d4)))"

section \<open>The thresholds of an event\<close>

definition SFRF_AppliesTo :: "rf_cfg \<Rightarrow> bytes \<Rightarrow> bool" where
  "SFRF_AppliesTo c ip = (case cf_apply c of None \<Rightarrow> True | Some contains \<Rightarrow> contains ip)"

definition rf_track_test ::
    "rf_env \<Rightarrow> rf_cfg \<Rightarrow> bytes \<Rightarrow> bytes \<Rightarrow> u64 \<Rightarrow> rf_op \<Rightarrow> int \<Rightarrow> rf_node xhash \<Rightarrow> int \<times> rf_node xhash" where
  \<comment> \<open>the \<open>switch\<close> on the tracking mode; \<open>newStatus\<close> keeps its value when nothing is tested\<close>
  "rf_track_test env c sip dip curTime op newStatus h =
     (case cf_tracking c of
        TrackBySrc \<Rightarrow> if SFRF_AppliesTo c sip then SFRF_TestObject env c sip curTime op h else (newStatus, h)
      | TrackByDst \<Rightarrow> if SFRF_AppliesTo c dip then SFRF_TestObject env c dip curTime op h else (newStatus, h)
      | TrackByRule \<Rightarrow> SFRF_TestObject env c (replicate 16 0) curTime op h
      | TrackOther \<Rightarrow> (newStatus, h))"

fun rf_test_list ::
    "rf_env \<Rightarrow> rf_cfg list \<Rightarrow> bytes \<Rightarrow> bytes \<Rightarrow> u64 \<Rightarrow> rf_op \<Rightarrow> int \<Rightarrow> int \<Rightarrow> rf_node xhash \<Rightarrow>
     int \<times> rf_node xhash" where
  "rf_test_list env [] sip dip curTime op newStatus status h = (status, h)"
| "rf_test_list env (c # cs) sip dip curTime op newStatus status h =
     (let (newStatus', h') = rf_track_test env c sip dip curTime op newStatus h;
          status' = (if newStatus' \<ge> 0 \<and> status = -1 then newStatus' else status)
      in rf_test_list env cs sip dip curTime op newStatus' status' h')"

function SFRF_TestThreshold ::
    "rf_env \<Rightarrow> rf_config \<Rightarrow> int \<Rightarrow> u32 \<Rightarrow> u32 \<Rightarrow> bytes \<Rightarrow> bytes \<Rightarrow> u64 \<Rightarrow> rf_op \<Rightarrow> rf_node xhash \<Rightarrow>
     int \<times> rf_node xhash" where
  "SFRF_TestThreshold env cfg syn_act gid sid sip dip curTime op h =
     (if gid \<ge> SFRF_MAX_GENID then (-1, h)
      else if gid = GENERATOR_INTERNAL \<and> sid = INTERNAL_EVENT_SYN_RECEIVED \<and> syn_act \<ge> -1
      then (syn_act, h)
      else
        let h1 = (if gid = GENERATOR_INTERNAL \<and> sid = INTERNAL_EVENT_SESSION_DEL
                  then snd (SFRF_TestThreshold env cfg syn_act gid INTERNAL_EVENT_SESSION_ADD sip dip
                              curTime CountDecrement h)
                  else h)
        in case rc_gen cfg gid of
             None \<Rightarrow> (-1, h1)
           | Some tab \<Rightarrow>
               (case tab (getApplicableRuntimePolicy env gid, sid) of
                  None \<Rightarrow> (-1, h1)
                | Some sn \<Rightarrow> rf_test_list env (sn_list sn) sip dip curTime op (-1) (-1) h1))"
  by pat_completeness auto
termination
  by (relation "measure (\<lambda>(env, cfg, syn_act, gid, sid, sip, dip, curTime, op, h).
        if sid = INTERNAL_EVENT_SESSION_DEL then 1 else 0)")
     (auto simp: INTERNAL_EVENT_SESSION_DEL_def INTERNAL_EVENT_SESSION_ADD_def)

declare SFRF_TestThreshold.simps [simp del]

text \<open>
  \<open>SFRF_InternalSynRecdEvent\<close> answers \<open>internal_syn_rate_limit_act\<close>, whether the event is
  queued and counted, and whether the packet is marked \<open>PKT_ERR_SYN_RL_DROP\<close>.
\<close>

definition SFRF_InternalSynRecdEvent ::
    "rf_env \<Rightarrow> rf_config \<Rightarrow> bool \<Rightarrow> bool \<Rightarrow> bytes \<Rightarrow> bytes \<Rightarrow> u64 \<Rightarrow> rf_node xhash \<Rightarrow>
     int \<times> bool \<times> bool \<times> rf_node xhash" where
  "SFRF_InternalSynRecdEvent env cfg iph_valid inline sip dip curTime h =
     (if \<not> iph_valid then (-2, False, False, h)
      else let (act, h') = SFRF_TestThreshold env cfg (-2) GENERATOR_INTERNAL INTERNAL_EVENT_SYN_RECEIVED
                             sip dip curTime CountIncrement h;
               action = (if act \<ge> RULE_TYPE__MAX then act - RULE_TYPE__MAX else act)
           in (act, act > 0,
               inline \<and> action \<in> {RULE_TYPE__DROP, RULE_TYPE__SDROP, RULE_TYPE__REJECT}, h'))"

section \<open>Configuration\<close>

text \<open>
  \<open>SFRF_ConfigAdd\<close>.  \<open>policy\<close> is \<open>getParserPolicy\<close>, \<open>mem i\<close> tells whether the allocation
  whose failure is answered with \<open>-i\<close> succeeds (\<open>-6\<close>: the configuration node).
\<close>

definition rf_put_sid :: "rf_config \<Rightarrow> u32 \<Rightarrow> u32 \<times> u32 \<Rightarrow> rf_sid \<Rightarrow> rf_config" where
  "rf_put_sid cfg gid key sn =
     cfg\<lparr>rc_gen := (rc_gen cfg)(gid := Some ((the (rc_gen cfg gid))(key := Some sn)))\<rparr>"

definition rf_add_node :: "(nat \<Rightarrow> bool) \<Rightarrow> rf_config \<Rightarrow> u32 \<times> u32 \<Rightarrow> rf_sid \<Rightarrow> rf_cfg \<Rightarrow> int \<times> rf_config" where
  \<comment> \<open>from the allocation of the configuration node on\<close>
  "rf_add_node mem cfg key sn node =
     (if \<not> mem 6 then (-6, rf_put_sid cfg (cf_gid node) key (sn\<lparr>sn_freed := True\<rparr>))
      else let cfg1 = cfg\<lparr>rc_count := rc_count cfg + 1\<rparr>;
               new = node\<lparr>cf_tid := rc_count cfg1\<rparr>
           in if cf_tid new = 0
              then (-6, rf_put_sid cfg1 (cf_gid node) key (sn\<lparr>sn_freed := True\<rparr>))
              else (0, rf_put_sid cfg1 (cf_gid node) key (sn\<lparr>sn_list := sn_list sn @ [new]\<rparr>)))"

definition SFRF_ConfigAdd ::
    "(u64 \<Rightarrow> bool) \<Rightarrow> hashfcn \<Rightarrow> (nat \<Rightarrow> bool) \<Rightarrow> u32 \<Rightarrow> rf_config \<Rightarrow> rf_node xhash option \<Rightarrow> rf_cfg \<Rightarrow>
     int \<times> rf_config \<times> rf_node xhash option" where
  "SFRF_ConfigAdd os fcn mem policy cfg h0 node =
     (let h = (if h0 = None then SFRF_New os fcn (rc_memcap cfg) else h0) in
      if h = None then (-1, cfg, h)
      else if cf_sid node = 0 \<or> cf_gid node = 0 then (-1, cfg, h)
      else if cf_gid node \<ge> SFRF_MAX_GENID then (-1, cfg, h)
      else if cf_count node < 1 then (-1, cfg, h)
      else if cf_timeout node = 0 \<and> rc_norevert cfg \<ge> SFRF_NO_REVERT_LIMIT then (-1, cfg, h)
      else
        let cfg1 = (if cf_timeout node = 0 then cfg\<lparr>rc_norevert := rc_norevert cfg + 1\<rparr> else cfg) in
        if rc_gen cfg1 (cf_gid node) = None \<and> \<not> mem 2 then (-2, cfg1, h)
        else
          let cfg2 = (if rc_gen cfg1 (cf_gid node) = None
                      then cfg1\<lparr>rc_gen := (rc_gen cfg1)(cf_gid node := Some Map.empty)\<rparr> else cfg1);
              key = (policy, cf_sid node)
          in case the (rc_gen cfg2 (cf_gid node)) key of
               Some sn \<Rightarrow> (case rf_add_node mem cfg2 key sn node of (r, cfg3) \<Rightarrow> (r, cfg3, h))
             | None \<Rightarrow>
                 if \<not> mem 3 then (-3, cfg2, h)
                 else if \<not> mem 4 then (-4, cfg2, h)
                 else if \<not> mem 5 then (-5, cfg2, h)
                 else
                   let sn = \<lparr>sn_gid = cf_gid node, sn_sid = cf_sid node, sn_list = [], sn_freed = False\<rparr>;
                       cfg3 = rf_put_sid cfg2 (cf_gid node) key sn
                   in case rf_add_node mem cfg3 key sn node of (r, cfg4) \<Rightarrow> (r, cfg4, h))"

end
