(* ===== verification/RateFilterProps.thy ===== *)
theory RateFilterProps
  imports RateFilter
begin

text \<open>
  What the rate filter promises: the behaviour of one tracking node over time, carried to the
  tracking table through the tracker-store interface, and the configuration.
\<close>

section \<open>One test as an update of a tracking node\<close>

definition rf_first :: "u64 \<Rightarrow> rf_node \<Rightarrow> rf_node" where
  "rf_first curTime d =
     (if rn_state d = FS_NEW
      then d\<lparr>rn_tstart := curTime, rn_tlast := curTime, rn_state := FS_OFF\<rparr> else d)"

definition rf_fixup :: "rf_cfg \<Rightarrow> rf_node \<Rightarrow> rf_node" where
  "rf_fixup c d =
     (if cf_seconds c = 0 \<and> rn_count d > cf_count c \<and> cf_action c = RULE_TYPE__DROP
      then d\<lparr>rn_count := rn_count d - 1\<rparr> else d)"

definition rf_node_test :: "rf_cfg \<Rightarrow> u64 \<Rightarrow> rf_op \<Rightarrow> rf_node \<Rightarrow> int \<times> rf_node" where
  "rf_node_test c curTime op d =
     (let (r, d') = checkThreshold c (rf_count_op c op (snd (checkSamplingPeriod c (rf_first curTime d) curTime))) curTime
      in (r, rf_fixup c d'))"

lemma node_write_same: "xh_nodes h a \<noteq> None \<Longrightarrow> node_write h a (ndata h a) = h"
proof -
  assume "xh_nodes h a \<noteq> None"
  then have "(xh_nodes h)(a := Some ((xn h a)\<lparr>xn_data := ndata h a\<rparr>)) = xh_nodes h"
    by (auto simp: xn_def)
  then show ?thesis by (simp add: node_write_def)
qed

lemma node_write_twice: "node_write (node_write h a d) a e = node_write h a e"
  by (simp add: node_write_def xn_def)

lemma test_object_update:
  "SFRF_TestObject env c ip t op h =
     (case track_update (sfxhash_get_node (env_os env)) ndata node_write (rf_node_test c t op) h
             (rf_key (env_nap env) (cf_tid c) ip) of
        (None, h') \<Rightarrow> (-1, h') | (Some r, h') \<Rightarrow> (r, h'))"
  by (auto simp: SFRF_TestObject_def getSFRFTrackingNode_def track_update_def rf_node_test_def
      rf_first_def rf_fixup_def Let_def node_write_twice split: prod.splits option.splits)

lemma rf_key_length: "length ip = 16 \<Longrightarrow> length (rf_key p tid ip) = 24"
  by (simp add: rf_key_def u32_bytes_def)

lemma u32_bytes_inj: "u32_bytes v = u32_bytes w \<Longrightarrow> v = w"
proof (rule bit_word_eqI)
  fix n assume eq: "u32_bytes v = u32_bytes w" and n: "n < LENGTH(32)"
  have b: "bit (drop_bit (8 * i) v) j = bit (drop_bit (8 * i) w) j" if "i < 4" "j < 8" for i j
  proof -
    have "ucast (drop_bit (8 * i) v) = (ucast (drop_bit (8 * i) w) :: u8)"
    proof -
      have "i = 0 \<or> i = 1 \<or> i = 2 \<or> i = 3" using that(1) by auto
      then show ?thesis using eq by (auto simp: u32_bytes_def)
    qed
    then have "bit (ucast (drop_bit (8 * i) v) :: u8) j = bit (ucast (drop_bit (8 * i) w) :: u8) j"
      by simp
    then show ?thesis using that(2) by (simp add: bit_unsigned_iff)
  qed
  have "n = 8 * (n div 8) + n mod 8" "n div 8 < 4" using n by auto
  then show "bit v n = bit w n" using b [of "n div 8" "n mod 8"] by (simp add: bit_drop_bit_eq)
qed

lemma rf_key_inj: "rf_key p tid ip = rf_key p' tid' ip' \<Longrightarrow> p = p' \<and> tid = tid' \<and> ip = ip'"
proof -
  assume h: "rf_key p tid ip = rf_key p' tid' ip'"
  have l: "length (u32_bytes w) = 4" for w by (simp add: u32_bytes_def)
  have "u32_bytes p = u32_bytes p'" "u32_bytes tid @ ip = u32_bytes tid' @ ip'"
    using h l by (simp_all add: rf_key_def)
  moreover from this(2) have "u32_bytes tid = u32_bytes tid'" "ip = ip'"
    using l by simp_all
  ultimately show ?thesis using u32_bytes_inj by blast
qed

primrec rf_run ::
    "rf_env \<Rightarrow> rf_cfg \<Rightarrow> bytes \<Rightarrow> (u64 \<times> rf_op) list \<Rightarrow> rf_node xhash \<Rightarrow> int list \<times> rf_node xhash" where
  \<comment> \<open>a sequence of events of one address\<close>
  "rf_run env c ip [] h = ([], h)"
| "rf_run env c ip (e # es) h =
     (let (r, h1) = SFRF_TestObject env c ip (fst e) (snd e) h; (rs, h2) = rf_run env c ip es h1
      in (r # rs, h2))"

lemma rf_run_track:
  "track_run (sfxhash_get_node (env_os env)) ndata node_write
       (map (\<lambda>e. rf_node_test c (fst e) (snd e)) es) h (rf_key (env_nap env) (cf_tid c) ip) =
     (map Some rs, h') \<Longrightarrow> rf_run env c ip es h = (rs, h')"
proof (induction es arbitrary: h rs)
  case (Cons e es)
  then show ?case
    by (cases rs) (auto simp: test_object_update Let_def split: prod.splits option.splits)
qed simp

text \<open>The events of an address that has a tracking node act on that node alone.\<close>

lemma rf_run_node:
  assumes ok: "xh_ready 24 h" and ip: "length ip = 16"
    and hit: "xh_map h (rf_key (env_nap env) (cf_tid c) ip) = Some d"
    and run: "node_run (map (\<lambda>e. rf_node_test c (fst e) (snd e)) es) d = (rs, d')"
  shows "\<exists>h'. rf_run env c ip es h = (rs, h') \<and> xh_ready 24 h' \<and>
    xh_map h' = (xh_map h)(rf_key (env_nap env) (cf_tid c) ip \<mapsto> d')"
proof -
  obtain h' where h': "track_run (sfxhash_get_node (env_os env)) ndata node_write
       (map (\<lambda>e. rf_node_test c (fst e) (snd e)) es) h (rf_key (env_nap env) (cf_tid c) ip) =
     (map Some rs, h')" "xh_ready 24 h'"
    "xh_map h' = (xh_map h)(rf_key (env_nap env) (cf_tid c) ip \<mapsto> d')"
    using xts.run_hit [OF ok rf_key_length [OF ip] hit run] by blast
  then show ?thesis using rf_run_track by blast
qed

section \<open>Rate limits\<close>

definition rf_in_window :: "rf_cfg \<Rightarrow> u64 \<Rightarrow> u64 \<Rightarrow> bool" where
  "rf_in_window c t0 t \<longleftrightarrow> (ucast (t - t0) :: u32) < cf_seconds c"

lemma window_sampling:
  assumes "rf_in_window c (rn_tstart d) t"
  shows "checkSamplingPeriod c d t = (0, d\<lparr>rn_tlast := t\<rparr>)"
proof -
  have "cf_seconds c \<noteq> 0" using assms by (auto simp: rf_in_window_def)
  moreover have "\<not> ucast (t - rn_tstart d) \<ge> cf_seconds c" using assms by (simp add: rf_in_window_def)
  ultimately show ?thesis by (simp add: checkSamplingPeriod_def)
qed

lemma window_test_below:
  assumes "cf_seconds c \<noteq> 0" "rn_state d = FS_OFF" "\<not> rn_over d" "rf_in_window c (rn_tstart d) t"
    "rn_count d < cf_count c"
  shows "rf_node_test c t CountIncrement d = (-1, d\<lparr>rn_tlast := t, rn_count := rn_count d + 1\<rparr>)"
proof -
  have le: "rn_count d + 1 \<le> cf_count c" using assms(5) by (simp add: inc_le)
  have "rn_count d + 1 \<noteq> 0"
    using word_succ_nonzero [OF assms(5)] .
  then show ?thesis
    using assms le
    by (simp add: rf_node_test_def rf_first_def window_sampling rf_count_op_def checkThreshold_def
        rf_start_def rf_fixup_def Let_def)
qed

lemma window_test_reach:
  assumes "cf_seconds c \<noteq> 0" "rn_state d = FS_OFF" "\<not> rn_over d" "rf_in_window c (rn_tstart d) t"
    "rn_count d = cf_count c" "cf_count c + 1 \<noteq> 0"
  shows "rf_node_test c t CountIncrement d =
    (RULE_TYPE__MAX + cf_action c,
     d\<lparr>rn_tlast := t, rn_count := cf_count c + 1, rn_revert := t, rn_state := FS_ON, rn_over := True\<rparr>)"
proof -
  have "\<not> cf_count c + 1 \<le> cf_count c"
    using word_succ_greater [OF assms(6)] by (simp add: not_le)
  then show ?thesis
    using assms
    by (simp add: rf_node_test_def rf_first_def window_sampling rf_count_op_def checkThreshold_def
        rf_start_def rf_fixup_def Let_def)
qed

lemma window_test_over:
  assumes "cf_seconds c \<noteq> 0" "rn_state d = FS_ON" "rn_over d" "rf_in_window c (rn_tstart d) t"
  shows "\<exists>d'. rf_node_test c t CountIncrement d = (cf_action c, d') \<and> rn_state d' = FS_ON \<and>
    rn_over d' \<and> rn_tstart d' = rn_tstart d"
  using assms
  by (auto simp: rf_node_test_def rf_first_def window_sampling rf_count_op_def checkThreshold_def
      rf_start_def rf_fixup_def Let_def)

lemma window_run_over:
  assumes "cf_seconds c \<noteq> 0"
  shows "rn_state d = FS_ON \<Longrightarrow> rn_over d \<Longrightarrow> \<forall>t \<in> set ts. rf_in_window c (rn_tstart d) t \<Longrightarrow>
    fst (node_run (map (\<lambda>t. rf_node_test c t CountIncrement) ts) d) = replicate (length ts) (cf_action c)"
proof (induction ts arbitrary: d)
  case (Cons t ts)
  obtain d' where d': "rf_node_test c t CountIncrement d = (cf_action c, d')" "rn_state d' = FS_ON"
    "rn_over d'" "rn_tstart d' = rn_tstart d"
    using window_test_over [OF assms Cons.prems(1,2)] Cons.prems(3) by auto
  have "fst (node_run (map (\<lambda>t. rf_node_test c t CountIncrement) ts) d') =
      replicate (length ts) (cf_action c)"
    using Cons.IH [OF d'(2,3)] Cons.prems(3) d'(4) by simp
  then show ?case using d'(1) by (simp add: node_run_Cons del: node_run.simps(2))
qed simp

definition window_results :: "rf_cfg \<Rightarrow> nat \<Rightarrow> nat \<Rightarrow> int list" where
  \<comment> \<open>the results of \<open>n\<close> events in one window that already counted \<open>m\<close>\<close>
  "window_results c m n =
     map (\<lambda>i. if m + i < unat (cf_count c) then -1
              else if m + i = unat (cf_count c) then RULE_TYPE__MAX + cf_action c
              else cf_action c) [0 ..< n]"

lemma window_results_Suc:
  "window_results c m (Suc n) =
     (if m < unat (cf_count c) then -1
      else if m = unat (cf_count c) then RULE_TYPE__MAX + cf_action c
      else cf_action c) # window_results c (Suc m) n"
  unfolding window_results_def upt_conv_Cons [OF zero_less_Suc]
  by (simp add: map_Suc_upt [symmetric] del: upt_Suc)

lemma window_results_over:
  "unat (cf_count c) < m \<Longrightarrow> window_results c m n = replicate n (cf_action c)"
  by (auto simp: window_results_def intro!: nth_equalityI)

lemma window_run:
  assumes sec: "cf_seconds c \<noteq> 0" and big: "cf_count c + 1 \<noteq> 0"
  shows "rn_state d = FS_OFF \<Longrightarrow> \<not> rn_over d \<Longrightarrow> rn_count d \<le> cf_count c \<Longrightarrow>
    \<forall>t \<in> set ts. rf_in_window c (rn_tstart d) t \<Longrightarrow>
    fst (node_run (map (\<lambda>t. rf_node_test c t CountIncrement) ts) d) =
      window_results c (unat (rn_count d)) (length ts)"
proof (induction ts arbitrary: d)
  case Nil
  then show ?case by (simp add: window_results_def)
next
  case (Cons t ts)
  have w: "rf_in_window c (rn_tstart d) t" using Cons.prems(4) by simp
  show ?case
  proof (cases "rn_count d < cf_count c")
    case True
    let ?d = "d\<lparr>rn_tlast := t, rn_count := rn_count d + 1\<rparr>"
    have r: "rf_node_test c t CountIncrement d = (-1, ?d)"
      by (rule window_test_below [OF sec Cons.prems(1,2) w True])
    have u: "unat (rn_count d + 1) = Suc (unat (rn_count d))"
      by (rule unat_succ [OF word_succ_nonzero [OF True]])
    have "rn_count ?d \<le> cf_count c" using True by (simp add: inc_le)
    then have "fst (node_run (map (\<lambda>t. rf_node_test c t CountIncrement) ts) ?d) =
        window_results c (unat (rn_count ?d)) (length ts)"
      using Cons.IH [of ?d] Cons.prems by simp
    then show ?thesis
      using r u True
      by (simp add: window_results_Suc word_less_nat_alt node_run_Cons del: node_run.simps(2))
  next
    case False
    then have eq: "rn_count d = cf_count c" using Cons.prems(3) by simp
    let ?d = "d\<lparr>rn_tlast := t, rn_count := cf_count c + 1, rn_revert := t, rn_state := FS_ON, rn_over := True\<rparr>"
    have r: "rf_node_test c t CountIncrement d = (RULE_TYPE__MAX + cf_action c, ?d)"
      by (rule window_test_reach [OF sec Cons.prems(1,2) w eq big])
    have "fst (node_run (map (\<lambda>t. rf_node_test c t CountIncrement) ts) ?d) =
        replicate (length ts) (cf_action c)"
      by (rule window_run_over [OF sec]) (use Cons.prems(4) in simp_all)
    then show ?thesis
      using r eq
      by (simp add: window_results_Suc window_results_over node_run_Cons del: node_run.simps(2))
  qed
qed

section \<open>Holding the action, and the connection limit\<close>

definition rf_held :: "rf_cfg \<Rightarrow> rf_node \<Rightarrow> u64 \<Rightarrow> bool" where
  \<comment> \<open>the action was activated and its timeout is not over at \<open>t\<close>\<close>
  "rf_held c d t \<longleftrightarrow>
     rn_state d = FS_ON \<and> (cf_timeout c = 0 \<or> (ucast (t - rn_revert d) :: u32) < cf_timeout c)"

lemma sampling_keeps:
  "rn_state (snd (checkSamplingPeriod c d t)) = rn_state d"
  "rn_revert (snd (checkSamplingPeriod c d t)) = rn_revert d"
  by (simp_all add: checkSamplingPeriod_def Let_def)

lemma count_op_keeps:
  "rn_state (rf_count_op c op d) = rn_state d" "rn_revert (rf_count_op c op d) = rn_revert d"
  "rn_over (rf_count_op c op d) = rn_over d"
  by (simp_all add: rf_count_op_def split: rf_op.split)

lemma fixup_keeps: "rn_state (rf_fixup c d) = rn_state d" "rn_revert (rf_fixup c d) = rn_revert d"
  by (simp_all add: rf_fixup_def)

lemma held_test:
  assumes "rf_held c d t"
  shows "fst (rf_node_test c t op d) = cf_action c \<and>
    rn_state (snd (rf_node_test c t op d)) = FS_ON \<and>
    rn_revert (snd (rf_node_test c t op d)) = rn_revert d"
proof -
  let ?d = "rf_count_op c op (snd (checkSamplingPeriod c (rf_first t d) t))"
  have f: "rf_first t d = d" using assms by (simp add: rf_first_def rf_held_def)
  have "checkThreshold c ?d t = (cf_action c, ?d)"
    using assms by (auto simp: checkThreshold_def f sampling_keeps count_op_keeps rf_held_def not_le)
  then show ?thesis
    using assms by (simp add: rf_node_test_def fixup_keeps f sampling_keeps count_op_keeps rf_held_def)
qed

lemma held_run:
  "rn_state d = FS_ON \<Longrightarrow>
   \<forall>e \<in> set es. cf_timeout c = 0 \<or> (ucast (fst e - rn_revert d) :: u32) < cf_timeout c \<Longrightarrow>
   fst (node_run (map (\<lambda>e. rf_node_test c (fst e) (snd e)) es) d) = replicate (length es) (cf_action c)"
proof (induction es arbitrary: d)
  case (Cons e es)
  let ?d = "snd (rf_node_test c (fst e) (snd e) d)"
  have h: "rf_held c d (fst e)" using Cons.prems by (auto simp: rf_held_def)
  note t = held_test [OF h, of "snd e"]
  have "fst (node_run (map (\<lambda>e. rf_node_test c (fst e) (snd e)) es) ?d) =
      replicate (length es) (cf_action c)"
    by (rule Cons.IH) (use t Cons.prems in auto)
  then show ?case using t by (simp add: node_run_Cons del: node_run.simps(2))
qed simp

definition rf_conn :: "rf_cfg \<Rightarrow> bool" where
  \<comment> \<open>a limit on simultaneous connections: a total count whose action drops\<close>
  "rf_conn c \<longleftrightarrow> cf_seconds c = 0 \<and> cf_action c = RULE_TYPE__DROP"

lemma check_keeps_count: "rn_count (snd (checkThreshold c d t)) = rn_count d"
  by (simp add: checkThreshold_def rf_start_def)

lemma conn_count:
  assumes "rf_conn c" "rn_count d \<le> cf_count c"
  shows "rn_count (snd (rf_node_test c t op d)) \<le> cf_count c"
proof -
  let ?d = "snd (checkSamplingPeriod c (rf_first t d) t)"
  let ?e = "snd (checkThreshold c (rf_count_op c op ?d) t)"
  have c1: "rn_count ?d = rn_count d"
    using assms(1) by (simp add: checkSamplingPeriod_def rf_conn_def rf_first_def)
  have c2: "rn_count ?e = rn_count (rf_count_op c op ?d)" by (rule check_keeps_count)
  have fx: "rn_count (rf_fixup c ?e) \<le> cf_count c"
  proof (cases "rn_count ?e > cf_count c")
    case True
    have "op = CountIncrement" "rn_count ?e = rn_count d + 1"
    proof -
      have "rn_count d - 1 \<le> rn_count d" if "rn_count d \<noteq> 0"
        using that by (simp add: word_le_nat_alt unat_minus_one)
      then have gt: "rn_count (rf_count_op c op ?d) > rn_count d"
        using True assms(2) c2 by simp
      then show "op = CountIncrement" "rn_count ?e = rn_count d + 1"
        using c1 c2 \<open>rn_count d \<noteq> 0 \<Longrightarrow> rn_count d - 1 \<le> rn_count d\<close>
        by (cases op; simp add: rf_count_op_def split: if_splits)+
    qed
    then have "rn_count (rf_fixup c ?e) = rn_count d"
      using True assms(1) by (simp add: rf_fixup_def rf_conn_def)
    then show ?thesis using assms(2) by simp
  next
    case False
    then have "rf_fixup c ?e = ?e" by (simp only: rf_fixup_def False simp_thms if_False)
    then show ?thesis using False by (simp add: not_less)
  qed
  then show ?thesis by (simp add: rf_node_test_def Let_def case_prod_beta)
qed

lemma conn_run:
  assumes "rf_conn c"
  shows "rn_count d \<le> cf_count c \<Longrightarrow>
    rn_count (snd (node_run (map (\<lambda>e. rf_node_test c (fst e) (snd e)) es) d)) \<le> cf_count c"
  by (induction es arbitrary: d) (simp_all add: node_run_Cons conn_count [OF assms] del: node_run.simps(2))

lemma conn_full:
  assumes "rf_conn c" "rn_count d = cf_count c" "cf_count c + 1 \<noteq> 0"
  shows "fst (rf_node_test c t CountIncrement d) \<ge> 0 \<and>
    rn_count (snd (rf_node_test c t CountIncrement d)) = cf_count c"
proof -
  let ?d = "rf_count_op c CountIncrement (snd (checkSamplingPeriod c (rf_first t d) t))"
  have cnt: "rn_count ?d = cf_count c + 1"
    using assms by (simp add: rf_count_op_def checkSamplingPeriod_def rf_conn_def rf_first_def)
  have gt: "rn_count ?d > cf_count c" using word_succ_greater [OF assms(3)] by (simp add: cnt)
  then have "fst (checkThreshold c ?d t) \<ge> 0"
    using assms(1)
    by (auto simp: checkThreshold_def rf_start_def rf_conn_def RULE_TYPE__DROP_def RULE_TYPE__MAX_def)
  moreover have "rn_count (rf_fixup c (snd (checkThreshold c ?d t))) = cf_count c"
    using assms(1) gt cnt by (simp add: rf_fixup_def check_keeps_count rf_conn_def)
  ultimately show ?thesis by (simp add: rf_node_test_def Let_def case_prod_beta)
qed

section \<open>Configuration\<close>

definition rf_at :: "rf_config \<Rightarrow> u32 \<Rightarrow> u32 \<times> u32 \<Rightarrow> nat \<Rightarrow> rf_cfg option" where
  \<comment> \<open>the \<open>i\<close>-th threshold of a generator, policy and signature\<close>
  "rf_at cfg g k i =
     (case rc_gen cfg g of
        None \<Rightarrow> None
      | Some tab \<Rightarrow>
          (case tab k of
             None \<Rightarrow> None
           | Some sn \<Rightarrow> if i < length (sn_list sn) then Some (sn_list sn ! i) else None))"

definition rf_len :: "rf_config \<Rightarrow> u32 \<Rightarrow> u32 \<times> u32 \<Rightarrow> nat" where
  "rf_len cfg g k =
     (case rc_gen cfg g of
        None \<Rightarrow> 0
      | Some tab \<Rightarrow> (case tab k of None \<Rightarrow> 0 | Some sn \<Rightarrow> length (sn_list sn)))"

lemma rf_at_put:
  "rc_gen cfg g0 = Some tab \<Longrightarrow>
   rf_at (rf_put_sid cfg g0 k0 sn) g k i =
     (if g = g0 \<and> k = k0 then (if i < length (sn_list sn) then Some (sn_list sn ! i) else None)
      else rf_at cfg g k i)"
  by (auto simp: rf_at_def rf_put_sid_def)

lemma rf_put_count: "rc_count (rf_put_sid cfg g k sn) = rc_count cfg"
  by (simp add: rf_put_sid_def)

definition rf_appended :: "rf_config \<Rightarrow> u32 \<Rightarrow> u32 \<times> u32 \<Rightarrow> rf_cfg \<Rightarrow> rf_config \<Rightarrow> bool" where
  "rf_appended cfg g0 k0 new cfg' \<longleftrightarrow>
     (\<forall>g k i. rf_at cfg' g k i =
        (if g = g0 \<and> k = k0 \<and> i = rf_len cfg g0 k0 then Some new else rf_at cfg g k i))"

lemma rf_add_node_spec:
  assumes "rc_gen cfg (cf_gid node) = Some tab" "tab key = Some sn"
    and "rf_add_node mem cfg key sn node = (r, cfg')"
  shows "(r = 0 \<longrightarrow> rc_count cfg + 1 \<noteq> 0 \<and> rc_count cfg' = rc_count cfg + 1 \<and>
      rf_appended cfg (cf_gid node) key (node\<lparr>cf_tid := rc_count cfg + 1\<rparr>) cfg') \<and>
    (r \<noteq> 0 \<longrightarrow> rf_at cfg' = rf_at cfg)"
proof -
  have at: "rf_at (rf_put_sid (cfg\<lparr>rc_count := n\<rparr>) (cf_gid node) key sn') g k i =
     (if g = cf_gid node \<and> k = key then (if i < length (sn_list sn') then Some (sn_list sn' ! i) else None)
      else rf_at cfg g k i)" for n sn' g k i
    using rf_at_put [of "cfg\<lparr>rc_count := n\<rparr>" "cf_gid node" tab key sn' g k i] assms(1)
    by (simp add: rf_at_def)
  have old: "rf_at cfg (cf_gid node) key i =
      (if i < length (sn_list sn) then Some (sn_list sn ! i) else None)" for i
    using assms(1,2) by (simp add: rf_at_def)
  have len: "rf_len cfg (cf_gid node) key = length (sn_list sn)"
    using assms(1,2) by (simp add: rf_len_def)
  have same: "rf_at (rf_put_sid (cfg\<lparr>rc_count := n\<rparr>) (cf_gid node) key (sn\<lparr>sn_freed := True\<rparr>)) = rf_at cfg" for n
    by (auto simp: fun_eq_iff at old)
  have same': "rf_at (rf_put_sid cfg (cf_gid node) key (sn\<lparr>sn_freed := True\<rparr>)) = rf_at cfg"
    using same [of "rc_count cfg"] by simp
  consider "\<not> mem 6" | "mem 6" "rc_count cfg + 1 = 0" | "mem 6" "rc_count cfg + 1 \<noteq> 0" by blast
  then show ?thesis
  proof cases
    case 1
    then show ?thesis using assms(3) same' by (auto simp: rf_add_node_def)
  next
    case 2
    then show ?thesis using assms(3) same [of 0] by (auto simp: rf_add_node_def Let_def)
  next
    case 3
    let ?n = "node\<lparr>cf_tid := rc_count cfg + 1\<rparr>"
    have r: "r = 0" and cfg': "cfg' = rf_put_sid (cfg\<lparr>rc_count := rc_count cfg + 1\<rparr>) (cf_gid node) key
        (sn\<lparr>sn_list := sn_list sn @ [?n]\<rparr>)"
      using 3 assms(3) by (simp_all add: rf_add_node_def Let_def)
    have "rf_at cfg' g k i =
        (if g = cf_gid node \<and> k = key \<and> i = rf_len cfg (cf_gid node) key then Some ?n
         else rf_at cfg g k i)" for g k i
      unfolding cfg' at by (auto simp: old len nth_append)
    then have "rf_appended cfg (cf_gid node) key ?n cfg'" unfolding rf_appended_def by blast
    then show ?thesis using r 3 by (simp add: cfg' rf_put_count)
  qed
qed

definition rf_tids_ok :: "rf_config \<Rightarrow> bool" where
  "rf_tids_ok cfg \<longleftrightarrow>
     (\<forall>g k i c. rf_at cfg g k i = Some c \<longrightarrow> cf_tid c \<noteq> 0 \<and> cf_tid c \<le> rc_count cfg) \<and>
     (\<forall>g k i c g' k' i' c'. rf_at cfg g k i = Some c \<longrightarrow> rf_at cfg g' k' i' = Some c' \<longrightarrow>
        cf_tid c = cf_tid c' \<longrightarrow> g = g' \<and> k = k' \<and> i = i')"

lemma rf_tids_append:
  assumes ok: "rf_tids_ok cfg" and app: "rf_appended cfg g0 k0 new cfg'"
    and tid: "cf_tid new = rc_count cfg + 1" "rc_count cfg + 1 \<noteq> 0" "rc_count cfg' = rc_count cfg + 1"
  shows "rf_tids_ok cfg'"
proof -
  have gt: "rc_count cfg < rc_count cfg + 1" by (rule word_succ_greater [OF tid(2)])
  have at: "rf_at cfg' g k i =
      (if g = g0 \<and> k = k0 \<and> i = rf_len cfg g0 k0 then Some new else rf_at cfg g k i)" for g k i
    using app unfolding rf_appended_def by blast
  have or: "(g, k, i) = (g0, k0, rf_len cfg g0 k0) \<and> c = new \<or> rf_at cfg g k i = Some c"
    if "rf_at cfg' g k i = Some c" for g k i c
    using that unfolding at by (cases "g = g0 \<and> k = k0 \<and> i = rf_len cfg g0 k0") simp_all
  have old: "cf_tid c \<noteq> 0 \<and> cf_tid c \<le> rc_count cfg" if "rf_at cfg g k i = Some c" for g k i c
    using ok that unfolding rf_tids_ok_def by blast
  have ne: "cf_tid c \<noteq> cf_tid new" if "rf_at cfg g k i = Some c" for g k i c
    using old [OF that] gt tid(1) by auto
  have uniq: "g = g' \<and> k = k' \<and> i = i'"
    if "rf_at cfg g k i = Some c" "rf_at cfg g' k' i' = Some c'" "cf_tid c = cf_tid c'" for g k i c g' k' i' c'
    using ok that unfolding rf_tids_ok_def by blast
  show ?thesis
    unfolding rf_tids_ok_def
  proof (rule conjI; intro allI impI)
    fix g k i c assume "rf_at cfg' g k i = Some c"
    from or [OF this] consider "c = new" | "rf_at cfg g k i = Some c" by blast
    then show "cf_tid c \<noteq> 0 \<and> cf_tid c \<le> rc_count cfg'"
    proof cases
      case 1
      then show "cf_tid c \<noteq> 0 \<and> cf_tid c \<le> rc_count cfg'" using tid by simp
    next
      case 2
      then show "cf_tid c \<noteq> 0 \<and> cf_tid c \<le> rc_count cfg'" using old [OF 2] gt tid(3) by (metis le_less_trans less_imp_le)
    qed
  next
    fix g k i c g' k' i' c'
    assume a: "rf_at cfg' g k i = Some c" "rf_at cfg' g' k' i' = Some c'" "cf_tid c = cf_tid c'"
    show "g = g' \<and> k = k' \<and> i = i'"
      using or [OF a(1)] or [OF a(2)]
    proof (elim disjE conjE)
      assume "c = new" "rf_at cfg g' k' i' = Some c'"
      then show ?thesis using ne a(3) by metis
    next
      assume "rf_at cfg g k i = Some c" "c' = new"
      then show ?thesis using ne a(3) by metis
    next
      assume "rf_at cfg g k i = Some c" "rf_at cfg g' k' i' = Some c'"
      then show ?thesis using uniq a(3) by blast
    qed simp
  qed
qed

section \<open>Properties\<close>

text \<open>
  C12. Rate limiting through the tracking table.  An address with a fresh counter has its first
  \<open>count\<close> events of a sampling window let through (-1), the next one reported as the start of
  the new action (\<open>RULE_TYPE__MAX + newAction\<close>) and every later one of the window answered
  with the new action, timeouts included.
\<close>

theorem SFRF_rate_limit:
  assumes "xh_ready 24 h" and "length ip = 16"
    and "xh_map h (rf_key (env_nap env) (cf_tid c) ip) = Some d"
    and "rn_state d = FS_OFF" and "\<not> rn_over d" and "rn_count d = 0"
    and "cf_seconds c \<noteq> 0" and "cf_count c + 1 \<noteq> 0"
    and "\<forall>t \<in> set ts. rf_in_window c (rn_tstart d) t"
  shows "fst (rf_run env c ip (map (\<lambda>t. (t, CountIncrement)) ts) h) =
    map (\<lambda>i. if i < unat (cf_count c) then -1
             else if i = unat (cf_count c) then RULE_TYPE__MAX + cf_action c
             else cf_action c) [0 ..< length ts]"
proof -
  let ?fs = "map (\<lambda>e. rf_node_test c (fst e) (snd e)) (map (\<lambda>t. (t, CountIncrement)) ts)"
  have eq: "?fs = map (\<lambda>t. rf_node_test c t CountIncrement) ts" by simp
  obtain rs d' where run: "node_run ?fs d = (rs, d')" by (cases "node_run ?fs d")
  have "fst (node_run ?fs d) = window_results c 0 (length ts)"
    unfolding eq using window_run [OF assms(7,8,4,5), of ts] assms(6,9) by simp
  then have "rs = window_results c 0 (length ts)" by (simp only: run fst_conv)
  moreover obtain h' where "rf_run env c ip (map (\<lambda>t. (t, CountIncrement)) ts) h = (rs, h')"
    using rf_run_node [OF assms(1-3) run] by blast
  ultimately show ?thesis by (simp add: window_results_def)
qed

definition rf_demo_env :: rf_env where
  "rf_demo_env = \<lparr>env_os = (\<lambda>_. True), env_nap = 0, env_ips = 0\<rparr>"

definition rf_demo_table :: "rf_node xhash" where
  \<comment> \<open>\<open>SFRF_New\<close> with 256 bytes: room for one tracking node\<close>
  "rf_demo_table = the (SFRF_New (\<lambda>_. True) sfhashfcn_static 256)"

definition rf_demo_cfg :: rf_cfg where
  "rf_demo_cfg = \<lparr>cf_tid = 1, cf_gid = 1, cf_sid = 1000, cf_policy = 0, cf_tracking = TrackBySrc,
     cf_count = 1, cf_seconds = 10, cf_action = RULE_TYPE__DROP, cf_timeout = 60, cf_apply = None\<rparr>"

definition rf_demo_ip :: "u8 \<Rightarrow> bytes" where
  "rf_demo_ip b = replicate 15 0 @ [b]"

definition rf_demo_h :: "rf_node xhash" where
  \<comment> \<open>after one non-counting event of the first address\<close>
  "rf_demo_h = snd (SFRF_TestObject rf_demo_env rf_demo_cfg (rf_demo_ip 1) 100 CountNop rf_demo_table)"

lemma rf_new_ready: "SFRF_New os fcn n = Some t \<Longrightarrow> xh_ready 24 t"
proof -
  assume new: "SFRF_New os fcn n = Some t"
  let ?n = "if n < 64 then 64 else n"
  have n0: "0 < ?n div 64"
    by (auto simp: word_less_nat_alt unat_div not_less word_le_nat_alt div_greater_zero_iff)
  have "?n div 64 \<le> 0x80000000"
    by (simp add: word_le_nat_alt unat_div) (use unat_u32_bound [of n] in linarith)
  then have "xh_empty t"
    using new sfxhash_new_empty [OF n0] by (auto simp: SFRF_New_def Let_def)
  moreover have "xh_keysize t = 24"
    using new by (auto simp: SFRF_New_def sfxhash_new_def Let_def split: prod.splits option.splits)
  ultimately show ?thesis by (simp add: xh_ready_def xh_empty_wf)
qed

lemma test_object_ready:
  assumes ok: "xh_ready 24 h" and ip: "length ip = 16"
  shows "xh_ready 24 (snd (SFRF_TestObject env c ip t op h)) \<and>
    (j \<noteq> rf_key (env_nap env) (cf_tid c) ip \<longrightarrow>
       xh_map (snd (SFRF_TestObject env c ip t op h)) j = xh_map h j \<or>
       xh_map (snd (SFRF_TestObject env c ip t op h)) j = None \<and>
         xh_lost (env_os env) h (rf_key (env_nap env) (cf_tid c) ip) j)"
proof -
  let ?k = "rf_key (env_nap env) (cf_tid c) ip"
  obtain r h' where up: "track_update (sfxhash_get_node (env_os env)) ndata node_write
      (rf_node_test c t op) h ?k = (r, h')" by (metis surj_pair)
  have "snd (SFRF_TestObject env c ip t op h) = h'"
    by (simp add: test_object_update up split: option.split)
  moreover obtain j' :: bytes where "j' \<noteq> ?k" by (metis list.distinct(1))
  ultimately show ?thesis
    using xts.update_frame [OF ok rf_key_length [OF ip] up] by blast
qed

text \<open>The first test of a new address with the node of another one: its data is tested as it is.\<close>

lemma test_object_stale:
  assumes ok: "xh_ready 24 h" and ip: "length ip = 16" and ds: "0 < xh_datasize h"
    and new: "xh_map h (rf_key (env_nap env) (cf_tid c) ip) = None"
    and ns: "no_spare (env_os env) h" and anr: "xh_anr_flag h" "xh_anrfree h = None" and ne: "xh_glist h \<noteq> []"
  shows "fst (SFRF_TestObject env c ip t op h) = fst (rf_node_test c t op (ndata h (last (xh_glist h)))) \<and>
    xh_map (snd (SFRF_TestObject env c ip t op h)) (rf_key (env_nap env) (cf_tid c) ip) =
      Some (snd (rf_node_test c t op (ndata h (last (xh_glist h)))))"
proof -
  let ?k = "rf_key (env_nap env) (cf_tid c) ip" and ?a = "last (xh_glist h)"
  have wf: "xh_wf h" and ks: "xh_keysize h \<le> length ?k" and tk: "take (xh_keysize h) ?k = ?k" and len: "length ?k = 24"
    using ok rf_key_length [OF ip] by (simp_all add: xh_ready_def)
  obtain t2 where t2: "sfxhash_newnode (env_os env) (h\<lparr>xh_find_fail := xh_find_fail h + 1\<rparr>) = (Some ?a, t2)"
    using newnode_lru [OF wf ns anr ne] by blast
  obtain h1 where h1: "sfxhash_get_node (env_os env) h ?k = (Some ?a, h1)"
  proof (cases rule: add_ex_cases [OF wf ks, of "env_os env" None, unfolded tk, case_names found nomem ok])
    case (ok a u v w)
    then show ?thesis using that t2 by simp
  next
    case (nomem u)
    have "\<not> anr_keeps h a" for a using anr by (simp add: anr_keeps_def)
    then show ?thesis using nomem(4) anr ne last_in_set [OF ne] unfolding out_of_nodes_def by blast
  qed (use new in \<open>simp add: xh_map_node\<close>)
  have "xh_map h1 ?k = Some (ndata h ?a)"
    using sfxhash_get_node_data [OF wf ks ds _ h1] new ne by (simp add: tk)
  moreover have a1: "xh_node_of h1 ?k = Some ?a" by (rule xts.touch_some [OF ok len h1])
  ultimately have d: "ndata h1 ?a = ndata h ?a" by (simp add: xh_map_node)
  have "xh_wf h1" using xts.touch_ok [OF ok len h1] by (simp add: xh_ready_def)
  then have "xh_map (node_write h1 ?a x) ?k = Some x" for x using node_write_map [OF _ a1] by simp
  then show ?thesis
    using h1 d by (simp add: test_object_update track_update_def split: prod.split)
qed

lemma rf_demo_h_facts:
  "SFRF_New (\<lambda>_. True) sfhashfcn_static 256 = Some rf_demo_table" "xh_ready 24 rf_demo_h"
proof -
  have "SFRF_New (\<lambda>_. True) sfhashfcn_static 256 \<noteq> None"
    by (simp add: SFRF_New_def sfxhash_new_def s_alloc_def sfmemcap_alloc_def sfmemcap_init_def
        Let_def) code_simp
  then show new: "SFRF_New (\<lambda>_. True) sfhashfcn_static 256 = Some rf_demo_table"
    by (simp add: rf_demo_table_def)
  show "xh_ready 24 rf_demo_h"
    unfolding rf_demo_h_def
    by (rule test_object_ready [OF rf_new_ready [OF new], THEN conjunct1]) (simp add: rf_demo_ip_def)
qed

lemma rf_demo_node:
  "xh_map rf_demo_h (rf_key 0 1 (rf_demo_ip 1)) =
     Some \<lparr>rn_state = FS_OFF, rn_over = False, rn_tlast = 100, rn_count = 0, rn_tstart = 100, rn_revert = 0\<rparr>"
  by code_simp

theorem SFRF_rate_limit_witness:
  "fst (rf_run rf_demo_env rf_demo_cfg (rf_demo_ip 1)
      (map (\<lambda>t. (t, CountIncrement)) [100, 101, 102, 103]) rf_demo_h) = [-1, 9, 2, 2]"
  using SFRF_rate_limit [OF rf_demo_h_facts(2), of "rf_demo_ip 1" rf_demo_env rf_demo_cfg _ "[100, 101, 102, 103]"]
    rf_demo_node
  by (simp add: rf_demo_env_def rf_demo_cfg_def rf_demo_ip_def rf_in_window_def RULE_TYPE__MAX_def
      RULE_TYPE__DROP_def upt_rec)

text \<open>
  C22. The limit on simultaneous connections (\<open>seconds = 0\<close>, action drop).  Whatever sequence of
  counting operations an address goes through, its counter never exceeds the limit; and when
  it stands at the limit, one more connection is refused and not counted.
\<close>

theorem SFRF_connection_limit:
  assumes "xh_ready 24 h" and "length ip = 16"
    and "xh_map h (rf_key (env_nap env) (cf_tid c) ip) = Some d"
    and "rf_conn c" and "rn_count d \<le> cf_count c" and "cf_count c + 1 \<noteq> 0"
  shows "\<exists>rs h' d'. rf_run env c ip es h = (rs, h') \<and>
    xh_map h' (rf_key (env_nap env) (cf_tid c) ip) = Some d' \<and> rn_count d' \<le> cf_count c \<and>
    (rn_count d' = cf_count c \<longrightarrow>
       fst (SFRF_TestObject env c ip t CountIncrement h') \<ge> 0 \<and>
       map_option rn_count (xh_map (snd (SFRF_TestObject env c ip t CountIncrement h'))
         (rf_key (env_nap env) (cf_tid c) ip)) = Some (cf_count c))"
proof -
  let ?k = "rf_key (env_nap env) (cf_tid c) ip"
  let ?fs = "map (\<lambda>e. rf_node_test c (fst e) (snd e)) es"
  obtain rs d' where run: "node_run ?fs d = (rs, d')" by (cases "node_run ?fs d")
  obtain h' where h': "rf_run env c ip es h = (rs, h')" "xh_ready 24 h'" "xh_map h' = (xh_map h)(?k \<mapsto> d')"
    using rf_run_node [OF assms(1-3) run] by blast
  have le: "rn_count d' \<le> cf_count c"
    using conn_run [OF assms(4,5), of es] run by simp
  have one: "fst (SFRF_TestObject env c ip t CountIncrement h') \<ge> 0 \<and>
       map_option rn_count (xh_map (snd (SFRF_TestObject env c ip t CountIncrement h')) ?k) = Some (cf_count c)"
    if full: "rn_count d' = cf_count c"
  proof -
    have hit: "xh_map h' ?k = Some d'" by (simp add: h'(3))
    obtain r e where t: "rf_node_test c t CountIncrement d' = (r, e)"
      by (cases "rf_node_test c t CountIncrement d'")
    obtain h2 where "SFRF_TestObject env c ip t CountIncrement h' = (r, h2)" "xh_map h2 = (xh_map h')(?k \<mapsto> e)"
      using xts.update_hit [OF h'(2) rf_key_length [OF assms(2)] hit, of "rf_node_test c t CountIncrement", OF t, of "env_os env"]
      by (auto simp: test_object_update)
    then show ?thesis using conn_full [OF assms(4) full assms(6), of t] t by simp
  qed
  show ?thesis using h' le one by auto
qed

definition rf_demo_conn :: rf_cfg where
  "rf_demo_conn = rf_demo_cfg\<lparr>cf_seconds := 0\<rparr>"

theorem SFRF_connection_limit_witness:
  "\<exists>rs h' d'. rf_run rf_demo_env rf_demo_conn (rf_demo_ip 1)
      [(100, CountIncrement), (101, CountIncrement), (102, CountDecrement), (103, CountIncrement)] rf_demo_h = (rs, h') \<and>
    xh_map h' (rf_key 0 1 (rf_demo_ip 1)) = Some d' \<and> rn_count d' \<le> 1"
  using SFRF_connection_limit [OF rf_demo_h_facts(2), of "rf_demo_ip 1" rf_demo_env rf_demo_conn _
      "[(100, CountIncrement), (101, CountIncrement), (102, CountDecrement), (103, CountIncrement)]" 0] rf_demo_node
  by (auto simp: rf_demo_env_def rf_demo_conn_def rf_demo_cfg_def rf_demo_ip_def rf_conn_def simp del: rf_run.simps)

text \<open>
  C23. An activated action is held: as long as the timeout that runs from its activation is not
  over (a timeout of 0 never is), every event of the address, whatever it does to the
  counter, is answered with the new action.
\<close>

theorem SFRF_action_held:
  assumes "xh_ready 24 h" and "length ip = 16"
    and "xh_map h (rf_key (env_nap env) (cf_tid c) ip) = Some d" and "rn_state d = FS_ON"
    and "\<forall>e \<in> set es. cf_timeout c = 0 \<or> (ucast (fst e - rn_revert d) :: u32) < cf_timeout c"
  shows "fst (rf_run env c ip es h) = replicate (length es) (cf_action c)"
proof -
  let ?fs = "map (\<lambda>e. rf_node_test c (fst e) (snd e)) es"
  obtain rs d' where run: "node_run ?fs d = (rs, d')" by (cases "node_run ?fs d")
  then show ?thesis
    using rf_run_node [OF assms(1-3) run] held_run [OF assms(4,5)] by auto
qed

definition rf_demo_on :: "rf_node xhash" where
  \<comment> \<open>the first address has exceeded its limit at second 101\<close>
  "rf_demo_on = snd (SFRF_TestObject rf_demo_env rf_demo_cfg (rf_demo_ip 1) 101 CountIncrement
     (snd (SFRF_TestObject rf_demo_env rf_demo_cfg (rf_demo_ip 1) 100 CountIncrement rf_demo_h)))"

lemma rf_demo_on_node:
  "xh_map rf_demo_on (rf_key 0 1 (rf_demo_ip 1)) =
     Some \<lparr>rn_state = FS_ON, rn_over = True, rn_tlast = 101, rn_count = 2, rn_tstart = 100, rn_revert = 101\<rparr>"
  by code_simp

lemma rf_demo_on_ready: "xh_ready 24 rf_demo_on"
  unfolding rf_demo_on_def
  by (intro test_object_ready [THEN conjunct1] rf_demo_h_facts) (simp_all add: rf_demo_ip_def)

theorem SFRF_action_held_witness:
  "fst (rf_run rf_demo_env rf_demo_cfg (rf_demo_ip 1) [(130, CountDecrement), (160, CountReset)] rf_demo_on) = [2, 2]"
proof -
  let ?es = "[(130, CountDecrement), (160, CountReset)] :: (u64 \<times> rf_op) list"
  have node: "xh_map rf_demo_on (rf_key (env_nap rf_demo_env) (cf_tid rf_demo_cfg) (rf_demo_ip 1)) =
      Some \<lparr>rn_state = FS_ON, rn_over = True, rn_tlast = 101, rn_count = 2, rn_tstart = 100, rn_revert = 101\<rparr>"
    using rf_demo_on_node by (simp add: rf_demo_env_def rf_demo_cfg_def)
  have "fst (rf_run rf_demo_env rf_demo_cfg (rf_demo_ip 1) ?es rf_demo_on) =
      replicate (length ?es) (cf_action rf_demo_cfg)"
    by (rule SFRF_action_held [OF rf_demo_on_ready _ node])
       (simp_all add: rf_demo_ip_def rf_demo_cfg_def)
  also have "\<dots> = [2, 2]" by (simp add: rf_demo_cfg_def RULE_TYPE__DROP_def)
  finally show ?thesis .
qed

text \<open>The verdict of \<open>_checkThreshold\<close> (for a real action): -1 exactly when the count is within
  the limit, the previous window was too, and no activated action is being held; in every
  other case the filter is on afterwards, and the start of an action is reported exactly
  when it was off or its timeout is over without reason to continue.
\<close>

theorem checkThreshold_verdict:
  assumes "0 \<le> cf_action c" and "cf_action c < RULE_TYPE__MAX"
  shows "(fst (checkThreshold c d t) = -1 \<longleftrightarrow>
      rn_count d \<le> cf_count c \<and> \<not> rn_over d \<and> \<not> rf_held c d t) \<and>
    (fst (checkThreshold c d t) \<noteq> -1 \<longleftrightarrow> rn_state (snd (checkThreshold c d t)) = FS_ON) \<and>
    (fst (checkThreshold c d t) \<ge> RULE_TYPE__MAX \<longleftrightarrow>
      (rn_count d > cf_count c \<or> rn_over d) \<and> rn_state d \<noteq> FS_ON)"
  using assms by (auto simp: checkThreshold_def rf_start_def rf_held_def RULE_TYPE__MAX_def not_le)

theorem checkThreshold_verdict_witness:
  "fst (checkThreshold rf_demo_cfg rf_zero_node 5) = -1"
  using checkThreshold_verdict [of rf_demo_cfg rf_zero_node 5]
  by (simp add: rf_demo_cfg_def rf_zero_node_def rf_held_def RULE_TYPE__DROP_def RULE_TYPE__MAX_def)

text \<open>
  C24. Testing one threshold for one address leaves the tracking node of every other policy,
  threshold and address as it is, with one exception: when the address has no node yet and there
  is neither a parked node nor room and memory for another, the least recently used node that
  may be recovered is taken, and the record in it is gone.
\<close>

theorem SFRF_TestObject_isolated:
  assumes "xh_ready 24 h" and "length ip = 16"
    and "(p, tid, ip') \<noteq> (env_nap env, cf_tid c, ip)"
    and "SFRF_TestObject env c ip t op h = (r, h')"
  shows "xh_ready 24 h' \<and>
    (xh_map h' (rf_key p tid ip') = xh_map h (rf_key p tid ip') \<or>
     xh_map h' (rf_key p tid ip') = None \<and> xh_map h (rf_key (env_nap env) (cf_tid c) ip) = None \<and>
       no_spare (env_os env) h \<and> (\<exists>a. stolen h a \<and> xh_node_of h (rf_key p tid ip') = Some a))"
proof -
  have "rf_key p tid ip' \<noteq> rf_key (env_nap env) (cf_tid c) ip" using assms(3) rf_key_inj by blast
  then show ?thesis
    using test_object_ready [OF assms(1,2), of env c t op "rf_key p tid ip'"] assms(4) by (simp add: xh_lost_def)
qed

theorem SFRF_TestObject_isolated_witness:
  "xh_ready 24 (snd (SFRF_TestObject rf_demo_env rf_demo_cfg (rf_demo_ip 2) 103 CountIncrement rf_demo_on))"
  using SFRF_TestObject_isolated [OF rf_demo_on_ready, of "rf_demo_ip 2" 0 1 "rf_demo_ip 1" rf_demo_env rf_demo_cfg
      103 CountIncrement "fst (SFRF_TestObject rf_demo_env rf_demo_cfg (rf_demo_ip 2) 103 CountIncrement rf_demo_on)"
      "snd (SFRF_TestObject rf_demo_env rf_demo_cfg (rf_demo_ip 2) 103 CountIncrement rf_demo_on)"]
  by (simp add: rf_demo_ip_def)

text \<open>
  C25. A tracking node that is recovered for another address is not initialised.  When the
  least recently used node holds an activated action, and there is neither a parked node nor room and
  memory for another, then the events of an address that has no node yet are answered with
  that action from the first one on, until the timeout of the node's previous owner is over.
\<close>

theorem SFRF_recovered_node_stale:
  assumes "xh_ready 24 h" and "length ip = 16" and "0 < xh_datasize h"
    and "xh_map h (rf_key (env_nap env) (cf_tid c) ip) = None"
    and "no_spare (env_os env) h" and "xh_anr_flag h" and "xh_anrfree h = None" and "xh_glist h \<noteq> []"
    and "rn_state (ndata h (last (xh_glist h))) = FS_ON"
    and "\<forall>e \<in> set es. cf_timeout c = 0 \<or>
           (ucast (fst e - rn_revert (ndata h (last (xh_glist h)))) :: u32) < cf_timeout c"
  shows "fst (rf_run env c ip es h) = replicate (length es) (cf_action c)"
proof (cases es)
  case (Cons e es')
  let ?k = "rf_key (env_nap env) (cf_tid c) ip"
  define d where "d = ndata h (last (xh_glist h))"
  define d1 where "d1 = snd (rf_node_test c (fst e) (snd e) d)"
  have held: "rf_held c d (fst e)" using assms(9,10) Cons by (auto simp: rf_held_def d_def)
  note t = held_test [OF held, of "snd e", folded d1_def]
  obtain r h1 where h1: "SFRF_TestObject env c ip (fst e) (snd e) h = (r, h1)" by fastforce
  have s: "r = cf_action c" "xh_map h1 ?k = Some d1"
    using test_object_stale [OF assms(1-8), of "fst e" "snd e"] h1 t by (simp_all add: d_def d1_def)
  have ok1: "xh_ready 24 h1" using test_object_ready [OF assms(1,2), of env c "fst e" "snd e"] h1 by simp
  obtain rs d' where run: "node_run (map (\<lambda>e. rf_node_test c (fst e) (snd e)) es') d1 = (rs, d')" by fastforce
  have "\<forall>e \<in> set es'. cf_timeout c = 0 \<or> (ucast (fst e - rn_revert d1) :: u32) < cf_timeout c"
    using assms(10) t Cons unfolding d_def by (metis list.set_intros(2))
  then have "rs = replicate (length es') (cf_action c)" using held_run [of d1 es' c] run t by (metis fst_conv)
  then show ?thesis using rf_run_node [OF ok1 assms(2) s(2) run] s(1) h1 Cons by (auto split: prod.split)
qed simp

lemma rf_demo_on_full:
  "no_spare (\<lambda>_. True) rf_demo_on" "xh_datasize rf_demo_on = 40" "xh_anr_flag rf_demo_on" "xh_anrfree rf_demo_on = None"
  "xh_glist rf_demo_on = [0]" "xh_map rf_demo_on (rf_key 0 1 (rf_demo_ip 2)) = None"
  "rn_state (ndata rf_demo_on 0) = FS_ON" "rn_revert (ndata rf_demo_on 0) = 101"
  by code_simp+

theorem SFRF_recovered_node_stale_witness:
  "fst (rf_run rf_demo_env rf_demo_cfg (rf_demo_ip 2) [(103, CountIncrement), (160, CountNop)] rf_demo_on) = [2, 2]"
proof -
  let ?es = "[(103, CountIncrement), (160, CountNop)] :: (u64 \<times> rf_op) list"
  have "fst (rf_run rf_demo_env rf_demo_cfg (rf_demo_ip 2) ?es rf_demo_on) = replicate (length ?es) (cf_action rf_demo_cfg)"
    by (rule SFRF_recovered_node_stale [OF rf_demo_on_ready])
       (use rf_demo_on_full in \<open>simp_all add: rf_demo_ip_def rf_demo_env_def rf_demo_cfg_def\<close>)
  also have "\<dots> = [2, 2]" by (simp add: rf_demo_cfg_def RULE_TYPE__DROP_def)
  finally show ?thesis .
qed

text \<open>In an empty table the same event passes.\<close>

lemma SFRF_fresh_node:
  "fst (SFRF_TestObject rf_demo_env rf_demo_cfg (rf_demo_ip 2) 103 CountIncrement rf_demo_table) = -1"
  by code_simp

text \<open>\<open>SFRF_ConfigAdd\<close>: a configuration that is accepted is appended to the list of its
  generator, signature and policy with a fresh threshold id, all other thresholds stay as they
  are, and threshold ids stay non-zero and unique over the whole configuration; a
  rejected one changes no threshold.
\<close>

theorem SFRF_ConfigAdd_correct:
  assumes "SFRF_ConfigAdd os fcn mem policy cfg h node = (r, cfg', h')"
  shows "(r = 0 \<longrightarrow>
      cf_sid node \<noteq> 0 \<and> cf_gid node \<noteq> 0 \<and> cf_gid node < SFRF_MAX_GENID \<and> cf_count node \<noteq> 0 \<and>
      rf_appended cfg (cf_gid node) (policy, cf_sid node) (node\<lparr>cf_tid := rc_count cfg + 1\<rparr>) cfg' \<and>
      (rf_tids_ok cfg \<longrightarrow> rf_tids_ok cfg')) \<and>
    (r \<noteq> 0 \<longrightarrow> rf_at cfg' = rf_at cfg)"
proof -
  let ?g = "cf_gid node" let ?key = "(policy, cf_sid node)"
  define cfg1 where "cfg1 = (if cf_timeout node = 0 then cfg\<lparr>rc_norevert := rc_norevert cfg + 1\<rparr> else cfg)"
  define cfg2 where "cfg2 = (if rc_gen cfg1 ?g = None
      then cfg1\<lparr>rc_gen := (rc_gen cfg1)(?g := Some Map.empty)\<rparr> else cfg1)"
  define sn0 where "sn0 = \<lparr>sn_gid = ?g, sn_sid = cf_sid node, sn_list = [], sn_freed = False\<rparr>"
  define cfg3 where "cfg3 = rf_put_sid cfg2 ?g ?key sn0"
  have at1: "rf_at cfg1 = rf_at cfg" "rf_len cfg1 = rf_len cfg" "rc_count cfg1 = rc_count cfg"
    by (simp_all add: cfg1_def rf_at_def rf_len_def fun_eq_iff)
  have at2: "rf_at cfg2 = rf_at cfg" "rf_len cfg2 = rf_len cfg" "rc_count cfg2 = rc_count cfg"
    unfolding at1 [symmetric] by (auto simp: cfg2_def rf_at_def rf_len_def fun_eq_iff)
  obtain tab where tab: "rc_gen cfg2 ?g = Some tab"
    by (cases "rc_gen cfg1 ?g") (auto simp: cfg2_def)
  have len2: "rf_len cfg2 ?g ?key = (case tab ?key of None \<Rightarrow> 0 | Some sn \<Rightarrow> length (sn_list sn))"
    by (simp add: rf_len_def tab)
  have at3: "rf_at cfg3 = rf_at cfg" "rf_len cfg3 ?g ?key = rf_len cfg ?g ?key" "rc_count cfg3 = rc_count cfg"
    "rc_gen cfg3 ?g = Some (tab(?key \<mapsto> sn0))" if "tab ?key = None"
  proof -
    have "rf_at cfg3 g k i = rf_at cfg2 g k i" for g k i
      using that tab unfolding cfg3_def rf_at_put [OF tab] by (auto simp: sn0_def rf_at_def)
    then show "rf_at cfg3 = rf_at cfg" using at2(1) by (auto simp: fun_eq_iff)
    show "rf_len cfg3 ?g ?key = rf_len cfg ?g ?key"
      using that tab by (simp add: at2(2) [symmetric] len2) (simp add: rf_len_def cfg3_def rf_put_sid_def sn0_def)
    show "rc_count cfg3 = rc_count cfg" by (simp add: cfg3_def rf_put_count at2)
    show "rc_gen cfg3 ?g = Some (tab(?key \<mapsto> sn0))" by (simp add: cfg3_def rf_put_sid_def tab)
  qed
  have add: ?thesis if ok: "cf_sid node \<noteq> 0" "?g \<noteq> 0" "?g < SFRF_MAX_GENID" "cf_count node \<noteq> 0"
    and eq: "rf_at c0 = rf_at cfg" "rf_len c0 ?g ?key = rf_len cfg ?g ?key" "rc_count c0 = rc_count cfg"
    and nd: "rc_gen c0 ?g = Some tb" "tb ?key = Some sn" "rf_add_node mem c0 ?key sn node = (r, cfg')"
    for c0 tb sn
  proof -
    note spec = rf_add_node_spec [OF nd]
    have "rf_appended cfg ?g ?key (node\<lparr>cf_tid := rc_count cfg + 1\<rparr>) cfg'" if "r = 0"
      using spec that eq by (simp add: rf_appended_def)
    moreover have "rf_tids_ok cfg'" if "r = 0" "rf_tids_ok cfg"
      using spec that eq by (intro rf_tids_append [OF that(2) calculation [OF that(1)]]) simp_all
    ultimately show ?thesis using spec eq ok by simp
  qed
  define hh where "hh = (if h = None then SFRF_New os fcn (rc_memcap cfg) else h)"
  let ?bad = "hh = None \<or> cf_sid node = 0 \<or> ?g = 0 \<or> ?g \<ge> SFRF_MAX_GENID \<or> cf_count node < 1 \<or>
    cf_timeout node = 0 \<and> rc_norevert cfg \<ge> SFRF_NO_REVERT_LIMIT"
  note E = assms [unfolded SFRF_ConfigAdd_def Let_def, folded cfg1_def sn0_def hh_def,
      folded cfg2_def, folded cfg3_def, unfolded tab option.sel]
  show ?thesis
  proof (cases ?bad)
    case True
    then have "r = -1 \<and> cfg' = cfg" using E by (elim disjE; simp split: if_splits)
    then show ?thesis by simp
  next
    case False
    then have ok: "cf_sid node \<noteq> 0" "?g \<noteq> 0" "?g < SFRF_MAX_GENID" "cf_count node \<noteq> 0"
      by (simp_all add: not_le not_less)
    from False have E2: "(if rc_gen cfg1 ?g = None \<and> \<not> mem 2 then (-2, cfg1, hh)
        else case tab ?key of
            Some sn \<Rightarrow> (case rf_add_node mem cfg2 ?key sn node of (r, cfg3) \<Rightarrow> (r, cfg3, hh))
          | None \<Rightarrow> if \<not> mem 3 then (-3, cfg2, hh) else if \<not> mem 4 then (-4, cfg2, hh)
              else if \<not> mem 5 then (-5, cfg2, hh)
              else case rf_add_node mem cfg3 ?key sn0 node of (r, cfg4) \<Rightarrow> (r, cfg4, hh)) = (r, cfg', h')"
      using E by (simp only: de_Morgan_disj if_False simp_thms)
    show ?thesis
    proof (cases "rc_gen cfg1 ?g = None \<and> \<not> mem 2")
      case True
      then have "r = -2 \<and> cfg' = cfg1" using E2 by simp
      then show ?thesis using at1(1) by simp
    next
      case go: False
      show ?thesis
      proof (cases "tab ?key")
        case (Some sn)
        then have "rf_add_node mem cfg2 ?key sn node = (r, cfg')"
          using E2 go by (auto split: prod.splits)
        then show ?thesis using add [OF ok at2(1) _ at2(3) tab Some] at2(2) by simp
      next
        case None
        show ?thesis
        proof (cases "mem 3 \<and> mem 4 \<and> mem 5")
          case True
          then have "rf_add_node mem cfg3 ?key sn0 node = (r, cfg')"
            using E2 go None by (auto split: prod.splits)
          then show ?thesis using add [OF ok at3(1-4) [OF None]] by simp
        next
          case False
          then have "r \<noteq> 0 \<and> cfg' = cfg2" using E2 go None by (auto split: if_splits)
          then show ?thesis using at2(1) by simp
        qed
      qed
    qed
  qed
qed

definition rf_demo_config :: rf_config where
  "rf_demo_config = \<lparr>rc_gen = (\<lambda>_. None), rc_count = 0, rc_norevert = 0, rc_memcap = 256\<rparr>"

theorem SFRF_ConfigAdd_witness:
  "\<exists>cfg' h'. SFRF_ConfigAdd (\<lambda>_. True) sfhashfcn_static (\<lambda>_. True) 0 rf_demo_config None rf_demo_cfg = (0, cfg', h') \<and>
     rf_at cfg' 1 (0, 1000) 0 = Some (rf_demo_cfg\<lparr>cf_tid := 1\<rparr>)"
proof -
  obtain cfg' h' where add:
    "SFRF_ConfigAdd (\<lambda>_. True) sfhashfcn_static (\<lambda>_. True) 0 rf_demo_config None rf_demo_cfg = (0, cfg', h')"
  proof -
    have "fst (SFRF_ConfigAdd (\<lambda>_. True) sfhashfcn_static (\<lambda>_. True) 0 rf_demo_config None rf_demo_cfg) = 0"
      by code_simp
    then show thesis using that by (metis prod.collapse)
  qed
  then show ?thesis
    using SFRF_ConfigAdd_correct [OF add]
    by (auto simp: rf_appended_def rf_len_def rf_demo_config_def) (simp_all add: rf_demo_cfg_def)
qed

end
