(* ===== verification/Paf.thy ===== *)
theory Paf
  imports Prelude
begin

text \<open>
  Protocol aware flushing, \<open>preprocessors/Stream6/stream_paf.c\<close>: the registry of scanning
  callbacks and \<open>s5_paf_check\<close>, which decides for each in-order segment how much of the
  queued data is flushed as one PDU.

  A callback maps its user data, the bytes it is shown, the packet flags and the current
  flush points to its verdict; the session pointer it also gets is part of the function.
  User data has type \<open>'u\<close>, \<open>None\<close> is the null pointer.  The module variables \<open>s5_len\<close>
  and \<open>s5_idx\<close> are passed explicitly.  \<open>data\<close> is the list of the \<open>len\<close> bytes at the
  C pointer.
\<close>

section \<open>Data\<close>

datatype paf_status =
  PAF_ABORT | PAF_START | PAF_SEARCH | PAF_FLUSH | PAF_LIMIT | PAF_SKIP | PAF_PERFORMED_LMT_FLUSH |
  PAF_DISCARD_START | PAF_DISCARD_END | PAF_PSEUDO_FLUSH_SEARCH | PAF_PSEUDO_FLUSH_SKIP | PAF_IGNORE

datatype flush_type =
  FT_NOP | FT_SFP | FT_PAF | FT_LIMIT | FT_MAX | FT_DISC_S | FT_DISC_E | FT_PAF_HDR | FT_PSEUDO_FLUSH

datatype flush_mode = FLUSH_MODE_NORMAL | FLUSH_MODE_PRE_DISCARD | FLUSH_MODE_DISCARD

type_synonym 'u paf_callback =
  "'u option \<Rightarrow> bytes \<Rightarrow> u64 \<Rightarrow> u32 \<Rightarrow> u32 \<Rightarrow> paf_status \<times> 'u option \<times> u64 \<times> u32 \<times> u32"

definition MAX_PAF_USER :: nat where "MAX_PAF_USER = 2"
definition MAX_CB :: nat where "MAX_CB = 16"
definition PAF_LIMIT_FUZZ :: u32 where "PAF_LIMIT_FUZZ = 1500"
definition MAXIMUM_PAF_MAX :: u32 where "MAXIMUM_PAF_MAX = 65535 - 1500 - 255"

definition PKT_PDU_HEAD :: u64 where "PKT_PDU_HEAD = 0x100"
definition PKT_PDU_TAIL :: u64 where "PKT_PDU_TAIL = 0x200"
definition PKT_IGNORE :: u64 where "PKT_IGNORE = 0x1000"
definition PKT_PURGE :: u64 where "PKT_PURGE = 0x0100000000"
definition PKT_UPGRADE_PROTO :: u64 where "PKT_UPGRADE_PROTO = 0x0400000000"
definition PKT_PSEUDO_FLUSH :: u64 where "PKT_PSEUDO_FLUSH = 0x0800000000"

record 'u paf_state =
  ps_user :: "'u option list"
  ps_seq :: u32
  ps_pos :: u32
  ps_fpt :: u32
  ps_tot :: u32
  ps_paf :: paf_status
  ps_mode :: flush_mode
  ps_cb_mask :: u16
  ps_cb_id :: "nat list"
  ps_eoh :: u32

record paf_map =
  pm_mask :: u16
  pm_auto :: bool

record paf_config =
  pc_mfp :: u32
  pc_calls :: u32
  pc_bytes :: u32

record 'c paf_registry =
  rg_cb :: "'c list"
  rg_global :: u16
  rg_port :: "u16 \<times> bool \<Rightarrow> paf_map"
  rg_service :: "u16 \<times> bool \<Rightarrow> paf_map"

section \<open>Flushing\<close>

text \<open>The \<open>switch\<close> of \<open>s5_paf_flush\<close>: the flush point, state and flags, or the early return.\<close>

definition flush_point ::
    "flush_type \<Rightarrow> u32 \<Rightarrow> 'u paf_state \<Rightarrow> u64 \<Rightarrow> (u32 \<times> 'u paf_state \<times> u64) option \<times> u64" where
  "flush_point ft s5_len ps flags =
     (let rest = (if ps_fpt ps > s5_len then ps_fpt ps - s5_len else 0) in
      case ft of
        FT_PAF_HDR \<Rightarrow> (Some (ps_eoh ps, ps, flags OR PKT_PDU_TAIL), flags)
      | FT_NOP \<Rightarrow> (None, flags)
      | FT_SFP \<Rightarrow> (None, 0)
      | FT_PAF \<Rightarrow> (Some (ps_fpt ps, ps, flags OR PKT_PDU_TAIL), flags)
      | FT_PSEUDO_FLUSH \<Rightarrow> (Some (s5_len, ps, flags), flags)
      | FT_DISC_S \<Rightarrow> (Some (s5_len, ps\<lparr>ps_mode := FLUSH_MODE_DISCARD, ps_fpt := rest\<rparr>, flags), flags)
      | FT_DISC_E \<Rightarrow>
          (Some (ps_fpt ps, ps\<lparr>ps_mode := FLUSH_MODE_NORMAL\<rparr>, flags OR PKT_IGNORE OR PKT_PDU_TAIL), flags)
      | FT_LIMIT \<Rightarrow>
          (if ps_fpt ps > s5_len
           then (Some (s5_len, ps\<lparr>ps_fpt := ps_fpt ps - s5_len\<rparr>, flags), flags)
           else (Some (ps_fpt ps, ps\<lparr>ps_fpt := s5_len - ps_fpt ps\<rparr>, flags), flags))
      | FT_MAX \<Rightarrow>
          (Some (s5_len, ps\<lparr>ps_fpt := rest\<rparr>,
                 if ps_mode ps = FLUSH_MODE_DISCARD then flags OR PKT_IGNORE else flags), flags))"

definition s5_paf_flush ::
    "flush_type \<Rightarrow> u32 \<Rightarrow> 'u paf_state \<Rightarrow> u64 \<Rightarrow> u32 \<times> 'u paf_state \<times> u64" where
  "s5_paf_flush ft s5_len ps flags0 =
     (case flush_point ft s5_len ps (flags0 AND NOT (PKT_PDU_HEAD OR PKT_PDU_TAIL)) of
        (None, flags) \<Rightarrow> (0, ps, flags)
      | (Some (at, ps1, flags), _) \<Rightarrow>
          if at = 0 \<or> s5_len = 0 then (0, ps1, flags)
          else
            let at = (if at > 0x7FFFFFFF then 0x7FFFFFFF else at);
                flags1 = (if ps_tot ps1 = 0 then flags OR PKT_PDU_HEAD else flags) in
            if ft = FT_PSEUDO_FLUSH then (at, ps1, flags1)
            else
              let ps2 = ps1\<lparr>ps_tot := (if flags1 AND PKT_PDU_TAIL \<noteq> 0 then 0 else ps_tot ps1 + at)\<rparr>;
                  ps3 = (if ps_eoh ps2 = 0
                         then ps2\<lparr>ps_pos := ps_pos ps2 + at, ps_seq := ps_pos ps2 + at\<rparr> else ps2)
              in (at, ps3, flags1))"

section \<open>Callbacks\<close>

definition s5_paf_user_data_index :: "'u paf_state \<Rightarrow> nat \<Rightarrow> nat option" where
  "s5_paf_user_data_index ps cid =
     first_some (find (\<lambda>i. ps_cb_id ps ! i = cid + 1) [0 ..< MAX_PAF_USER])
                (find (\<lambda>i. ps_user ps ! i = None) [0 ..< MAX_PAF_USER])"

text \<open>
  The loop of \<open>s5_paf_callback\<close> over the bits of the mask: the last verdict, the state and
  flags, and whether a callback was selected (\<open>update\<close>).
\<close>

fun cb_loop ::
    "'u paf_callback list \<Rightarrow> bytes \<Rightarrow> nat list \<Rightarrow> u16 \<Rightarrow> paf_status \<Rightarrow> 'u paf_state \<Rightarrow> u64 \<Rightarrow>
     paf_status \<times> 'u paf_state \<times> u64 \<times> bool" where
  "cb_loop cbs data [] msk paf ps flags = (paf, ps, flags, False)"
| "cb_loop cbs data (i # is) msk paf ps flags =
     (if msk = 0 then (paf, ps, flags, False)
      else if bit msk i then
        (case s5_paf_user_data_index ps i of
           None \<Rightarrow> cb_loop cbs data is msk paf ps flags
         | Some u \<Rightarrow>
             (let (paf', user', flags', fpt', eoh') =
                    (cbs ! i) (ps_user ps ! u) data flags (ps_fpt ps) (ps_eoh ps);
                  ps' = ps\<lparr>ps_cb_id := (ps_cb_id ps)[u := i + 1], ps_user := (ps_user ps)[u := user'],
                           ps_fpt := fpt', ps_eoh := eoh'\<rparr>
              in if paf' = PAF_ABORT
                 then cb_loop cbs data is (msk XOR push_bit i 1) paf'
                        (ps'\<lparr>ps_cb_mask := ps_cb_mask ps' XOR push_bit i 1\<rparr>) flags'
                 else if paf' \<noteq> PAF_SEARCH
                 then (paf',
                       (if flags' AND PKT_UPGRADE_PROTO = 0 then ps'\<lparr>ps_cb_mask := push_bit i 1\<rparr> else ps'),
                       flags', True)
                 else cb_loop cbs data is (msk XOR push_bit i 1) paf' ps' flags'))
      else cb_loop cbs data is msk paf ps flags)"

definition s5_paf_callback ::
    "'u paf_callback list \<Rightarrow> u32 \<Rightarrow> u32 \<Rightarrow> 'u paf_state \<Rightarrow> bytes \<Rightarrow> u64 \<Rightarrow>
     bool \<times> 'u paf_state \<times> u64 \<times> u32" where
  "s5_paf_callback cbs s5_len s5_idx ps0 data flags0 =
     (let (paf, ps1, flags, sel) = cb_loop cbs data [0 ..< MAX_CB] (ps_cb_mask ps0) PAF_ABORT ps0 flags0;
          none_left = (ps_cb_mask ps1 = 0);
          ps2 = (if none_left then ps1\<lparr>ps_paf := PAF_ABORT\<rparr>
                 else if paf \<noteq> PAF_ABORT then ps1\<lparr>ps_paf := paf\<rparr> else ps1)
      in if sel \<or> none_left then
           let ps3 = ps2\<lparr>ps_fpt := ps_fpt ps2 + s5_idx\<rparr> in
           if ps_fpt ps3 \<le> s5_len then (True, ps3, flags, ps_fpt ps3)
           else if ps_eoh ps3 \<noteq> 0 \<and> paf \<noteq> PAF_SKIP
           then (True, ps3\<lparr>ps_eoh := ps_eoh ps3 + s5_idx\<rparr>, flags, s5_idx)
           else (False, ps3, flags, s5_len)
         else (False, ps2, flags, s5_len))"

section \<open>One evaluation\<close>

text \<open>The answer of \<open>s5_paf_eval\<close>: whether to go on, the state, the flags, \<open>s5_idx\<close>, the flush type.\<close>

definition s5_paf_eval ::
    "paf_config \<Rightarrow> 'u paf_callback list \<Rightarrow> u32 \<Rightarrow> u32 \<Rightarrow> u32 \<Rightarrow> 'u paf_state \<Rightarrow> bytes \<Rightarrow> u64 \<Rightarrow>
     bool \<times> 'u paf_state \<times> u64 \<times> u32 \<times> flush_type" where
  "s5_paf_eval pc cbs fuzz s5_len s5_idx ps data flags =
     (case ps_paf ps of
        PAF_SEARCH \<Rightarrow>
          if s5_len > s5_idx then
            (let (c, ps', fl, idx) = s5_paf_callback cbs s5_len s5_idx ps data flags
             in (c, ps', fl, idx, FT_NOP))
          else (False, ps, flags, s5_idx, FT_NOP)
      | PAF_LIMIT \<Rightarrow>
          if s5_len + PAF_LIMIT_FUZZ \<ge> pc_mfp pc + fuzz
          then (False, ps\<lparr>ps_paf := PAF_PERFORMED_LMT_FLUSH\<rparr>, flags, s5_idx, FT_LIMIT)
          else (False, ps\<lparr>ps_paf := PAF_SEARCH\<rparr>, flags, s5_idx, FT_NOP)
      | PAF_PERFORMED_LMT_FLUSH \<Rightarrow>
          (True, ps\<lparr>ps_paf := PAF_SEARCH, ps_fpt := 0\<rparr>, flags, s5_idx + ps_fpt ps, FT_NOP)
      | PAF_DISCARD_START \<Rightarrow>
          if s5_len = ps_fpt ps then (True, ps\<lparr>ps_paf := PAF_SEARCH\<rparr>, flags, s5_idx, FT_DISC_S)
          else if s5_len > ps_fpt ps
          then (True, ps\<lparr>ps_mode := FLUSH_MODE_PRE_DISCARD, ps_paf := PAF_SEARCH\<rparr>, flags, ps_fpt ps, FT_NOP)
          else if s5_len \<ge> pc_mfp pc + fuzz then (False, ps, flags, s5_idx, FT_MAX)
          else (False, ps, flags, s5_idx, FT_NOP)
      | PAF_DISCARD_END \<Rightarrow>
          if s5_len \<ge> ps_fpt ps then
            if ps_mode ps \<noteq> FLUSH_MODE_DISCARD
            then (True, ps\<lparr>ps_mode := FLUSH_MODE_NORMAL, ps_paf := PAF_SEARCH\<rparr>, flags, s5_idx, FT_PAF)
            else (True, ps\<lparr>ps_paf := PAF_SEARCH\<rparr>, flags, s5_idx, FT_DISC_E)
          else if s5_len \<ge> pc_mfp pc + fuzz \<and> ps_mode ps \<noteq> FLUSH_MODE_PRE_DISCARD
          then (False, ps, flags, s5_idx, FT_MAX)
          else (False, ps, flags, s5_idx, FT_NOP)
      | PAF_IGNORE \<Rightarrow> (False, ps, flags, s5_idx, FT_NOP)
      | PAF_ABORT \<Rightarrow> (False, ps\<lparr>ps_mode := FLUSH_MODE_NORMAL\<rparr>, flags, s5_idx, FT_SFP)
      | PAF_START \<Rightarrow> (False, ps\<lparr>ps_mode := FLUSH_MODE_NORMAL\<rparr>, flags, s5_idx, FT_SFP)
      | st \<Rightarrow>
          if st = PAF_FLUSH \<or> st = PAF_PSEUDO_FLUSH_SEARCH then
            if s5_len \<ge> ps_fpt ps then (True, ps\<lparr>ps_paf := PAF_SEARCH\<rparr>, flags, s5_idx, FT_PAF)
            else if s5_len \<ge> pc_mfp pc + fuzz then (False, ps, flags, s5_idx, FT_MAX)
            else if ps_eoh ps \<noteq> 0 then (True, ps, flags, s5_idx, FT_PAF_HDR)
            else (False, ps, flags, s5_idx, FT_NOP)
          else \<comment> \<open>\<open>PAF_SKIP\<close>, \<open>PAF_PSEUDO_FLUSH_SKIP\<close>\<close>
            if s5_len > ps_fpt ps then
              let delta = ps_fpt ps - s5_idx in
              if ps_fpt ps > s5_idx \<and> unat delta > length data
              then (False, ps, flags, s5_idx, FT_NOP)
              else
                let data' = (if ps_fpt ps > s5_idx then drop (unat delta) data else data);
                    (ret, ps', fl, idx) =
                      s5_paf_callback cbs s5_len (ps_fpt ps) (ps\<lparr>ps_paf := PAF_SKIP\<rparr>) data' flags
                in (ret, ps', fl, idx,
                    if ps_paf ps' = PAF_PSEUDO_FLUSH_SKIP \<and> \<not> ret \<and> s5_len < ps_fpt ps'
                    then FT_PSEUDO_FLUSH else FT_NOP)
            else (False, ps, flags, s5_idx, FT_NOP))"

section \<open>Checking a segment\<close>

text \<open>
  The \<open>do\<close> loop of \<open>s5_paf_check\<close>, which need not end if a callback keeps asking to skip
  nothing: \<open>None\<close> is not returning.  The result is the state, the flags and the flush type
  that ended the loop (\<open>FT_NOP\<close> for \<open>break\<close>).
\<close>

partial_function (option) s5_paf_loop ::
    "paf_config \<Rightarrow> 'u paf_callback list \<Rightarrow> u32 \<Rightarrow> u32 \<Rightarrow> u32 \<Rightarrow> 'u paf_state \<Rightarrow> bytes \<Rightarrow> u64 \<Rightarrow>
     ('u paf_state \<times> u64 \<times> flush_type) option" where
  "s5_paf_loop pc cbs fuzz s5_len s5_idx ps data flags =
     (case s5_paf_eval pc cbs fuzz s5_len s5_idx ps data flags of
        (cont, ps', fl, idx, ft) \<Rightarrow>
          if ps_paf ps' = PAF_IGNORE then Some (ps', fl, FT_NOP)
          else if ft \<noteq> FT_NOP then Some (ps', fl, ft)
          else if \<not> cont then Some (ps', fl, FT_NOP)
          else s5_paf_loop pc cbs fuzz s5_len idx ps'
                 (if idx > s5_idx then drop (unat (idx - s5_idx)) data else data) fl)"

definition seq_diff :: "u32 \<Rightarrow> u32 \<Rightarrow> int" where
  "seq_diff a b = sint (a - b)"

definition s5_paf_initialized :: "'u paf_state \<Rightarrow> bool" where
  "s5_paf_initialized ps \<longleftrightarrow> ps_paf ps \<noteq> PAF_START"

text \<open>From the point where the new bytes of the segment are known.\<close>

definition s5_paf_scan ::
    "paf_config \<Rightarrow> 'u paf_callback list \<Rightarrow> u32 \<Rightarrow> u32 \<Rightarrow> 'u paf_state \<Rightarrow> bytes \<Rightarrow> u64 \<Rightarrow>
     (u32 \<times> paf_config \<times> 'u paf_state \<times> u64) option" where
  "s5_paf_scan pc0 cbs fuzz total_len ps0 data flags0 =
     (let len = of_nat (length data);
          ps = ps0\<lparr>ps_eoh := 0, ps_seq := ps_seq ps0 + len\<rparr>;
          pc = pc0\<lparr>pc_calls := pc_calls pc0 + 1, pc_bytes := pc_bytes pc0 + len\<rparr>;
          s5_idx = total_len - len;
          clip = (ps_mode ps = FLUSH_MODE_NORMAL \<and> total_len \<ge> MAXIMUM_PAF_MAX \<and> total_len > pc_mfp pc + fuzz);
          s5_len = (if clip then MAXIMUM_PAF_MAX + fuzz else total_len);
          len' = (if clip then (if len > total_len - s5_len then len + s5_len - total_len else 0) else len)
      in if clip \<and> len' = 0 then Some (0, pc, ps, flags0)
         else
           case s5_paf_loop pc cbs fuzz s5_len s5_idx ps (take (unat len') data) flags0 of
             None \<Rightarrow> None
           | Some (ps1, flags, ft) \<Rightarrow>
               Some
                 (if ft \<noteq> FT_NOP then
                    (case s5_paf_flush ft s5_len ps1 flags of (r, ps2, fl) \<Rightarrow> (r, pc, ps2, fl))
                  else if ps_paf ps1 = PAF_IGNORE
                  then (0, pc, ps1\<lparr>ps_paf := PAF_SEARCH\<rparr>, flags OR PKT_PURGE)
                  else if ps_mode ps1 = FLUSH_MODE_PRE_DISCARD then
                    (case s5_paf_flush FT_DISC_S s5_len ps1 flags of (r, ps2, fl) \<Rightarrow> (r, pc, ps2, fl))
                  else if s5_len \<ge> pc_mfp pc + fuzz then
                    (case s5_paf_flush FT_MAX s5_len ps1 flags of (r, ps2, fl) \<Rightarrow> (r, pc, ps2, fl))
                  else (0, pc, ps1, flags)))"

definition s5_paf_check ::
    "paf_config \<Rightarrow> 'u paf_callback list \<Rightarrow> u32 \<Rightarrow> 'u paf_state \<Rightarrow> bytes \<Rightarrow> u32 \<Rightarrow> u32 \<Rightarrow> u32 \<Rightarrow> u64 \<Rightarrow>
     (u32 \<times> paf_config \<times> 'u paf_state \<times> u64) option" where
  "s5_paf_check pc cbs g_len ps data total_len seq fuzz flags =
     (let len = of_nat (length data) in
      if \<not> s5_paf_initialized ps
      then s5_paf_scan pc cbs fuzz total_len (ps\<lparr>ps_seq := seq, ps_pos := seq, ps_paf := PAF_SEARCH\<rparr>) data flags
      else if flags AND PKT_PSEUDO_FLUSH \<noteq> 0 then
        (case s5_paf_flush FT_PSEUDO_FLUSH g_len ps flags of (r, ps', fl) \<Rightarrow> Some (r, pc, ps', fl))
      else if seq_diff seq (ps_seq ps) > 0 then
        (if total_len - len \<noteq> 0 then
           (case s5_paf_flush FT_MAX (total_len - len) (ps\<lparr>ps_fpt := 0\<rparr>) flags of
              (r, ps', fl) \<Rightarrow> Some (r, pc, ps', fl))
         else Some (0, pc, ps, 0))
      else if seq_diff (seq + len) (ps_seq ps) \<le> 0 then Some (0, pc, ps, flags)
      else if seq_diff seq (ps_seq ps) < 0
      then s5_paf_scan pc cbs fuzz total_len ps (drop (unat (ps_seq ps - seq)) data) flags
      else s5_paf_scan pc cbs fuzz total_len ps data flags)"

section \<open>Registration and set-up\<close>

definition install_callback :: "'c \<Rightarrow> 'c list \<Rightarrow> nat option \<times> 'c list" where
  "install_callback cb cbs =
     (case find (\<lambda>i. cbs ! i = cb) [0 ..< length cbs] of
        Some i \<Rightarrow> (Some i, cbs)
      | None \<Rightarrow> if length cbs = MAX_CB then (None, cbs) else (Some (length cbs), cbs @ [cb]))"

definition map_add_cb :: "paf_map \<Rightarrow> nat \<Rightarrow> bool \<Rightarrow> paf_map" where
  "map_add_cb m i auto_on =
     m\<lparr>pm_mask := pm_mask m OR push_bit i 1, pm_auto := (if \<not> pm_auto m then auto_on else pm_auto m)\<rparr>"

definition s5_paf_register_port ::
    "'c paf_registry \<Rightarrow> u16 \<Rightarrow> bool \<Rightarrow> 'c \<Rightarrow> bool \<Rightarrow> nat \<times> 'c paf_registry" where
  "s5_paf_register_port rg port c2s cb auto_on =
     (case install_callback cb (rg_cb rg) of
        (None, cbs) \<Rightarrow> (0, rg\<lparr>rg_cb := cbs\<rparr>)
      | (Some i, cbs) \<Rightarrow>
          (i + 1, rg\<lparr>rg_cb := cbs,
             rg_port := (rg_port rg)((port, c2s) := map_add_cb (rg_port rg (port, c2s)) i auto_on)\<rparr>))"

definition s5_paf_register_service ::
    "'c paf_registry \<Rightarrow> u16 \<Rightarrow> bool \<Rightarrow> 'c \<Rightarrow> bool \<Rightarrow> nat \<times> 'c paf_registry" where
  "s5_paf_register_service rg service c2s cb auto_on =
     (case install_callback cb (rg_cb rg) of
        (None, cbs) \<Rightarrow> (0, rg\<lparr>rg_cb := cbs\<rparr>)
      | (Some i, cbs) \<Rightarrow>
          (i + 1, rg\<lparr>rg_cb := cbs, rg_global := rg_global rg OR push_bit i 1,
             rg_service := (rg_service rg)((service, c2s) := map_add_cb (rg_service rg (service, c2s)) i auto_on)\<rparr>))"

definition s5_paf_port_registration :: "'c paf_registry \<Rightarrow> u16 \<Rightarrow> bool \<Rightarrow> bool \<Rightarrow> u16" where
  "s5_paf_port_registration rg port c2s flush =
     (let pm = rg_port rg (port, c2s) in
      if pm_mask pm = 0 then 0 else if pm_auto pm \<or> flush then pm_mask pm else 0)"

definition s5_paf_port_registration_all ::
    "'c paf_registry \<Rightarrow> u16 \<Rightarrow> bool \<Rightarrow> bool \<Rightarrow> u16 \<times> 'c paf_registry" where
  "s5_paf_port_registration_all rg port c2s flush =
     (let pm = rg_port rg (port, c2s);
          pm' = (if pm_mask pm = 0 then pm\<lparr>pm_mask := rg_global rg\<rparr> else pm)
      in (if pm_auto pm' \<or> flush then pm_mask pm' else 0,
          rg\<lparr>rg_port := (rg_port rg)((port, c2s) := pm')\<rparr>))"

definition s5_paf_service_registration :: "'c paf_registry \<Rightarrow> u16 \<Rightarrow> bool \<Rightarrow> bool \<Rightarrow> u16" where
  "s5_paf_service_registration rg service c2s flush =
     (let pm = rg_service rg (service, c2s) in
      if pm_mask pm = 0 then 0 else if pm_auto pm \<or> flush then pm_mask pm else 0)"

definition cb_mask_cmp :: "'c paf_registry \<Rightarrow> u16 \<Rightarrow> bool \<Rightarrow> u16 \<Rightarrow> int" where
  "cb_mask_cmp rg service c2s cb_mask =
     (let pm = rg_service rg (service, c2s)
      in if pm_mask pm \<noteq> 0 \<and> pm_mask pm \<noteq> cb_mask then 1 else 0)"

definition s5_paf_setup :: "'u paf_state \<Rightarrow> u16 \<Rightarrow> 'u paf_state" where
  "s5_paf_setup ps msk = ps\<lparr>ps_paf := PAF_START, ps_cb_mask := msk, ps_mode := FLUSH_MODE_NORMAL\<rparr>"

definition s5_paf_clear :: "'u paf_state \<Rightarrow> 'u paf_state" where
  \<comment> \<open>without the release of the user data\<close>
  "s5_paf_clear ps = ps\<lparr>ps_user := map (\<lambda>_. None) (ps_user ps), ps_paf := PAF_ABORT\<rparr>"

end
