(* ===== verification/PafScan.thy ===== *)
theory PafScan
  imports Paf
begin

text \<open>
  The byte scanners that find the end of a PDU for protocol aware flushing: Modbus
  (\<open>modbus/modbus_paf.c\<close>), DNP3 (\<open>dnp3/dnp3_paf.c\<close>) and S7comm-plus
  (\<open>s7commplus/s7comm_paf.c\<close>).  All three are the same loop over the bytes around a
  \<open>switch\<close> on the scanner state; the locale states the law that makes such a scanner
  independent of how TCP cut the stream into segments.
\<close>

section \<open>The loop\<close>

text \<open>
  One pass of a \<open>switch\<close>: go on, return \<open>PAF_FLUSH\<close> with a flush point (and whether an alert
  was raised), or return \<open>PAF_ABORT\<close>.
\<close>

datatype 's scan_step = ScanNext 's | ScanFlush u32 bool 's | ScanAbort 's

primrec paf_bytes :: "('s \<Rightarrow> u8 \<Rightarrow> u32 \<Rightarrow> 's scan_step) \<Rightarrow> 's \<Rightarrow> bytes \<Rightarrow> u32 \<Rightarrow> 's scan_step" where
  "paf_bytes step s [] n = ScanNext s"
| "paf_bytes step s (b # bs) n =
     (case step s b n of ScanNext s' \<Rightarrow> paf_bytes step s' bs (n + 1) | out \<Rightarrow> out)"

definition scan_callback ::
    "('s \<Rightarrow> u8 \<Rightarrow> u32 \<Rightarrow> 's scan_step) \<Rightarrow> 's \<Rightarrow> bool \<Rightarrow> 's paf_callback" where
  \<comment> \<open>the frame of the callback: allocate the state if there is none, scan, set the flush point\<close>
  "scan_callback step init mem user data flags fp eoh =
     (case (case user of None \<Rightarrow> if mem then Some init else None | Some s \<Rightarrow> Some s) of
        None \<Rightarrow> (PAF_ABORT, None, flags, fp, eoh)
      | Some s \<Rightarrow>
          (case paf_bytes step s data 0 of
             ScanNext s' \<Rightarrow> (PAF_SEARCH, Some s', flags, fp, eoh)
           | ScanFlush p _ s' \<Rightarrow> (PAF_FLUSH, Some s', flags, p, eoh)
           | ScanAbort s' \<Rightarrow> (PAF_ABORT, Some s', flags, fp, eoh)))"

section \<open>Modbus\<close>

datatype modbus_paf_state =
  MB_TRANS_ID_1 | MB_TRANS_ID_2 | MB_PROTO_ID_1 | MB_PROTO_ID_2 | MB_LENGTH_1 | MB_LENGTH_2 | MB_SET_FLUSH

record modbus_paf_data =
  mb_state :: modbus_paf_state
  mb_length :: u16

definition modbus_step :: "modbus_paf_data \<Rightarrow> u8 \<Rightarrow> u32 \<Rightarrow> modbus_paf_data scan_step" where
  "modbus_step s b n =
     (case mb_state s of
        MB_TRANS_ID_1 \<Rightarrow> ScanNext (s\<lparr>mb_state := MB_TRANS_ID_2\<rparr>)
      | MB_TRANS_ID_2 \<Rightarrow> ScanNext (s\<lparr>mb_state := MB_PROTO_ID_1\<rparr>)
      | MB_PROTO_ID_1 \<Rightarrow> ScanNext (s\<lparr>mb_state := MB_PROTO_ID_2\<rparr>)
      | MB_PROTO_ID_2 \<Rightarrow> ScanNext (s\<lparr>mb_state := MB_LENGTH_1\<rparr>)
      | MB_LENGTH_1 \<Rightarrow>
          ScanNext (s\<lparr>mb_length := mb_length s OR push_bit 8 (ucast b), mb_state := MB_LENGTH_2\<rparr>)
      | MB_LENGTH_2 \<Rightarrow> ScanNext (s\<lparr>mb_length := mb_length s OR ucast b, mb_state := MB_SET_FLUSH\<rparr>)
      | MB_SET_FLUSH \<Rightarrow>
          ScanFlush (ucast (mb_length s) + n) (mb_length s < 2 \<or> mb_length s > 254)
            (s\<lparr>mb_state := MB_TRANS_ID_1, mb_length := 0\<rparr>))"

definition modbus_init :: modbus_paf_data where
  "modbus_init = \<lparr>mb_state = MB_TRANS_ID_1, mb_length = 0\<rparr>"

definition ModbusPaf :: "bool \<Rightarrow> modbus_paf_data paf_callback" where
  "ModbusPaf mem = scan_callback modbus_step modbus_init mem"

section \<open>DNP3\<close>

datatype dnp3_paf_state = DNP3_START_1 | DNP3_START_2 | DNP3_LENGTH | DNP3_SET_FLUSH

record dnp3_paf_data =
  dn_state :: dnp3_paf_state
  dn_length :: u8
  dn_real :: u16

definition dnp3_real_length :: "u8 \<Rightarrow> u16" where
  \<comment> \<open>the length octet counts neither the CRCs nor the octets up to itself\<close>
  "dnp3_real_length len =
     (let user_data = ucast len - 5 :: u16;
          num_crcs = 1 + user_data div 16 + (if user_data mod 16 \<noteq> 0 then 1 else 0)
      in ucast len + 2 * num_crcs)"

definition dnp3_step :: "dnp3_paf_data \<Rightarrow> u8 \<Rightarrow> u32 \<Rightarrow> dnp3_paf_data scan_step" where
  "dnp3_step s b n =
     (case dn_state s of
        DNP3_START_1 \<Rightarrow> if b = 0x05 then ScanNext (s\<lparr>dn_state := DNP3_START_2\<rparr>) else ScanAbort s
      | DNP3_START_2 \<Rightarrow> if b = 0x64 then ScanNext (s\<lparr>dn_state := DNP3_LENGTH\<rparr>) else ScanAbort s
      | DNP3_LENGTH \<Rightarrow>
          if b < 5 then ScanAbort (s\<lparr>dn_length := b\<rparr>)
          else ScanNext (s\<lparr>dn_length := b, dn_real := dnp3_real_length b, dn_state := DNP3_SET_FLUSH\<rparr>)
      | DNP3_SET_FLUSH \<Rightarrow> ScanFlush (ucast (dn_real s) + n) False (s\<lparr>dn_state := DNP3_START_1\<rparr>))"

definition dnp3_init :: dnp3_paf_data where
  "dnp3_init = \<lparr>dn_state = DNP3_START_1, dn_length = 0, dn_real = 0\<rparr>"

definition DNP3Paf :: "bool \<Rightarrow> dnp3_paf_data paf_callback" where
  "DNP3Paf mem = scan_callback dnp3_step dnp3_init mem"

section \<open>S7comm-plus\<close>

datatype s7_paf_state =
  S7_TPKT_VER | S7_TPKT_RESERVED | S7_TPKT_LEN_1 | S7_TPKT_LEN_2 | S7_COPT_LEN | S7_COPT_PDU_TYPE | S7_SET_FLUSH

record s7_paf_data =
  s7_state :: s7_paf_state
  s7_length :: u16

definition s7_step :: "s7_paf_data \<Rightarrow> u8 \<Rightarrow> u32 \<Rightarrow> s7_paf_data scan_step" where
  "s7_step s b n =
     (case s7_state s of
        S7_TPKT_VER \<Rightarrow> ScanNext (s\<lparr>s7_state := S7_TPKT_RESERVED\<rparr>)
      | S7_TPKT_RESERVED \<Rightarrow> ScanNext (s\<lparr>s7_state := S7_TPKT_LEN_1\<rparr>)
      | S7_TPKT_LEN_1 \<Rightarrow>
          ScanNext (s\<lparr>s7_length := s7_length s OR push_bit 8 (ucast b), s7_state := S7_TPKT_LEN_2\<rparr>)
      | S7_TPKT_LEN_2 \<Rightarrow> ScanNext (s\<lparr>s7_length := s7_length s OR ucast b, s7_state := S7_COPT_LEN\<rparr>)
      | S7_COPT_LEN \<Rightarrow> ScanNext (s\<lparr>s7_state := S7_COPT_PDU_TYPE\<rparr>)
      | S7_COPT_PDU_TYPE \<Rightarrow> ScanNext (s\<lparr>s7_state := S7_SET_FLUSH\<rparr>)
      | S7_SET_FLUSH \<Rightarrow>
          ScanFlush (ucast (s7_length s)) (s7_length s < 7) (s\<lparr>s7_state := S7_TPKT_VER, s7_length := 0\<rparr>))"

definition s7_init :: s7_paf_data where
  "s7_init = \<lparr>s7_state = S7_TPKT_VER, s7_length = 0\<rparr>"

definition S7commplusPaf :: "bool \<Rightarrow> s7_paf_data paf_callback" where
  "S7commplusPaf mem = scan_callback s7_step s7_init mem"

section \<open>Independence of the segmentation\<close>

primrec shift_flush :: "u32 \<Rightarrow> 's scan_step \<Rightarrow> 's scan_step" where
  "shift_flush m (ScanNext s) = ScanNext s"
| "shift_flush m (ScanFlush p al s) = ScanFlush (p + m) al s"
| "shift_flush m (ScanAbort s) = ScanAbort s"

primrec paf_segments ::
    "('s \<Rightarrow> u8 \<Rightarrow> u32 \<Rightarrow> 's scan_step) \<Rightarrow> 's \<Rightarrow> bytes list \<Rightarrow> u32 \<Rightarrow> 's scan_step" where
  \<comment> \<open>each segment scanned by a call of its own, flush points relative to the start of the queue\<close>
  "paf_segments step s [] q = ScanNext s"
| "paf_segments step s (d # ds) q =
     (case paf_bytes step s d 0 of
        ScanNext s' \<Rightarrow> paf_segments step s' ds (q + of_nat (length d))
      | out \<Rightarrow> shift_flush q out)"

lemma paf_bytes_append:
  "paf_bytes step s (xs @ ys) n =
     (case paf_bytes step s xs n of
        ScanNext s' \<Rightarrow> paf_bytes step s' ys (n + of_nat (length xs)) | out \<Rightarrow> out)"
  by (induction xs arbitrary: s n) (auto split: scan_step.split simp: ac_simps)

locale paf_scanner =
  fixes step :: "'s \<Rightarrow> u8 \<Rightarrow> u32 \<Rightarrow> 's scan_step"
  assumes step_shift: "step s b (n + m) = shift_flush m (step s b n)"
begin

lemma bytes_shift: "paf_bytes step s bs (n + m) = shift_flush m (paf_bytes step s bs n)"
proof (induction bs arbitrary: s n)
  case (Cons b bs)
  show ?case
  proof (cases "step s b n")
    case (ScanNext s')
    then show ?thesis
    proof -
      have e: "step s b (n + m) = ScanNext s'" using ScanNext step_shift [of s b n m] by simp
      have "n + m + 1 = (n + 1) + m" by (simp only: add.assoc add.commute [of m 1])
      then have "paf_bytes step s' bs (n + m + 1) = shift_flush m (paf_bytes step s' bs (n + 1))"
        using Cons.IH [of s' "n + 1"] by metis
      then show ?thesis using ScanNext e by simp
    qed
  qed (use step_shift [of s b n m] in simp_all)
qed simp

lemma bytes_zero: "shift_flush m (paf_bytes step s bs 0) = paf_bytes step s bs m"
  using bytes_shift [of s bs 0 m] by simp

lemma segments_concat: "paf_segments step s ds q = paf_bytes step s (concat ds) q"
proof (induction ds arbitrary: s q)
  case (Cons d ds)
  have "paf_bytes step s d q = shift_flush q (paf_bytes step s d 0)" by (simp add: bytes_zero)
  then show ?case
    using Cons by (cases "paf_bytes step s d 0") (simp_all add: paf_bytes_append)
qed simp

end

interpretation modbus: paf_scanner modbus_step
  by unfold_locales (simp add: modbus_step_def ac_simps split: modbus_paf_state.split)

interpretation dnp3: paf_scanner dnp3_step
  by unfold_locales (simp add: dnp3_step_def ac_simps split: dnp3_paf_state.split)

end
