(* ===== verification/PafProps.thy ===== *)
theory PafProps
  imports PafScan
begin

text \<open>
  Protocol aware flushing end to end: in-order segments are fed to \<open>s5_paf_check\<close> with one of the
  byte scanners installed, and the flush point returned is the end of the PDU, however the
  stream was cut.  Further: bounds of the flush point, termination of the scan loop, and the
  callback registry.
\<close>

section \<open>One scanner installed\<close>

definition paf_at :: "'s \<Rightarrow> 's \<Rightarrow> u32 \<Rightarrow> 's paf_state \<Rightarrow> bool" where
  \<comment> \<open>searching, the scanner in state \<open>s\<close>\<close>
  "paf_at init s seq ps \<longleftrightarrow>
     ps_paf ps = PAF_SEARCH \<and> ps_mode ps = FLUSH_MODE_NORMAL \<and> ps_cb_mask ps = 1 \<and> ps_seq ps = seq \<and>
     (ps_user ps = [Some s, None] \<and> ps_cb_id ps = [1, 0] \<or>
      ps_user ps = [None, None] \<and> ps_cb_id ps = [0, 0] \<and> s = init)"

definition paf_wait :: "u32 \<Rightarrow> u32 \<Rightarrow> 's paf_state \<Rightarrow> bool" where
  \<comment> \<open>the flush point is known, its bytes are not all here\<close>
  "paf_wait p seq ps \<longleftrightarrow>
     ps_paf ps = PAF_FLUSH \<and> ps_mode ps = FLUSH_MODE_NORMAL \<and> ps_seq ps = seq \<and> ps_fpt ps = p"

lemma cb_loop_done: "cb_loop cbs data is 0 paf ps fl = (paf, ps, fl, False)"
  by (cases "is") simp_all

lemma upt_16: "[0 ..< MAX_CB] = 0 # [1 ..< 16]"
  by (simp add: MAX_CB_def upt_conv_Cons)

lemma user_index:
  assumes "paf_at init s seq ps"
  shows "s5_paf_user_data_index ps 0 = Some 0"
  using assms
  by (auto simp: paf_at_def s5_paf_user_data_index_def MAX_PAF_USER_def upt_rec)

lemma scan_user:
  assumes "paf_at init s seq ps"
  shows "scan_callback step init True (ps_user ps ! 0) data fl fp eoh =
     (case paf_bytes step s data 0 of
        ScanNext s' \<Rightarrow> (PAF_SEARCH, Some s', fl, fp, eoh)
      | ScanFlush p _ s' \<Rightarrow> (PAF_FLUSH, Some s', fl, p, eoh)
      | ScanAbort s' \<Rightarrow> (PAF_ABORT, Some s', fl, fp, eoh))"
  using assms by (auto simp: paf_at_def scan_callback_def)

lemma callback_next:
  assumes at: "paf_at init s seq ps" and sc: "paf_bytes step s data 0 = ScanNext s'"
  shows "\<exists>ps'. s5_paf_callback [scan_callback step init True] s5_len s5_idx ps data fl = (False, ps', fl, s5_len) \<and>
    paf_at init s' seq ps' \<and> ps_eoh ps' = ps_eoh ps"
proof -
  let ?ps = "ps\<lparr>ps_cb_id := (ps_cb_id ps)[0 := 1], ps_user := (ps_user ps)[0 := Some s']\<rparr>"
  have m: "ps_cb_mask ps = 1" using at by (simp add: paf_at_def)
  have "cb_loop [scan_callback step init True] data [0 ..< MAX_CB] (ps_cb_mask ps) PAF_ABORT ps fl =
      (PAF_SEARCH, ?ps, fl, False)"
    unfolding upt_16 m
    by (simp add: user_index [OF at] scan_user [OF at] sc cb_loop_done)
  moreover have "paf_at init s' seq (?ps\<lparr>ps_paf := PAF_SEARCH\<rparr>)"
    using at by (auto simp: paf_at_def)
  ultimately show ?thesis using m by (simp add: s5_paf_callback_def Let_def)
qed

lemma callback_flush:
  assumes at: "paf_at init s seq ps" and sc: "paf_bytes step s data 0 = ScanFlush p al s'"
    and eoh: "ps_eoh ps = 0"
  shows "\<exists>ps'. s5_paf_callback [scan_callback step init True] s5_len s5_idx ps data fl =
      (if p + s5_idx \<le> s5_len then (True, ps', fl, p + s5_idx) else (False, ps', fl, s5_len)) \<and>
    paf_wait (p + s5_idx) seq ps' \<and> ps_eoh ps' = 0"
proof -
  let ?ps = "ps\<lparr>ps_cb_id := (ps_cb_id ps)[0 := 1], ps_user := (ps_user ps)[0 := Some s'], ps_fpt := p\<rparr>"
  have m: "ps_cb_mask ps = 1" using at by (simp add: paf_at_def)
  have same: "?ps\<lparr>ps_cb_mask := 1\<rparr> = ?ps" using m by simp
  have "cb_loop [scan_callback step init True] data [0 ..< MAX_CB] (ps_cb_mask ps) PAF_ABORT ps fl =
      (PAF_FLUSH, ?ps, fl, True)"
    unfolding upt_16 m
    using same by (simp add: user_index [OF at] scan_user [OF at] sc Let_def)
  moreover have "paf_wait (p + s5_idx) seq (?ps\<lparr>ps_paf := PAF_FLUSH, ps_fpt := p + s5_idx\<rparr>)"
    using at by (simp add: paf_at_def paf_wait_def)
  ultimately show ?thesis using m eoh by (simp add: s5_paf_callback_def Let_def)
qed

lemma loop_next:
  assumes at: "paf_at init s seq ps" and sc: "paf_bytes step s data 0 = ScanNext s'" and lt: "s5_idx < s5_len"
  shows "\<exists>ps'. s5_paf_loop pc [scan_callback step init True] fuzz s5_len s5_idx ps data fl = Some (ps', fl, FT_NOP) \<and>
    paf_at init s' seq ps'"
proof -
  obtain ps' where "s5_paf_callback [scan_callback step init True] s5_len s5_idx ps data fl = (False, ps', fl, s5_len)"
    "paf_at init s' seq ps'"
    using callback_next [OF at sc] by blast
  then show ?thesis
    using at lt by (subst s5_paf_loop.simps) (auto simp: s5_paf_eval_def paf_at_def)
qed

lemma loop_wait:
  assumes w: "paf_wait p seq ps" and eoh: "ps_eoh ps = 0" and small: "s5_len < pc_mfp pc + fuzz"
  shows "\<exists>ps'. s5_paf_loop pc cbs fuzz s5_len s5_idx ps data fl =
      Some (ps', fl, if p \<le> s5_len then FT_PAF else FT_NOP) \<and> ps_fpt ps' = p \<and> ps_eoh ps' = 0 \<and>
      ps_mode ps' = FLUSH_MODE_NORMAL \<and> ps_paf ps' \<noteq> PAF_IGNORE \<and> (\<not> p \<le> s5_len \<longrightarrow> paf_wait p seq ps')"
  using assms
  by (subst s5_paf_loop.simps) (auto simp: s5_paf_eval_def paf_wait_def not_le)

lemma loop_flush:
  assumes at: "paf_at init s seq ps" and sc: "paf_bytes step s data 0 = ScanFlush p al s'"
    and lt: "s5_idx < s5_len" and eoh: "ps_eoh ps = 0" and small: "s5_len < pc_mfp pc + fuzz"
  shows "\<exists>ps'. s5_paf_loop pc [scan_callback step init True] fuzz s5_len s5_idx ps data fl =
      Some (ps', fl, if p + s5_idx \<le> s5_len then FT_PAF else FT_NOP) \<and> ps_fpt ps' = p + s5_idx \<and> ps_eoh ps' = 0 \<and>
      ps_mode ps' = FLUSH_MODE_NORMAL \<and> ps_paf ps' \<noteq> PAF_IGNORE \<and>
      (\<not> p + s5_idx \<le> s5_len \<longrightarrow> paf_wait (p + s5_idx) seq ps')"
proof -
  obtain ps1 where cb: "s5_paf_callback [scan_callback step init True] s5_len s5_idx ps data fl =
      (if p + s5_idx \<le> s5_len then (True, ps1, fl, p + s5_idx) else (False, ps1, fl, s5_len))"
    and w: "paf_wait (p + s5_idx) seq ps1" and eoh1: "ps_eoh ps1 = 0"
    using callback_flush [OF at sc eoh] by blast
  have ev: "s5_paf_eval pc [scan_callback step init True] fuzz s5_len s5_idx ps data fl =
      (if p + s5_idx \<le> s5_len then (True, ps1, fl, p + s5_idx, FT_NOP) else (False, ps1, fl, s5_len, FT_NOP))"
    using at lt cb by (simp add: s5_paf_eval_def paf_at_def)
  have paf1: "ps_paf ps1 = PAF_FLUSH" using w by (simp add: paf_wait_def)
  show ?thesis
  proof (cases "p + s5_idx \<le> s5_len")
    case True
    let ?data = "if p + s5_idx > s5_idx then drop (unat (p + s5_idx - s5_idx)) data else data"
    have "s5_paf_loop pc [scan_callback step init True] fuzz s5_len s5_idx ps data fl =
        s5_paf_loop pc [scan_callback step init True] fuzz s5_len (p + s5_idx) ps1 ?data fl"
      by (subst s5_paf_loop.simps) (simp add: ev True paf1)
    then show ?thesis using loop_wait [OF w eoh1 small] True by metis
  next
    case False
    then have "s5_paf_loop pc [scan_callback step init True] fuzz s5_len s5_idx ps data fl = Some (ps1, fl, FT_NOP)"
      by (subst s5_paf_loop.simps) (simp add: ev paf1)
    then show ?thesis using False w eoh1 paf1 by (auto simp: paf_wait_def)
  qed
qed

section \<open>Feeding segments\<close>

lemma sint_of_nat_u32: "n < 2147483648 \<Longrightarrow> sint (of_nat n :: u32) = int n"
proof -
  assume n: "n < 2147483648"
  have "uint (of_nat n :: u32) = int n" using n by (simp add: unsigned_of_nat take_bit_nat_eq_self)
  then show ?thesis using n by (simp add: sint_uint signed_take_bit_int_eq_self)
qed

lemma check_in_order:
  assumes "ps_paf ps \<noteq> PAF_START" "ps_seq ps = seq" "data \<noteq> []" "length data < 2147483648"
    and "fl AND PKT_PSEUDO_FLUSH = 0"
  shows "s5_paf_check pc cbs g ps data tot seq fuzz fl = s5_paf_scan pc cbs fuzz tot ps data fl"
proof -
  have "seq_diff (seq + of_nat (length data)) seq = int (length data)"
    using sint_of_nat_u32 [OF assms(4)] by (simp add: seq_diff_def)
  then show ?thesis
    using assms by (simp add: s5_paf_check_def s5_paf_initialized_def) (simp add: seq_diff_def)
qed

text \<open>The numbers of a segment of \<open>n\<close> bytes behind \<open>q\<close> queued ones.\<close>

definition small_queue :: "paf_config \<Rightarrow> u32 \<Rightarrow> nat \<Rightarrow> bool" where
  "small_queue pc fuzz n \<longleftrightarrow> n < 2147483648 \<and> of_nat n < pc_mfp pc + fuzz"

lemma small_queue_mono: "small_queue pc fuzz n \<Longrightarrow> m \<le> n \<Longrightarrow> small_queue pc fuzz m"
  by (auto simp: small_queue_def word_less_nat_alt unat_of_nat_u32)

lemma scan_unclipped:
  fixes ps :: "'u paf_state"
  assumes sq: "small_queue pc fuzz (q + length data)"
  defines "pc' \<equiv> pc\<lparr>pc_calls := pc_calls pc + 1, pc_bytes := pc_bytes pc + of_nat (length data)\<rparr>"
    and "ps' \<equiv> ps\<lparr>ps_eoh := 0, ps_seq := ps_seq ps + of_nat (length data)\<rparr>"
    and "tot \<equiv> of_nat (q + length data)"
  assumes loop: "s5_paf_loop pc' cbs fuzz tot (of_nat q) ps' data fl = Some (ps1, fl1, ft)"
    and norm: "ps_mode ps1 = FLUSH_MODE_NORMAL" "ps_paf ps1 \<noteq> PAF_IGNORE"
  shows "s5_paf_scan pc cbs fuzz tot ps data fl =
    Some (if ft \<noteq> FT_NOP then (case s5_paf_flush ft tot ps1 fl1 of (r, ps2, fl2) \<Rightarrow> (r, pc', ps2, fl2))
          else (0, pc', ps1, fl1))"
proof -
  have lt: "tot < pc_mfp pc + fuzz" using sq by (simp add: small_queue_def tot_def)
  then have clip: "\<not> tot > pc_mfp pc + fuzz" "\<not> tot \<ge> pc_mfp pc + fuzz" by simp_all
  have idx: "tot - of_nat (length data) = of_nat q" by (simp add: tot_def)
  have "length data < 4294967296" using sq by (simp add: small_queue_def)
  then have tk: "take (unat (of_nat (length data) :: u32)) data = data" by (simp add: unat_of_nat_u32)
  show ?thesis
    using loop norm clip unfolding s5_paf_scan_def Let_def
    by (simp add: idx tk pc'_def ps'_def split: prod.split)
qed

lemma flush_paf:
  assumes "s5_len \<noteq> 0" "ps_fpt ps = p" "p \<noteq> 0" "p \<le> 0x7FFFFFFF"
  shows "fst (s5_paf_flush FT_PAF s5_len ps fl) = p"
proof -
  have "\<not> p > 0x7FFFFFFF" using assms(4) by (rule leD)
  then show ?thesis using assms(1-3) by (simp add: s5_paf_flush_def flush_point_def Let_def)
qed

lemma u32_le_2G: "n < 2147483648 \<Longrightarrow> p \<le> (of_nat n :: u32) \<Longrightarrow> p \<le> 0x7FFFFFFF"
  by (simp add: word_le_nat_alt unat_of_nat_u32)

lemma check_next:
  assumes at: "paf_at init s seq ps" and sc: "paf_bytes step s data 0 = ScanNext s'"
    and ne: "data \<noteq> []" and sq: "small_queue pc fuzz (q + length data)" and fl: "fl AND PKT_PSEUDO_FLUSH = 0"
  shows "\<exists>pc' ps'. s5_paf_check pc [scan_callback step init True] g ps data (of_nat (q + length data)) seq fuzz fl =
      Some (0, pc', ps', fl) \<and> pc_mfp pc' = pc_mfp pc \<and> paf_at init s' (seq + of_nat (length data)) ps'"
proof -
  let ?cb = "scan_callback step init True" and ?n = "length data"
  let ?pc = "pc\<lparr>pc_calls := pc_calls pc + 1, pc_bytes := pc_bytes pc + of_nat ?n\<rparr>"
  let ?ps = "ps\<lparr>ps_eoh := 0, ps_seq := ps_seq ps + of_nat ?n\<rparr>"
  have at1: "paf_at init s (seq + of_nat ?n) ?ps" using at by (auto simp: paf_at_def)
  have b: "q + ?n < 4294967296" using sq by (simp add: small_queue_def)
  have "0 < ?n" using ne by simp
  then have lt: "(of_nat q :: u32) < of_nat (q + ?n)"
    using b by (simp only: word_less_nat_alt unat_of_nat_u32)
  obtain ps1 where loop: "s5_paf_loop ?pc [?cb] fuzz (of_nat (q + ?n)) (of_nat q) ?ps data fl = Some (ps1, fl, FT_NOP)"
    and at2: "paf_at init s' (seq + of_nat ?n) ps1"
    using loop_next [OF at1 sc lt, of ?pc fuzz fl] by blast
  have "s5_paf_scan pc [?cb] fuzz (of_nat (q + ?n)) ps data fl = Some (0, ?pc, ps1, fl)"
    using scan_unclipped [OF sq loop] at2 by (simp add: paf_at_def)
  moreover have "s5_paf_check pc [?cb] g ps data (of_nat (q + ?n)) seq fuzz fl =
      s5_paf_scan pc [?cb] fuzz (of_nat (q + ?n)) ps data fl"
    by (rule check_in_order) (use at ne sq fl in \<open>auto simp: paf_at_def small_queue_def\<close>)
  ultimately show ?thesis using at2 by auto
qed

lemma check_flush:
  assumes at: "paf_at init s seq ps" and sc: "paf_bytes step s data 0 = ScanFlush p0 al s'"
    and ne: "data \<noteq> []" and sq: "small_queue pc fuzz (q + length data)" and fl: "fl AND PKT_PSEUDO_FLUSH = 0"
    and p: "p = p0 + of_nat q" "p \<noteq> 0"
  shows "\<exists>pc' ps' fl'. s5_paf_check pc [scan_callback step init True] g ps data (of_nat (q + length data)) seq fuzz fl =
      Some (if p \<le> of_nat (q + length data) then p else 0, pc', ps', fl') \<and> pc_mfp pc' = pc_mfp pc \<and>
      (\<not> p \<le> of_nat (q + length data) \<longrightarrow> paf_wait p (seq + of_nat (length data)) ps' \<and> fl' = fl)"
proof -
  let ?cb = "scan_callback step init True" and ?n = "length data" and ?tot = "of_nat (q + length data) :: u32"
  let ?pc = "pc\<lparr>pc_calls := pc_calls pc + 1, pc_bytes := pc_bytes pc + of_nat ?n\<rparr>"
  let ?ps = "ps\<lparr>ps_eoh := 0, ps_seq := ps_seq ps + of_nat ?n\<rparr>"
  have at1: "paf_at init s (seq + of_nat ?n) ?ps" using at by (auto simp: paf_at_def)
  have b: "q + ?n < 4294967296" using sq by (simp add: small_queue_def)
  have "0 < ?n" using ne by simp
  then have lt: "(of_nat q :: u32) < ?tot"
    using b by (simp only: word_less_nat_alt unat_of_nat_u32)
  have sm: "?tot < pc_mfp ?pc + fuzz" using sq by (simp add: small_queue_def)
  obtain ps1 where loop: "s5_paf_loop ?pc [?cb] fuzz ?tot (of_nat q) ?ps data fl =
      Some (ps1, fl, if p \<le> ?tot then FT_PAF else FT_NOP)"
    and ps1: "ps_fpt ps1 = p" "ps_mode ps1 = FLUSH_MODE_NORMAL" "ps_paf ps1 \<noteq> PAF_IGNORE"
      "\<not> p \<le> ?tot \<longrightarrow> paf_wait p (seq + of_nat ?n) ps1"
    using loop_flush [OF at1 sc lt _ sm, of fl] p(1) by auto
  have chk: "s5_paf_check pc [?cb] g ps data ?tot seq fuzz fl = s5_paf_scan pc [?cb] fuzz ?tot ps data fl"
    by (rule check_in_order) (use at ne sq fl in \<open>auto simp: paf_at_def small_queue_def\<close>)
  show ?thesis
  proof (cases "p \<le> ?tot")
    case True
    have "fst (s5_paf_flush FT_PAF ?tot ps1 fl) = p"
    proof (rule flush_paf [OF _ ps1(1) p(2)])
      show "?tot \<noteq> 0" using lt by auto
      show "p \<le> 0x7FFFFFFF" using True sq u32_le_2G [of "q + ?n" p] by (simp add: small_queue_def)
    qed
    then show ?thesis
      using scan_unclipped [OF sq loop ps1(2,3)] True chk
      by (cases "s5_paf_flush FT_PAF ?tot ps1 fl") auto
  next
    case False
    then show ?thesis using scan_unclipped [OF sq loop ps1(2,3)] chk ps1(4) by auto
  qed
qed

lemma check_wait:
  assumes w: "paf_wait p seq ps" and ne: "data \<noteq> []" and p: "p \<noteq> 0"
    and sq: "small_queue pc fuzz (q + length data)" and fl: "fl AND PKT_PSEUDO_FLUSH = 0"
  shows "\<exists>pc' ps' fl'. s5_paf_check pc cbs g ps data (of_nat (q + length data)) seq fuzz fl =
      Some (if p \<le> of_nat (q + length data) then p else 0, pc', ps', fl') \<and> pc_mfp pc' = pc_mfp pc \<and>
      (\<not> p \<le> of_nat (q + length data) \<longrightarrow> paf_wait p (seq + of_nat (length data)) ps' \<and> fl' = fl)"
proof -
  let ?n = "length data" and ?tot = "of_nat (q + length data) :: u32"
  let ?pc = "pc\<lparr>pc_calls := pc_calls pc + 1, pc_bytes := pc_bytes pc + of_nat ?n\<rparr>"
  let ?ps = "ps\<lparr>ps_eoh := 0, ps_seq := ps_seq ps + of_nat ?n\<rparr>"
  have w1: "paf_wait p (seq + of_nat ?n) ?ps" using w by (simp add: paf_wait_def)
  have sm: "?tot < pc_mfp ?pc + fuzz" using sq by (simp add: small_queue_def)
  obtain ps1 where loop: "s5_paf_loop ?pc cbs fuzz ?tot (of_nat q) ?ps data fl =
      Some (ps1, fl, if p \<le> ?tot then FT_PAF else FT_NOP)"
    and ps1: "ps_fpt ps1 = p" "ps_mode ps1 = FLUSH_MODE_NORMAL" "ps_paf ps1 \<noteq> PAF_IGNORE"
      "\<not> p \<le> ?tot \<longrightarrow> paf_wait p (seq + of_nat ?n) ps1"
    using loop_wait [OF w1 _ sm, of cbs "of_nat q" data fl] by auto
  have chk: "s5_paf_check pc cbs g ps data ?tot seq fuzz fl = s5_paf_scan pc cbs fuzz ?tot ps data fl"
    by (rule check_in_order) (use w ne sq fl in \<open>auto simp: paf_wait_def small_queue_def\<close>)
  show ?thesis
  proof (cases "p \<le> ?tot")
    case True
    have "fst (s5_paf_flush FT_PAF ?tot ps1 fl) = p"
    proof (rule flush_paf [OF _ ps1(1) p])
      show "?tot \<noteq> 0" using True p by auto
      show "p \<le> 0x7FFFFFFF" using True sq u32_le_2G [of "q + ?n" p] by (simp add: small_queue_def)
    qed
    then show ?thesis
      using scan_unclipped [OF sq loop ps1(2,3)] True chk
      by (cases "s5_paf_flush FT_PAF ?tot ps1 fl") auto
  next
    case False
    then show ?thesis using scan_unclipped [OF sq loop ps1(2,3)] chk ps1(4) by auto
  qed
qed

primrec paf_feed ::
    "paf_config \<Rightarrow> 's paf_callback list \<Rightarrow> u32 \<Rightarrow> 's paf_state \<Rightarrow> u32 \<Rightarrow> nat \<Rightarrow> u64 \<Rightarrow> bytes list \<Rightarrow>
     (u32 \<times> 's paf_state) option" where
  \<comment> \<open>in-order segments, queued until one of them makes \<open>s5_paf_check\<close> ask for a flush\<close>
  "paf_feed pc cbs fuzz ps seq q fl [] = Some (0, ps)"
| "paf_feed pc cbs fuzz ps seq q fl (d # ds) =
     (case s5_paf_check pc cbs 0 ps d (of_nat (q + length d)) seq fuzz fl of
        None \<Rightarrow> None
      | Some (r, pc', ps', fl') \<Rightarrow>
          if r \<noteq> 0 then Some (r, ps')
          else paf_feed pc' cbs fuzz ps' (seq + of_nat (length d)) (q + length d) fl' ds)"

lemma feed_wait:
  "paf_wait p seq ps \<Longrightarrow> p \<noteq> 0 \<Longrightarrow> fl AND PKT_PSEUDO_FLUSH = 0 \<Longrightarrow> \<forall>d \<in> set ds. d \<noteq> [] \<Longrightarrow>
   small_queue pc fuzz (q + length (concat ds)) \<Longrightarrow> \<not> p \<le> of_nat q \<Longrightarrow>
   \<exists>ps'. paf_feed pc cbs fuzz ps seq q fl ds =
     Some (if p \<le> of_nat (q + length (concat ds)) then p else 0, ps')"
proof (induction ds arbitrary: pc ps seq q)
  case (Cons d ds)
  have sq: "small_queue pc fuzz (q + length d)"
    using small_queue_mono [OF Cons.prems(5)] by simp
  have ne: "d \<noteq> []" using Cons.prems(4) by simp
  obtain pc' ps' fl' where c: "s5_paf_check pc cbs 0 ps d (of_nat (q + length d)) seq fuzz fl =
      Some (if p \<le> of_nat (q + length d) then p else 0, pc', ps', fl')" "pc_mfp pc' = pc_mfp pc"
    "\<not> p \<le> of_nat (q + length d) \<longrightarrow> paf_wait p (seq + of_nat (length d)) ps' \<and> fl' = fl"
    using check_wait [OF Cons.prems(1) ne Cons.prems(2) sq Cons.prems(3)] by blast
  have b: "q + length (concat (d # ds)) < 4294967296" using Cons.prems(5) by (simp add: small_queue_def)
  show ?case
  proof (cases "p \<le> of_nat (q + length d)")
    case True
    then have "p \<le> of_nat (q + length (concat (d # ds)))"
      using b by (simp add: word_le_nat_alt unat_of_nat_u32 del: of_nat_add)
    then show ?thesis using c(1) True Cons.prems(2) by (simp del: of_nat_add)
  next
    case False
    have sq': "small_queue pc' fuzz (q + length d + length (concat ds))"
      using Cons.prems(5) c(2) by (simp add: small_queue_def add.assoc)
    have w: "paf_wait p (seq + of_nat (length d)) ps'" and fl': "fl' = fl" using c(3) False by blast+
    have ds: "\<forall>d \<in> set ds. d \<noteq> []" using Cons.prems(4) by simp
    obtain ps2 where "paf_feed pc' cbs fuzz ps' (seq + of_nat (length d)) (q + length d) fl ds =
        Some (if p \<le> of_nat (q + length d + length (concat ds)) then p else 0, ps2)"
      using Cons.IH [OF w Cons.prems(2,3) ds sq' False] by blast
    moreover have "q + length d + length (concat ds) = q + length (concat (d # ds))" by simp
    ultimately show ?thesis using c(1) False fl' by (simp del: of_nat_add concat.simps)
  qed
qed simp

context paf_scanner
begin

lemma feed_flush:
  "paf_at init s seq ps \<Longrightarrow> paf_bytes step s (concat ds) (of_nat q) = ScanFlush p al s' \<Longrightarrow>
   fl AND PKT_PSEUDO_FLUSH = 0 \<Longrightarrow> \<forall>d \<in> set ds. d \<noteq> [] \<Longrightarrow>
   small_queue pc fuzz (q + length (concat ds)) \<Longrightarrow> p \<noteq> 0 \<Longrightarrow>
   \<exists>ps'. paf_feed pc [scan_callback step init True] fuzz ps seq q fl ds =
     Some (if p \<le> of_nat (q + length (concat ds)) then p else 0, ps')"
proof (induction ds arbitrary: pc ps seq q s)
  case Nil
  then show ?case by simp
next
  case (Cons d ds)
  let ?cb = "scan_callback step init True"
  have ne: "d \<noteq> []" using Cons.prems(4) by simp
  have ds: "\<forall>d \<in> set ds. d \<noteq> []" using Cons.prems(4) by simp
  have sq: "small_queue pc fuzz (q + length d)"
    using small_queue_mono [OF Cons.prems(5)] by simp
  have len: "q + length d + length (concat ds) = q + length (concat (d # ds))" by simp
  have b: "q + length (concat (d # ds)) < 4294967296" using Cons.prems(5) by (simp add: small_queue_def)
  have shift: "paf_bytes step s d (of_nat q) = shift_flush (of_nat q) (paf_bytes step s d 0)"
    by (simp add: bytes_zero)
  have app: "paf_bytes step s (concat (d # ds)) (of_nat q) =
      (case paf_bytes step s d (of_nat q) of
         ScanNext s' \<Rightarrow> paf_bytes step s' (concat ds) (of_nat q + of_nat (length d)) | out \<Rightarrow> out)"
    by (simp add: paf_bytes_append)
  show ?case
  proof (cases "paf_bytes step s d 0")
    case (ScanNext s1)
    obtain pc' ps' where c: "s5_paf_check pc [?cb] 0 ps d (of_nat (q + length d)) seq fuzz fl = Some (0, pc', ps', fl)"
      "pc_mfp pc' = pc_mfp pc" "paf_at init s1 (seq + of_nat (length d)) ps'"
      using check_next [OF Cons.prems(1) ScanNext ne sq Cons.prems(3)] by blast
    have sc: "paf_bytes step s1 (concat ds) (of_nat (q + length d)) = ScanFlush p al s'"
      using Cons.prems(2) ScanNext shift app by simp
    have sq': "small_queue pc' fuzz (q + length d + length (concat ds))"
      using Cons.prems(5) c(2) by (simp add: small_queue_def add.assoc)
    from Cons.IH [OF c(3) sc Cons.prems(3) ds sq' Cons.prems(6)] c(1) show ?thesis
      unfolding len by (simp del: of_nat_add concat.simps)
  next
    case (ScanFlush p0 al0 s0)
    then have p: "p = p0 + of_nat q" using Cons.prems(2) shift app by simp
    obtain pc' ps' fl' where c: "s5_paf_check pc [?cb] 0 ps d (of_nat (q + length d)) seq fuzz fl =
        Some (if p \<le> of_nat (q + length d) then p else 0, pc', ps', fl')" "pc_mfp pc' = pc_mfp pc"
      "\<not> p \<le> of_nat (q + length d) \<longrightarrow> paf_wait p (seq + of_nat (length d)) ps' \<and> fl' = fl"
      using check_flush [OF Cons.prems(1) ScanFlush ne sq Cons.prems(3) p Cons.prems(6)] by blast
    show ?thesis
    proof (cases "p \<le> of_nat (q + length d)")
      case True
      then have "p \<le> of_nat (q + length (concat (d # ds)))"
        using b by (simp add: word_le_nat_alt unat_of_nat_u32 del: of_nat_add)
      then show ?thesis using c(1) True Cons.prems(6) by (simp del: of_nat_add)
    next
      case False
      have sq': "small_queue pc' fuzz (q + length d + length (concat ds))"
        using Cons.prems(5) c(2) by (simp add: small_queue_def add.assoc)
      have w: "paf_wait p (seq + of_nat (length d)) ps'" and fl': "fl' = fl" using c(3) False by blast+
      from feed_wait [OF w Cons.prems(6,3) ds sq' False, of "[?cb]"] c(1) False fl' show ?thesis
        unfolding len by (simp del: of_nat_add concat.simps)
    qed
  next
    case (ScanAbort s0)
    then show ?thesis using Cons.prems(2) shift app by simp
  qed
qed

end

section \<open>The first segment\<close>

definition paf_zero :: "'u paf_state" where
  \<comment> \<open>the zeroed state of a new session\<close>
  "paf_zero = \<lparr>ps_user = [None, None], ps_seq = 0, ps_pos = 0, ps_fpt = 0, ps_tot = 0, ps_paf = PAF_ABORT,
     ps_mode = FLUSH_MODE_NORMAL, ps_cb_mask = 0, ps_cb_id = [0, 0], ps_eoh = 0\<rparr>"

definition paf_started :: "u32 \<Rightarrow> 'u paf_state" where
  "paf_started seq = (s5_paf_setup paf_zero 1)\<lparr>ps_seq := seq, ps_pos := seq, ps_paf := PAF_SEARCH\<rparr>"

lemma paf_started_at: "paf_at init init seq (paf_started seq)"
  by (simp add: paf_at_def paf_started_def s5_paf_setup_def paf_zero_def)

lemma feed_start:
  assumes "d \<noteq> []" "length d < 2147483648" "fl AND PKT_PSEUDO_FLUSH = 0"
  shows "paf_feed pc cbs fuzz (s5_paf_setup paf_zero 1) seq q fl (d # ds) =
    paf_feed pc cbs fuzz (paf_started seq) seq q fl (d # ds)"
proof -
  have "s5_paf_check pc cbs 0 (s5_paf_setup paf_zero 1) d tot seq fuzz fl =
      s5_paf_check pc cbs 0 (paf_started seq) d tot seq fuzz fl" for tot
  proof -
    have "s5_paf_check pc cbs 0 (paf_started seq) d tot seq fuzz fl =
        s5_paf_scan pc cbs fuzz tot (paf_started seq) d fl"
      by (rule check_in_order) (use assms in \<open>simp_all add: paf_started_def\<close>)
    then show ?thesis
      by (simp add: s5_paf_check_def s5_paf_initialized_def s5_paf_setup_def paf_started_def)
  qed
  then show ?thesis by simp
qed

context paf_scanner
begin

lemma session_flush:
  assumes "paf_bytes step init (concat ds) 0 = ScanFlush p al s'" and "\<forall>d \<in> set ds. d \<noteq> []"
    and "small_queue pc fuzz (length (concat ds))" and "fl AND PKT_PSEUDO_FLUSH = 0" and "p \<noteq> 0"
  shows "\<exists>ps'. paf_feed pc [scan_callback step init True] fuzz (s5_paf_setup paf_zero 1) seq 0 fl ds =
    Some (if p \<le> of_nat (length (concat ds)) then p else 0, ps')"
proof (cases ds)
  case Nil
  then show ?thesis using assms(1) by simp
next
  case (Cons d es)
  have d: "d \<noteq> []" "length d < 2147483648" using assms(2,3) Cons by (simp_all add: small_queue_def)
  have "paf_bytes step init (concat ds) (of_nat 0) = ScanFlush p al s'" using assms(1) by simp
  from feed_flush [OF paf_started_at this assms(4,2) _ assms(5), of pc fuzz seq] assms(3)
  show ?thesis unfolding Cons feed_start [OF d assms(4)] by simp
qed

end

section \<open>PDU lengths\<close>

lemma modbus_length_bytes:
  "unat (ucast (push_bit 8 (ucast l1) OR ucast l2 :: u16) + 6 :: u32) = 256 * unat l1 + unat (l2 :: u8) + 6"
  for l1 :: u8
proof -
  have "push_bit 8 (ucast l1) OR ucast l2 = (push_bit 8 (ucast l1) + ucast l2 :: u16)"
  proof (rule disjunctive_add [symmetric])
    fix n show "\<not> bit (push_bit 8 (ucast l1) :: u16) n \<or> \<not> bit (ucast l2 :: u16) n"
      using bit_imp_le_length [of l2 n] by (auto simp: bit_push_bit_iff bit_unsigned_iff)
  qed
  moreover have "unat (push_bit 8 (ucast l1) + ucast l2 :: u16) = 256 * unat l1 + unat l2"
  proof -
    have "unat (push_bit 8 (ucast l1) :: u16) = 256 * unat l1"
      using unat_u8_bound [of l1] by (simp add: push_bit_eq_mult unat_word_ariths)
    moreover have "256 * unat l1 + unat l2 < 65536"
      using unat_u8_bound [of l1] unat_u8_bound [of l2] by linarith
    ultimately show ?thesis by (simp add: unat_word_ariths)
  qed
  moreover have "256 * unat l1 + unat l2 + 6 < 4294967296"
    using unat_u8_bound [of l1] unat_u8_bound [of l2] by linarith
  ultimately show ?thesis by (simp add: unat_word_ariths)
qed

lemma dnp3_length_nat:
  "5 \<le> len \<Longrightarrow> unat (ucast (dnp3_real_length len) + 3 :: u32) =
     3 + unat len + 2 * (1 + (unat len - 5 + 15) div 16)"
proof -
  assume "5 \<le> len"
  then have l: "5 \<le> unat len" "unat len < 256" by (simp_all add: word_le_nat_alt)
  have u: "unat (ucast len :: u16) = unat len"
    by simp
  have ud: "unat (ucast len - 5 :: u16) = unat len - 5"
    using l u by (subst unat_sub) (simp_all add: word_le_nat_alt)
  have "unat (dnp3_real_length len) = unat len + 2 * (1 + (unat len - 5 + 15) div 16)"
  proof -
    let ?u = "ucast len - 5 :: u16"
    have m: "?u mod 16 \<noteq> 0 \<longleftrightarrow> (unat len - 5) mod 16 \<noteq> 0"
      using ud by (simp add: word_unat_eq_iff unat_mod)
    have d: "unat (?u div 16) = (unat len - 5) div 16" using ud by (simp add: unat_div)
    have "(x + 15) div 16 = x div 16 + (if x mod 16 \<noteq> 0 then 1 else 0)" for x :: nat
    proof -
      have "(x mod 16 + 15) div 16 = 1" if "x mod 16 \<noteq> 0"
      proof (rule div_nat_eqI)
        have "x mod 16 < 16" by simp
        then show "x mod 16 + 15 < 16 * Suc 1" by simp
        show "16 * 1 \<le> x mod 16 + 15" using that by linarith
      qed
      then show ?thesis using div_add1_eq [of x 15 16] by (cases "x mod 16 = 0") simp_all
    qed
    then have c: "(unat len - 5 + 15) div 16 =
        (unat len - 5) div 16 + (if (unat len - 5) mod 16 \<noteq> 0 then 1 else 0)"
      by blast
    have s: "(unat len - 5) div 16 < 16" by (rule less_mult_imp_div_less) (use l in linarith)
    have n: "unat (1 + ?u div 16 + (if ?u mod 16 \<noteq> 0 then 1 else 0)) = 1 + (unat len - 5 + 15) div 16"
      unfolding m c using d s by (simp add: unat_word_ariths)
    have s2: "1 + (unat len - 5 + 15) div 16 < 18" unfolding c using s by simp
    define K where "K = 1 + (unat len - 5 + 15) div 16"
    define num where "num = 1 + ?u div 16 + (if ?u mod 16 \<noteq> 0 then 1 else 0)"
    have num: "unat num = K" using n by (simp only: num_def K_def)
    have K: "K < 18" using s2 by (simp only: K_def)
    have two: "unat (2 * num) = 2 * K" using num K by (simp add: unat_word_ariths)
    have "unat len + 2 * K < 65536" using K l(2) by linarith
    then have "unat (ucast len + 2 * num) = unat len + 2 * K" using two u by (simp add: unat_word_ariths)
    then show ?thesis unfolding dnp3_real_length_def Let_def num_def K_def .
  qed
  moreover have "3 + unat len + 2 * (1 + (unat len - 5 + 15) div 16) < 4294967296"
  proof -
    define k where "k = (unat len - 5 + 15) div 16"
    have "k \<le> unat len + 15" unfolding k_def by (rule order_trans [OF div_le_dividend]) simp
    then show ?thesis unfolding k_def [symmetric] using l(2) by presburger
  qed
  ultimately show ?thesis by (simp add: unat_word_ariths)
qed

section \<open>Bounds of the flush point\<close>

text \<open>A flush type that \<open>s5_paf_eval\<close> answers together with a state it fits.\<close>

definition flush_fits :: "flush_type \<Rightarrow> u32 \<Rightarrow> 'u paf_state \<Rightarrow> bool" where
  "flush_fits ft s5_len ps \<longleftrightarrow>
     ft \<noteq> FT_PAF_HDR \<and> ((ft = FT_PAF \<or> ft = FT_DISC_E) \<longrightarrow> ps_fpt ps \<le> s5_len)"

lemma flush_le:
  assumes "flush_fits ft s5_len ps"
  shows "fst (s5_paf_flush ft s5_len ps fl) \<le> s5_len"
proof -
  have cap: "(if at > 0x7FFFFFFF then 0x7FFFFFFF else at) \<le> s5_len" if "at \<le> s5_len" for at :: u32
    using that by (auto dest: order.strict_trans2 intro: less_imp_le)
  show ?thesis
    using assms cap
    by (cases ft) (auto simp: s5_paf_flush_def flush_point_def flush_fits_def Let_def not_less
        split: if_splits)
qed

definition no_eoh :: "'u paf_callback list \<Rightarrow> bool" where
  \<comment> \<open>callbacks that set no flush point at the end of a header\<close>
  "no_eoh cbs \<longleftrightarrow>
     (\<forall>cb \<in> set cbs. \<forall>u data fl fp. snd (snd (snd (snd (cb u data fl fp 0)))) = 0)"

definition mask_in :: "nat \<Rightarrow> u16 \<Rightarrow> bool" where
  "mask_in n m \<longleftrightarrow> (\<forall>i. bit m i \<longrightarrow> i < n)"

lemma mask_in_xor: "mask_in n m \<Longrightarrow> i < n \<Longrightarrow> mask_in n (m XOR push_bit i 1)"
  by (auto simp: mask_in_def bit_xor_iff bit_exp_iff)

lemma mask_in_bit: "i < n \<Longrightarrow> mask_in n (push_bit i 1)"
  by (auto simp: mask_in_def bit_exp_iff)

lemma cb_loop_eoh:
  "cb_loop cbs data is m paf ps fl = (paf', ps', fl', sel) \<Longrightarrow>
    mask_in (length cbs) m \<Longrightarrow> mask_in (length cbs) (ps_cb_mask ps) \<Longrightarrow> ps_eoh ps = 0 \<Longrightarrow> no_eoh cbs \<Longrightarrow>
    ps_eoh ps' = 0 \<and> mask_in (length cbs) (ps_cb_mask ps')"
proof (induction "is" arbitrary: m paf ps fl)
  case Nil
  then show ?case by simp
next
  case (Cons i "is")
  show ?case
  proof (cases "m \<noteq> 0 \<and> bit m i")
    case False
    then show ?thesis using Cons by (auto split: if_splits)
  next
    case True
    then have i: "i < length cbs" using Cons.prems(2) by (simp add: mask_in_def)
    show ?thesis
    proof (cases "s5_paf_user_data_index ps i")
      case None
      then show ?thesis using Cons True by auto
    next
      case (Some u)
      obtain r user' flags' fpt' eoh' where
        cb: "(cbs ! i) (ps_user ps ! u) data fl (ps_fpt ps) (ps_eoh ps) = (r, user', flags', fpt', eoh')"
        by (metis prod.exhaust)
      have e: "eoh' = 0"
      proof -
        have "snd (snd (snd (snd ((cbs ! i) (ps_user ps ! u) data fl (ps_fpt ps) 0)))) = 0"
          using Cons.prems(5) i unfolding no_eoh_def by (meson nth_mem)
        then show ?thesis using cb Cons.prems(4) by simp
      qed
      let ?ps = "ps\<lparr>ps_cb_id := (ps_cb_id ps)[u := i + 1], ps_user := (ps_user ps)[u := user'],
        ps_fpt := fpt', ps_eoh := eoh'\<rparr>"
      note xor = mask_in_xor [OF _ i]
      consider "r = PAF_ABORT" | "r = PAF_SEARCH" | "r \<noteq> PAF_ABORT" "r \<noteq> PAF_SEARCH" by blast
      then show ?thesis
      proof cases
        case 1
        then show ?thesis
          using Cons.IH [of "m XOR push_bit i 1" r "?ps\<lparr>ps_cb_mask := ps_cb_mask ?ps XOR push_bit i 1\<rparr>" flags']
            Cons.prems True Some cb e xor by simp
      next
        case 2
        then show ?thesis
          using Cons.IH [of "m XOR push_bit i 1" r ?ps flags'] Cons.prems True Some cb e xor by simp
      next
        case 3
        then show ?thesis
          using Cons.prems True Some cb e mask_in_bit [OF i] by (auto simp: Let_def split: if_splits)
      qed
    qed
  qed
qed

lemma cb_loop_mask:
  "cb_loop cbs data is m paf ps fl = (paf', ps', fl', sel) \<Longrightarrow>
    mask_in (length cbs) m \<Longrightarrow> mask_in (length cbs) (ps_cb_mask ps) \<Longrightarrow> mask_in (length cbs) (ps_cb_mask ps')"
proof (induction "is" arbitrary: m paf ps fl)
  case (Cons i "is")
  show ?case
  proof (cases "m \<noteq> 0 \<and> bit m i")
    case False
    then show ?thesis using Cons by (auto split: if_splits)
  next
    case True
    then have i: "i < length cbs" using Cons.prems(2) by (simp add: mask_in_def)
    show ?thesis
    proof (cases "s5_paf_user_data_index ps i")
      case None
      then show ?thesis using Cons True by auto
    next
      case (Some u)
      obtain r user' flags' fpt' eoh' where
        cb: "(cbs ! i) (ps_user ps ! u) data fl (ps_fpt ps) (ps_eoh ps) = (r, user', flags', fpt', eoh')"
        by (metis prod.exhaust)
      let ?ps = "ps\<lparr>ps_cb_id := (ps_cb_id ps)[u := i + 1], ps_user := (ps_user ps)[u := user'],
        ps_fpt := fpt', ps_eoh := eoh'\<rparr>"
      note xor = mask_in_xor [OF _ i]
      consider "r = PAF_ABORT" | "r = PAF_SEARCH" | "r \<noteq> PAF_ABORT" "r \<noteq> PAF_SEARCH" by blast
      then show ?thesis
      proof cases
        case 1
        then show ?thesis
          using Cons.IH [of "m XOR push_bit i 1" r "?ps\<lparr>ps_cb_mask := ps_cb_mask ?ps XOR push_bit i 1\<rparr>" flags']
            Cons.prems True Some cb xor by simp
      next
        case 2
        then show ?thesis
          using Cons.IH [of "m XOR push_bit i 1" r ?ps flags'] Cons.prems True Some cb xor by simp
      next
        case 3
        then show ?thesis
          using Cons.prems True Some cb mask_in_bit [OF i] by (auto simp: Let_def split: if_splits)
      qed
    qed
  qed
qed simp

lemma callback_mask:
  assumes "mask_in (length cbs) (ps_cb_mask ps)" and cb: "s5_paf_callback cbs s5_len s5_idx ps data fl = (c, ps', fl', idx)"
  shows "mask_in (length cbs) (ps_cb_mask ps')"
proof -
  obtain paf ps1 fl1 sel where l: "cb_loop cbs data [0 ..< MAX_CB] (ps_cb_mask ps) PAF_ABORT ps fl = (paf, ps1, fl1, sel)"
    by (metis prod.exhaust)
  have "mask_in (length cbs) (ps_cb_mask ps1)" using cb_loop_mask [OF l] assms(1) by simp
  then show ?thesis using cb l by (auto simp: s5_paf_callback_def Let_def split: if_splits)
qed

lemma eval_mask:
  assumes inv: "mask_in (length cbs) (ps_cb_mask ps)"
    and ev: "s5_paf_eval pc cbs fuzz s5_len s5_idx ps data fl = (c, ps', fl', idx, ft)"
  shows "mask_in (length cbs) (ps_cb_mask ps')"
proof -
  have skip: "mask_in (length cbs) (ps_cb_mask ps2)"
    if "s5_paf_callback cbs s5_len i (ps\<lparr>ps_paf := PAF_SKIP\<rparr>) d fl = (c2, ps2, fl2, i2)" for i d c2 ps2 fl2 i2
    by (rule callback_mask [OF _ that]) (simp add: inv)
  show ?thesis
    using ev inv skip callback_mask [OF inv]
    by (cases "ps_paf ps") (auto simp: s5_paf_eval_def Let_def split: if_splits prod.splits)
qed

definition paf_inv :: "'u paf_callback list \<Rightarrow> 'u paf_state \<Rightarrow> bool" where
  "paf_inv cbs ps \<longleftrightarrow> no_eoh cbs \<and> mask_in (length cbs) (ps_cb_mask ps) \<and> ps_eoh ps = 0"

lemma paf_inv_frame [simp]:
  "paf_inv cbs (ps\<lparr>ps_paf := x1\<rparr>) = paf_inv cbs ps" "paf_inv cbs (ps\<lparr>ps_mode := x2\<rparr>) = paf_inv cbs ps"
  "paf_inv cbs (ps\<lparr>ps_fpt := x3\<rparr>) = paf_inv cbs ps" "paf_inv cbs (ps\<lparr>ps_seq := x3\<rparr>) = paf_inv cbs ps"
  by (simp_all add: paf_inv_def)

lemma callback_inv:
  assumes inv: "paf_inv cbs ps" and cb: "s5_paf_callback cbs s5_len s5_idx ps data fl = (c, ps', fl', idx)"
  shows "paf_inv cbs ps'"
proof -
  obtain paf ps1 fl1 sel where l: "cb_loop cbs data [0 ..< MAX_CB] (ps_cb_mask ps) PAF_ABORT ps fl = (paf, ps1, fl1, sel)"
    by (metis prod.exhaust)
  have "ps_eoh ps1 = 0" "mask_in (length cbs) (ps_cb_mask ps1)"
    using cb_loop_eoh [OF l] inv by (simp_all add: paf_inv_def)
  then have "paf_inv cbs ps1" using inv by (simp add: paf_inv_def)
  then show ?thesis
    using cb l \<open>ps_eoh ps1 = 0\<close> by (auto simp: s5_paf_callback_def Let_def split: if_splits)
qed

lemma eval_fits:
  assumes inv: "paf_inv cbs ps"
    and ev: "s5_paf_eval pc cbs fuzz s5_len s5_idx ps data fl = (c, ps', fl', idx, ft)"
  shows "paf_inv cbs ps' \<and> flush_fits ft s5_len ps'"
proof -
  have eoh: "ps_eoh ps = 0" using inv by (simp add: paf_inv_def)
  have skip: "paf_inv cbs ps2" if "s5_paf_callback cbs s5_len i (ps\<lparr>ps_paf := PAF_SKIP\<rparr>) d fl = (c2, ps2, fl2, i2)"
    for i d c2 ps2 fl2 i2
    by (rule callback_inv [OF _ that]) (simp add: inv)
  show ?thesis
  proof (cases "ps_paf ps")
    case PAF_SEARCH
    then show ?thesis
      using ev inv callback_inv [OF inv]
      by (auto simp: s5_paf_eval_def flush_fits_def split: if_splits prod.splits)
  next
    case PAF_SKIP
    then show ?thesis
      using ev inv skip
      by (auto simp: s5_paf_eval_def flush_fits_def Let_def split: if_splits prod.splits)
  next
    case PAF_PSEUDO_FLUSH_SKIP
    then show ?thesis
      using ev inv skip
      by (auto simp: s5_paf_eval_def flush_fits_def Let_def split: if_splits prod.splits)
  qed (use ev inv eoh in \<open>auto simp: s5_paf_eval_def flush_fits_def split: if_splits\<close>)
qed

lemma loop_fits:
  assumes "paf_inv cbs ps" and "s5_paf_loop pc cbs fuzz s5_len s5_idx ps data fl = Some (ps', fl', ft)"
  shows "flush_fits ft s5_len ps'"
proof -
  have "paf_inv cbs ps \<longrightarrow> (case (ps', fl', ft) of (ps', fl', ft) \<Rightarrow> flush_fits ft s5_len ps')"
  proof (rule s5_paf_loop.raw_induct [of "\<lambda>pc cbs fuzz s5_len s5_idx ps data fl r.
      paf_inv cbs ps \<longrightarrow> (case r of (ps', fl', ft) \<Rightarrow> flush_fits ft s5_len ps')", OF _ assms(2)], intro impI)
    fix loop pc cbs fuzz s5_len s5_idx ps data fl and r :: "'a paf_state \<times> u64 \<times> flush_type"
    assume IH: "\<And>pc cbs fuzz s5_len s5_idx ps data fl r.
        loop pc cbs fuzz s5_len s5_idx ps data fl = Some r \<Longrightarrow>
        paf_inv cbs ps \<longrightarrow> (case r of (ps', fl', ft) \<Rightarrow> flush_fits ft s5_len ps')"
      and body: "(case s5_paf_eval pc cbs fuzz s5_len s5_idx ps data fl of
         (cont, ps', fl, idx, ft) \<Rightarrow>
           if ps_paf ps' = PAF_IGNORE then Some (ps', fl, FT_NOP)
           else if ft \<noteq> FT_NOP then Some (ps', fl, ft)
           else if \<not> cont then Some (ps', fl, FT_NOP)
           else loop pc cbs fuzz s5_len idx ps'
                  (if idx > s5_idx then drop (unat (idx - s5_idx)) data else data) fl) = Some r"
      and inv: "paf_inv cbs ps"
    obtain c ps1 fl1 idx ft1 where ev: "s5_paf_eval pc cbs fuzz s5_len s5_idx ps data fl = (c, ps1, fl1, idx, ft1)"
      by (metis prod.exhaust)
    have fits: "paf_inv cbs ps1" "flush_fits ft1 s5_len ps1" using eval_fits [OF inv ev] by simp_all
    have nop: "flush_fits FT_NOP s5_len ps1" by (simp add: flush_fits_def)
    show "case r of (ps', fl', ft) \<Rightarrow> flush_fits ft s5_len ps'"
      using body fits nop IH [of pc cbs fuzz s5_len idx ps1 _ fl1 r] unfolding ev
      by (auto split: if_splits)
  qed
  then show ?thesis using assms(1) by simp
qed

lemma flush_disc_max:
  "flush_fits FT_DISC_S s5_len ps" "flush_fits FT_MAX s5_len ps"
  by (simp_all add: flush_fits_def)

lemma scan_le:
  assumes inv: "no_eoh cbs" "mask_in (length cbs) (ps_cb_mask ps)"
    and sc: "s5_paf_scan pc cbs fuzz tot ps data fl = Some (r, pc', ps', fl')"
    and b: "unat tot < 2147483648" "length data \<le> unat tot" "unat fuzz < 1073741824"
  shows "r \<le> tot"
proof -
  define len where "len = (of_nat (length data) :: u32)"
  define ps0 where "ps0 = ps\<lparr>ps_eoh := 0, ps_seq := ps_seq ps + len\<rparr>"
  define pc0 where "pc0 = pc\<lparr>pc_calls := pc_calls pc + 1, pc_bytes := pc_bytes pc + len\<rparr>"
  define clip where "clip \<longleftrightarrow> ps_mode ps0 = FLUSH_MODE_NORMAL \<and> tot \<ge> MAXIMUM_PAF_MAX \<and> tot > pc_mfp pc0 + fuzz"
  define s5_len where "s5_len = (if clip then MAXIMUM_PAF_MAX + fuzz else tot)"
  define len' where "len' = (if clip then (if len > tot - s5_len then len + s5_len - tot else 0) else len)"
  have inv0: "paf_inv cbs ps0" using inv by (simp add: paf_inv_def ps0_def)
  have le: "s5_len \<le> tot" if "\<not> (clip \<and> len' = 0)"
  proof (rule ccontr)
    assume gt: "\<not> s5_len \<le> tot"
    then have cl: "clip" by (cases clip) (simp_all add: s5_len_def)
    then have s: "s5_len = 63780 + fuzz" by (simp add: s5_len_def MAXIMUM_PAF_MAX_def)
    have "unat (63780 + fuzz) = 63780 + unat fuzz" using b(3) by (simp add: unat_word_ariths)
    then have us: "unat s5_len < 1073905604" using s b(3) by simp
    have ul: "unat len = length data" using b by (simp add: len_def unat_of_nat_u32)
    have "unat (tot - s5_len) = 4294967296 + unat tot - unat s5_len"
      using gt us b(1) by (subst unat_sub_if') (simp add: word_le_nat_alt)
    then have "\<not> len > tot - s5_len"
      using us b ul by (simp add: word_less_nat_alt)
    then have "len' = 0" using cl by (simp add: len'_def)
    then show False using that cl by simp
  qed
  note body = sc [unfolded s5_paf_scan_def Let_def, folded len_def, folded ps0_def pc0_def,
      folded clip_def, folded s5_len_def, folded len'_def]
  show ?thesis
  proof (cases "clip \<and> len' = 0")
    case True
    then show ?thesis using body by simp
  next
    case False
    then obtain ps1 flags ft where loop:
      "s5_paf_loop pc0 cbs fuzz s5_len (tot - len) ps0 (take (unat len') data) fl = Some (ps1, flags, ft)"
      using body by (auto split: option.splits)
    note fits = loop_fits [OF inv0 loop]
    have "r \<le> s5_len"
      using body False loop flush_le [OF fits, of flags] flush_le [OF flush_disc_max(1), of s5_len ps1 flags]
        flush_le [OF flush_disc_max(2), of s5_len ps1 flags]
      by (auto split: if_splits prod.splits)
    then show ?thesis using le False by (meson order.trans)
  qed
qed

section \<open>Termination of the scan loop\<close>

definition paf_moves :: "paf_status \<Rightarrow> bool" where
  "paf_moves st \<longleftrightarrow> st \<in> {PAF_SKIP, PAF_PSEUDO_FLUSH_SKIP, PAF_DISCARD_START}"

definition paf_final :: "paf_status \<Rightarrow> bool" where
  \<comment> \<open>states whose evaluation ends the loop\<close>
  "paf_final st \<longleftrightarrow> \<not> paf_moves st \<and> st \<notin> {PAF_SEARCH, PAF_PERFORMED_LMT_FLUSH}"

definition makes_progress :: "'u paf_callback list \<Rightarrow> bool" where
  \<comment> \<open>a verdict to skip or discard moves the flush point forward, by less than \<open>2^31\<close>\<close>
  "makes_progress cbs \<longleftrightarrow>
     (\<forall>cb \<in> set cbs. \<forall>u data fl fp eoh st u' fl' fp' eoh'.
        cb u data fl fp eoh = (st, u', fl', fp', eoh') \<longrightarrow>
        st \<noteq> PAF_PERFORMED_LMT_FLUSH \<and> (paf_moves st \<longrightarrow> 0 < fp' \<and> unat fp' < 2147483648))"

lemma cb_loop_select:
  "cb_loop cbs data is m paf ps fl = (paf', ps', fl', True) \<Longrightarrow> mask_in (length cbs) m \<Longrightarrow> makes_progress cbs \<Longrightarrow>
    paf' \<noteq> PAF_PERFORMED_LMT_FLUSH \<and> paf' \<notin> {PAF_ABORT, PAF_SEARCH} \<and>
    (paf_moves paf' \<longrightarrow> 0 < ps_fpt ps' \<and> unat (ps_fpt ps') < 2147483648)"
proof (induction "is" arbitrary: m paf ps fl)
  case (Cons i "is")
  show ?case
  proof (cases "m \<noteq> 0 \<and> bit m i")
    case False
    then show ?thesis using Cons by (auto split: if_splits)
  next
    case True
    then have i: "i < length cbs" using Cons.prems(2) by (simp add: mask_in_def)
    show ?thesis
    proof (cases "s5_paf_user_data_index ps i")
      case None
      then show ?thesis using Cons True by auto
    next
      case (Some u)
      obtain r user' flags' fpt' eoh' where
        cb: "(cbs ! i) (ps_user ps ! u) data fl (ps_fpt ps) (ps_eoh ps) = (r, user', flags', fpt', eoh')"
        by (metis prod.exhaust)
      let ?ps = "ps\<lparr>ps_cb_id := (ps_cb_id ps)[u := i + 1], ps_user := (ps_user ps)[u := user'],
        ps_fpt := fpt', ps_eoh := eoh'\<rparr>"
      note xor = mask_in_xor [OF Cons.prems(2) i]
      consider "r = PAF_ABORT" | "r = PAF_SEARCH" | "r \<notin> {PAF_ABORT, PAF_SEARCH}" by blast
      then show ?thesis
      proof cases
        case 1
        then show ?thesis
          using Cons.IH [of "m XOR push_bit i 1" r "?ps\<lparr>ps_cb_mask := ps_cb_mask ?ps XOR push_bit i 1\<rparr>" flags']
            Cons.prems True Some cb xor by simp
      next
        case 2
        then show ?thesis
          using Cons.IH [of "m XOR push_bit i 1" r ?ps flags'] Cons.prems True Some cb xor by simp
      next
        case 3
        have "r \<noteq> PAF_PERFORMED_LMT_FLUSH \<and> (paf_moves r \<longrightarrow> 0 < fpt' \<and> unat fpt' < 2147483648)"
        proof -
          have "cbs ! i \<in> set cbs" using i by simp
          with Cons.prems(3) have "\<forall>u data fl fp eoh st u' fl' fp' eoh'.
              (cbs ! i) u data fl fp eoh = (st, u', fl', fp', eoh') \<longrightarrow>
              st \<noteq> PAF_PERFORMED_LMT_FLUSH \<and> (paf_moves st \<longrightarrow> 0 < fp' \<and> unat fp' < 2147483648)"
            unfolding makes_progress_def by blast
          then show ?thesis using cb by blast
        qed
        then show ?thesis
          using Cons.prems(1) True Some cb 3 by (auto simp: Let_def split: if_splits)
      qed
    qed
  qed
qed simp

lemma callback_advance:
  assumes m: "mask_in (length cbs) (ps_cb_mask ps)" and prog: "makes_progress cbs"
    and cb: "s5_paf_callback cbs s5_len base ps data fl = (True, ps', fl', idx)"
    and base: "base < s5_len" "unat s5_len < 2147483648"
  shows "paf_final (ps_paf ps') \<or> paf_moves (ps_paf ps') \<and> base < ps_fpt ps'"
proof -
  obtain paf ps1 fl1 sel where l: "cb_loop cbs data [0 ..< MAX_CB] (ps_cb_mask ps) PAF_ABORT ps fl = (paf, ps1, fl1, sel)"
    by (metis prod.exhaust)
  show ?thesis
  proof (cases "ps_cb_mask ps1 = 0")
    case True
    then have "ps_paf ps' = PAF_ABORT"
      using cb l by (auto simp: s5_paf_callback_def Let_def split: if_splits)
    then show ?thesis by (simp add: paf_final_def paf_moves_def)
  next
    case False
    then have sel: "sel" using cb l by (auto simp: s5_paf_callback_def Let_def split: if_splits)
    have l1: "cb_loop cbs data [0 ..< MAX_CB] (ps_cb_mask ps) PAF_ABORT ps fl = (paf, ps1, fl1, True)"
      using l sel by simp
    have s: "paf \<noteq> PAF_PERFORMED_LMT_FLUSH" "paf \<notin> {PAF_ABORT, PAF_SEARCH}"
      "paf_moves paf \<Longrightarrow> 0 < ps_fpt ps1" "paf_moves paf \<Longrightarrow> unat (ps_fpt ps1) < 2147483648"
      using cb_loop_select [OF l1 m prog] by simp_all
    have out: "ps_paf ps' = paf" "ps_fpt ps' = ps_fpt ps1 + base"
      using cb l sel s(2) False by (auto simp: s5_paf_callback_def Let_def split: if_splits)
    have "base < ps_fpt ps1 + base" if "paf_moves paf"
    proof -
      have "unat base < 2147483648" using base by (simp add: word_less_nat_alt)
      then have "unat (ps_fpt ps1 + base) = unat (ps_fpt ps1) + unat base"
        using s(4) [OF that] by (simp add: unat_word_ariths)
      then show ?thesis using s(3) [OF that] by (simp add: word_less_nat_alt)
    qed
    then show ?thesis using s(1,2) out by (auto simp: paf_final_def)
  qed
qed

definition paf_pos :: "'u paf_state \<Rightarrow> u32 \<Rightarrow> u32" where
  "paf_pos ps idx =
     (if paf_moves (ps_paf ps) then ps_fpt ps else idx)"

definition paf_measure :: "u32 \<Rightarrow> 'u paf_state \<Rightarrow> u32 \<Rightarrow> nat" where
  "paf_measure s5_len ps idx =
     2 * (unat s5_len - unat (paf_pos ps idx)) + (if ps_paf ps = PAF_DISCARD_START then 1 else 0)"

lemma measure_advance:
  assumes "base < s5_len" "base < ps_fpt ps'" "paf_moves (ps_paf ps')"
  shows "paf_measure s5_len ps' idx < 2 * (unat s5_len - unat base)"
  using assms by (auto simp: paf_measure_def paf_pos_def word_less_nat_alt)

lemma eval_advance:
  assumes inv: "mask_in (length cbs) (ps_cb_mask ps)" and prog: "makes_progress cbs" and len: "unat s5_len < 2147483648"
    and paf: "ps_paf ps \<noteq> PAF_PERFORMED_LMT_FLUSH"
    and ev: "s5_paf_eval pc cbs fuzz s5_len s5_idx ps data fl = (True, ps', fl', idx, FT_NOP)"
  shows "paf_final (ps_paf ps') \<or>
    ps_paf ps' \<noteq> PAF_PERFORMED_LMT_FLUSH \<and> paf_measure s5_len ps' idx < paf_measure s5_len ps s5_idx"
proof -
  have step: "paf_final (ps_paf ps') \<or>
      ps_paf ps' \<noteq> PAF_PERFORMED_LMT_FLUSH \<and> paf_measure s5_len ps' idx < 2 * (unat s5_len - unat base)"
    if "mask_in (length cbs) (ps_cb_mask ps0)" "base < s5_len" "s5_paf_callback cbs s5_len base ps0 d fl = (True, ps', fl', idx)"
    for base ps0 d
    using callback_advance [OF that(1) prog that(3,2) len] measure_advance [OF that(2), of ps']
    by (auto simp: paf_moves_def)
  consider "ps_paf ps = PAF_SEARCH" | "ps_paf ps = PAF_SKIP \<or> ps_paf ps = PAF_PSEUDO_FLUSH_SKIP"
    | "ps_paf ps = PAF_DISCARD_START"
    using ev paf by (cases "ps_paf ps") (auto simp: s5_paf_eval_def split: if_splits)
  then show ?thesis
  proof cases
    case 1
    then have "s5_idx < s5_len" "s5_paf_callback cbs s5_len s5_idx ps data fl = (True, ps', fl', idx)"
      using ev by (auto simp: s5_paf_eval_def split: if_splits prod.splits)
    then show ?thesis using step [OF inv] 1 by (simp add: paf_measure_def [of s5_len ps] paf_pos_def [of ps] paf_moves_def)
  next
    case 2
    then obtain d where "ps_fpt ps < s5_len"
      "s5_paf_callback cbs s5_len (ps_fpt ps) (ps\<lparr>ps_paf := PAF_SKIP\<rparr>) d fl = (True, ps', fl', idx)"
      using ev by (auto simp: s5_paf_eval_def Let_def split: if_splits prod.splits)
    then show ?thesis
      using step [of "ps\<lparr>ps_paf := PAF_SKIP\<rparr>" "ps_fpt ps" d] inv 2
      by (auto simp: paf_measure_def [of s5_len ps] paf_pos_def [of ps] paf_moves_def)
  next
    case 3
    then show ?thesis
      using ev by (auto simp: s5_paf_eval_def paf_measure_def paf_pos_def paf_moves_def split: if_splits)
  qed
qed

lemma loop_returns:
  assumes "makes_progress cbs" "unat s5_len < 2147483648"
  shows "mask_in (length cbs) (ps_cb_mask ps) \<Longrightarrow> ps_paf ps \<noteq> PAF_PERFORMED_LMT_FLUSH \<Longrightarrow>
    \<exists>r. s5_paf_loop pc cbs fuzz s5_len s5_idx ps data fl = Some r"
proof (induction "paf_measure s5_len ps s5_idx" arbitrary: ps s5_idx data fl rule: less_induct)
  case less
  obtain c ps1 fl1 idx ft where ev: "s5_paf_eval pc cbs fuzz s5_len s5_idx ps data fl = (c, ps1, fl1, idx, ft)"
    by (metis prod.exhaust)
  let ?d = "if idx > s5_idx then drop (unat (idx - s5_idx)) data else data"
  have unfold: "s5_paf_loop pc cbs fuzz s5_len s5_idx ps data fl =
      (if ps_paf ps1 = PAF_IGNORE then Some (ps1, fl1, FT_NOP)
       else if ft \<noteq> FT_NOP then Some (ps1, fl1, ft)
       else if \<not> c then Some (ps1, fl1, FT_NOP)
       else s5_paf_loop pc cbs fuzz s5_len idx ps1 ?d fl1)"
    by (subst s5_paf_loop.simps) (simp add: ev)
  show ?case
  proof (cases "c \<and> ft = FT_NOP")
    case False
    then show ?thesis using unfold by auto
  next
    case True
    have inv1: "mask_in (length cbs) (ps_cb_mask ps1)" using eval_mask [OF less.prems(1) ev] by simp
    from True ev have "s5_paf_eval pc cbs fuzz s5_len s5_idx ps data fl = (True, ps1, fl1, idx, FT_NOP)" by simp
    from eval_advance [OF less.prems(1) assms less.prems(2) this] consider
      "paf_final (ps_paf ps1)" | "ps_paf ps1 \<noteq> PAF_PERFORMED_LMT_FLUSH"
      "paf_measure s5_len ps1 idx < paf_measure s5_len ps s5_idx" by blast
    then have "\<exists>r. s5_paf_loop pc cbs fuzz s5_len idx ps1 ?d fl1 = Some r"
    proof cases
      case 1
      then show ?thesis
        by (subst s5_paf_loop.simps, cases "ps_paf ps1")
           (auto simp: s5_paf_eval_def paf_final_def paf_moves_def)
    next
      case 2
      then show ?thesis using less.hyps inv1 by blast
    qed
    then show ?thesis using unfold by auto
  qed
qed

lemma loop_returns_any:
  assumes "makes_progress cbs" "unat s5_len < 2147483648" and inv: "mask_in (length cbs) (ps_cb_mask ps)"
  shows "\<exists>r. s5_paf_loop pc cbs fuzz s5_len s5_idx ps data fl = Some r"
proof (cases "ps_paf ps = PAF_PERFORMED_LMT_FLUSH")
  case False
  then show ?thesis by (rule loop_returns [OF assms])
next
  case True
  let ?ps = "ps\<lparr>ps_paf := PAF_SEARCH, ps_fpt := 0\<rparr>"
  have "\<exists>r. s5_paf_loop pc cbs fuzz s5_len i ?ps d fl = Some r" for i d
    by (rule loop_returns [OF assms(1,2)]) (simp_all add: inv)
  then show ?thesis
    using True by (subst s5_paf_loop.simps) (simp add: s5_paf_eval_def)
qed

section \<open>Properties\<close>

lemma modbus_scan:
  "paf_bytes modbus_step modbus_init (t1 # t2 # p1 # p2 # l1 # l2 # u # rest) 0 =
     ScanFlush (ucast (push_bit 8 (ucast l1) OR ucast l2 :: u16) + 6)
       ((push_bit 8 (ucast l1) OR ucast l2 :: u16) < 2 \<or> (push_bit 8 (ucast l1) OR ucast l2 :: u16) > 254)
       modbus_init"
  by (simp add: modbus_step_def modbus_init_def)

lemma flush_nat:
  "unat p = k \<Longrightarrow> n < 4294967296 \<Longrightarrow>
    (if p \<le> (of_nat n :: u32) then p else 0) = (if k \<le> n then of_nat k else 0)"
  by (auto simp: word_le_nat_alt unat_of_nat_u32)

text \<open>
  C8. Modbus over TCP: whatever the segments are, the seven-byte header makes \<open>s5_paf_check\<close>
  flush at six bytes plus the length field, as soon as that many bytes are queued and not
  before.
\<close>

theorem modbus_pdu_flushed:
  fixes ds :: "bytes list"
  assumes "concat ds = t1 # t2 # p1 # p2 # l1 # l2 # u # rest" and "\<forall>d \<in> set ds. d \<noteq> []"
    and "small_queue pc fuzz (length (concat ds))" and "fl AND PKT_PSEUDO_FLUSH = 0"
  shows "\<exists>ps. paf_feed pc [ModbusPaf True] fuzz (s5_paf_setup paf_zero 1) seq 0 fl ds =
    Some (if 6 + (256 * unat l1 + unat l2) \<le> length (concat ds)
          then of_nat (6 + (256 * unat l1 + unat l2)) else 0, ps)"
proof -
  let ?p = "ucast (push_bit 8 (ucast l1) OR ucast l2 :: u16) + 6 :: u32"
  have p: "unat ?p = 6 + (256 * unat l1 + unat l2)" using modbus_length_bytes [of l1 l2] by simp
  have b: "length (concat ds) < 4294967296" using assms(3) by (simp add: small_queue_def)
  have nz: "?p \<noteq> 0" using p by auto
  have sc: "paf_bytes modbus_step modbus_init (concat ds) 0 = ScanFlush ?p
      ((push_bit 8 (ucast l1) OR ucast l2 :: u16) < 2 \<or> (push_bit 8 (ucast l1) OR ucast l2 :: u16) > 254)
      modbus_init"
    unfolding assms(1) by (rule modbus_scan)
  show ?thesis
    using modbus.session_flush [OF sc assms(2,3,4) nz, of seq]
    unfolding flush_nat [OF p b] ModbusPaf_def .
qed

theorem modbus_pdu_flushed_witness:
  "\<exists>ps. paf_feed \<lparr>pc_mfp = 16384, pc_calls = 0, pc_bytes = 0\<rparr> [ModbusPaf True] 100 (s5_paf_setup paf_zero 1) 77 0 0
     [[0, 1, 0], [0, 0, 3, 9], [4, 2]] = Some (9, ps)"
  using modbus_pdu_flushed [of "[[0, 1, 0], [0, 0, 3, 9], [4, 2]]" 0 1 0 0 0 3 9 "[4, 2]"
      "\<lparr>pc_mfp = 16384, pc_calls = 0, pc_bytes = 0\<rparr>" 100 0 77]
  by (simp add: small_queue_def)

lemma dnp3_scan:
  "\<not> l < 5 \<Longrightarrow> paf_bytes dnp3_step dnp3_init (0x05 # 0x64 # l # c # rest) 0 =
     ScanFlush (ucast (dnp3_real_length l) + 3) False
       \<lparr>dn_state = DNP3_START_1, dn_length = l, dn_real = dnp3_real_length l\<rparr>"
  by (simp add: dnp3_step_def dnp3_init_def)

text \<open>
  C26. DNP3: a link frame that begins \<open>0x05 0x64\<close> with length octet \<open>l\<close>, at least five, is
  flushed at its full size, the three octets before the counted ones, the \<open>l\<close> counted ones, and
  two octets of CRC for the header and for every started block of sixteen data octets.
\<close>

theorem dnp3_frame_flushed:
  fixes ds :: "bytes list"
  assumes "concat ds = 0x05 # 0x64 # l # c # rest" and "5 \<le> l" and "\<forall>d \<in> set ds. d \<noteq> []"
    and "small_queue pc fuzz (length (concat ds))" and "fl AND PKT_PSEUDO_FLUSH = 0"
  shows "\<exists>ps. paf_feed pc [DNP3Paf True] fuzz (s5_paf_setup paf_zero 1) seq 0 fl ds =
    Some (if 3 + unat l + 2 * (1 + (unat l - 5 + 15) div 16) \<le> length (concat ds)
          then of_nat (3 + unat l + 2 * (1 + (unat l - 5 + 15) div 16)) else 0, ps)"
proof -
  let ?p = "ucast (dnp3_real_length l) + 3 :: u32"
  have p: "unat ?p = 3 + unat l + 2 * (1 + (unat l - 5 + 15) div 16)" by (rule dnp3_length_nat [OF assms(2)])
  have b: "length (concat ds) < 4294967296" using assms(4) by (simp add: small_queue_def)
  have nz: "?p \<noteq> 0" using p by (metis add_is_0 unat_0 zero_neq_numeral)
  have l: "\<not> l < 5" using assms(2) by (simp add: not_less)
  have sc: "paf_bytes dnp3_step dnp3_init (concat ds) 0 = ScanFlush ?p False
      \<lparr>dn_state = DNP3_START_1, dn_length = l, dn_real = dnp3_real_length l\<rparr>"
    unfolding assms(1) by (rule dnp3_scan [OF l])
  show ?thesis
    using dnp3.session_flush [OF sc assms(3,4,5) nz, of seq]
    unfolding flush_nat [OF p b] DNP3Paf_def .
qed

theorem dnp3_frame_flushed_witness:
  "\<exists>ps. paf_feed \<lparr>pc_mfp = 16384, pc_calls = 0, pc_bytes = 0\<rparr> [DNP3Paf True] 100 (s5_paf_setup paf_zero 1) 5 0 0
     [[0x05], [0x64, 6, 0xC4, 1, 0, 2, 0], [9, 9, 0xC0, 8, 8, 7]] = Some (13, ps)"
  using dnp3_frame_flushed [of "[[0x05], [0x64, 6, 0xC4, 1, 0, 2, 0], [9, 9, 0xC0, 8, 8, 7]]" "6" "0xC4"
      "[1, 0, 2, 0, 9, 9, 0xC0, 8, 8, 7]" "\<lparr>pc_mfp = 16384, pc_calls = 0, pc_bytes = 0\<rparr>" 100 0 5]
  by (simp add: small_queue_def)


section \<open>S7comm-plus\<close>

lemma s7_bytes_pos: "paf_bytes s7_step s bs n = paf_bytes s7_step s bs m"
  by (induction bs arbitrary: s n m) (auto simp: s7_step_def split: scan_step.split s7_paf_state.split)

lemma s7_scan:
  "paf_bytes s7_step s7_init (v # r # l1 # l2 # cl # pt # x # rest) 0 =
     ScanFlush (ucast (push_bit 8 (ucast l1) OR ucast l2 :: u16)) ((push_bit 8 (ucast l1) OR ucast l2 :: u16) < 7) s7_init"
  by (simp add: s7_step_def s7_init_def)

lemma s7_header:
  "length d \<le> 6 \<Longrightarrow> \<exists>s'. paf_bytes s7_step s7_init d 0 = ScanNext s'"
proof -
  assume "length d \<le> 6"
  then consider "d = []" | a where "d = [a]" | a b where "d = [a, b]" | a b c where "d = [a, b, c]"
    | a b c e where "d = [a, b, c, e]" | a b c e f where "d = [a, b, c, e, f]"
    | a b c e f g where "d = [a, b, c, e, f, g]"
    by (fastforce simp: le_Suc_eq numeral_eq_Suc length_Suc_conv)
  then show ?thesis by cases (simp_all add: s7_step_def s7_init_def)
qed

lemma s7_length_bytes:
  "unat (ucast (push_bit 8 (ucast l1) OR ucast l2 :: u16) :: u32) = 256 * unat l1 + unat (l2 :: u8)"
  for l1 :: u8
proof -
  define w where "w = (ucast (push_bit 8 (ucast l1) OR ucast l2 :: u16) :: u32)"
  have "unat (w + 6) = 256 * unat l1 + unat l2 + 6" using modbus_length_bytes [of l1 l2] by (simp add: w_def)
  moreover have "unat w < 65536"
    using unat_u16_bound [of "push_bit 8 (ucast l1) OR ucast l2 :: u16"] unfolding w_def by (simp only: unat_ucast_wider)
  then have "unat (w + 6) = unat w + 6" by (simp add: unat_word_ariths)
  ultimately show ?thesis unfolding w_def [symmetric] by linarith
qed


lemma feed_two:
  assumes d1: "d1 \<noteq> []" "paf_bytes step init d1 0 = ScanNext s1"
    and d2: "d2 \<noteq> []" "paf_bytes step s1 d2 0 = ScanFlush p al s2"
    and sq: "small_queue pc fuzz (length d1 + length d2)" and fl: "fl AND PKT_PSEUDO_FLUSH = 0"
    and p: "q = p + of_nat (length d1)" "q \<noteq> 0"
  shows "\<exists>ps. paf_feed pc [scan_callback step init True] fuzz (s5_paf_setup paf_zero 1) seq 0 fl [d1, d2] =
    Some (if q \<le> of_nat (length d1 + length d2) then q else 0, ps)"
proof -
  let ?cb = "scan_callback step init True"
  have l1: "length d1 < 2147483648" using sq by (simp add: small_queue_def)
  have sq1: "small_queue pc fuzz (0 + length d1)" using small_queue_mono [OF sq] by simp
  obtain pc' ps' where c: "s5_paf_check pc [?cb] 0 (paf_started seq) d1 (of_nat (0 + length d1)) seq fuzz fl = Some (0, pc', ps', fl)"
    "pc_mfp pc' = pc_mfp pc" "paf_at init s1 (seq + of_nat (length d1)) ps'"
    using check_next [OF paf_started_at d1(2,1) sq1 fl] by blast
  have sq2: "small_queue pc' fuzz (length d1 + length d2)" using sq c(2) by (simp add: small_queue_def)
  obtain pc2 ps2 fl2 where c2:
    "s5_paf_check pc' [?cb] 0 ps' d2 (of_nat (length d1 + length d2)) (seq + of_nat (length d1)) fuzz fl =
      Some (if q \<le> of_nat (length d1 + length d2) then q else 0, pc2, ps2, fl2)"
    using check_flush [OF c(3) d2(2,1) sq2 fl p(1,2)] by blast
  show ?thesis unfolding feed_start [OF d1(1) l1 fl] using c(1) c2 by (simp del: of_nat_add)
qed

text \<open>
  C27. S7comm-plus: in one segment the PDU is flushed at its TPKT length.  When the first \<open>k\<close>
  bytes of the seven-byte header come in a segment of their own the flush point is \<open>k\<close> bytes too
  far, so the next PDU's first \<open>k\<close> bytes are flushed with this one, or nothing is flushed.
\<close>

theorem s7_flush_by_segment:
  fixes d1 d2 :: bytes
  assumes "d1 @ d2 = v # r # l1 # l2 # cl # pt # x # rest" and "d1 \<noteq> []" and "length d1 \<le> 6"
    and "small_queue pc fuzz (length d1 + length d2)" and "fl AND PKT_PSEUDO_FLUSH = 0"
    and "0 < 256 * unat l1 + unat l2"
  shows "(\<exists>ps. paf_feed pc [S7commplusPaf True] fuzz (s5_paf_setup paf_zero 1) seq 0 fl [d1 @ d2] =
           Some (if 256 * unat l1 + unat l2 \<le> length (d1 @ d2) then of_nat (256 * unat l1 + unat l2) else 0, ps)) \<and>
         (\<exists>ps. paf_feed pc [S7commplusPaf True] fuzz (s5_paf_setup paf_zero 1) seq 0 fl [d1, d2] =
           Some (if length d1 + (256 * unat l1 + unat l2) \<le> length (d1 @ d2)
                 then of_nat (length d1 + (256 * unat l1 + unat l2)) else 0, ps))" (is "?one \<and> ?two")
proof -
  let ?p = "ucast (push_bit 8 (ucast l1) OR ucast l2 :: u16) :: u32"
  define k where "k = 256 * unat l1 + unat l2"
  have p: "unat ?p = k" unfolding k_def by (rule s7_length_bytes)
  have b: "length (d1 @ d2) < 4294967296" "length d1 + length d2 < 2147483648"
    using assms(4) by (simp_all add: small_queue_def)
  have k: "k < 65536" "0 < k"
    using unat_u8_bound [of l1] unat_u8_bound [of l2] assms(6) unfolding k_def by linarith+
  have sc: "\<exists>al s. paf_bytes s7_step s7_init (d1 @ d2) 0 = ScanFlush ?p al s"
    unfolding assms(1) using s7_scan by blast
  then obtain al s where sc1: "paf_bytes s7_step s7_init (d1 @ d2) 0 = ScanFlush ?p al s" by blast
  obtain s1 where n1: "paf_bytes s7_step s7_init d1 0 = ScanNext s1" using s7_header [OF assms(3)] by blast
  have n2: "paf_bytes s7_step s1 d2 0 = ScanFlush ?p al s"
    using sc1 n1 s7_bytes_pos [of s1 d2 0 "of_nat (length d1)"] by (simp add: paf_bytes_append)
  have ne: "d2 \<noteq> []" using n2 by auto
  have ?one
  proof -
    let ?cb = "scan_callback s7_step s7_init True" and ?n = "length (d1 @ d2)"
    have sq: "small_queue pc fuzz (0 + ?n)" using assms(4) by simp
    have nz: "?p \<noteq> 0" using p k(2) by (metis unat_0 less_irrefl)
    have e: "?p = ?p + of_nat 0" by simp
    have d: "d1 @ d2 \<noteq> []" "?n < 2147483648" using assms(2) b by simp_all
    obtain pc' ps' fl' where "s5_paf_check pc [?cb] 0 (paf_started seq) (d1 @ d2) (of_nat (0 + ?n)) seq fuzz fl =
        Some (if ?p \<le> of_nat (0 + ?n) then ?p else 0, pc', ps', fl')"
      using check_flush [OF paf_started_at sc1 d(1) sq assms(5) e nz] by blast
    then show ?thesis
      unfolding S7commplusPaf_def feed_start [OF d assms(5)] k_def [symmetric]
      using flush_nat [OF p b(1)] by (auto simp del: of_nat_add length_append split: if_splits)
  qed
  moreover have ?two
  proof -
    let ?q = "?p + of_nat (length d1)"
    have q: "unat ?q = length d1 + k"
      using p k assms(3) by (simp add: unat_word_ariths unat_of_nat_u32)
    have nz: "?q \<noteq> 0" using q k(2) by (metis unat_0 less_irrefl add_is_0)
    have b2: "length d1 + length d2 < 4294967296" using b by simp
    from feed_two [OF assms(2) n1 ne n2 assms(4,5) refl nz, of seq] show ?thesis
      unfolding S7commplusPaf_def k_def [symmetric] flush_nat [OF q b2] by simp
  qed
  ultimately show ?thesis by blast
qed

theorem s7_flush_by_segment_witness:
  "(\<exists>ps. paf_feed \<lparr>pc_mfp = 16384, pc_calls = 0, pc_bytes = 0\<rparr> [S7commplusPaf True] 100 (s5_paf_setup paf_zero 1) 5 0 0
      [[3, 0, 0] @ [9, 2, 0xF0, 0x80, 7, 7, 3, 0]] = Some (9, ps)) \<and>
   (\<exists>ps. paf_feed \<lparr>pc_mfp = 16384, pc_calls = 0, pc_bytes = 0\<rparr> [S7commplusPaf True] 100 (s5_paf_setup paf_zero 1) 5 0 0
      [[3, 0, 0], [9, 2, 0xF0, 0x80, 7, 7, 3, 0]] = Some (0, ps))"
  using s7_flush_by_segment [of "[3, 0, 0]" "[9, 2, 0xF0, 0x80, 7, 7, 3, 0]" 3 0 0 9 2 "0xF0" "0x80" "[7, 7, 3, 0]"
      "\<lparr>pc_mfp = 16384, pc_calls = 0, pc_bytes = 0\<rparr>" 100 0 5]
  by (simp add: small_queue_def)


section \<open>Bounds, termination, error behaviour\<close>

lemma flush_max_le: "fst (s5_paf_flush FT_MAX n ps fl) \<le> n"
  by (rule flush_le) (simp add: flush_fits_def)

lemma if_case_some:
  "(\<not> b \<Longrightarrow> \<exists>y. x = Some y) \<Longrightarrow>
    \<exists>r. (if b then Some a else case x of None \<Rightarrow> None | Some (p, q, t) \<Rightarrow> Some (f p q t)) = Some r"
  by auto

lemma scan_returns:
  assumes "makes_progress cbs" "mask_in (length cbs) (ps_cb_mask ps)"
    and "unat tot < 2147483648" "unat fuzz < 1073741824"
  shows "\<exists>r. s5_paf_scan pc cbs fuzz tot ps data fl = Some r"
proof -
  have m: "unat (MAXIMUM_PAF_MAX + fuzz) < 2147483648"
    using assms(4) by (simp add: MAXIMUM_PAF_MAX_def unat_word_ariths)
  have "mask_in (length cbs) (ps_cb_mask (ps\<lparr>ps_eoh := 0, ps_seq := q\<rparr>))" for q
    using assms(2) by simp
  then have "\<exists>r. s5_paf_loop pc' cbs fuzz n i (ps\<lparr>ps_eoh := 0, ps_seq := q\<rparr>) d fl = Some r"
    if "n = tot \<or> n = MAXIMUM_PAF_MAX + fuzz" for n pc' i q d
    using loop_returns_any [OF assms(1), of n] that assms(3) m by blast
  then show ?thesis
    unfolding s5_paf_scan_def Let_def by (intro if_case_some) simp
qed

lemma check_returns:
  assumes "makes_progress cbs" and "mask_in (length cbs) (ps_cb_mask ps)"
    and "unat tot < 2147483648" and "unat fuzz < 1073741824"
  shows "\<exists>r. s5_paf_check pc cbs g ps data tot seq fuzz fl = Some r"
proof -
  note s = scan_returns [OF assms(1) _ assms(3,4)]
  show ?thesis
    using s [of ps pc data fl] s [of ps pc "drop (unat (ps_seq ps - seq)) data" fl]
      s [of "ps\<lparr>ps_seq := seq, ps_pos := seq, ps_paf := PAF_SEARCH\<rparr>" pc data fl] assms(2)
    by (auto simp: s5_paf_check_def Let_def split: prod.split)
qed

lemma check_le:
  assumes "s5_paf_check pc cbs g ps data tot seq fuzz fl = Some (r, pc', ps', fl')"
    and "no_eoh cbs" and "mask_in (length cbs) (ps_cb_mask ps)"
    and "unat tot < 2147483648" and "length data \<le> unat tot" and "unat fuzz < 1073741824"
  shows "r \<le> (if s5_paf_initialized ps \<and> fl AND PKT_PSEUDO_FLUSH \<noteq> 0 then g else tot)"
proof -
  have scan: "r \<le> tot"
    if "s5_paf_scan pc cbs fuzz tot ps0 d fl = Some (r, pc', ps', fl')" "ps_cb_mask ps0 = ps_cb_mask ps"
      "length d \<le> length data" for ps0 d
    by (rule scan_le [OF assms(2) _ that(1) assms(4) _ assms(6)]) (use that assms in auto)
  have gap: "tot - of_nat (length data) \<le> tot"
    using assms(4,5) by (simp add: word_le_nat_alt unat_sub_if' unat_of_nat_u32)
  show ?thesis
  proof (cases "s5_paf_initialized ps")
    case False
    then show ?thesis using assms(1) scan [of "ps\<lparr>ps_seq := seq, ps_pos := seq, ps_paf := PAF_SEARCH\<rparr>" data]
      by (simp add: s5_paf_check_def)
  next
    case True
    have "fst (s5_paf_flush FT_PSEUDO_FLUSH g ps fl) \<le> g" by (rule flush_le) (simp add: flush_fits_def)
    then show ?thesis
      using True assms(1) scan [of ps data] scan [of ps "drop (unat (ps_seq ps - seq)) data"]
        flush_max_le [of "tot - of_nat (length data)" "ps\<lparr>ps_fpt := 0\<rparr>" fl] gap
      by (auto simp: s5_paf_check_def Let_def split: if_splits prod.splits)
  qed
qed

text \<open>
  C28. The amount to flush never exceeds the queued bytes.  For callbacks that set no end of header
  point (\<open>no_eoh\<close>: all but the one of HTTP) and move the flush point forward when they ask
  to skip or to discard (\<open>makes_progress\<close>), queues below \<open>2^31\<close> bytes and a fuzz below \<open>2^30\<close>,
  \<open>s5_paf_check\<close> returns, and returns at most \<open>total\<close>, for every state of the session and all
  flags; when a pseudo flush is pending, at most the length that was passed for it.
\<close>

theorem s5_paf_check_bound:
  assumes "no_eoh cbs" and "makes_progress cbs" and "mask_in (length cbs) (ps_cb_mask ps)"
    and "unat tot < 2147483648" and "length data \<le> unat tot" and "unat fuzz < 1073741824"
  shows "\<exists>r pc' ps' fl'. s5_paf_check pc cbs g ps data tot seq fuzz fl = Some (r, pc', ps', fl') \<and>
    r \<le> (if s5_paf_initialized ps \<and> fl AND PKT_PSEUDO_FLUSH \<noteq> 0 then g else tot)"
  using check_returns [OF assms(2,3,4,6), of pc g data seq fl] check_le [OF _ assms(1,3-6), of pc g seq fl] by fast

theorem s5_paf_check_bound_witness:
  "\<exists>r pc' ps' fl'. s5_paf_check \<lparr>pc_mfp = 16384, pc_calls = 0, pc_bytes = 0\<rparr> [ModbusPaf True] 0 (s5_paf_setup paf_zero 1)
      [0, 1, 0, 0, 0, 3, 9, 4, 2, 0] 10 7 100 0 = Some (r, pc', ps', fl') \<and> r \<le> 10"
proof -
  have "no_eoh [ModbusPaf True]"
    by (auto simp: no_eoh_def ModbusPaf_def scan_callback_def split: scan_step.split option.split)
  moreover have "makes_progress [ModbusPaf True]"
    by (auto simp: makes_progress_def paf_moves_def ModbusPaf_def scan_callback_def
        split: scan_step.splits option.splits)
  moreover have "mask_in (length [ModbusPaf True]) (ps_cb_mask (s5_paf_setup (paf_zero :: modbus_paf_data paf_state) 1))"
    by (simp add: mask_in_def s5_paf_setup_def bit_1_iff)
  ultimately show ?thesis
    using s5_paf_check_bound [of "[ModbusPaf True]" "s5_paf_setup paf_zero 1" 10 "[0, 1, 0, 0, 0, 3, 9, 4, 2, 0]" 100
        "\<lparr>pc_mfp = 16384, pc_calls = 0, pc_bytes = 0\<rparr>" 0 7 0] by simp
qed

text \<open>
  C29. \<open>s5_paf_check\<close> returns on every segment and for every state and flags, provided a callback
  that asks to skip or to discard moves the flush point forward, by less than \<open>2^31\<close>, and answers
  no state of the engine's own (\<open>makes_progress\<close>).  The callbacks may set end of header points.
\<close>

theorem s5_paf_check_returns:
  assumes "makes_progress cbs" and "mask_in (length cbs) (ps_cb_mask ps)"
    and "unat tot < 2147483648" and "unat fuzz < 1073741824"
  shows "\<exists>r. s5_paf_check pc cbs g ps data tot seq fuzz fl = Some r"
  by (rule check_returns [OF assms])

text \<open>A callback that answers like the one of HTTP: a POST body of 100 bytes follows the header.\<close>

definition post_paf :: "unit paf_callback" where
  "post_paf u data fl fp eoh = (PAF_FLUSH, u, fl, of_nat (length data) + 100, of_nat (length data))"

theorem s5_paf_check_returns_witness:
  "(\<exists>r. s5_paf_check \<lparr>pc_mfp = 16384, pc_calls = 0, pc_bytes = 0\<rparr> [post_paf] 0 (s5_paf_setup paf_zero 1)
     [80, 79, 83, 84] 4 7 100 0 = Some r) \<and>
   (\<exists>r. s5_paf_check \<lparr>pc_mfp = 16384, pc_calls = 0, pc_bytes = 0\<rparr> [DNP3Paf True] 0 (s5_paf_setup paf_zero 1)
     [0x05, 0x64, 5, 0xC4] 4 7 100 0 = Some r)"
proof
  have m: "mask_in 1 (ps_cb_mask (s5_paf_setup ps 1))" for ps :: "'u paf_state"
    by (simp add: mask_in_def s5_paf_setup_def bit_1_iff)
  have "makes_progress [post_paf]" by (simp add: makes_progress_def paf_moves_def post_paf_def)
  then show "\<exists>r. s5_paf_check \<lparr>pc_mfp = 16384, pc_calls = 0, pc_bytes = 0\<rparr> [post_paf] 0 (s5_paf_setup paf_zero 1)
     [80, 79, 83, 84] 4 7 100 0 = Some r"
    by (rule s5_paf_check_returns) (use m in simp_all)
  have "makes_progress [DNP3Paf True]"
    by (auto simp: makes_progress_def paf_moves_def DNP3Paf_def scan_callback_def
        split: scan_step.splits option.splits)
  then show "\<exists>r. s5_paf_check \<lparr>pc_mfp = 16384, pc_calls = 0, pc_bytes = 0\<rparr> [DNP3Paf True] 0 (s5_paf_setup paf_zero 1)
     [0x05, 0x64, 5, 0xC4] 4 7 100 0 = Some r"
    by (rule s5_paf_check_returns) (use m in simp_all)
qed

text \<open>
  C30. The window between \<open>MAXIMUM_PAF_MAX\<close> and \<open>MAXIMUM_PAF_MAX + fuzz\<close>: when the queue has
  outgrown the configured maximum and its length lies there, the subtraction in the clipping
  wraps, the segment counts as empty, and \<open>s5_paf_check\<close> returns 0 without scanning, although
  the sequence number moves past the segment.
\<close>

theorem s5_paf_scan_window:
  assumes "ps_mode ps = FLUSH_MODE_NORMAL" and "MAXIMUM_PAF_MAX \<le> tot" and "pc_mfp pc + fuzz < tot"
    and "tot < MAXIMUM_PAF_MAX + fuzz" and "unat fuzz < 1073741824" and "length data \<le> unat tot"
  shows "\<exists>pc'. s5_paf_scan pc cbs fuzz tot ps data fl =
    Some (0, pc', ps\<lparr>ps_eoh := 0, ps_seq := ps_seq ps + of_nat (length data)\<rparr>, fl)"
proof -
  have m: "unat (MAXIMUM_PAF_MAX + fuzz) = 63780 + unat fuzz"
    using assms(5) by (simp add: MAXIMUM_PAF_MAX_def unat_word_ariths)
  have t: "unat tot < 63780 + unat fuzz" using assms(4) m by (simp add: word_less_nat_alt)
  have "unat (tot - (MAXIMUM_PAF_MAX + fuzz)) = 4294967296 + unat tot - (63780 + unat fuzz)"
    using t m by (subst unat_sub_if') simp
  moreover have "unat (of_nat (length data) :: u32) = length data"
    using assms(5,6) t by (simp add: unat_of_nat_u32)
  ultimately have "\<not> tot - (MAXIMUM_PAF_MAX + fuzz) < of_nat (length data)"
    using assms(5,6) t by (simp add: word_less_nat_alt)
  then show ?thesis using assms(1-3) by (simp add: s5_paf_scan_def Let_def)
qed

theorem s5_paf_scan_window_witness:
  "\<exists>pc'. s5_paf_scan \<lparr>pc_mfp = 16384, pc_calls = 0, pc_bytes = 0\<rparr> [ModbusPaf True] 1000 64000 (paf_started 5) [1, 2, 3] 0 =
     Some (0, pc', (paf_started 5)\<lparr>ps_eoh := 0, ps_seq := 8\<rparr>, 0)"
  using s5_paf_scan_window [of "paf_started 5" 64000 "\<lparr>pc_mfp = 16384, pc_calls = 0, pc_bytes = 0\<rparr>" 1000 "[1, 2, 3]"
      "[ModbusPaf True]" 0]
  by (simp add: paf_started_def s5_paf_setup_def MAXIMUM_PAF_MAX_def)


section \<open>The registry\<close>

definition registry_inv :: "'c paf_registry \<Rightarrow> bool" where
  \<comment> \<open>at most sixteen different callbacks, and every mask names installed ones\<close>
  "registry_inv rg \<longleftrightarrow>
     length (rg_cb rg) \<le> MAX_CB \<and> distinct (rg_cb rg) \<and> mask_in (length (rg_cb rg)) (rg_global rg) \<and>
     (\<forall>k. mask_in (length (rg_cb rg)) (pm_mask (rg_port rg k)) \<and>
          mask_in (length (rg_cb rg)) (pm_mask (rg_service rg k)))"

lemma mask_in_mono: "mask_in n m \<Longrightarrow> n \<le> k \<Longrightarrow> mask_in k m"
  by (auto simp: mask_in_def)

lemma mask_in_or: "mask_in n m \<Longrightarrow> i < n \<Longrightarrow> mask_in n (m OR push_bit i 1)"
  by (auto simp: mask_in_def bit_or_iff bit_exp_iff)

lemma find_index:
  "find (\<lambda>i. xs ! i = x) [0 ..< length xs] = Some i \<Longrightarrow> i < length xs \<and> xs ! i = x"
  "find (\<lambda>i. xs ! i = x) [0 ..< length xs] = None \<Longrightarrow> x \<notin> set xs"
  by (auto simp: find_Some_iff find_None_iff in_set_conv_nth)

lemma install_callback_spec:
  "install_callback cb cbs = (oi, cbs') \<Longrightarrow> length cbs \<le> MAX_CB \<Longrightarrow> distinct cbs \<Longrightarrow>
    (case oi of
       None \<Rightarrow> cbs' = cbs \<and> length cbs = MAX_CB \<and> cb \<notin> set cbs
     | Some i \<Rightarrow> i < length cbs' \<and> cbs' ! i = cb \<and> length cbs' \<le> MAX_CB \<and> distinct cbs' \<and>
         length cbs \<le> length cbs' \<and> (\<forall>j < length cbs. cbs' ! j = cbs ! j))"
  using find_index [of cbs cb]
  by (auto simp: install_callback_def nth_append split: option.splits if_splits)

lemma bit_or_push: "i < 16 \<Longrightarrow> bit ((m :: u16) OR push_bit i 1) i"
  by (simp add: bit_or_iff bit_exp_iff)

text \<open>Registering a callback for a port or a service keeps the registry well formed, answers
  the callback's number (its index plus one) and puts it into the mask that the session of that
  port or service starts with; numbers given out before stay valid and no other port or service
  changes; the answer is 0 only when sixteen other callbacks are installed, and then nothing changes.
\<close>

theorem s5_paf_register_correct:
  assumes "registry_inv rg"
  shows "(case s5_paf_register_port rg port c2s cb auto_on of (n, rg') \<Rightarrow>
     registry_inv rg' \<and> rg_service rg' = rg_service rg \<and> (\<forall>k. k \<noteq> (port, c2s) \<longrightarrow> rg_port rg' k = rg_port rg k) \<and>
     (\<forall>j < length (rg_cb rg). rg_cb rg' ! j = rg_cb rg ! j) \<and>
     (if n = 0 then length (rg_cb rg) = MAX_CB \<and> cb \<notin> set (rg_cb rg) \<and> rg' = rg
      else n \<le> length (rg_cb rg') \<and> rg_cb rg' ! (n - 1) = cb \<and> bit (s5_paf_port_registration rg' port c2s True) (n - 1))) \<and>
   (case s5_paf_register_service rg service c2s cb auto_on of (n, rg') \<Rightarrow>
     registry_inv rg' \<and> rg_port rg' = rg_port rg \<and> (\<forall>k. k \<noteq> (service, c2s) \<longrightarrow> rg_service rg' k = rg_service rg k) \<and>
     (\<forall>j < length (rg_cb rg). rg_cb rg' ! j = rg_cb rg ! j) \<and>
     (if n = 0 then length (rg_cb rg) = MAX_CB \<and> cb \<notin> set (rg_cb rg) \<and> rg' = rg
      else n \<le> length (rg_cb rg') \<and> rg_cb rg' ! (n - 1) = cb \<and>
           bit (s5_paf_service_registration rg' service c2s True) (n - 1) \<and> bit (rg_global rg') (n - 1)))"
    (is "?port \<and> ?service")
proof -
  obtain oi cbs where i: "install_callback cb (rg_cb rg) = (oi, cbs)" by (cases "install_callback cb (rg_cb rg)")
  have sp: "case oi of
       None \<Rightarrow> cbs = rg_cb rg \<and> length (rg_cb rg) = MAX_CB \<and> cb \<notin> set (rg_cb rg)
     | Some i \<Rightarrow> i < length cbs \<and> cbs ! i = cb \<and> length cbs \<le> MAX_CB \<and> distinct cbs \<and>
         length (rg_cb rg) \<le> length cbs \<and> (\<forall>j < length (rg_cb rg). cbs ! j = rg_cb rg ! j)"
    using install_callback_spec [OF i] assms by (simp add: registry_inv_def)
  show ?thesis
  proof (cases oi)
    case None
    then show ?thesis
      using i sp assms by (auto simp: s5_paf_register_port_def s5_paf_register_service_def)
  next
    case (Some x)
    then have x: "x < length cbs" "cbs ! x = cb" "length cbs \<le> 16" "distinct cbs" "length (rg_cb rg) \<le> length cbs"
      "\<forall>j < length (rg_cb rg). cbs ! j = rg_cb rg ! j"
      using sp by (simp_all add: MAX_CB_def)
    have b: "bit (m OR push_bit x 1) x" "m OR push_bit x 1 \<noteq> 0" for m :: u16
      using bit_or_push [of x m] x(1,3) by auto
    have mono: "mask_in (length cbs) m" "mask_in (length cbs) (m OR push_bit x 1)"
      if "mask_in (length (rg_cb rg)) m" for m
      using mask_in_mono [OF that x(5)] mask_in_or [OF _ x(1)] by blast+
    have inv: "mask_in (length cbs) (pm_mask (rg_port rg k))" "mask_in (length cbs) (pm_mask (rg_service rg k))"
      "mask_in (length cbs) (pm_mask (rg_port rg k) OR push_bit x 1)"
      "mask_in (length cbs) (pm_mask (rg_service rg k) OR push_bit x 1)"
      "mask_in (length cbs) (rg_global rg)" "mask_in (length cbs) (rg_global rg OR push_bit x 1)" for k
      using assms mono unfolding registry_inv_def by blast+
    have "?port"
      using i Some x b inv
      by (simp add: s5_paf_register_port_def s5_paf_port_registration_def map_add_cb_def registry_inv_def MAX_CB_def Let_def)
    moreover have "?service"
      using i Some x b inv
      by (simp add: s5_paf_register_service_def s5_paf_service_registration_def map_add_cb_def registry_inv_def
          MAX_CB_def Let_def)
    ultimately show ?thesis ..
  qed
qed

theorem s5_paf_register_correct_witness:
  "bit (s5_paf_port_registration
     (snd (s5_paf_register_port \<lparr>rg_cb = [3 :: nat, 5], rg_global = 0, rg_port = \<lambda>_. \<lparr>pm_mask = 0, pm_auto = False\<rparr>,
        rg_service = \<lambda>_. \<lparr>pm_mask = 0, pm_auto = False\<rparr>\<rparr> 502 True 7 False)) 502 True True) 2"
proof -
  let ?rg = "\<lparr>rg_cb = [3 :: nat, 5], rg_global = 0, rg_port = \<lambda>_. \<lparr>pm_mask = 0, pm_auto = False\<rparr>,
        rg_service = \<lambda>_. \<lparr>pm_mask = 0, pm_auto = False\<rparr>\<rparr>"
  have inv: "registry_inv ?rg" by (simp add: registry_inv_def mask_in_def MAX_CB_def)
  have n: "fst (s5_paf_register_port ?rg 502 True 7 False) = 3"
    by (simp add: s5_paf_register_port_def install_callback_def MAX_CB_def upt_rec)
  obtain rg' where r: "s5_paf_register_port ?rg 502 True 7 False = (3, rg')"
    using n by (cases "s5_paf_register_port ?rg 502 True 7 False") auto
  show ?thesis using s5_paf_register_correct [OF inv, of 502 True 7 False 0] unfolding r by simp
qed

end
