(* ===== verification/Acsm.thy ===== *)
theory Acsm
  imports Prelude
begin

text \<open>
  The Aho-Corasick matcher, \<open>sfutil/acsmx.c\<close>: patterns are collected, compiled into a trie,
  given failure links (\<open>Build_NFA\<close>) and made deterministic (\<open>Convert_NFA_To_DFA\<close>); a text is
  then searched one byte at a time.

  \<open>ACSM_FAIL_STATE\<close> (-1) is \<open>None\<close>.  The state table is a function of the state number; the
  entries the code uses are those below \<open>acsmMaxStates\<close>.  Whether the block it allocates has
  room for them is not part of the table: \<open>state_table_alloc\<close> is the size of that block, and
  \<open>acsmCompile_safe\<close> relates the two.  Before compilation the code has no table; the
  model has one that is overwritten.  A pattern's \<open>n\<close> is the length
  of \<open>patrn\<close>, its \<open>udata->id\<close> is \<open>pat_id\<close>, a null pointer is \<open>None\<close>.  The answer \<open>None\<close> of a
  function means that the code reads the table at index -1, overruns the case buffer, or does
  not return.  The reference counts, which only serve \<open>acsmFree\<close>, are left out.
\<close>

record ('i, 't, 'n) acsm_pattern =
  patrn :: bytes
  casepatrn :: bytes
  nocase :: bool
  pat_offset :: int
  pat_depth :: int
  negative :: bool
  pat_id :: "'i option"
  pat_iid :: int
  rule_option_tree :: "'t option"
  neg_list :: "'n option"

record ('i, 't, 'n) acsm_statetable =
  NextState :: "u8 \<Rightarrow> nat option"
  FailState :: nat
  MatchList :: "('i, 't, 'n) acsm_pattern list"

type_synonym ('i, 't, 'n) acsm_table = "nat \<Rightarrow> ('i, 't, 'n) acsm_statetable"

record ('i, 't, 'n) acsm_struct =
  acsmMaxStates :: nat
  acsmNumStates :: nat
  acsmPatterns :: "('i, 't, 'n) acsm_pattern list"
  acsmStateTable :: "('i, 't, 'n) acsm_table"
  numPatterns :: nat

section \<open>Loops\<close>

text \<open>A \<open>for\<close> loop whose body may fail, and the \<open>while\<close> loop over the queue.\<close>

primrec fold_opt :: "('b \<Rightarrow> 'a \<Rightarrow> 'a option) \<Rightarrow> 'b list \<Rightarrow> 'a \<Rightarrow> 'a option" where
  "fold_opt f [] a = Some a"
| "fold_opt f (x # xs) a = (case f x a of None \<Rightarrow> None | Some a' \<Rightarrow> fold_opt f xs a')"

partial_function (option) queue_loop ::
    "(nat \<Rightarrow> 'a \<times> nat list \<Rightarrow> ('a \<times> nat list) option) \<Rightarrow> 'a \<Rightarrow> nat list \<Rightarrow> 'a option" where
  "queue_loop body a queue =
     (case queue of
        [] \<Rightarrow> Some a
      | r # rest \<Rightarrow> (case body r (a, rest) of None \<Rightarrow> None | Some (a', queue') \<Rightarrow> queue_loop body a' queue'))"

definition queue_add :: "nat list \<Rightarrow> nat \<Rightarrow> nat list" where
  "queue_add q s = q @ [s]"

definition alphabet :: "u8 list" where
  "alphabet = map of_nat [0 ..< 256]"

section \<open>Case translation\<close>

definition xlatcase :: "u8 \<Rightarrow> u8" where
  "xlatcase c = (if 0x61 \<le> c \<and> c \<le> 0x7A then c - 32 else c)"

definition ConvertCaseEx :: "bytes \<Rightarrow> bytes" where
  "ConvertCaseEx s = map xlatcase s"

section \<open>Patterns\<close>

definition acsmNew :: "('i, 't, 'n) acsm_struct" where
  "acsmNew = \<lparr>acsmMaxStates = 0, acsmNumStates = 0, acsmPatterns = [],
     acsmStateTable = (\<lambda>_. \<lparr>NextState = (\<lambda>_. Some 0), FailState = 0, MatchList = []\<rparr>), numPatterns = 0\<rparr>"

definition acsmAddPattern ::
    "('i, 't, 'n) acsm_struct \<Rightarrow> bytes \<Rightarrow> bool \<Rightarrow> int \<Rightarrow> int \<Rightarrow> bool \<Rightarrow> 'i option \<Rightarrow> int \<Rightarrow> ('i, 't, 'n) acsm_struct" where
  "acsmAddPattern p pat nc offset depth neg udata_id i =
     p\<lparr>acsmPatterns :=
         \<lparr>patrn = ConvertCaseEx pat, casepatrn = pat, nocase = nc, pat_offset = offset, pat_depth = depth,
          negative = neg, pat_id = udata_id, pat_iid = i, rule_option_tree = None, neg_list = None\<rparr> # acsmPatterns p,
       numPatterns := numPatterns p + 1\<rparr>"

definition acsmPatternCount :: "('i, 't, 'n) acsm_struct \<Rightarrow> nat" where
  "acsmPatternCount a = numPatterns a"

section \<open>The trie\<close>

definition AddMatchListEntry ::
    "('i, 't, 'n) acsm_struct \<Rightarrow> nat \<Rightarrow> ('i, 't, 'n) acsm_pattern \<Rightarrow> ('i, 't, 'n) acsm_struct" where
  "AddMatchListEntry a s px =
     (let t = acsmStateTable a in
      a\<lparr>acsmStateTable := t(s := (t s)\<lparr>MatchList := px # MatchList (t s)\<rparr>)\<rparr>)"

fun match_states :: "('i, 't, 'n) acsm_table \<Rightarrow> nat \<Rightarrow> bytes \<Rightarrow> nat \<times> bytes" where
  \<comment> \<open>match up the pattern with existing states\<close>
  "match_states t s [] = (s, [])"
| "match_states t s (c # p) =
     (case NextState (t s) c of None \<Rightarrow> (s, c # p) | Some n \<Rightarrow> match_states t n p)"

fun new_states :: "('i, 't, 'n) acsm_struct \<Rightarrow> nat \<Rightarrow> bytes \<Rightarrow> ('i, 't, 'n) acsm_struct \<times> nat" where
  \<comment> \<open>one new state per remaining byte\<close>
  "new_states a s [] = (a, s)"
| "new_states a s (c # p) =
     (let n = acsmNumStates a + 1;
          t = acsmStateTable a
      in new_states
           (a\<lparr>acsmNumStates := n, acsmStateTable := t(s := (t s)\<lparr>NextState := (NextState (t s))(c := Some n)\<rparr>)\<rparr>) n p)"

definition AddPatternStates ::
    "('i, 't, 'n) acsm_struct \<Rightarrow> ('i, 't, 'n) acsm_pattern \<Rightarrow> ('i, 't, 'n) acsm_struct" where
  "AddPatternStates a p =
     (case match_states (acsmStateTable a) 0 (patrn p) of
        (s, rest) \<Rightarrow> (case new_states a s rest of (a', s') \<Rightarrow> AddMatchListEntry a' s' p))"

section \<open>Failure links\<close>

partial_function (option) valid_next :: "('i, 't, 'n) acsm_table \<Rightarrow> nat \<Rightarrow> u8 \<Rightarrow> nat option" where
  \<comment> \<open>locate the next valid state for a byte, from \<open>fs\<close> along the failure links\<close>
  "valid_next t fs c =
     (case NextState (t fs) c of Some n \<Rightarrow> Some n | None \<Rightarrow> valid_next t (FailState (t fs)) c)"

definition nfa_root ::
    "u8 \<Rightarrow> ('i, 't, 'n) acsm_table \<times> nat list \<Rightarrow> (('i, 't, 'n) acsm_table \<times> nat list) option" where
  "nfa_root c tq =
     (case tq of (t, q) \<Rightarrow>
        (case NextState (t 0) c of
           None \<Rightarrow> None
         | Some s \<Rightarrow>
             if s \<noteq> 0 then Some (t(s := (t s)\<lparr>FailState := 0\<rparr>), queue_add q s) else Some (t, q)))"

definition nfa_byte ::
    "nat \<Rightarrow> u8 \<Rightarrow> ('i, 't, 'n) acsm_table \<times> nat list \<Rightarrow> (('i, 't, 'n) acsm_table \<times> nat list) option" where
  "nfa_byte r c tq =
     (case tq of (t, q) \<Rightarrow>
        (case NextState (t r) c of
           None \<Rightarrow> Some (t, q)
         | Some s \<Rightarrow>
             (case valid_next t (FailState (t r)) c of
                None \<Rightarrow> None
              | Some n \<Rightarrow>
                  let t1 = t(s := (t s)\<lparr>FailState := n\<rparr>);
                      ml = fold (#) (MatchList (t1 n)) (MatchList (t1 s))
                  in Some (t1(s := (t1 s)\<lparr>MatchList := ml\<rparr>), queue_add q s))))"

definition Build_NFA :: "('i, 't, 'n) acsm_struct \<Rightarrow> ('i, 't, 'n) acsm_struct option" where
  "Build_NFA a =
     (case fold_opt nfa_root alphabet (acsmStateTable a, []) of
        None \<Rightarrow> None
      | Some (t, q) \<Rightarrow>
          map_option (\<lambda>t'. a\<lparr>acsmStateTable := t'\<rparr>) (queue_loop (\<lambda>r. fold_opt (nfa_byte r) alphabet) t q))"

definition dfa_root ::
    "u8 \<Rightarrow> ('i, 't, 'n) acsm_table \<times> nat list \<Rightarrow> (('i, 't, 'n) acsm_table \<times> nat list) option" where
  "dfa_root c tq =
     (case tq of (t, q) \<Rightarrow>
        (case NextState (t 0) c of
           None \<Rightarrow> None
         | Some s \<Rightarrow> if s \<noteq> 0 then Some (t, queue_add q s) else Some (t, q)))"

definition dfa_byte ::
    "nat \<Rightarrow> u8 \<Rightarrow> ('i, 't, 'n) acsm_table \<times> nat list \<Rightarrow> (('i, 't, 'n) acsm_table \<times> nat list) option" where
  "dfa_byte r c tq =
     (case tq of (t, q) \<Rightarrow>
        (case NextState (t r) c of
           Some s \<Rightarrow> Some (t, queue_add q s)
         | None \<Rightarrow>
             Some (t(r := (t r)\<lparr>NextState := (NextState (t r))(c := NextState (t (FailState (t r))) c)\<rparr>), q)))"

definition Convert_NFA_To_DFA :: "('i, 't, 'n) acsm_struct \<Rightarrow> ('i, 't, 'n) acsm_struct option" where
  "Convert_NFA_To_DFA a =
     (case fold_opt dfa_root alphabet (acsmStateTable a, []) of
        None \<Rightarrow> None
      | Some (t, q) \<Rightarrow>
          map_option (\<lambda>t'. a\<lparr>acsmStateTable := t'\<rparr>) (queue_loop (\<lambda>r. fold_opt (dfa_byte r) alphabet) t q))"

section \<open>Compilation\<close>

definition trie_of :: "('i, 't, 'n) acsm_struct \<Rightarrow> ('i, 't, 'n) acsm_struct" where
  \<comment> \<open>the fresh state table with every pattern added\<close>
  "trie_of a =
     (let a1 = a\<lparr>acsmMaxStates := 1 + sum_list (map (\<lambda>p. length (patrn p)) (acsmPatterns a)),
                 acsmNumStates := 0,
                 acsmStateTable := (\<lambda>_. \<lparr>NextState = (\<lambda>_. None), FailState = 0, MatchList = []\<rparr>)\<rparr>
      in fold (\<lambda>p a. AddPatternStates a p) (acsmPatterns a) a1)"

definition root_total :: "('i, 't, 'n) acsm_struct \<Rightarrow> ('i, 't, 'n) acsm_struct" where
  \<comment> \<open>all failed transitions of state 0 return to it\<close>
  "root_total a =
     (let t = acsmStateTable a in
      a\<lparr>acsmStateTable := t(0 := (t 0)\<lparr>NextState :=
          (\<lambda>c. if NextState (t 0) c = None then Some 0 else NextState (t 0) c)\<rparr>)\<rparr>)"

text \<open>
  \<open>AC_MALLOC\<close> takes an \<open>int\<close>, which \<open>calloc\<close> converts to \<open>size_t\<close>: the size of the block, none
  if the argument is negative (then more than half of the address space is asked for).  The
  operating system is taken to have the memory.  The argument for the state table is
  \<open>sizeof (ACSM_STATETABLE) * acsmMaxStates\<close>, a \<open>size_t\<close>, converted to \<open>int\<close>.
\<close>

definition AC_MALLOC :: "int \<Rightarrow> nat option" where
  "AC_MALLOC n = (if n < 0 then None else Some (nat n))"

definition ACSM_STATETABLE_SIZE :: nat where
  \<comment> \<open>256 transitions and the failure state, \<open>int\<close>s, padding, a pointer\<close>
  "ACSM_STATETABLE_SIZE = 4 * 256 + 4 + 4 + 8"

definition state_table_alloc :: "nat \<Rightarrow> nat option" where
  "state_table_alloc max_states = AC_MALLOC (sint (of_nat (ACSM_STATETABLE_SIZE * max_states) :: 32 word))"

definition acsm_compile :: "('i, 't, 'n) acsm_struct \<Rightarrow> ('i, 't, 'n) acsm_struct option" where
  "acsm_compile a =
     (case Build_NFA (root_total (trie_of a)) of None \<Rightarrow> None | Some a' \<Rightarrow> Convert_NFA_To_DFA a')"

definition head_lists ::
    "('i option \<Rightarrow> 't option \<Rightarrow> 't option) \<Rightarrow> ('i \<Rightarrow> 'n option \<Rightarrow> 'n option) \<Rightarrow>
     ('i, 't, 'n) acsm_pattern list \<Rightarrow> 't option \<times> 'n option \<Rightarrow> 't option \<times> 'n option" where
  \<comment> \<open>the tree and the negated list collected from the patterns of one state\<close>
  "head_lists build_tree neg_list_func ml tn =
     fold (\<lambda>m (t, n).
       (case pat_id m of
          None \<Rightarrow> (t, n)
        | Some i \<Rightarrow> if negative m then (t, neg_list_func i n) else (build_tree (Some i) t, n))) ml tn"

definition state_tree ::
    "('i option \<Rightarrow> 't option \<Rightarrow> 't option) \<Rightarrow> ('i \<Rightarrow> 'n option \<Rightarrow> 'n option) \<Rightarrow>
     ('i, 't, 'n) acsm_pattern list \<Rightarrow> ('i, 't, 'n) acsm_pattern list" where
  "state_tree build_tree neg_list_func ml =
     (case ml of
        [] \<Rightarrow> []
      | h # rest \<Rightarrow>
          (case head_lists build_tree neg_list_func ml (rule_option_tree h, neg_list h) of
             (t, n) \<Rightarrow> h\<lparr>rule_option_tree := build_tree None t, neg_list := n\<rparr> # rest))"

definition tree_step ::
    "('i option \<Rightarrow> 't option \<Rightarrow> 't option) \<Rightarrow> ('i \<Rightarrow> 'n option \<Rightarrow> 'n option) \<Rightarrow> nat \<Rightarrow>
     nat \<times> ('i, 't, 'n) acsm_struct \<Rightarrow> nat \<times> ('i, 't, 'n) acsm_struct" where
  \<comment> \<open>one state of the loop, with the running count\<close>
  "tree_step build_tree neg_list_func i ca =
     (case ca of (cnt, a) \<Rightarrow>
        let t = acsmStateTable a;
            ml = MatchList (t i)
        in (cnt + length ml,
            a\<lparr>acsmStateTable := t(i := (t i)\<lparr>MatchList := state_tree build_tree neg_list_func ml\<rparr>)\<rparr>))"

definition acsmBuildMatchStateTrees ::
    "('i, 't, 'n) acsm_struct \<Rightarrow> ('i option \<Rightarrow> 't option \<Rightarrow> 't option) \<Rightarrow> ('i \<Rightarrow> 'n option \<Rightarrow> 'n option) \<Rightarrow>
     nat \<times> ('i, 't, 'n) acsm_struct" where
  "acsmBuildMatchStateTrees a build_tree neg_list_func =
     fold (tree_step build_tree neg_list_func) [0 ..< acsmMaxStates a] (0, a)"

definition acsmBuildMatchStateTreesWithSnortConf ::
    "'c \<Rightarrow> ('i, 't, 'n) acsm_struct \<Rightarrow> ('c \<Rightarrow> 'i option \<Rightarrow> 't option \<Rightarrow> 't option) \<Rightarrow>
     ('i \<Rightarrow> 'n option \<Rightarrow> 'n option) \<Rightarrow> nat \<times> ('i, 't, 'n) acsm_struct" where
  "acsmBuildMatchStateTreesWithSnortConf sc a build_tree neg_list_func =
     acsmBuildMatchStateTrees a (build_tree sc) neg_list_func"

definition acsmCompile ::
    "('i, 't, 'n) acsm_struct \<Rightarrow> ('i option \<Rightarrow> 't option \<Rightarrow> 't option) option \<Rightarrow>
     ('i \<Rightarrow> 'n option \<Rightarrow> 'n option) option \<Rightarrow> ('i, 't, 'n) acsm_struct option" where
  "acsmCompile a build_tree neg_list_func =
     (case acsm_compile a of
        None \<Rightarrow> None
      | Some a' \<Rightarrow>
          (case (build_tree, neg_list_func) of
             (Some b, Some n) \<Rightarrow> Some (snd (acsmBuildMatchStateTrees a' b n))
           | _ \<Rightarrow> Some a'))"

definition acsmCompileWithSnortConf ::
    "'c \<Rightarrow> ('i, 't, 'n) acsm_struct \<Rightarrow> ('c \<Rightarrow> 'i option \<Rightarrow> 't option \<Rightarrow> 't option) option \<Rightarrow>
     ('i \<Rightarrow> 'n option \<Rightarrow> 'n option) option \<Rightarrow> ('i, 't, 'n) acsm_struct option" where
  "acsmCompileWithSnortConf sc a build_tree neg_list_func =
     (case acsm_compile a of
        None \<Rightarrow> None
      | Some a' \<Rightarrow>
          (case (build_tree, neg_list_func) of
             (Some b, Some n) \<Rightarrow> Some (snd (acsmBuildMatchStateTreesWithSnortConf sc a' b n))
           | _ \<Rightarrow> Some a'))"

section \<open>Search\<close>

text \<open>The caller's \<open>Match\<close>: whether it answers a positive number, and its data afterwards.\<close>

type_synonym ('i, 't, 'n, 'd) acsm_match =
  "'i option \<Rightarrow> 't option \<Rightarrow> int \<Rightarrow> 'd \<Rightarrow> 'n option \<Rightarrow> bool \<times> 'd"

fun search_loop ::
    "('i, 't, 'n) acsm_table \<Rightarrow> ('i, 't, 'n, 'd) acsm_match \<Rightarrow> nat \<Rightarrow> nat \<Rightarrow> bytes \<Rightarrow> nat \<Rightarrow> 'd \<Rightarrow>
     (nat \<times> 'd \<times> nat) option" where
  "search_loop t match state pos [] nfound data = Some (nfound, data, state)"
| "search_loop t match state pos (c # cs) nfound data =
     (case NextState (t state) c of
        None \<Rightarrow> None
      | Some s \<Rightarrow>
          (case MatchList (t s) of
             [] \<Rightarrow> search_loop t match s (pos + 1) cs nfound data
           | m # _ \<Rightarrow>
               (case match (pat_id m) (rule_option_tree m) (int pos - int (length (patrn m)) + 1) data (neg_list m) of
                  (stop, data') \<Rightarrow>
                    if stop then Some (nfound + 1, data', s)
                    else search_loop t match s (pos + 1) cs (nfound + 1) data')))"

definition acsmSearch ::
    "('i, 't, 'n) acsm_struct \<Rightarrow> bytes \<Rightarrow> ('i, 't, 'n, 'd) acsm_match \<Rightarrow> 'd \<Rightarrow> nat option \<Rightarrow>
     (nat \<times> 'd \<times> nat option) option" where
  "acsmSearch a Tx match data current_state =
     (if length Tx > 64 * 1024 then None
      else
        (case current_state of
           None \<Rightarrow> Some (0, data, None)
         | Some s \<Rightarrow>
             map_option (\<lambda>(n, d, s'). (n, d, Some s'))
               (search_loop (acsmStateTable a) match s 0 (ConvertCaseEx Tx) 0 data)))"

end
