(* ===== verification/AcsmTrie.thy ===== *)
theory AcsmTrie
  imports Acsm "HOL-Library.Sublist" "HOL-Library.Multiset"
begin

text \<open>
  The words behind the states of the Aho-Corasick automaton: state \<open>k\<close> stands for the \<open>k\<close>-th
  word of a prefix-closed list, failure links for longest suffixes, and the \<open>while\<close> loop over
  the queue visits the states by increasing depth.
\<close>

section \<open>The longest suffix in a set of words\<close>

primrec lsuf :: "'a list set \<Rightarrow> 'a list \<Rightarrow> 'a list" where
  "lsuf W [] = []"
| "lsuf W (c # v) = (if c # v \<in> W then c # v else lsuf W v)"

lemma lsuf_in: "[] \<in> W \<Longrightarrow> lsuf W v \<in> W"
  by (induction v) auto

lemma lsuf_suffix: "suffix (lsuf W v) v"
  by (induction v) (auto simp: suffix_Cons)

lemma lsuf_id: "v \<in> W \<Longrightarrow> lsuf W v = v"
  by (cases v) auto

lemma lsuf_greatest: "suffix u v \<Longrightarrow> u \<in> W \<Longrightarrow> suffix u (lsuf W v)"
  by (induction v) (auto simp: suffix_Cons)

lemma lsuf_tl: "v \<notin> W \<Longrightarrow> lsuf W v = lsuf W (tl v)"
  by (cases v) auto

lemma lsuf_length_tl: "w \<noteq> [] \<Longrightarrow> length (lsuf W (tl w)) < length w"
  using suffix_length_le [OF lsuf_suffix [of W "tl w"]] by (cases w) auto

definition pclosed :: "'a list set \<Rightarrow> bool" where
  "pclosed W \<longleftrightarrow> [] \<in> W \<and> (\<forall>w c. w @ [c] \<in> W \<longrightarrow> w \<in> W)"

lemma pclosed_snoc: "pclosed W \<Longrightarrow> w @ [c] \<in> W \<Longrightarrow> w \<in> W"
  unfolding pclosed_def by blast

lemma pclosed_prefix: "pclosed W \<Longrightarrow> w @ v \<in> W \<Longrightarrow> w \<in> W"
  by (induction v rule: rev_induct) (auto simp: pclosed_def simp flip: append_assoc)

lemma suffix_snoc_inv: "suffix u (v @ [c]) \<Longrightarrow> u \<noteq> [] \<Longrightarrow> \<exists>u'. u = u' @ [c] \<and> suffix u' v"
  by (cases u rule: rev_cases) auto

lemma suffix_same_length: "suffix u v \<Longrightarrow> suffix u' v \<Longrightarrow> length u = length u' \<Longrightarrow> u = u'"
  by (metis suffix_length_suffix suffix_order.antisym order_refl)

lemma lsuf_snoc:
  assumes "pclosed W"
  shows "lsuf W (lsuf W v @ [c]) = lsuf W (v @ [c])"
proof (rule suffix_same_length [of _ "v @ [c]"])
  let ?a = "lsuf W (lsuf W v @ [c])" and ?b = "lsuf W (v @ [c])"
  have emp: "[] \<in> W" using assms by (simp add: pclosed_def)
  have "suffix (lsuf W v @ [c]) (v @ [c])" using lsuf_suffix by auto
  with lsuf_suffix [of W "lsuf W v @ [c]"] show a: "suffix ?a (v @ [c])" by (rule suffix_order.trans)
  show b: "suffix ?b (v @ [c])" by (rule lsuf_suffix)
  have "suffix ?a ?b" by (rule lsuf_greatest [OF a lsuf_in [OF emp]])
  moreover have "suffix ?b ?a"
  proof (cases "?b = []")
    case False
    then obtain u where u: "?b = u @ [c]" "suffix u v" using suffix_snoc_inv [OF b] by blast
    have "u \<in> W" using lsuf_in [OF emp, of "v @ [c]"] u(1) assms by (auto simp: pclosed_def)
    then have "suffix u (lsuf W v)" by (rule lsuf_greatest [OF u(2)])
    then have "suffix ?b (lsuf W v @ [c])" using u(1) by simp
    then show ?thesis using lsuf_in [OF emp] by (rule lsuf_greatest)
  qed simp
  ultimately show "length ?a = length ?b" by (metis suffix_length_le order_antisym)
qed

section \<open>Breadth first\<close>

text \<open>
  A forest of states: the children of 0 are \<open>roots\<close>, each state of \<open>S\<close> has one parent, and
  depth grows by one from parent to child.
\<close>

definition bfs_tree :: "nat set \<Rightarrow> (nat \<Rightarrow> nat) \<Rightarrow> (nat \<Rightarrow> nat) \<Rightarrow> (nat \<Rightarrow> nat list) \<Rightarrow> bool" where
  "bfs_tree S parent depth children \<longleftrightarrow>
     finite S \<and> 0 \<notin> S \<and> depth 0 = 0 \<and>
     (\<forall>s \<in> S. (parent s = 0 \<or> parent s \<in> S) \<and> depth s = depth (parent s) + 1) \<and>
     (\<forall>r. distinct (children r) \<and> (r = 0 \<or> r \<in> S \<longrightarrow> set (children r) = {s \<in> S. parent s = r}))"

lemma bfs_treeD:
  assumes "bfs_tree S parent depth children"
  shows "finite S" "0 \<notin> S" "s \<in> S \<Longrightarrow> parent s = 0 \<or> parent s \<in> S" "s \<in> S \<Longrightarrow> depth s = depth (parent s) + 1"
    "depth 0 = 0" "distinct (children r)" "r = 0 \<or> r \<in> S \<Longrightarrow> set (children r) = {s \<in> S. parent s = r}"
  using assms unfolding bfs_tree_def by auto

definition bfs_front :: "nat set \<Rightarrow> (nat \<Rightarrow> nat) \<Rightarrow> (nat \<Rightarrow> nat) \<Rightarrow> nat set \<Rightarrow> nat list \<Rightarrow> bool" where
  \<comment> \<open>the queue holds the unvisited children of the visited states, by increasing depth\<close>
  "bfs_front S parent depth V q \<longleftrightarrow>
     V \<subseteq> S \<and> (\<forall>s \<in> V. parent s \<in> insert 0 V) \<and> distinct q \<and> set q = {s \<in> S. parent s \<in> insert 0 V} - V \<and>
     sorted (map depth q) \<and> (\<forall>s \<in> set q. depth s \<le> depth (hd q) + 1)"

lemma front_visited:
  assumes t: "bfs_tree S parent depth children" and f: "bfs_front S parent depth V (r # q)"
  shows "s \<in> S \<Longrightarrow> depth s < depth r \<Longrightarrow> s \<in> V"
proof (induction "depth s" arbitrary: s rule: less_induct)
  case less
  have p: "parent s = 0 \<or> parent s \<in> S" "depth s = depth (parent s) + 1"
    using bfs_treeD(3,4) [OF t less.prems(1)] by blast+
  have "parent s \<in> insert 0 V" using p less by auto
  then have "s \<in> set (r # q) \<or> s \<in> V" using f less.prems(1) unfolding bfs_front_def by blast
  moreover have "depth r \<le> depth s" if "s \<in> set (r # q)"
    using f that unfolding bfs_front_def by auto
  ultimately show ?case using less.prems(2) by (meson not_le)
qed

lemma sorted_const: "\<forall>x \<in> set xs. f x = (k :: nat) \<Longrightarrow> sorted (map f xs)"
  by (induction xs) auto

lemma front_step:
  assumes t: "bfs_tree S parent depth children" and f: "bfs_front S parent depth V (r # q)"
  shows "bfs_front S parent depth (insert r V) (q @ children r)"
proof -
  have f': "V \<subseteq> S" "\<forall>s \<in> V. parent s \<in> insert 0 V" "distinct (r # q)"
    "set (r # q) = {s \<in> S. parent s \<in> insert 0 V} - V" "sorted (map depth (r # q))"
    "\<forall>s \<in> set (r # q). depth s \<le> depth r + 1"
    using f unfolding bfs_front_def list.sel(1) by blast+
  have "r \<in> set (r # q)" by simp
  then have r: "r \<in> S" "r \<notin> V" "r \<notin> set q" using f'(3) unfolding f'(4) by auto
  have r0: "r \<noteq> 0" using r(1) bfs_treeD(2) [OF t] by (metis)
  have ch: "set (children r) = {s \<in> S. parent s = r}" "distinct (children r)"
    using bfs_treeD(7) [OF t] bfs_treeD(6) [OF t] r(1) by blast+
  have d: "depth s = depth r + 1" if "s \<in> set (children r)" for s
    using bfs_treeD(4) [OF t, of s] that ch(1) by auto
  have q: "distinct q" "sorted (map depth q)" "\<forall>s \<in> set q. depth r \<le> depth s \<and> depth s \<le> depth r + 1"
    using f'(3,5,6) by auto
  note sq = f'(4)
  have par: "parent s \<noteq> r" if "s \<in> V \<or> s \<in> set (r # q)" for s
  proof -
    have "parent s \<in> insert 0 V" using that f'(2) sq by blast
    then show ?thesis using r(2) r0 by auto
  qed
  have disj: "set q \<inter> set (children r) = {}" using par ch(1) by auto
  have in_s: "s \<in> S \<and> parent s \<in> insert 0 (insert r V) \<and> s \<notin> insert r V"
    if "s \<in> set q \<union> set (children r)" for s
  proof (cases "s \<in> set q")
    case True
    then have "s \<in> set (r # q)" by simp
    then show ?thesis using True r(3) unfolding sq by blast
  next
    case False
    then show ?thesis using that ch(1) par [of s] by auto
  qed
  have "s \<in> set q \<union> set (children r)"
    if "s \<in> S" "parent s \<in> insert 0 (insert r V)" "s \<notin> insert r V" for s
  proof (cases "parent s = r")
    case False
    then have "s \<in> set (r # q)" using that unfolding sq by blast
    then show ?thesis using that(3) by simp
  qed (use that(1) ch(1) in blast)
  with in_s have front: "set (q @ children r) = {s \<in> S. parent s \<in> insert 0 (insert r V)} - insert r V"
    unfolding set_append by blast
  have "sorted (map depth (children r))" using d by (intro sorted_const) blast
  then have sorted: "sorted (map depth (q @ children r))" using q d by (simp add: sorted_append)
  have near: "\<forall>s \<in> set (q @ children r). depth s \<le> depth (hd (q @ children r)) + 1"
  proof
    fix s assume s: "s \<in> set (q @ children r)"
    have rng: "depth r \<le> depth x \<and> depth x \<le> depth r + 1" if "x \<in> set (q @ children r)" for x
      using that q(3) d [of x] by (auto simp del: One_nat_def)
    have "hd (q @ children r) \<in> set (q @ children r)" using s by (cases "q @ children r") simp_all
    then show "depth s \<le> depth (hd (q @ children r)) + 1" using rng [OF s] rng by (meson add_le_mono1 order.trans)
  qed
  have closed: "\<forall>s \<in> insert r V. parent s \<in> insert 0 (insert r V)"
  proof
    fix s assume "s \<in> insert r V"
    have "parent r \<in> insert 0 V" using \<open>r \<in> set (r # q)\<close> unfolding sq by simp
    then have "parent s \<in> insert 0 V" using f'(2) \<open>s \<in> insert r V\<close> by auto
    then show "parent s \<in> insert 0 (insert r V)" by blast
  qed
  show ?thesis
    unfolding bfs_front_def using front sorted near closed f'(1) r(1) q(1) ch(2) disj by simp
qed

lemma queue_loop_bfs:
  assumes t: "bfs_tree S parent depth children" and init: "Inv {} a"
    and step: "\<And>V r a q. V \<subseteq> S \<Longrightarrow> Inv V a \<Longrightarrow> r \<in> S \<Longrightarrow> r \<notin> V \<Longrightarrow> (\<And>s. s \<in> S \<Longrightarrow> depth s < depth r \<Longrightarrow> s \<in> V) \<Longrightarrow>
      \<exists>a'. body r (a, q) = Some (a', q @ children r) \<and> Inv (insert r V) a'"
  shows "\<exists>a'. queue_loop body a (children 0) = Some a' \<and> Inv S a'"
proof -
  have "\<exists>a'. queue_loop body a q = Some a' \<and> Inv S a'"
    if "bfs_front S parent depth V q" "Inv V a" for V q a
    using that
  proof (induction "card (S - V)" arbitrary: V q a rule: less_induct)
    case less
    have fin: "finite S" using t by (simp add: bfs_tree_def)
    show ?case
    proof (cases q)
      case Nil
      have "s \<in> V" if "s \<in> S" for s
        using that
      proof (induction "depth s" arbitrary: s rule: less_induct)
        case (less s)
        have "parent s = 0 \<or> parent s \<in> S" "depth s = depth (parent s) + 1"
          using bfs_treeD(3,4) [OF t less.prems] by blast+
        then have "parent s \<in> insert 0 V" using less.hyps by auto
        then show ?case using \<open>bfs_front S parent depth V q\<close> Nil less.prems unfolding bfs_front_def by auto
      qed
      then have "V = S" using less.prems(1) unfolding bfs_front_def by auto
      then show ?thesis using less.prems(2) Nil by (subst queue_loop.simps) simp
    next
      case (Cons r q')
      note f = less.prems(1) [unfolded Cons]
      have r: "r \<in> S" "r \<notin> V" "V \<subseteq> S" using f unfolding bfs_front_def by auto
      obtain a' where a': "body r (a, q') = Some (a', q' @ children r)" "Inv (insert r V) a'"
        using step [OF r(3) less.prems(2) r(1,2) front_visited [OF t f]] by blast
      have "card (S - insert r V) < card (S - V)" using r fin by (intro psubset_card_mono) auto
      from less.hyps [OF this front_step [OF t f] a'(2)] show ?thesis
        using Cons a'(1) by (subst queue_loop.simps) simp
    qed
  qed
  moreover have "bfs_front S parent depth {} (children 0)"
  proof -
    have ch: "set (children 0) = {s \<in> S. parent s = 0}" "distinct (children 0)"
      using bfs_treeD(7) [OF t, of 0] bfs_treeD(6) [OF t] by simp_all
    have d: "depth s = 1" if "s \<in> set (children 0)" for s
      using bfs_treeD(4) [OF t, of s] bfs_treeD(5) [OF t] that unfolding ch(1) by auto
    have "sorted (map depth (children 0))" using d by (intro sorted_const) blast
    moreover have "\<forall>s \<in> set (children 0). depth s \<le> depth (hd (children 0)) + 1" using d by auto
    ultimately show ?thesis unfolding bfs_front_def using ch by simp
  qed
  ultimately show ?thesis using init by blast
qed

end
