(* ===== verification/AcsmBuild.thy ===== *)
theory AcsmBuild
  imports AcsmTrie
begin

text \<open>
  Building the Aho-Corasick automaton: the trie of the patterns, the failure links of
  \<open>Build_NFA\<close> and the transitions of \<open>Convert_NFA_To_DFA\<close>.
\<close>


section \<open>The states of the trie\<close>

definition trie_ok :: "('i, 't, 'n) acsm_struct \<Rightarrow> bytes list \<Rightarrow> bool" where
  \<comment> \<open>state \<open>k\<close> stands for the word \<open>ws ! k\<close>\<close>
  "trie_ok a ws \<longleftrightarrow>
     acsmNumStates a + 1 = length ws \<and> ws ! 0 = [] \<and> distinct ws \<and> pclosed (set ws) \<and>
     (\<forall>s < length ws. \<forall>c t. NextState (acsmStateTable a s) c = Some t \<longleftrightarrow> t < length ws \<and> ws ! t = ws ! s @ [c]) \<and>
     (\<forall>s \<ge> length ws. acsmStateTable a s = \<lparr>NextState = (\<lambda>_. None), FailState = 0, MatchList = []\<rparr>)"

lemma trie_okD:
  assumes "trie_ok a ws"
  shows "acsmNumStates a + 1 = length ws" "0 < length ws" "ws ! 0 = []" "distinct ws" "pclosed (set ws)"
    "s < length ws \<Longrightarrow> NextState (acsmStateTable a s) c = Some t \<longleftrightarrow> t < length ws \<and> ws ! t = ws ! s @ [c]"
    "length ws \<le> s \<Longrightarrow> acsmStateTable a s = \<lparr>NextState = (\<lambda>_. None), FailState = 0, MatchList = []\<rparr>"
  using assms unfolding trie_ok_def by auto

lemma trie_next_None:
  "trie_ok a ws \<Longrightarrow> s < length ws \<Longrightarrow> NextState (acsmStateTable a s) c = None \<longleftrightarrow> ws ! s @ [c] \<notin> set ws"
  using trie_okD(6) [of a ws s c] by (metis in_set_conv_nth not_None_eq option.distinct(1))

lemma match_states_spec:
  "trie_ok a ws \<Longrightarrow> s < length ws \<Longrightarrow> match_states (acsmStateTable a) s p = (s', rest) \<Longrightarrow>
    \<exists>pre. p = pre @ rest \<and> s' < length ws \<and> ws ! s' = ws ! s @ pre \<and> (rest = [] \<or> ws ! s' @ [hd rest] \<notin> set ws)"
proof (induction p arbitrary: s)
  case (Cons c p)
  show ?case
  proof (cases "NextState (acsmStateTable a s) c")
    case None
    then have "ws ! s @ [c] \<notin> set ws" using trie_next_None [OF Cons.prems(1,2)] by blast
    then show ?thesis using Cons.prems(2,3) None by auto
  next
    case (Some n)
    have n: "n < length ws" "ws ! n = ws ! s @ [c]" using trie_okD(6) [OF Cons.prems(1,2)] Some by blast+
    obtain pre where "p = pre @ rest" "s' < length ws" "ws ! s' = ws ! n @ pre"
      "rest = [] \<or> ws ! s' @ [hd rest] \<notin> set ws"
      using Cons.IH [OF Cons.prems(1) n(1)] Cons.prems(3) Some by auto
    then show ?thesis using n(2) by (intro exI [of _ "c # pre"]) simp
  qed
qed simp

lemma trie_ok_new:
  assumes ok: "trie_ok a ws" and s: "s < length ws" and new: "ws ! s @ [c] \<notin> set ws"
  defines "t \<equiv> acsmStateTable a"
  shows "trie_ok (a\<lparr>acsmNumStates := acsmNumStates a + 1,
      acsmStateTable := t(s := (t s)\<lparr>NextState := (NextState (t s))(c := Some (acsmNumStates a + 1))\<rparr>)\<rparr>)
    (ws @ [ws ! s @ [c]])" (is "trie_ok ?a ?ws")
proof -
  note d = trie_okD [OF ok]
  have n: "acsmNumStates a + 1 = length ws" by (rule d(1))
  have closed: "pclosed (set ?ws)"
    using d(5) s by (auto simp: pclosed_def)
  have next_old: "NextState (t r) b = Some x \<longleftrightarrow> x < length ws \<and> ws ! x = ws ! r @ [b]" if "r < length ws" for r b x
    unfolding t_def by (rule d(6) [OF that])
  have word: "?ws ! r = (if r < length ws then ws ! r else ws ! s @ [c])" if "r < length ?ws" for r
    using that by (auto simp: nth_append)
  have no_child: "ws ! x \<noteq> ws ! s @ [c] @ [b]" if "x < length ws" for x b
  proof
    assume "ws ! x = ws ! s @ [c] @ [b]"
    then have "(ws ! s @ [c]) @ [b] \<in> set ws" using nth_mem [OF that] by simp
    then show False using pclosed_snoc [OF d(5)] new by blast
  qed
  have "NextState (acsmStateTable ?a r) b = Some x \<longleftrightarrow> x < length ?ws \<and> ?ws ! x = ?ws ! r @ [b]"
    if r: "r < length ?ws" for r b x
  proof (cases "r < length ws")
    case True
    have i: "ws ! s @ [c] = ws ! r @ [b] \<longleftrightarrow> r = s \<and> b = c"
      using True s d(4) by (auto simp: nth_eq_iff_index_eq)
    show ?thesis
    proof (cases "r = s \<and> b = c")
      case True
      have "ws ! x \<noteq> ws ! s @ [c]" if "x < length ws" for x using nth_mem [OF that] new by metis
      then show ?thesis using n s True by (auto simp: nth_append less_Suc_eq)
    next
      case False
      then have "NextState (acsmStateTable ?a r) b = NextState (t r) b" by auto
      then show ?thesis using next_old [OF True] i False True by (auto simp: nth_append less_Suc_eq)
    qed
  next
    case False
    then have e: "r = length ws" using r by simp
    then have "NextState (acsmStateTable ?a r) b = None" using d(7) [of r] s by (simp add: t_def)
    then show ?thesis using e no_child s by (auto simp: nth_append less_Suc_eq)
  qed
  note next_new = this
  have rest: "acsmStateTable ?a r = \<lparr>NextState = (\<lambda>_. None), FailState = 0, MatchList = []\<rparr>"
    if "length ?ws \<le> r" for r
    using that d(7) [of r] s by (simp add: t_def)
  have "acsmNumStates ?a + 1 = length ?ws" "?ws ! 0 = []" "distinct ?ws"
    using n d(2,3,4) new by (simp_all add: nth_append)
  with next_new rest closed show ?thesis
    unfolding trie_ok_def by blast
qed

lemma new_states_spec:
  "trie_ok a ws \<Longrightarrow> s < length ws \<Longrightarrow> p = [] \<or> ws ! s @ [hd p] \<notin> set ws \<Longrightarrow> new_states a s p = (a', s') \<Longrightarrow>
    \<exists>new. trie_ok a' (ws @ new) \<and> length new = length p \<and> s' < length (ws @ new) \<and> (ws @ new) ! s' = ws ! s @ p \<and>
      set new = {ws ! s @ q |q. q \<noteq> [] \<and> prefix q p} \<and>
      (\<forall>k. MatchList (acsmStateTable a' k) = MatchList (acsmStateTable a k)) \<and>
      acsmMaxStates a' = acsmMaxStates a"
proof (induction p arbitrary: a ws s)
  case Nil
  then show ?case by (intro exI [of _ "[]"]) auto
next
  case (Cons c p)
  let ?t = "acsmStateTable a"
  let ?a = "a\<lparr>acsmNumStates := acsmNumStates a + 1,
      acsmStateTable := ?t(s := (?t s)\<lparr>NextState := (NextState (?t s))(c := Some (acsmNumStates a + 1))\<rparr>)\<rparr>"
  let ?w = "ws ! s @ [c]"
  have new: "?w \<notin> set ws" using Cons.prems(3) by simp
  have ok: "trie_ok ?a (ws @ [?w])" by (rule trie_ok_new [OF Cons.prems(1,2) new])
  have n: "acsmNumStates a + 1 = length ws" by (rule trie_okD(1) [OF Cons.prems(1)])
  then have nw: "acsmNumStates a + 1 < length (ws @ [?w])" "(ws @ [?w]) ! (acsmNumStates a + 1) = ?w" by simp_all
  have "p = [] \<or> (ws @ [?w]) ! (acsmNumStates a + 1) @ [hd p] \<notin> set (ws @ [?w])"
  proof -
    have "?w @ [hd p] \<notin> set ws" using new pclosed_snoc [OF trie_okD(5) [OF Cons.prems(1)]] by blast
    then show ?thesis unfolding nw(2) by simp
  qed
  moreover have "new_states ?a (acsmNumStates a + 1) p = (a', s')" using Cons.prems(4) by (simp add: Let_def)
  ultimately obtain nws where r: "trie_ok a' ((ws @ [?w]) @ nws)" "length nws = length p"
    "s' < length ((ws @ [?w]) @ nws)" "((ws @ [?w]) @ nws) ! s' = ?w @ p"
    "set nws = {?w @ q |q. q \<noteq> [] \<and> prefix q p}"
    "\<forall>k. MatchList (acsmStateTable a' k) = MatchList (acsmStateTable ?a k)" "acsmMaxStates a' = acsmMaxStates ?a"
    using Cons.IH [OF ok nw(1)] unfolding nw(2) by blast
  have "set (?w # nws) = {ws ! s @ q |q. q \<noteq> [] \<and> prefix q (c # p)}"
    using r(5) by (auto simp: prefix_Cons)
  moreover have "\<forall>k. MatchList (acsmStateTable a' k) = MatchList (?t k)" using r(6) by simp
  ultimately show ?case
    using r by (intro exI [of _ "?w # nws"]) simp
qed

lemma add_pattern_spec:
  assumes ok: "trie_ok a ws"
  shows "\<exists>new. trie_ok (AddPatternStates a p) (ws @ new) \<and> length new \<le> length (patrn p) \<and>
    set (ws @ new) = set ws \<union> {q. prefix q (patrn p)} \<and>
    (\<forall>k < length (ws @ new). MatchList (acsmStateTable (AddPatternStates a p) k) =
       (if (ws @ new) ! k = patrn p then p # MatchList (acsmStateTable a k) else MatchList (acsmStateTable a k))) \<and>
    acsmMaxStates (AddPatternStates a p) = acsmMaxStates a"
proof -
  obtain s rest where m: "match_states (acsmStateTable a) 0 (patrn p) = (s, rest)" by fastforce
  obtain pre where pre: "patrn p = pre @ rest" "s < length ws" "ws ! s = pre" "rest = [] \<or> ws ! s @ [hd rest] \<notin> set ws"
    using match_states_spec [OF ok trie_okD(2) [OF ok] m] trie_okD(3) [OF ok] by auto
  obtain a' s' where n: "new_states a s rest = (a', s')" by fastforce
  obtain new where new: "trie_ok a' (ws @ new)" "length new = length rest" "s' < length (ws @ new)"
    "(ws @ new) ! s' = ws ! s @ rest" "set new = {ws ! s @ q |q. q \<noteq> [] \<and> prefix q rest}"
    "\<forall>k. MatchList (acsmStateTable a' k) = MatchList (acsmStateTable a k)" "acsmMaxStates a' = acsmMaxStates a"
    using new_states_spec [OF ok pre(2,4) n] by blast
  have e: "AddPatternStates a p = AddMatchListEntry a' s' p" using m n by (simp add: AddPatternStates_def)
  have w: "(ws @ new) ! s' = patrn p" using new(4) pre by simp
  have ok': "trie_ok (AddMatchListEntry a' s' p) (ws @ new)"
    using new(1,3) unfolding trie_ok_def AddMatchListEntry_def by (auto simp: Let_def)
  have pfx: "q \<in> set ws" if "prefix q pre" for q
    using that pre(2,3) pclosed_prefix [OF trie_okD(5) [OF ok], of q] nth_mem [OF pre(2)] by (auto simp: prefix_def)
  have "set (ws @ new) = set ws \<union> {q. prefix q (patrn p)}"
    using pfx unfolding set_append new(5) pre(1,3) by (auto simp: prefix_append)
  moreover have "\<forall>k < length (ws @ new). MatchList (acsmStateTable (AddMatchListEntry a' s' p) k) =
       (if (ws @ new) ! k = patrn p then p # MatchList (acsmStateTable a k) else MatchList (acsmStateTable a k))"
    using new(3,6) w trie_okD(4) [OF new(1)]
    by (auto simp: AddMatchListEntry_def Let_def nth_eq_iff_index_eq simp flip: w)
  moreover have "length new \<le> length (patrn p)" using new(2) pre(1) by simp
  moreover have "acsmMaxStates (AddMatchListEntry a' s' p) = acsmMaxStates a"
    using new(7) by (simp add: AddMatchListEntry_def Let_def)
  ultimately show ?thesis unfolding e using ok' by (intro exI [of _ new]) simp
qed

definition own :: "('i, 't, 'n) acsm_pattern list \<Rightarrow> bytes \<Rightarrow> ('i, 't, 'n) acsm_pattern list" where
  "own ps w = filter (\<lambda>p. patrn p = w) (rev ps)"

lemma add_patterns_spec:
  "trie_ok a ws \<Longrightarrow> (\<forall>k < length ws. MatchList (acsmStateTable a k) = own ps0 (ws ! k)) \<Longrightarrow>
   (\<And>p. p \<in> set ps0 \<Longrightarrow> patrn p \<in> set ws) \<Longrightarrow>
   \<exists>new. trie_ok (fold (\<lambda>p a. AddPatternStates a p) ps a) (ws @ new) \<and>
     length new \<le> sum_list (map (\<lambda>p. length (patrn p)) ps) \<and>
     set (ws @ new) = set ws \<union> {q. \<exists>p \<in> set ps. prefix q (patrn p)} \<and>
     (\<forall>k < length (ws @ new). MatchList (acsmStateTable (fold (\<lambda>p a. AddPatternStates a p) ps a) k) =
        own (ps0 @ ps) ((ws @ new) ! k)) \<and>
     acsmMaxStates (fold (\<lambda>p a. AddPatternStates a p) ps a) = acsmMaxStates a"
proof (induction ps arbitrary: a ws ps0)
  case Nil
  then show ?case by (intro exI [of _ "[]"]) simp
next
  case (Cons p ps)
  obtain new where new: "trie_ok (AddPatternStates a p) (ws @ new)" "length new \<le> length (patrn p)"
    "set (ws @ new) = set ws \<union> {q. prefix q (patrn p)}"
    "\<forall>k < length (ws @ new). MatchList (acsmStateTable (AddPatternStates a p) k) =
       (if (ws @ new) ! k = patrn p then p # MatchList (acsmStateTable a k) else MatchList (acsmStateTable a k))"
    "acsmMaxStates (AddPatternStates a p) = acsmMaxStates a"
    using add_pattern_spec [OF Cons.prems(1), of p] by blast
  have old: "MatchList (acsmStateTable a k) = own ps0 ((ws @ new) ! k)" if k: "k < length (ws @ new)" for k
  proof (cases "k < length ws")
    case True
    then show ?thesis using Cons.prems(2) by (simp add: nth_append)
  next
    case False
    then have "(ws @ new) ! k \<notin> set ws"
      using trie_okD(4) [OF new(1)] k by (auto simp: nth_append)
    then have "own ps0 ((ws @ new) ! k) = []" using Cons.prems(3) by (fastforce simp: own_def filter_empty_conv)
    then show ?thesis using trie_okD(7) [OF Cons.prems(1), of k] False by simp
  qed
  have ml: "\<forall>k < length (ws @ new). MatchList (acsmStateTable (AddPatternStates a p) k) = own (ps0 @ [p]) ((ws @ new) ! k)"
    using new(4) old by (auto simp: own_def)
  have mem: "patrn p' \<in> set (ws @ new)" if "p' \<in> set (ps0 @ [p])" for p'
    using that Cons.prems(3) unfolding new(3) by auto
  obtain new2 where n2: "trie_ok (fold (\<lambda>p a. AddPatternStates a p) ps (AddPatternStates a p)) ((ws @ new) @ new2)"
    "length new2 \<le> sum_list (map (\<lambda>p. length (patrn p)) ps)"
    "set ((ws @ new) @ new2) = set (ws @ new) \<union> {q. \<exists>p \<in> set ps. prefix q (patrn p)}"
    "\<forall>k < length ((ws @ new) @ new2). MatchList (acsmStateTable (fold (\<lambda>p a. AddPatternStates a p) ps (AddPatternStates a p)) k) =
       own ((ps0 @ [p]) @ ps) (((ws @ new) @ new2) ! k)"
    "acsmMaxStates (fold (\<lambda>p a. AddPatternStates a p) ps (AddPatternStates a p)) = acsmMaxStates (AddPatternStates a p)"
    using Cons.IH [OF new(1) ml mem] by blast
  have "set (ws @ new @ new2) = set ws \<union> {q. \<exists>p' \<in> set (p # ps). prefix q (patrn p')}"
    using n2(3) new(3) by auto
  then show ?case
    using n2 new(2,5) by (intro exI [of _ "new @ new2"]) simp
qed


section \<open>Parents and children\<close>

definition idx :: "bytes list \<Rightarrow> bytes \<Rightarrow> nat" where
  "idx ws w = length (takeWhile (\<lambda>x. x \<noteq> w) ws)"

lemma idx_nth: "w \<in> set ws \<Longrightarrow> idx ws w < length ws \<and> ws ! idx ws w = w"
  by (induction ws) (auto simp: idx_def)

lemma idx_eq: "distinct ws \<Longrightarrow> t < length ws \<Longrightarrow> ws ! t = w \<Longrightarrow> idx ws w = t"
  using idx_nth [of w ws] by (auto simp: nth_eq_iff_index_eq)

definition tnext :: "bytes list \<Rightarrow> nat \<Rightarrow> u8 \<Rightarrow> nat option" where
  "tnext ws s c = (if ws ! s @ [c] \<in> set ws then Some (idx ws (ws ! s @ [c])) else None)"

lemma tnext_Some: "distinct ws \<Longrightarrow> tnext ws s c = Some t \<longleftrightarrow> t < length ws \<and> ws ! t = ws ! s @ [c]"
  unfolding tnext_def using idx_nth [of "ws ! s @ [c]" ws] idx_eq [of ws t "ws ! s @ [c]"]
  by (metis nth_mem option.distinct(1) option.sel)

lemma tnext_None: "tnext ws s c = None \<longleftrightarrow> ws ! s @ [c] \<notin> set ws"
  by (simp add: tnext_def)

definition kids :: "bytes list \<Rightarrow> nat \<Rightarrow> u8 list \<Rightarrow> nat list" where
  "kids ws r cs = List.map_filter (tnext ws r) cs"

lemma kids_simps [simp]:
  "kids ws r [] = []"
  "kids ws r (c # cs) = (case tnext ws r c of None \<Rightarrow> kids ws r cs | Some s \<Rightarrow> s # kids ws r cs)"
  by (simp_all add: kids_def List.map_filter_simps split: option.split)

lemma set_kids: "set (kids ws r cs) = {s. \<exists>c \<in> set cs. tnext ws r c = Some s}"
  by (induction cs) (auto split: option.split)

lemma alphabet_UNIV: "set alphabet = UNIV"
proof -
  have "c \<in> set alphabet" for c :: u8
  proof -
    have "of_nat (unat c) = c" by simp
    moreover have "unat c \<in> {0 ..< 256}" using unat_u8_bound [of c] by simp
    ultimately show ?thesis unfolding alphabet_def set_map set_upt by (metis image_eqI)
  qed
  then show ?thesis by blast
qed

lemma distinct_alphabet: "distinct alphabet"
proof -
  have "inj_on (of_nat :: nat \<Rightarrow> u8) {0 ..< 256}"
  proof (rule inj_onI)
    fix x y assume "x \<in> {0 ..< 256}" "y \<in> {0 ..< 256}" "(of_nat x :: u8) = of_nat y"
    then have "unat (of_nat x :: u8) = unat (of_nat y :: u8)" "x < 256" "y < 256" by simp_all
    then show "x = y" by (simp add: unat_of_nat)
  qed
  then show ?thesis by (simp add: alphabet_def distinct_map)
qed

definition words_ok :: "bytes list \<Rightarrow> bool" where
  "words_ok ws \<longleftrightarrow> 0 < length ws \<and> ws ! 0 = [] \<and> distinct ws \<and> pclosed (set ws)"

lemma words_okD:
  assumes "words_ok ws"
  shows "0 < length ws" "ws ! 0 = []" "distinct ws" "pclosed (set ws)" "[] \<in> set ws"
  using assms by (auto simp: words_ok_def pclosed_def)

lemma word_zero: "words_ok ws \<Longrightarrow> s < length ws \<Longrightarrow> ws ! s = [] \<longleftrightarrow> s = 0"
  using words_okD [of ws] by (metis nth_eq_iff_index_eq)

lemma distinct_kids: "distinct ws \<Longrightarrow> distinct cs \<Longrightarrow> distinct (kids ws r cs)"
proof (induction cs)
  case (Cons c cs)
  have "tnext ws r b \<noteq> Some s" if "tnext ws r c = Some s" "b \<in> set cs" for b s
    using that Cons.prems tnext_Some [OF Cons.prems(1)] by auto
  then show ?case using Cons by (auto simp: set_kids split: option.split)
qed simp

lemma words_bfs:
  assumes ok: "words_ok ws"
  shows "bfs_tree {1 ..< length ws} (\<lambda>s. idx ws (butlast (ws ! s))) (\<lambda>s. length (ws ! s)) (\<lambda>r. kids ws r alphabet)"
proof -
  note d = words_okD [OF ok]
  have parent: "idx ws (butlast (ws ! s)) < length ws \<and> ws ! idx ws (butlast (ws ! s)) = butlast (ws ! s) \<and> ws ! s \<noteq> []"
    if s: "s \<in> {1 ..< length ws}" for s
  proof -
    have ne: "ws ! s \<noteq> []" using s word_zero [OF ok, of s] by auto
    then have "butlast (ws ! s) @ [last (ws ! s)] \<in> set ws" using s by simp
    then have "butlast (ws ! s) \<in> set ws" using pclosed_snoc [OF d(4)] by blast
    then show ?thesis using idx_nth ne by blast
  qed
  have kids: "set (kids ws r alphabet) = {s \<in> {1 ..< length ws}. idx ws (butlast (ws ! s)) = r}"
    if r: "r < length ws" for r
  proof (intro set_eqI iffI)
    fix s assume "s \<in> set (kids ws r alphabet)"
    then obtain c where c: "s < length ws" "ws ! s = ws ! r @ [c]"
      by (auto simp: set_kids tnext_Some [OF d(3)])
    have "s \<noteq> 0" using c(2) d(2) by (metis append_is_Nil_conv not_Cons_self2)
    then have s: "s \<in> {1 ..< length ws}" using c(1) by simp
    have "ws ! idx ws (butlast (ws ! s)) = ws ! r" using parent [OF s] c(2) by simp
    then have "idx ws (butlast (ws ! s)) = r" using idx_eq [OF d(3) r] parent [OF s] by metis
    then show "s \<in> {s \<in> {1 ..< length ws}. idx ws (butlast (ws ! s)) = r}" using s by blast
  next
    fix s assume "s \<in> {s \<in> {1 ..< length ws}. idx ws (butlast (ws ! s)) = r}"
    then have s: "s \<in> {1 ..< length ws}" and e: "idx ws (butlast (ws ! s)) = r" by auto
    have "ws ! s = ws ! r @ [last (ws ! s)]" using parent [OF s] e by auto
    then have "tnext ws r (last (ws ! s)) = Some s" using s tnext_Some [OF d(3)] by auto
    then show "s \<in> set (kids ws r alphabet)" by (auto simp: set_kids alphabet_UNIV)
  qed
  show ?thesis
    unfolding bfs_tree_def
  proof (intro conjI allI ballI impI)
    fix s assume s: "s \<in> {1 ..< length ws}"
    show "idx ws (butlast (ws ! s)) = 0 \<or> idx ws (butlast (ws ! s)) \<in> {1 ..< length ws}"
      using parent [OF s] by auto
    show "length (ws ! s) = length (ws ! idx ws (butlast (ws ! s))) + 1" using parent [OF s] by simp
  next
    fix r assume "r = 0 \<or> r \<in> {1 ..< length ws}"
    then have "r < length ws" using d(1) by auto
    then show "set (kids ws r alphabet) = {s \<in> {1 ..< length ws}. idx ws (butlast (ws ! s)) = r}" by (rule kids)
  qed (use d distinct_kids distinct_alphabet in auto)
qed

end
