(* ===== verification/AcsmDfa.thy ===== *)
theory AcsmDfa
  imports AcsmBuild
begin

text \<open>
  \<open>Build_NFA\<close> gives every state the failure link to its longest proper suffix in the trie and
  the patterns that end there; \<open>Convert_NFA_To_DFA\<close> makes every transition lead to the longest
  suffix of the extended word.
\<close>


section \<open>The links\<close>

definition pats_at :: "('i, 't, 'n) acsm_pattern list \<Rightarrow> bytes \<Rightarrow> ('i, 't, 'n) acsm_pattern list" where
  \<comment> \<open>the patterns that end where \<open>w\<close> ends\<close>
  "pats_at ps w = filter (\<lambda>p. suffix (patrn p) w) ps"

definition rnext :: "bytes list \<Rightarrow> nat \<Rightarrow> u8 \<Rightarrow> nat option" where
  \<comment> \<open>transitions of the trie with state 0 made total\<close>
  "rnext ws s c = (if s = 0 \<and> tnext ws 0 c = None then Some 0 else tnext ws s c)"

definition final_ok :: "bytes list \<Rightarrow> ('i, 't, 'n) acsm_pattern list \<Rightarrow> ('i, 't, 'n) acsm_table \<Rightarrow> nat \<Rightarrow> bool" where
  "final_ok ws ps t s \<longleftrightarrow>
     FailState (t s) < length ws \<and> ws ! FailState (t s) = lsuf (set ws) (tl (ws ! s)) \<and>
     mset (MatchList (t s)) = mset (pats_at ps (ws ! s))"

definition nfa_inv :: "bytes list \<Rightarrow> ('i, 't, 'n) acsm_pattern list \<Rightarrow> nat set \<Rightarrow> ('i, 't, 'n) acsm_table \<Rightarrow> bool" where
  \<comment> \<open>the states in \<open>F\<close> have their failure link and their complete match list\<close>
  "nfa_inv ws ps F t \<longleftrightarrow>
     (\<forall>s < length ws. \<forall>c. NextState (t s) c = rnext ws s c) \<and>
     (\<forall>s \<in> F. final_ok ws ps t s) \<and>
     (\<forall>s < length ws. s \<notin> F \<longrightarrow> MatchList (t s) = own ps (ws ! s)) \<and>
     (\<forall>s \<ge> length ws. MatchList (t s) = [])"

lemma nfa_invD:
  assumes "nfa_inv ws ps F t"
  shows "s < length ws \<Longrightarrow> NextState (t s) c = rnext ws s c" "s \<in> F \<Longrightarrow> final_ok ws ps t s"
    "s < length ws \<Longrightarrow> s \<notin> F \<Longrightarrow> MatchList (t s) = own ps (ws ! s)" "length ws \<le> s \<Longrightarrow> MatchList (t s) = []"
  using assms by (auto simp: nfa_inv_def)

lemma valid_next_spec:
  assumes ok: "words_ok ws" and inv: "nfa_inv ws ps F t"
    and F: "\<And>s. s \<in> {1 ..< length ws} \<Longrightarrow> length (ws ! s) \<le> k \<Longrightarrow> s \<in> F"
  shows "fs < length ws \<Longrightarrow> length (ws ! fs) \<le> k \<Longrightarrow>
    \<exists>n. valid_next t fs c = Some n \<and> n < length ws \<and> ws ! n = lsuf (set ws) (ws ! fs @ [c])"
proof (induction "length (ws ! fs)" arbitrary: fs rule: less_induct)
  case less
  note d = words_okD [OF ok]
  have nx: "NextState (t fs) c = rnext ws fs c" using nfa_invD(1) [OF inv less.prems(1)] .
  show ?case
  proof (cases "rnext ws fs c")
    case (Some n)
    have "n < length ws \<and> ws ! n = lsuf (set ws) (ws ! fs @ [c])"
    proof (cases "tnext ws fs c")
      case None
      then have z: "fs = 0" "n = 0" using Some by (simp_all add: rnext_def split: if_splits)
      then show ?thesis using None d by (simp add: tnext_None)
    next
      case (Some m)
      then have "n = m" using \<open>rnext ws fs c = Some n\<close> by (auto simp: rnext_def split: if_splits)
      then have n: "n < length ws" "ws ! n = ws ! fs @ [c]" using Some tnext_Some [OF d(3)] by blast+
      then show ?thesis using lsuf_id [of "ws ! fs @ [c]" "set ws"] nth_mem [OF n(1)] by simp
    qed
    then show ?thesis using nx Some by (subst valid_next.simps) simp
  next
    case None
    have "rnext ws 0 c \<noteq> None" by (simp add: rnext_def)
    then have fs0: "fs \<noteq> 0" using None by metis
    then have tn: "tnext ws fs c = None" using None by (simp add: rnext_def)
    have fs: "fs \<noteq> 0" "ws ! fs @ [c] \<notin> set ws" using fs0 tn unfolding tnext_None by simp_all
    then have "fs \<in> F" using F [of fs] less.prems by simp
    then have f: "FailState (t fs) < length ws" "ws ! FailState (t fs) = lsuf (set ws) (tl (ws ! fs))"
      using nfa_invD(2) [OF inv] by (auto simp: final_ok_def)
    have ne: "ws ! fs \<noteq> []" using word_zero [OF ok less.prems(1)] fs(1) by simp
    have lt: "length (ws ! FailState (t fs)) < length (ws ! fs)" unfolding f(2) by (rule lsuf_length_tl [OF ne])
    then obtain n where n: "valid_next t (FailState (t fs)) c = Some n" "n < length ws"
      "ws ! n = lsuf (set ws) (ws ! FailState (t fs) @ [c])"
      using less.hyps [OF lt f(1)] less.prems(2) by auto
    have "lsuf (set ws) (ws ! fs @ [c]) = lsuf (set ws) (tl (ws ! fs) @ [c])"
      using lsuf_tl [OF fs(2)] ne by simp
    also have "\<dots> = ws ! n" unfolding n(3) f(2) by (rule lsuf_snoc [OF d(4), symmetric])
    finally show ?thesis using nx None n(1,2) by (subst valid_next.simps) simp
  qed
qed

lemma mset_own_pats:
  assumes "w \<noteq> []"
  shows "mset (pats_at ps w) = mset (own ps w) + mset (pats_at ps (tl w))"
proof -
  have "suffix (patrn p) w \<longleftrightarrow> patrn p = w \<or> suffix (patrn p) (tl w)" for p :: "('a, 'b, 'c) acsm_pattern"
    using assms by (cases w) (auto simp: suffix_Cons)
  moreover have "\<not> suffix w (tl w)" using suffix_length_le [of w "tl w"] assms by (cases w) auto
  ultimately show ?thesis
    unfolding own_def pats_at_def by (induction ps) auto
qed

lemma pats_at_lsuf:
  "(\<And>p. p \<in> set ps \<Longrightarrow> patrn p \<in> W) \<Longrightarrow> pats_at ps (lsuf W v) = pats_at ps v"
  unfolding pats_at_def
  using lsuf_greatest lsuf_suffix suffix_order.trans by (intro filter_cong) blast+

definition pats_ok :: "bytes list \<Rightarrow> ('i, 't, 'n) acsm_pattern list \<Rightarrow> bool" where
  "pats_ok ws ps \<longleftrightarrow> (\<forall>p \<in> set ps. patrn p \<in> set ws \<and> patrn p \<noteq> [])"

lemma pats_at_Nil: "pats_ok ws ps \<Longrightarrow> pats_at ps [] = []"
  by (auto simp: pats_at_def pats_ok_def filter_empty_conv)

lemma own_Nil: "pats_ok ws ps \<Longrightarrow> own ps [] = []"
  by (auto simp: own_def pats_ok_def filter_empty_conv)

lemma fold_Cons_rev: "fold (#) xs ys = rev xs @ ys"
  by (induction xs arbitrary: ys) simp_all

lemma nfa_byte_spec:
  assumes ok: "words_ok ws" and ps: "pats_ok ws ps" and inv: "nfa_inv ws ps F t" and r: "r \<in> F" "r \<in> {1 ..< length ws}"
    and F: "\<And>s. s \<in> {1 ..< length ws} \<Longrightarrow> length (ws ! s) \<le> length (ws ! r) \<Longrightarrow> s \<in> F"
    and child: "\<And>s. tnext ws r c = Some s \<Longrightarrow> s \<notin> F"
  shows "\<exists>t'. nfa_byte r c (t, q) = Some (t', q @ kids ws r [c]) \<and> nfa_inv ws ps (F \<union> set (kids ws r [c])) t'"
proof -
  note d = words_okD [OF ok]
  have rl: "r < length ws" "r \<noteq> 0" using r(2) by auto
  have nx: "NextState (t r) c = tnext ws r c" using nfa_invD(1) [OF inv rl(1)] rl(2) by (simp add: rnext_def)
  show ?thesis
  proof (cases "tnext ws r c")
    case None
    then show ?thesis using nx inv by (simp add: nfa_byte_def)
  next
    case (Some s)
    have s: "s < length ws" "ws ! s = ws ! r @ [c]" using Some tnext_Some [OF d(3)] by blast+
    have sF: "s \<notin> F" by (rule child [OF Some])
    have f: "FailState (t r) < length ws" "ws ! FailState (t r) = lsuf (set ws) (tl (ws ! r))"
      using nfa_invD(2) [OF inv r(1)] by (auto simp: final_ok_def)
    have ne: "ws ! r \<noteq> []" using word_zero [OF ok rl(1)] rl(2) by simp
    have lt: "length (ws ! FailState (t r)) \<le> length (ws ! r)" unfolding f(2) using lsuf_length_tl [OF ne] by (rule less_imp_le)
    obtain n where n: "valid_next t (FailState (t r)) c = Some n" "n < length ws"
      "ws ! n = lsuf (set ws) (ws ! FailState (t r) @ [c])"
      using valid_next_spec [OF ok inv F f(1) lt] by blast
    have word: "ws ! n = lsuf (set ws) (tl (ws ! s))"
      unfolding n(3) f(2) s(2) using lsuf_snoc [OF d(4)] ne by simp
    have sne: "ws ! s \<noteq> []" using s(2) by simp
    have ln: "length (ws ! n) < length (ws ! s)" unfolding word by (rule lsuf_length_tl [OF sne])
    then have ns: "n \<noteq> s" by auto
    have mn: "mset (MatchList (t n)) = mset (pats_at ps (ws ! n))"
    proof (cases "n = 0")
      case True
      have "(0 :: nat) \<in> F \<Longrightarrow> mset (MatchList (t 0)) = mset (pats_at ps (ws ! 0))"
        using nfa_invD(2) [OF inv] by (auto simp: final_ok_def)
      moreover have "0 \<notin> F \<Longrightarrow> MatchList (t 0) = []"
        using nfa_invD(3) [OF inv d(1)] d(2) own_Nil [OF ps] by simp
      ultimately show ?thesis using True d(2) pats_at_Nil [OF ps] by auto
    next
      case False
      then have "n \<in> F" using F [of n] n(2) ln s(2) by simp
      then show ?thesis using nfa_invD(2) [OF inv] by (auto simp: final_ok_def)
    qed
    let ?t = "t(s := (t s)\<lparr>FailState := n, MatchList := rev (MatchList (t n)) @ MatchList (t s)\<rparr>)"
    have step: "nfa_byte r c (t, q) = Some (?t, q @ [s])"
      using nx Some n(1) ns by (simp add: nfa_byte_def queue_add_def fold_Cons_rev Let_def)
    have "mset (MatchList (?t s)) = mset (pats_at ps (ws ! s))"
    proof -
      have p: "\<And>p. p \<in> set ps \<Longrightarrow> patrn p \<in> set ws" using ps by (simp add: pats_ok_def)
      have "pats_at ps (ws ! n) = pats_at ps (tl (ws ! s))" unfolding word by (rule pats_at_lsuf [OF p])
      then show ?thesis
        using mn nfa_invD(3) [OF inv s(1) sF] mset_own_pats [OF sne, of ps] by simp
    qed
    then have "final_ok ws ps ?t s" using n(2) word by (simp add: final_ok_def)
    moreover have "final_ok ws ps ?t x" if "x \<in> F" for x
      using nfa_invD(2) [OF inv that] that sF by (auto simp: final_ok_def)
    ultimately have "nfa_inv ws ps (insert s F) ?t"
      using inv s(1) by (auto simp: nfa_inv_def)
    then show ?thesis using step Some by simp
  qed
qed

lemma nfa_row_spec:
  assumes ok: "words_ok ws" and ps: "pats_ok ws ps" and r: "r \<in> {1 ..< length ws}"
  shows "nfa_inv ws ps F t \<Longrightarrow> r \<in> F \<Longrightarrow>
    (\<And>s. s \<in> {1 ..< length ws} \<Longrightarrow> length (ws ! s) \<le> length (ws ! r) \<Longrightarrow> s \<in> F) \<Longrightarrow>
    distinct cs \<Longrightarrow> set (kids ws r cs) \<inter> F = {} \<Longrightarrow>
    \<exists>t'. fold_opt (nfa_byte r) cs (t, q) = Some (t', q @ kids ws r cs) \<and> nfa_inv ws ps (F \<union> set (kids ws r cs)) t'"
proof (induction cs arbitrary: F t q)
  case (Cons c cs)
  have child: "s \<notin> F" if "tnext ws r c = Some s" for s
    using that Cons.prems(5) by auto
  obtain t1 where t1: "nfa_byte r c (t, q) = Some (t1, q @ kids ws r [c])" "nfa_inv ws ps (F \<union> set (kids ws r [c])) t1"
    using nfa_byte_spec [OF ok ps Cons.prems(1,2) r Cons.prems(3) child] by blast
  have "distinct (kids ws r (c # cs))" by (rule distinct_kids [OF words_okD(3) [OF ok] Cons.prems(4)])
  then have dj: "set (kids ws r cs) \<inter> (F \<union> set (kids ws r [c])) = {}"
    using Cons.prems(5) by (auto split: option.splits)
  obtain t2 where "fold_opt (nfa_byte r) cs (t1, q @ kids ws r [c]) = Some (t2, (q @ kids ws r [c]) @ kids ws r cs)"
    "nfa_inv ws ps ((F \<union> set (kids ws r [c])) \<union> set (kids ws r cs)) t2"
  proof -
    have "distinct cs" "r \<in> F \<union> set (kids ws r [c])"
      "\<And>s. s \<in> {1 ..< length ws} \<Longrightarrow> length (ws ! s) \<le> length (ws ! r) \<Longrightarrow> s \<in> F \<union> set (kids ws r [c])"
      using Cons.prems(2,3,4) by simp_all
    from Cons.IH [OF t1(2) this(2,3,1) dj, of "q @ kids ws r [c]"] show ?thesis using that by blast
  qed
  moreover have "kids ws r [c] @ kids ws r cs = kids ws r (c # cs)" by (simp split: option.split)
  moreover have "(F \<union> set (kids ws r [c])) \<union> set (kids ws r cs) = F \<union> set (kids ws r (c # cs))"
    by (auto split: option.split)
  ultimately show ?case using t1(1) by simp
qed simp


section \<open>The whole of \<open>Build_NFA\<close>\<close>

lemma kids_in:
  assumes "words_ok ws" "s \<in> set (kids ws r cs)"
  shows "s \<in> {1 ..< length ws} \<and> ws ! s = ws ! r @ [last (ws ! s)]"
proof -
  obtain c where c: "tnext ws r c = Some s" using assms(2) by (auto simp: set_kids)
  have "s < length ws" "ws ! s = ws ! r @ [c]" using c tnext_Some [OF words_okD(3) [OF assms(1)]] by blast+
  then show ?thesis using words_okD(2) [OF assms(1)] by (cases s) auto
qed

lemma nfa_root_spec:
  assumes ok: "words_ok ws" and ps: "pats_ok ws ps"
  shows "nfa_inv ws ps F t \<Longrightarrow> distinct cs \<Longrightarrow> set (kids ws 0 cs) \<inter> F = {} \<Longrightarrow>
    \<exists>t'. fold_opt nfa_root cs (t, q) = Some (t', q @ kids ws 0 cs) \<and> nfa_inv ws ps (F \<union> set (kids ws 0 cs)) t'"
proof (induction cs arbitrary: F t q)
  case (Cons c cs)
  note d = words_okD [OF ok]
  have nx: "NextState (t 0) c = rnext ws 0 c" by (rule nfa_invD(1) [OF Cons.prems(1) d(1)])
  show ?case
  proof (cases "tnext ws 0 c")
    case None
    then have "nfa_root c (t, q) = Some (t, q)" using nx by (simp add: nfa_root_def rnext_def)
    then show ?thesis using Cons.IH [OF Cons.prems(1)] Cons.prems(2,3) None by simp
  next
    case (Some s)
    have s: "s < length ws" "ws ! s = [c]" using Some tnext_Some [OF d(3)] d(2) by auto
    have s0: "s \<noteq> 0" using s(2) d(2) by (metis not_Cons_self2)
    have sF: "s \<notin> F" using Cons.prems(3) Some by auto
    let ?t = "t(s := (t s)\<lparr>FailState := 0\<rparr>)"
    have step: "nfa_root c (t, q) = Some (?t, q @ [s])"
      using nx Some s0 by (simp add: nfa_root_def rnext_def queue_add_def)
    have "mset (MatchList (t s)) = mset (pats_at ps (ws ! s))"
      using nfa_invD(3) [OF Cons.prems(1) s(1) sF] mset_own_pats [of "ws ! s" ps] s(2) pats_at_Nil [OF ps] by simp
    then have "final_ok ws ps ?t s" using d(1,2) s(2) by (simp add: final_ok_def)
    moreover have "final_ok ws ps ?t x" if "x \<in> F" for x
      using nfa_invD(2) [OF Cons.prems(1) that] that sF by (auto simp: final_ok_def)
    ultimately have inv: "nfa_inv ws ps (insert s F) ?t"
      using Cons.prems(1) s(1) by (auto simp: nfa_inv_def)
    have "distinct (kids ws 0 (c # cs))" by (rule distinct_kids [OF d(3) Cons.prems(2)])
    then have "set (kids ws 0 cs) \<inter> insert s F = {}" using Cons.prems(3) Some by auto
    moreover have "distinct cs" using Cons.prems(2) by simp
    ultimately obtain t' where "fold_opt nfa_root cs (?t, q @ [s]) = Some (t', (q @ [s]) @ kids ws 0 cs)"
      "nfa_inv ws ps (insert s F \<union> set (kids ws 0 cs)) t'"
      using Cons.IH [of "insert s F" ?t "q @ [s]", OF inv] by blast
    then show ?thesis using Some step by simp
  qed
qed simp

definition nfa_done :: "bytes list \<Rightarrow> nat set \<Rightarrow> nat set" where
  \<comment> \<open>final states when \<open>V\<close> has been taken off the queue\<close>
  "nfa_done ws V = {s \<in> {1 ..< length ws}. idx ws (butlast (ws ! s)) \<in> insert 0 V}"

lemma queue_loop_nfa:
  assumes ok: "words_ok ws" and ps: "pats_ok ws ps" and inv: "nfa_inv ws ps (set (kids ws 0 alphabet)) t"
  shows "\<exists>t'. queue_loop (\<lambda>r. fold_opt (nfa_byte r) alphabet) t (kids ws 0 alphabet) = Some t' \<and>
    nfa_inv ws ps {1 ..< length ws} t'"
proof -
  let ?S = "{1 ..< length ws}" and ?par = "\<lambda>s. idx ws (butlast (ws ! s))"
  note t = words_bfs [OF ok]
  have root: "nfa_done ws {} = set (kids ws 0 alphabet)"
    using bfs_treeD(7) [OF t, of 0] by (simp add: nfa_done_def)
  have all: "nfa_done ws ?S = ?S"
    using bfs_treeD(3) [OF t] unfolding nfa_done_def by blast
  have "\<exists>t'. queue_loop (\<lambda>r. fold_opt (nfa_byte r) alphabet) t (kids ws 0 alphabet) = Some t' \<and>
      nfa_inv ws ps (nfa_done ws ?S) t'"
  proof (rule queue_loop_bfs [OF t, of "\<lambda>V. nfa_inv ws ps (nfa_done ws V)"])
    show "nfa_inv ws ps (nfa_done ws {}) t" using inv root by simp
  next
    fix V r a q
    assume V: "V \<subseteq> ?S" "nfa_inv ws ps (nfa_done ws V) a" "r \<in> ?S" "r \<notin> V"
      and low: "\<And>s. s \<in> ?S \<Longrightarrow> length (ws ! s) < length (ws ! r) \<Longrightarrow> s \<in> V"
    have F: "s \<in> nfa_done ws V" if s: "s \<in> ?S" "length (ws ! s) \<le> length (ws ! r)" for s
    proof -
      have "?par s = 0 \<or> ?par s \<in> ?S" "length (ws ! s) = length (ws ! ?par s) + 1"
        using bfs_treeD(3,4) [OF t s(1)] by simp_all
      then have "length (ws ! ?par s) < length (ws ! r)" using s(2) by linarith
      then have "?par s = 0 \<or> ?par s \<in> V" using low [of "?par s"] \<open>?par s = 0 \<or> ?par s \<in> ?S\<close> by blast
      then show ?thesis using s(1) by (simp add: nfa_done_def)
    qed
    have k: "set (kids ws r alphabet) = {s \<in> ?S. ?par s = r}" using bfs_treeD(7) [OF t, of r] V(3) by blast
    have "r \<noteq> 0" using V(3) by simp
    then have "set (kids ws r alphabet) \<inter> nfa_done ws V = {}"
      unfolding k nfa_done_def using V(4) by auto
    moreover have "nfa_done ws V \<union> set (kids ws r alphabet) = nfa_done ws (insert r V)"
      unfolding k by (auto simp: nfa_done_def)
    ultimately show "\<exists>a'. fold_opt (nfa_byte r) alphabet (a, q) = Some (a', q @ kids ws r alphabet) \<and>
        nfa_inv ws ps (nfa_done ws (insert r V)) a'"
      using nfa_row_spec [OF ok ps V(3,2) F [OF V(3)] F distinct_alphabet, of q] by simp
  qed
  then show ?thesis unfolding all .
qed


section \<open>The whole of \<open>Convert_NFA_To_DFA\<close>\<close>

definition row_ok :: "bytes list \<Rightarrow> ('i, 't, 'n) acsm_table \<Rightarrow> nat \<Rightarrow> u8 \<Rightarrow> bool" where
  \<comment> \<open>the transition leads to the longest suffix of the extended word\<close>
  "row_ok ws t s c \<longleftrightarrow>
     (\<exists>n < length ws. NextState (t s) c = Some n \<and> ws ! n = lsuf (set ws) (ws ! s @ [c]))"

definition dfa_inv ::
    "bytes list \<Rightarrow> ('i, 't, 'n) acsm_table \<Rightarrow> nat set \<Rightarrow> ('i, 't, 'n) acsm_table \<Rightarrow> bool" where
  "dfa_inv ws t0 V t \<longleftrightarrow>
     (\<forall>s. FailState (t s) = FailState (t0 s) \<and> MatchList (t s) = MatchList (t0 s)) \<and>
     (\<forall>c. row_ok ws t 0 c) \<and> (\<forall>s \<in> V. \<forall>c. row_ok ws t s c) \<and>
     (\<forall>s \<in> {1 ..< length ws}. s \<notin> V \<longrightarrow> (\<forall>c. NextState (t s) c = tnext ws s c))"

lemma root_row:
  assumes ok: "words_ok ws" and nx: "NextState (t 0) c = rnext ws 0 c"
  shows "row_ok ws t 0 c"
proof (cases "tnext ws 0 c")
  case None
  then show ?thesis using nx words_okD [OF ok] by (auto simp: row_ok_def rnext_def tnext_None)
next
  case (Some s)
  then have "s < length ws" "ws ! s = [c]" using tnext_Some [OF words_okD(3) [OF ok]] words_okD(2) [OF ok] by auto
  then show ?thesis
    using nx Some words_okD(2) [OF ok] nth_mem [of s ws] lsuf_id [of "[c]" "set ws"] by (auto simp: row_ok_def rnext_def)
qed

lemma dfa_row_spec:
  assumes ok: "words_ok ws" and r: "r < length ws" and fs: "FailState (t0 r) \<noteq> r"
    and f: "ws ! FailState (t0 r) = lsuf (set ws) (tl (ws ! r))" and ne: "ws ! r \<noteq> []"
  shows "\<forall>s. FailState (t s) = FailState (t0 s) \<and> MatchList (t s) = MatchList (t0 s) \<Longrightarrow>
    \<forall>c. row_ok ws t (FailState (t0 r)) c \<Longrightarrow> distinct cs \<Longrightarrow> \<forall>c \<in> set cs. NextState (t r) c = tnext ws r c \<Longrightarrow>
    \<exists>t'. fold_opt (dfa_byte r) cs (t, q) = Some (t', q @ kids ws r cs) \<and>
      (\<forall>s. FailState (t' s) = FailState (t0 s) \<and> MatchList (t' s) = MatchList (t0 s)) \<and>
      (\<forall>s. s \<noteq> r \<longrightarrow> t' s = t s) \<and> (\<forall>c \<in> set cs. row_ok ws t' r c) \<and>
      (\<forall>c. c \<notin> set cs \<longrightarrow> NextState (t' r) c = NextState (t r) c)"
proof (induction cs arbitrary: t q)
  case (Cons c cs)
  note d = words_okD [OF ok]
  have nx: "NextState (t r) c = tnext ws r c" using Cons.prems(4) by simp
  have keep: "row_ok ws t2 r c" if "row_ok ws t1 r c" "NextState (t2 r) c = NextState (t1 r) c" for t1 t2 :: "('a, 'b, 'c) acsm_table"
    using that by (simp add: row_ok_def)
  show ?case
  proof (cases "tnext ws r c")
    case (Some s)
    have s: "s < length ws" "ws ! s = ws ! r @ [c]" using Some tnext_Some [OF d(3)] by blast+
    have ro: "row_ok ws t r c"
      using nx Some s nth_mem [OF s(1)] lsuf_id [of "ws ! r @ [c]" "set ws"] by (auto simp: row_ok_def)
    obtain t' where t': "fold_opt (dfa_byte r) cs (t, q @ [s]) = Some (t', (q @ [s]) @ kids ws r cs)"
      "\<forall>s. FailState (t' s) = FailState (t0 s) \<and> MatchList (t' s) = MatchList (t0 s)"
      "\<forall>s. s \<noteq> r \<longrightarrow> t' s = t s" "\<forall>c \<in> set cs. row_ok ws t' r c"
      "\<forall>c. c \<notin> set cs \<longrightarrow> NextState (t' r) c = NextState (t r) c"
      using Cons.IH [OF Cons.prems(1,2), of "q @ [s]"] Cons.prems(3,4) by auto
    have "row_ok ws t' r c" using keep [OF ro] t'(5) Cons.prems(3) by simp
    moreover have "dfa_byte r c (t, q) = Some (t, q @ [s])" using nx Some by (simp add: dfa_byte_def queue_add_def)
    ultimately show ?thesis using t' Some by simp
  next
    case None
    then have nw: "ws ! r @ [c] \<notin> set ws" by (simp add: tnext_None)
    let ?fs = "FailState (t r)"
    let ?t = "t(r := (t r)\<lparr>NextState := (NextState (t r))(c := NextState (t ?fs) c)\<rparr>)"
    have fse: "?fs = FailState (t0 r)" using Cons.prems(1) by simp
    obtain n where n: "n < length ws" "NextState (t ?fs) c = Some n" "ws ! n = lsuf (set ws) (ws ! ?fs @ [c])"
      using Cons.prems(2) unfolding fse row_ok_def by blast
    have "ws ! n = lsuf (set ws) (tl (ws ! r) @ [c])" unfolding n(3) fse f by (rule lsuf_snoc [OF d(4)])
    also have "\<dots> = lsuf (set ws) (ws ! r @ [c])" using lsuf_tl [OF nw] ne by simp
    finally have ro: "row_ok ws ?t r c" using n(1,2) by (simp add: row_ok_def)
    have fl: "\<forall>s. FailState (?t s) = FailState (t0 s) \<and> MatchList (?t s) = MatchList (t0 s)"
      using Cons.prems(1) by simp
    have fr: "\<forall>c. row_ok ws ?t (FailState (t0 r)) c" using Cons.prems(2) fs by (simp add: row_ok_def)
    have un: "\<forall>b \<in> set cs. NextState (?t r) b = tnext ws r b" using Cons.prems(3,4) by auto
    have dc: "distinct cs" using Cons.prems(3) by simp
    obtain t' where t': "fold_opt (dfa_byte r) cs (?t, q) = Some (t', q @ kids ws r cs)"
      "\<forall>s. FailState (t' s) = FailState (t0 s) \<and> MatchList (t' s) = MatchList (t0 s)"
      "\<forall>s. s \<noteq> r \<longrightarrow> t' s = ?t s" "\<forall>c \<in> set cs. row_ok ws t' r c"
      "\<forall>c. c \<notin> set cs \<longrightarrow> NextState (t' r) c = NextState (?t r) c"
      using Cons.IH [of ?t q, OF fl fr dc un] by blast
    have "row_ok ws t' r c" using keep [OF ro] t'(5) Cons.prems(3) by simp
    moreover have "dfa_byte r c (t, q) = Some (?t, q)" using nx None by (simp add: dfa_byte_def)
    ultimately show ?thesis using t' None by simp
  qed
qed simp

lemma dfa_root_spec:
  "\<forall>c \<in> set cs. NextState (t 0) c = rnext ws 0 c \<Longrightarrow> words_ok ws \<Longrightarrow>
    fold_opt dfa_root cs (t, q) = Some (t, q @ kids ws 0 cs)"
proof (induction cs arbitrary: q)
  case (Cons c cs)
  show ?case
  proof (cases "tnext ws 0 c")
    case None
    then show ?thesis using Cons by (simp add: dfa_root_def rnext_def)
  next
    case (Some s)
    then have "s \<noteq> 0" using kids_in [OF Cons.prems(2), of s 0 "[c]"] by auto
    then show ?thesis using Cons Some by (simp add: dfa_root_def rnext_def queue_add_def)
  qed
qed simp

lemma queue_loop_dfa:
  assumes ok: "words_ok ws" and inv: "nfa_inv ws ps {1 ..< length ws} t0"
  shows "\<exists>t. queue_loop (\<lambda>r. fold_opt (dfa_byte r) alphabet) t0 (kids ws 0 alphabet) = Some t \<and>
    dfa_inv ws t0 {1 ..< length ws} t"
proof -
  let ?S = "{1 ..< length ws}"
  note d = words_okD [OF ok]
  show ?thesis
  proof (rule queue_loop_bfs [OF words_bfs [OF ok], of "dfa_inv ws t0"])
    have "\<forall>c. row_ok ws t0 0 c"
      using root_row [OF ok, of t0] nfa_invD(1) [OF inv d(1)] by blast
    then show "dfa_inv ws t0 {} t0"
      unfolding dfa_inv_def using nfa_invD(1) [OF inv] by (simp add: rnext_def)
  next
    fix V r a q
    assume V: "V \<subseteq> ?S" "dfa_inv ws t0 V a" "r \<in> ?S" "r \<notin> V"
      and low: "\<And>s. s \<in> ?S \<Longrightarrow> length (ws ! s) < length (ws ! r) \<Longrightarrow> s \<in> V"
    have r: "r < length ws" "r \<noteq> 0" using V(3) by auto
    have ne: "ws ! r \<noteq> []" using word_zero [OF ok r(1)] r(2) by simp
    have f: "FailState (t0 r) < length ws" "ws ! FailState (t0 r) = lsuf (set ws) (tl (ws ! r))"
      using nfa_invD(2) [OF inv V(3)] by (auto simp: final_ok_def)
    have lt: "length (ws ! FailState (t0 r)) < length (ws ! r)" unfolding f(2) by (rule lsuf_length_tl [OF ne])
    then have fr: "FailState (t0 r) \<noteq> r" by auto
    have "FailState (t0 r) = 0 \<or> FailState (t0 r) \<in> V" using low [of "FailState (t0 r)"] f(1) lt by (cases "FailState (t0 r) = 0") auto
    then have frow: "\<forall>c. row_ok ws a (FailState (t0 r)) c" using V(2) by (auto simp: dfa_inv_def)
    have same: "\<forall>s. FailState (a s) = FailState (t0 s) \<and> MatchList (a s) = MatchList (t0 s)"
      and row: "\<forall>c \<in> set alphabet. NextState (a r) c = tnext ws r c"
      using V(2,3,4) by (auto simp: dfa_inv_def)
    obtain a' where a': "fold_opt (dfa_byte r) alphabet (a, q) = Some (a', q @ kids ws r alphabet)"
      "\<forall>s. FailState (a' s) = FailState (t0 s) \<and> MatchList (a' s) = MatchList (t0 s)"
      "\<forall>s. s \<noteq> r \<longrightarrow> a' s = a s" "\<forall>c \<in> set alphabet. row_ok ws a' r c"
      using dfa_row_spec [OF ok r(1) fr f(2) ne same frow distinct_alphabet row, of q] by blast
    have "a' 0 = a 0" "\<forall>s \<in> V. a' s = a s" using a'(3) r(2) V(4) by auto
    then have "dfa_inv ws t0 (insert r V) a'"
      using V(2) a'(2,3,4) unfolding dfa_inv_def row_ok_def alphabet_UNIV by simp
    then show "\<exists>a'. fold_opt (dfa_byte r) alphabet (a, q) = Some (a', q @ kids ws r alphabet) \<and>
        dfa_inv ws t0 (insert r V) a'"
      using a'(1) by blast
  qed
qed

section \<open>Compilation\<close>

definition acsm_ok :: "bytes list \<Rightarrow> ('i, 't, 'n) acsm_pattern list \<Rightarrow> ('i, 't, 'n) acsm_struct \<Rightarrow> bool" where
  \<comment> \<open>the automaton of the patterns: its states are the words \<open>ws\<close>\<close>
  "acsm_ok ws ps a \<longleftrightarrow>
     words_ok ws \<and> pats_ok ws ps \<and> acsmNumStates a + 1 = length ws \<and> length ws \<le> acsmMaxStates a \<and>
     (\<forall>s < length ws. (\<forall>c. row_ok ws (acsmStateTable a) s c) \<and>
        mset (MatchList (acsmStateTable a s)) = mset (pats_at ps (ws ! s))) \<and>
     (\<forall>s \<ge> length ws. MatchList (acsmStateTable a s) = [])"

lemma trie_of_spec:
  "\<exists>ws. trie_ok (trie_of a) ws \<and> length ws \<le> acsmMaxStates (trie_of a) \<and>
     set ws = insert [] {q. \<exists>p \<in> set (acsmPatterns a). prefix q (patrn p)} \<and>
     (\<forall>k < length ws. MatchList (acsmStateTable (trie_of a) k) = own (acsmPatterns a) (ws ! k))"
proof -
  let ?a = "a\<lparr>acsmMaxStates := 1 + sum_list (map (\<lambda>p. length (patrn p)) (acsmPatterns a)), acsmNumStates := 0,
      acsmStateTable := (\<lambda>_. \<lparr>NextState = (\<lambda>_. None), FailState = 0, MatchList = []\<rparr>)\<rparr>"
  have ok: "trie_ok ?a [[]]" by (auto simp: trie_ok_def pclosed_def)
  have e: "trie_of a = fold (\<lambda>p a. AddPatternStates a p) (acsmPatterns a) ?a" by (simp add: trie_of_def)
  obtain new where new: "trie_ok (trie_of a) ([[]] @ new)"
    "length new \<le> sum_list (map (\<lambda>p. length (patrn p)) (acsmPatterns a))"
    "set ([[]] @ new) = set [[]] \<union> {q. \<exists>p \<in> set (acsmPatterns a). prefix q (patrn p)}"
    "\<forall>k < length ([[]] @ new). MatchList (acsmStateTable (trie_of a) k) = own ([] @ acsmPatterns a) (([[]] @ new) ! k)"
    "acsmMaxStates (trie_of a) = acsmMaxStates ?a"
    using add_patterns_spec [OF ok, of "[]" "acsmPatterns a"] unfolding e by (auto simp: own_def)
  then show ?thesis by (intro exI [of _ "[[]] @ new"]) simp
qed

lemma root_total_inv:
  assumes ok: "trie_ok a ws" and ml: "\<forall>k < length ws. MatchList (acsmStateTable a k) = own ps (ws ! k)"
  shows "words_ok ws" and "nfa_inv ws ps {} (acsmStateTable (root_total a))"
proof -
  note d = trie_okD [OF ok]
  show "words_ok ws" using d(2-5) by (simp add: words_ok_def)
  have nx: "NextState (acsmStateTable a s) c = tnext ws s c" if "s < length ws" for s c
  proof (rule option.expand)
    show "NextState (acsmStateTable a s) c = None \<longleftrightarrow> tnext ws s c = None"
      using trie_next_None [OF ok that] tnext_None by blast
    show "the (NextState (acsmStateTable a s) c) = the (tnext ws s c)"
      if "NextState (acsmStateTable a s) c \<noteq> None" "tnext ws s c \<noteq> None"
      using that d(6) [OF \<open>s < length ws\<close>] tnext_Some [OF d(4)] by (metis option.exhaust_sel nth_eq_iff_index_eq [OF d(4)])
  qed
  show "nfa_inv ws ps {} (acsmStateTable (root_total a))"
    using nx ml d(2,7) by (auto simp: nfa_inv_def root_total_def Let_def rnext_def)
qed

lemma compile_spec:
  assumes ne: "\<forall>p \<in> set (acsmPatterns a). patrn p \<noteq> []"
  shows "\<exists>a' ws. acsm_compile a = Some a' \<and> acsm_ok ws (acsmPatterns a) a' \<and>
    set ws = insert [] {q. \<exists>p \<in> set (acsmPatterns a). prefix q (patrn p)}"
proof -
  let ?ps = "acsmPatterns a"
  obtain ws where ws: "trie_ok (trie_of a) ws" "length ws \<le> acsmMaxStates (trie_of a)"
    "set ws = insert [] {q. \<exists>p \<in> set ?ps. prefix q (patrn p)}"
    "\<forall>k < length ws. MatchList (acsmStateTable (trie_of a) k) = own ?ps (ws ! k)"
    using trie_of_spec by blast
  let ?r = "root_total (trie_of a)"
  note ok = root_total_inv(1) [OF ws(1,4)] and inv = root_total_inv(2) [OF ws(1,4)]
  have ps: "pats_ok ws ?ps" using ne ws(3) by (auto simp: pats_ok_def)
  obtain t1 where t1: "fold_opt nfa_root alphabet (acsmStateTable ?r, []) = Some (t1, kids ws 0 alphabet)"
    "nfa_inv ws ?ps (set (kids ws 0 alphabet)) t1"
    using nfa_root_spec [OF ok ps inv distinct_alphabet, of "[]"] by auto
  obtain t2 where t2: "queue_loop (\<lambda>r. fold_opt (nfa_byte r) alphabet) t1 (kids ws 0 alphabet) = Some t2"
    "nfa_inv ws ?ps {1 ..< length ws} t2"
    using queue_loop_nfa [OF ok ps t1(2)] by blast
  have nfa: "Build_NFA ?r = Some (?r\<lparr>acsmStateTable := t2\<rparr>)" using t1(1) t2(1) by (simp add: Build_NFA_def)
  have "fold_opt dfa_root alphabet (t2, []) = Some (t2, kids ws 0 alphabet)"
    using dfa_root_spec [of alphabet t2 ws "[]"] nfa_invD(1) [OF t2(2)] words_okD(1) [OF ok] ok by simp
  moreover obtain t3 where t3: "queue_loop (\<lambda>r. fold_opt (dfa_byte r) alphabet) t2 (kids ws 0 alphabet) = Some t3"
    "dfa_inv ws t2 {1 ..< length ws} t3"
    using queue_loop_dfa [OF ok t2(2)] by blast
  ultimately have dfa: "Convert_NFA_To_DFA (?r\<lparr>acsmStateTable := t2\<rparr>) = Some (?r\<lparr>acsmStateTable := t3\<rparr>)"
    by (simp add: Convert_NFA_To_DFA_def)
  let ?a' = "?r\<lparr>acsmStateTable := t3\<rparr>"
  have ml0: "mset (MatchList (t2 s)) = mset (pats_at ?ps (ws ! s))" if s: "s < length ws" for s
  proof (cases "s = 0")
    case True
    then show ?thesis
      using nfa_invD(3) [OF t2(2), of 0] s words_okD(2) [OF ok] own_Nil [OF ps] pats_at_Nil [OF ps] by simp
  next
    case False
    then show ?thesis using nfa_invD(2) [OF t2(2), of s] s by (simp add: final_ok_def)
  qed
  have "row_ok ws t3 s c" if "s < length ws" for s c
    using t3(2) that by (cases "s = 0") (auto simp: dfa_inv_def)
  then have row: "\<forall>s < length ws. \<forall>c. row_ok ws t3 s c" by blast
  have ml: "MatchList (t3 s) = MatchList (t2 s)" for s using t3(2) by (simp add: dfa_inv_def)
  have "acsm_ok ws ?ps ?a'"
    unfolding acsm_ok_def
    using ok ps trie_okD(1) [OF ws(1)] ws(2) row ml ml0 nfa_invD(4) [OF t2(2)]
    by (simp add: root_total_def Let_def)
  then show ?thesis using nfa dfa ws(3) unfolding acsm_compile_def by (intro exI [of _ ?a'] exI [of _ ws]) simp
qed

end
