(* ===== verification/AcsmProps.thy ===== *)
theory AcsmProps
  imports AcsmDfa
begin

text \<open>
  The compiled Aho-Corasick automaton against the naive search: at every byte, the patterns that
  are suffixes of the text read so far.
\<close>

section \<open>Trees\<close>

definition with_tree ::
    "('i option \<Rightarrow> 't option \<Rightarrow> 't option) option \<Rightarrow> ('i \<Rightarrow> 'n option \<Rightarrow> 'n option) option \<Rightarrow>
     ('i, 't, 'n) acsm_pattern list \<Rightarrow> ('i, 't, 'n) acsm_pattern list" where
  "with_tree build_tree neg_list_func ml =
     (case (build_tree, neg_list_func) of (Some b, Some n) \<Rightarrow> state_tree b n ml | _ \<Rightarrow> ml)"

lemma with_tree_Nil [simp]: "with_tree b n ml = [] \<longleftrightarrow> ml = []"
  by (auto simp: with_tree_def state_tree_def split: option.split list.split prod.split)

lemma build_trees_fold:
  "fold (tree_step b n) [0 ..< k] (0, a) = (c, a') \<Longrightarrow>
   (\<forall>s. NextState (acsmStateTable a' s) = NextState (acsmStateTable a s) \<and>
      MatchList (acsmStateTable a' s) =
        (if s < k then state_tree b n (MatchList (acsmStateTable a s)) else MatchList (acsmStateTable a s))) \<and>
   acsmNumStates a' = acsmNumStates a \<and> acsmMaxStates a' = acsmMaxStates a \<and>
   c = sum_list (map (\<lambda>s. length (MatchList (acsmStateTable a s))) [0 ..< k])"
proof (induction k arbitrary: c a')
  case (Suc k)
  obtain c1 a1 where f: "fold (tree_step b n) [0 ..< k] (0, a) = (c1, a1)" by fastforce
  note ih = Suc.IH [OF f]
  have "tree_step b n k (c1, a1) = (c, a')" using Suc.prems f by simp
  then show ?case using ih by (auto simp: tree_step_def Let_def less_Suc_eq)
qed simp

definition compiled_ok ::
    "bytes list \<Rightarrow> ('i, 't, 'n) acsm_pattern list \<Rightarrow>
     ('i option \<Rightarrow> 't option \<Rightarrow> 't option) option \<Rightarrow> ('i \<Rightarrow> 'n option \<Rightarrow> 'n option) option \<Rightarrow>
     ('i, 't, 'n) acsm_struct \<Rightarrow> bool" where
  "compiled_ok ws ps b n a \<longleftrightarrow>
     words_ok ws \<and> pats_ok ws ps \<and> acsmNumStates a + 1 = length ws \<and> length ws \<le> acsmMaxStates a \<and>
     (\<forall>s < length ws. (\<forall>c. row_ok ws (acsmStateTable a) s c) \<and>
        (\<exists>ml. mset ml = mset (pats_at ps (ws ! s)) \<and> MatchList (acsmStateTable a s) = with_tree b n ml))"

lemma compile_trees:
  assumes ne: "\<forall>p \<in> set (acsmPatterns a). patrn p \<noteq> []"
  shows "\<exists>a' ws. acsmCompile a b n = Some a' \<and> compiled_ok ws (acsmPatterns a) b n a'"
proof -
  obtain a1 ws where a1: "acsm_compile a = Some a1" "acsm_ok ws (acsmPatterns a) a1"
    using compile_spec [OF ne] by blast
  have nt: "compiled_ok ws (acsmPatterns a) b n a1" if "b = None \<or> n = None"
    using a1(2) that unfolding acsm_ok_def compiled_ok_def with_tree_def by (cases b; cases n) auto
  show ?thesis
  proof (cases "b = None \<or> n = None")
    case True
    then have "acsmCompile a b n = Some a1" using a1(1) by (cases b; cases n) (auto simp: acsmCompile_def)
    then show ?thesis using nt [OF True] by blast
  next
    case False
    then obtain bf nf where bn: "b = Some bf" "n = Some nf" by auto
    obtain cnt a2 where tr: "acsmBuildMatchStateTrees a1 bf nf = (cnt, a2)" by fastforce
    note t = build_trees_fold [of bf nf "acsmMaxStates a1" a1 cnt a2] tr [unfolded acsmBuildMatchStateTrees_def]
    have f: "\<And>s. NextState (acsmStateTable a2 s) = NextState (acsmStateTable a1 s)"
      "\<And>s. s < acsmMaxStates a1 \<Longrightarrow> MatchList (acsmStateTable a2 s) = state_tree bf nf (MatchList (acsmStateTable a1 s))"
      "acsmNumStates a2 = acsmNumStates a1" "acsmMaxStates a2 = acsmMaxStates a1"
      using t(1) [OF t(2)] by auto
    have "compiled_ok ws (acsmPatterns a) b n a2"
      using a1(2) f unfolding acsm_ok_def compiled_ok_def with_tree_def row_ok_def bn by auto
    moreover have "acsmCompile a b n = Some a2" using a1(1) tr bn by (simp add: acsmCompile_def)
    ultimately show ?thesis by blast
  qed
qed

section \<open>The naive search\<close>

fun naive_search ::
    "(bytes \<Rightarrow> ('i, 't, 'n) acsm_pattern) \<Rightarrow> ('i, 't, 'n) acsm_pattern list \<Rightarrow> ('i, 't, 'n, 'd) acsm_match \<Rightarrow>
     bytes \<Rightarrow> nat \<Rightarrow> bytes \<Rightarrow> nat \<Rightarrow> 'd \<Rightarrow> nat \<times> 'd \<times> bytes" where
  \<comment> \<open>\<open>v\<close> is the text read so far; \<open>h\<close> says which of the patterns that end here is reported\<close>
  "naive_search h ps match v pos [] n d = (n, d, v)"
| "naive_search h ps match v pos (c # cs) n d =
     (let v' = v @ [c] in
      if pats_at ps v' = [] then naive_search h ps match v' (pos + 1) cs n d
      else
        (case match (pat_id (h v')) (rule_option_tree (h v')) (int pos - int (length (patrn (h v'))) + 1) d
                (neg_list (h v')) of
           (stop, d') \<Rightarrow>
             if stop then (n + 1, d', v') else naive_search h ps match v' (pos + 1) cs (n + 1) d'))"

definition represents :: "bytes list \<Rightarrow> nat \<Rightarrow> bytes \<Rightarrow> bool" where
  "represents ws s v \<longleftrightarrow> s < length ws \<and> ws ! s = lsuf (set ws) v"

definition head_at ::
    "('i, 't, 'n) acsm_struct \<Rightarrow> bytes list \<Rightarrow> bytes \<Rightarrow> ('i, 't, 'n) acsm_pattern" where
  "head_at a ws v = hd (MatchList (acsmStateTable a (idx ws (lsuf (set ws) v))))"

lemma compiled_row:
  assumes ok: "compiled_ok ws ps b n a" and r: "represents ws s v"
  shows "\<exists>s'. NextState (acsmStateTable a s) c = Some s' \<and> represents ws s' (v @ [c])"
proof -
  have w: "words_ok ws" and s: "s < length ws" "ws ! s = lsuf (set ws) v"
    using ok r by (simp_all add: compiled_ok_def represents_def)
  have "row_ok ws (acsmStateTable a) s c" using ok s(1) by (simp add: compiled_ok_def)
  then obtain m where "m < length ws" "NextState (acsmStateTable a s) c = Some m"
    "ws ! m = lsuf (set ws) (ws ! s @ [c])"
    unfolding row_ok_def by blast
  then show ?thesis using s(2) lsuf_snoc [OF words_okD(4) [OF w]] by (auto simp: represents_def)
qed

lemma compiled_list:
  assumes ok: "compiled_ok ws ps b n a" and r: "represents ws s v"
  shows "\<exists>ml. mset ml = mset (pats_at ps v) \<and> MatchList (acsmStateTable a s) = with_tree b n ml"
proof -
  have s: "s < length ws" "ws ! s = lsuf (set ws) v" using r by (simp_all add: represents_def)
  have "\<And>p. p \<in> set ps \<Longrightarrow> patrn p \<in> set ws" using ok by (simp add: compiled_ok_def pats_ok_def)
  then have "pats_at ps (ws ! s) = pats_at ps v" unfolding s(2) by (rule pats_at_lsuf)
  then show ?thesis using ok s(1) unfolding compiled_ok_def by metis
qed

lemma represents_idx:
  assumes "words_ok ws" "represents ws s v"
  shows "idx ws (lsuf (set ws) v) = s"
  using assms(2) idx_eq [OF words_okD(3) [OF assms(1)]] by (simp add: represents_def)

lemma search_loop_naive:
  assumes ok: "compiled_ok ws ps b n a"
  shows "represents ws s v \<Longrightarrow>
    (case naive_search (head_at a ws) ps match v pos cs k d of
       (k', d', v') \<Rightarrow> \<exists>s'. search_loop (acsmStateTable a) match s pos cs k d = Some (k', d', s') \<and> represents ws s' v')"
proof (induction cs arbitrary: s v pos k d)
  case (Cons c cs)
  have w: "words_ok ws" using ok by (simp add: compiled_ok_def)
  obtain s' where s': "NextState (acsmStateTable a s) c = Some s'" "represents ws s' (v @ [c])"
    using compiled_row [OF ok Cons.prems] by blast
  obtain ml where ml: "mset ml = mset (pats_at ps (v @ [c]))" "MatchList (acsmStateTable a s') = with_tree b n ml"
    using compiled_list [OF ok s'(2)] by blast
  have h: "head_at a ws (v @ [c]) = hd (MatchList (acsmStateTable a s'))"
    using represents_idx [OF w s'(2)] by (simp add: head_at_def)
  show ?case
  proof (cases "MatchList (acsmStateTable a s')")
    case Nil
    then have "pats_at ps (v @ [c]) = []" using ml by simp
    then show ?thesis using Cons.IH [OF s'(2)] s'(1) Nil by simp
  next
    case (Cons m ms)
    then have ne: "pats_at ps (v @ [c]) \<noteq> []" using ml by (metis mset_zero_iff with_tree_Nil list.distinct(1))
    obtain stop d' where m: "match (pat_id m) (rule_option_tree m) (int pos - int (length (patrn m)) + 1) d (neg_list m) = (stop, d')"
      by fastforce
    have hm: "head_at a ws (v @ [c]) = m" using h Cons by simp
    show ?thesis
      using Cons.IH [OF s'(2), of "pos + 1" "k + 1" d'] s' m ne hm Cons by (cases stop) simp_all
  qed
qed simp

section \<open>Properties\<close>

lemma state_table_alloc_fits:
  "ACSM_STATETABLE_SIZE * n < 2147483648 \<Longrightarrow> state_table_alloc n = Some (ACSM_STATETABLE_SIZE * n)"
proof -
  assume b: "ACSM_STATETABLE_SIZE * n < 2147483648"
  define m where "m = ACSM_STATETABLE_SIZE * n"
  have "sint (of_nat m :: 32 word) = int m"
    using b unfolding m_def [symmetric] by (simp add: signed_of_nat signed_take_bit_int_eq_self)
  then show ?thesis by (simp add: state_table_alloc_def m_def [symmetric] AC_MALLOC_def)
qed

text \<open>The other way round: from \<open>2^31\<close> bytes on the block is missing or too small, and \<open>memset\<close> of the
  whole table writes behind it.\<close>

lemma state_table_alloc_short:
  assumes "2147483648 \<le> ACSM_STATETABLE_SIZE * n"
  shows "state_table_alloc n = None \<or> the (state_table_alloc n) < ACSM_STATETABLE_SIZE * n"
proof -
  define m where "m = ACSM_STATETABLE_SIZE * n"
  have "sint (of_nat m :: 32 word) < 2147483648" using sint_lt [of "of_nat m :: 32 word"] by simp
  then show ?thesis
    using assms unfolding state_table_alloc_def m_def [symmetric] AC_MALLOC_def by (auto simp: nat_less_iff)
qed

lemma new_states_max: "new_states a s p = (a', s') \<Longrightarrow> acsmMaxStates a' = acsmMaxStates a"
  by (induction a s p rule: new_states.induct) (auto simp: Let_def)

lemma add_patterns_max:
  "acsmMaxStates (fold (\<lambda>p a. AddPatternStates a p) ps a) = acsmMaxStates a"
proof (induction ps arbitrary: a)
  case (Cons p ps)
  have "acsmMaxStates (AddPatternStates a p) = acsmMaxStates a"
    using new_states_max by (fastforce simp: AddPatternStates_def AddMatchListEntry_def Let_def split: prod.split)
  then show ?case using Cons by simp
qed simp

lemma build_convert_max:
  "Build_NFA a = Some a' \<Longrightarrow> acsmMaxStates a' = acsmMaxStates a"
  "Convert_NFA_To_DFA a = Some a' \<Longrightarrow> acsmMaxStates a' = acsmMaxStates a"
  by (auto simp: Build_NFA_def Convert_NFA_To_DFA_def split: option.splits)

lemma compile_max_states:
  assumes "acsmCompile a b n = Some a'"
  shows "acsmMaxStates a' = 1 + sum_list (map (\<lambda>p. length (patrn p)) (acsmPatterns a))"
proof -
  obtain a1 where a1: "acsm_compile a = Some a1" using assms by (auto simp: acsmCompile_def split: option.splits)
  then have "acsmMaxStates a1 = 1 + sum_list (map (\<lambda>p. length (patrn p)) (acsmPatterns a))"
    using build_convert_max
    by (fastforce simp: acsm_compile_def root_total_def trie_of_def add_patterns_max Let_def split: option.splits)
  moreover have "acsmMaxStates (snd (acsmBuildMatchStateTrees a1 bf nf)) = acsmMaxStates a1" for bf nf
  proof -
    obtain cnt a2 where tr: "acsmBuildMatchStateTrees a1 bf nf = (cnt, a2)" by fastforce
    from build_trees_fold [OF tr [unfolded acsmBuildMatchStateTrees_def]] show ?thesis using tr by simp
  qed
  ultimately show ?thesis using assms a1 by (auto simp: acsmCompile_def split: option.splits)
qed

text \<open>
  C31. Compiling patterns that are not empty returns.  While the table is smaller than \<open>2^31\<close>
  bytes (two million bytes of patterns), the block \<open>AC_MALLOC\<close> gives has room for
  \<open>acsmMaxStates\<close> entries, and exactly then; the states that are numbered are fewer, and from
  each of them every byte leads to such a state: the search never reads outside the block.
\<close>

theorem acsmCompile_safe:
  assumes "\<forall>p \<in> set (acsmPatterns a). patrn p \<noteq> []"
  shows "\<exists>a'. acsmCompile a build_tree neg_list_func = Some a' \<and>
    acsmMaxStates a' = 1 + sum_list (map (\<lambda>p. length (patrn p)) (acsmPatterns a)) \<and>
    (state_table_alloc (acsmMaxStates a') = Some (ACSM_STATETABLE_SIZE * acsmMaxStates a') \<longleftrightarrow>
       ACSM_STATETABLE_SIZE * acsmMaxStates a' < 2147483648) \<and>
    acsmNumStates a' < acsmMaxStates a' \<and>
    (\<forall>s \<le> acsmNumStates a'. \<forall>c. \<exists>s'. NextState (acsmStateTable a' s) c = Some s' \<and> s' \<le> acsmNumStates a')"
proof -
  obtain a' ws where c: "acsmCompile a build_tree neg_list_func = Some a'"
    "compiled_ok ws (acsmPatterns a) build_tree neg_list_func a'"
    using compile_trees [OF assms] by blast
  have n: "acsmNumStates a' + 1 = length ws" "length ws \<le> acsmMaxStates a'"
    using c(2) by (simp_all add: compiled_ok_def)
  have row: "row_ok ws (acsmStateTable a') s x" if "s < length ws" for s x
    using c(2) that by (simp add: compiled_ok_def)
  have "\<exists>s'. NextState (acsmStateTable a' s) x = Some s' \<and> s' \<le> acsmNumStates a'"
    if "s \<le> acsmNumStates a'" for s x
  proof -
    have "s < length ws" using that n(1) by linarith
    then obtain m where "m < length ws" "NextState (acsmStateTable a' s) x = Some m"
      using row [of s x] unfolding row_ok_def by blast
    then show ?thesis using n(1) by (intro exI [of _ m]) linarith
  qed
  moreover have alloc: "state_table_alloc k = Some (ACSM_STATETABLE_SIZE * k) \<longleftrightarrow> ACSM_STATETABLE_SIZE * k < 2147483648" for k
    using state_table_alloc_fits [of k] state_table_alloc_short [of k] by fastforce
  ultimately show ?thesis
    using c(1) n compile_max_states [OF c(1)] by (intro exI [of _ a'] conjI allI impI) (rule alloc | simp)+
qed

definition acsm_demo :: "(nat, nat, nat) acsm_struct" where
  "acsm_demo = acsmAddPattern (acsmAddPattern (acsmAddPattern acsmNew [0x68, 0x65] False 0 0 False (Some 1) 1)
     [0x53, 0x48, 0x45] False 0 0 False (Some 2) 2) [0x72] False 0 0 True (Some 3) 3"

lemma acsm_demo_patterns:
  "map (\<lambda>p. (patrn p, pat_id p)) (acsmPatterns acsm_demo) = [([0x52], Some 3), ([0x53, 0x48, 0x45], Some 2), ([0x48, 0x45], Some 1)]"
  "\<forall>p \<in> set (acsmPatterns acsm_demo). patrn p \<noteq> []"
  by (simp_all add: acsm_demo_def acsmAddPattern_def acsmNew_def ConvertCaseEx_def xlatcase_def)

theorem acsmCompile_safe_witness:
  "\<exists>a'. acsmCompile acsm_demo None None = Some a' \<and> acsmNumStates a' < acsmMaxStates a' \<and> acsmMaxStates a' = 7 \<and>
     state_table_alloc (acsmMaxStates a') = Some 7280"
proof -
  have p: "map (\<lambda>p. length (patrn p)) (acsmPatterns acsm_demo) = [1, 3, 2]"
    by (simp add: acsm_demo_def acsmAddPattern_def acsmNew_def ConvertCaseEx_def)
  from acsmCompile_safe [OF acsm_demo_patterns(2), of None None] obtain a' where a':
    "acsmCompile acsm_demo None None = Some a'" "acsmMaxStates a' = 7" "acsmNumStates a' < acsmMaxStates a'"
    "state_table_alloc (acsmMaxStates a') = Some (ACSM_STATETABLE_SIZE * acsmMaxStates a') \<longleftrightarrow>
       ACSM_STATETABLE_SIZE * acsmMaxStates a' < 2147483648"
    unfolding p by auto
  then show ?thesis by (intro exI [of _ a']) (simp add: ACSM_STATETABLE_SIZE_def)
qed

text \<open>
  C4. The search is the naive one, over any number of buffers: a run over the automaton from a
  state that represents the text of the earlier buffers makes the same calls of \<open>Match\<close>, with the
  same results, as looking at every byte for the patterns that are suffixes of the case-folded
  text read so far.  \<open>Match\<close> gets the first entry of a list of exactly these patterns, with the
  tree and the negated list that were built from that list.
\<close>

theorem acsmSearch_naive:
  assumes "\<forall>p \<in> set (acsmPatterns a). patrn p \<noteq> []"
  shows "\<exists>a' h R. acsmCompile a build_tree neg_list_func = Some a' \<and> R 0 [] \<and>
    (\<forall>v. pats_at (acsmPatterns a) v \<noteq> [] \<longrightarrow>
       (\<exists>ml. mset ml = mset (pats_at (acsmPatterns a) v) \<and> h v = hd (with_tree build_tree neg_list_func ml))) \<and>
    (\<forall>s v Tx match data. R s v \<longrightarrow> length Tx \<le> 65536 \<longrightarrow>
       (case naive_search h (acsmPatterns a) match v 0 (ConvertCaseEx Tx) 0 data of
          (n, d, v') \<Rightarrow> \<exists>s'. acsmSearch a' Tx match data (Some s) = Some (n, d, Some s') \<and> R s' v'))"
proof -
  obtain a' ws where c: "acsmCompile a build_tree neg_list_func = Some a'"
    "compiled_ok ws (acsmPatterns a) build_tree neg_list_func a'"
    using compile_trees [OF assms] by blast
  have w: "words_ok ws" using c(2) by (simp add: compiled_ok_def)
  have heads: "\<exists>ml. mset ml = mset (pats_at (acsmPatterns a) v) \<and>
      head_at a' ws v = hd (with_tree build_tree neg_list_func ml)" for v
  proof -
    have "represents ws (idx ws (lsuf (set ws) v)) v"
      using idx_nth [OF lsuf_in [OF words_okD(5) [OF w]], of v] by (simp add: represents_def)
    from compiled_list [OF c(2) this] show ?thesis by (auto simp: head_at_def)
  qed
  have sim: "case naive_search (head_at a' ws) (acsmPatterns a) match v 0 (ConvertCaseEx Tx) 0 data of
      (n, d, v') \<Rightarrow> \<exists>s'. acsmSearch a' Tx match data (Some s) = Some (n, d, Some s') \<and> represents ws s' v'"
    if "represents ws s v" "length Tx \<le> 65536" for s v Tx match and data :: 'd
    using search_loop_naive [OF c(2) that(1), of match 0 "ConvertCaseEx Tx" 0 data] that(2)
    by (auto simp: acsmSearch_def)
  have start: "represents ws 0 []" using words_okD(1,2) [OF w] by (simp add: represents_def)
  show ?thesis
  proof (rule exI [of _ a'], rule exI [of _ "head_at a' ws"], rule exI [of _ "represents ws"], intro conjI)
    show "acsmCompile a build_tree neg_list_func = Some a'" by (rule c(1))
    show "represents ws 0 []" by (rule start)
  qed (use heads sim in blast)+
qed

theorem acsmSearch_naive_witness:
  "\<exists>a' h. acsmCompile acsm_demo None None = Some a' \<and>
     (case naive_search h (acsmPatterns acsm_demo) (\<lambda>i t k d g. (True, Suc d)) [] 0 (ConvertCaseEx [0x73, 0x68, 0x65]) 0 0 of
        (n, d, v') \<Rightarrow> \<exists>s'. acsmSearch a' [0x73, 0x68, 0x65] (\<lambda>i t k d g. (True, Suc d)) 0 (Some 0) = Some (n, d, Some s'))"
proof -
  obtain a' h R where c: "acsmCompile acsm_demo None None = Some a'" "R 0 []"
    and sim: "\<forall>s v Tx match data. R s v \<longrightarrow> length Tx \<le> 65536 \<longrightarrow>
       (case naive_search h (acsmPatterns acsm_demo) match v 0 (ConvertCaseEx Tx) 0 (data :: nat) of
          (n, d, v') \<Rightarrow> \<exists>s'. acsmSearch a' Tx match data (Some s) = Some (n, d, Some s') \<and> R s' v')"
    using acsmSearch_naive [OF acsm_demo_patterns(2), of None None] by (elim exE conjE)
  have "case naive_search h (acsmPatterns acsm_demo) (\<lambda>i t k d g. (True, Suc d)) [] 0 (ConvertCaseEx [0x73, 0x68, 0x65]) 0 0 of
        (n, d, v') \<Rightarrow>
          \<exists>s'. acsmSearch a' [0x73, 0x68, 0x65] (\<lambda>i t k d g. (True, Suc d)) 0 (Some 0) = Some (n, d, Some s') \<and> R s' v'"
    using sim [rule_format, OF c(2), of "[0x73, 0x68, 0x65]" "\<lambda>i t k d g. (True, Suc d)" 0] by simp
  then show ?thesis using c(1) by (intro exI [of _ a'] exI [of _ h]) (auto split: prod.splits)
qed

lemma naive_count:
  "naive_search h ps (\<lambda>i t k d g. (False, d)) v pos cs n d =
     (n + length (filter (\<lambda>i. pats_at ps (v @ take (Suc i) cs) \<noteq> []) [0 ..< length cs]), d, v @ cs)"
proof (induction cs arbitrary: v pos n)
  case (Cons c cs)
  have "[0 ..< length (c # cs)] = 0 # map Suc [0 ..< length cs]" by (simp add: upt_conv_Cons map_Suc_upt del: upt_Suc)
  then have "filter (\<lambda>i. pats_at ps (v @ take (Suc i) (c # cs)) \<noteq> []) [0 ..< length (c # cs)] =
      (if pats_at ps (v @ [c]) \<noteq> [] then [0] else []) @
      map Suc (filter (\<lambda>i. pats_at ps ((v @ [c]) @ take (Suc i) cs) \<noteq> []) [0 ..< length cs])"
    by (simp add: filter_map comp_def)
  then show ?case using Cons by (simp add: Let_def)
qed simp

lemma pats_at_nonempty: "pats_at ps v \<noteq> [] \<longleftrightarrow> (\<exists>p \<in> set ps. suffix (patrn p) v)"
  by (auto simp: pats_at_def filter_empty_conv)

text \<open>
  C32. With a \<open>Match\<close> that never stops the search, \<open>acsmSearch\<close> answers the number of positions of
  the buffer at which some pattern ends, upper and lower case letters taken as equal.
\<close>

theorem acsmSearch_counts:
  assumes "\<forall>p \<in> set (acsmPatterns a). patrn p \<noteq> []" and "length Tx \<le> 65536"
  shows "\<exists>a' s'. acsmCompile a build_tree neg_list_func = Some a' \<and>
    acsmSearch a' Tx (\<lambda>i t k d g. (False, d)) data (Some 0) =
      Some (length (filter (\<lambda>i. \<exists>p \<in> set (acsmPatterns a). suffix (patrn p) (ConvertCaseEx (take (Suc i) Tx)))
              [0 ..< length Tx]), data, Some s')"
proof -
  obtain a' ws where c: "acsmCompile a build_tree neg_list_func = Some a'"
    "compiled_ok ws (acsmPatterns a) build_tree neg_list_func a'"
    using compile_trees [OF assms(1)] by blast
  have "represents ws 0 []" using c(2) words_okD(1,2) [of ws] by (simp add: compiled_ok_def represents_def)
  from search_loop_naive [OF c(2) this, of "\<lambda>i t k d g. (False, d)" 0 "ConvertCaseEx Tx" 0 data] obtain s' where
    "search_loop (acsmStateTable a') (\<lambda>i t k d g. (False, d)) 0 0 (ConvertCaseEx Tx) 0 data =
      Some (length (filter (\<lambda>i. pats_at (acsmPatterns a) (take (Suc i) (ConvertCaseEx Tx)) \<noteq> []) [0 ..< length (ConvertCaseEx Tx)]),
        data, s')"
    by (auto simp: naive_count)
  then show ?thesis
    using c(1) assms(2) by (simp add: acsmSearch_def pats_at_nonempty ConvertCaseEx_def take_map)
qed

theorem acsmSearch_counts_witness:
  "\<exists>a' s'. acsmCompile acsm_demo None None = Some a' \<and>
     acsmSearch a' [0x75, 0x73, 0x68, 0x65, 0x72, 0x73] (\<lambda>i t k d g. (False, d)) () (Some 0) = Some (2, (), Some s')"
proof -
  have e: "length (filter (\<lambda>i. \<exists>p \<in> set (acsmPatterns acsm_demo).
      suffix (patrn p) (ConvertCaseEx (take (Suc i) [0x75, 0x73, 0x68, 0x65, 0x72, 0x73]))) [0 ..< length [0x75 :: u8, 0x73, 0x68, 0x65, 0x72, 0x73]]) = 2"
    by (simp add: acsm_demo_def acsmAddPattern_def acsmNew_def ConvertCaseEx_def xlatcase_def upt_rec suffix_def append_eq_Cons_conv)
  have "length [0x75 :: u8, 0x73, 0x68, 0x65, 0x72, 0x73] \<le> 65536" by simp
  from acsmSearch_counts [OF acsm_demo_patterns(2) this, of None None "()"] show ?thesis unfolding e .
qed

end
