(* ===== verification/Mime.thy ===== *)
theory Mime
  imports Prelude
begin

text \<open>
  Decoding of mail attachments: base64 (\<open>sfutil/sf_base64decode.c\<close>), header unfolding and
  stripping (\<open>sfutil/util_unfold.c\<close>), quoted-printable, uuencode and the per-session decoding
  state (\<open>sfutil/sf_email_attach_decode.c\<close> and \<open>.h\<close>).

  A buffer is the list of its bytes.  A loop that moves an input pointer recurses over the
  bytes from the pointer on; what it writes is its result.  The sizes of destination buffers
  are natural numbers inside the loops and \<open>u32\<close> in the state.
\<close>

abbreviation CR :: u8 where "CR \<equiv> 0x0D"
abbreviation LF :: u8 where "LF \<equiv> 0x0A"
abbreviation SP :: u8 where "SP \<equiv> 0x20"
abbreviation HT :: u8 where "HT \<equiv> 0x09"
abbreviation EQ :: u8 where "EQ \<equiv> 0x3D"

section \<open>Base64\<close>

definition sf_decode64tab :: "u8 list" where
  "sf_decode64tab =
    [100,100,100,100,100,100,100,100,100,100,100,100,100,100,100,100,
     100,100,100,100,100,100,100,100,100,100,100,100,100,100,100,100,
     100,100,100,100,100,100,100,100,100,100,100,62 ,100,100,100, 63,
      52, 53, 54, 55, 56, 57, 58, 59, 60, 61,100,100,100, 99,100,100,
     100,  0,  1,  2,  3,  4,  5,  6,  7,  8,  9, 10, 11, 12, 13, 14,
      15, 16, 17, 18, 19, 20, 21, 22, 23, 24, 25,100,100,100,100,100,
     100, 26, 27, 28, 29, 30, 31, 32, 33, 34, 35, 36, 37, 38, 39, 40,
      41, 42, 43, 44, 45, 46, 47, 48, 49, 50, 51,100,100,100,100,100,
     100,100,100,100,100,100,100,100,100,100,100,100,100,100,100,100,
     100,100,100,100,100,100,100,100,100,100,100,100,100,100,100,100,
     100,100,100,100,100,100,100,100,100,100,100,100,100,100,100,100,
     100,100,100,100,100,100,100,100,100,100,100,100,100,100,100,100,
     100,100,100,100,100,100,100,100,100,100,100,100,100,100,100,100,
     100,100,100,100,100,100,100,100,100,100,100,100,100,100,100,100,
     100,100,100,100,100,100,100,100,100,100,100,100,100,100,100,100,
     100,100,100,100,100,100,100,100,100,100,100,100,100,100,100,100]"

definition tab64 :: "u8 \<Rightarrow> u8" where
  "tab64 c = sf_decode64tab ! unat c"

text \<open>
  The decoding loop: \<open>room\<close> is what is left of the output, \<open>left\<close> what is left of the limit on
  base64 characters, \<open>grp\<close> the characters collected for the next group.  The result says
  whether the input was in error, and the bytes written.
\<close>

definition b64_group :: "nat \<Rightarrow> bytes \<Rightarrow> bytes \<times> bool" where
  \<comment> \<open>the bytes of a group without \<open>=\<close> in its first half, and whether the loop goes on\<close>
  "b64_group room grp =
     (let a = tab64 (grp ! 0); b = tab64 (grp ! 1); c = tab64 (grp ! 2); d = tab64 (grp ! 3);
          o1 = (if 0 < room then [push_bit 2 a OR drop_bit 4 b] else [])
      in if grp ! 2 \<noteq> EQ \<and> length o1 < room then
           let o2 = o1 @ [push_bit 4 b OR drop_bit 2 c]
           in if grp ! 3 \<noteq> EQ \<and> length o2 < room then (o2 @ [push_bit 6 c OR d], True) else (o2, False)
         else (o1, False))"

fun b64_loop :: "nat \<Rightarrow> nat \<Rightarrow> bytes \<Rightarrow> bytes \<Rightarrow> bool \<times> bytes" where
  "b64_loop room left grp [] = (False, [])"
| "b64_loop room left grp (c # cs) =
     (if left = 0 then (False, [])
      else if tab64 c = 100 then b64_loop room left grp cs
      else if length (grp @ [c]) < 4 then b64_loop room (left - 1) (grp @ [c]) cs
      else if (grp @ [c]) ! 0 = EQ \<or> (grp @ [c]) ! 1 = EQ then (True, [])
      else
        (case b64_group room (grp @ [c]) of
           (out, go) \<Rightarrow>
             if go then (case b64_loop (room - length out) (left - 1) [] cs of (e, out') \<Rightarrow> (e, out @ out'))
             else (False, out)))"

definition sf_base64decode :: "bytes \<Rightarrow> u32 \<Rightarrow> int \<times> bytes" where
  "sf_base64decode inbuf outbuf_size =
     (case b64_loop (unat outbuf_size) (unat (outbuf_size div 3 * 4 + 4)) [] inbuf of
        (e, out) \<Rightarrow> (if e then -1 else 0, out))"

section \<open>Stripping and unfolding\<close>

fun strip_crlf :: "nat \<Rightarrow> bytes \<Rightarrow> bytes" where
  "strip_crlf room [] = []"
| "strip_crlf 0 (c # cs) = []"
| "strip_crlf (Suc room) (c # cs) =
     (if c \<noteq> LF \<and> c \<noteq> CR then c # strip_crlf room cs else strip_crlf (Suc room) cs)"

definition sf_strip_CRLF :: "bytes \<Rightarrow> u32 \<Rightarrow> bytes" where
  "sf_strip_CRLF inbuf outbuf_size = strip_crlf (unat outbuf_size) inbuf"

definition is_lws :: "u8 \<Rightarrow> bool" where
  "is_lws c \<longleftrightarrow> c = SP \<or> c = HT"

fun strip_lws :: "nat \<Rightarrow> bool \<Rightarrow> bytes \<Rightarrow> bytes \<Rightarrow> bytes" where
  \<comment> \<open>\<open>out\<close> is the output so far, backwards; \<open>lws\<close> whether its last byte was white space\<close>
  "strip_lws sz lws out [] = rev out"
| "strip_lws sz lws out (c # cs) =
     (if \<not> length out < sz then rev out
      else if c \<noteq> LF \<and> c \<noteq> CR then strip_lws sz (is_lws c) (c # out) cs
      else strip_lws sz False (c # (if lws then dropWhile is_lws out else out)) cs)"

definition sf_strip_LWS :: "bytes \<Rightarrow> u32 \<Rightarrow> bytes" where
  "sf_strip_LWS inbuf outbuf_size = strip_lws (unat outbuf_size) False [] inbuf"

text \<open>
  \<open>sf_unfold_header\<close>: \<open>n\<close> counts the bytes that are not white space, \<open>fold\<close> is
  \<open>httpheaderfolding\<close>.  The result is what the loop writes, whether \<open>n\<close> stayed below the size,
  and the number of folded spaces.
\<close>

fun unfold_loop ::
    "nat \<Rightarrow> bool \<Rightarrow> nat \<Rightarrow> nat \<Rightarrow> bool \<Rightarrow> int \<Rightarrow> bytes \<Rightarrow> bytes \<times> nat \<times> int" where
  "unfold_loop sz trim n hfold present spaces [] = ([], n, spaces)"
| "unfold_loop sz trim n hfold present spaces (c # cs) =
     (if \<not> n < sz then ([], n, spaces)
      else if is_lws c then
        (let spaces1 = (if present then spaces + 1 else spaces) in
         if hfold \<noteq> 0 then unfold_loop sz trim n 0 True (spaces1 + 1) cs
         else if \<not> trim then
           (case unfold_loop sz trim n hfold present spaces1 cs of (out, r) \<Rightarrow> (c # out, r))
         else unfold_loop sz trim n hfold present spaces1 cs)
      else if c = LF \<and> hfold \<noteq> 1 then unfold_loop sz trim n 1 present spaces cs
      else if c = CR \<and> hfold = 0 then unfold_loop sz trim n 2 present spaces cs
      else if hfold = 0 then
        (case unfold_loop sz trim (n + 1) hfold present spaces cs of (out, r) \<Rightarrow> (c # out, r))
      else ([], n, spaces))"

definition sf_unfold_header :: "bytes \<Rightarrow> u32 \<Rightarrow> bool \<Rightarrow> (nat \<Rightarrow> u8) \<Rightarrow> (nat \<Rightarrow> u8) \<times> nat \<times> int" where
  \<comment> \<open>the memory from \<open>outbuf\<close> on, before and after; \<open>output_bytes\<close>; \<open>folded\<close>\<close>
  "sf_unfold_header inbuf outbuf_size trim_spaces mem =
     (case unfold_loop (unat outbuf_size) trim_spaces 0 0 False 0 inbuf of
        (out, n, spaces) \<Rightarrow>
          let mem1 = (\<lambda>i. if i < length out then out ! i else mem i)
          in (if n < unat outbuf_size then mem1(length out := 0) else mem1(unat (outbuf_size - 1) := 0),
              length out, spaces))"

section \<open>Quoted-printable\<close>

definition isprint :: "u8 \<Rightarrow> bool" where
  "isprint c \<longleftrightarrow> 0x20 \<le> c \<and> c \<le> 0x7E"

definition hexval :: "u8 \<Rightarrow> u8 option" where
  "hexval c =
     (if 0x30 \<le> c \<and> c \<le> 0x39 then Some (c - 0x30)
      else if 0x41 \<le> c \<and> c \<le> 0x46 then Some (c - 0x41 + 10)
      else if 0x61 \<le> c \<and> c \<le> 0x66 then Some (c - 0x61 + 10)
      else None)"

definition out_cons :: "u8 \<Rightarrow> bytes \<times> bytes \<Rightarrow> bytes \<times> bytes" where
  "out_cons c p = (c # fst p, snd p)"

fun qp_loop :: "nat \<Rightarrow> bytes \<Rightarrow> bytes \<times> bytes" where
  \<comment> \<open>the bytes written, and the source bytes not read\<close>
  "qp_loop room [] = ([], [])"
| "qp_loop 0 (ch # cs) = ([], ch # cs)"
| "qp_loop (Suc room) (ch # cs) =
     (if ch = EQ then
        (case cs of
           [] \<Rightarrow> ([], [ch])
         | c1 # r1 \<Rightarrow>
             if c1 = LF then qp_loop (Suc room) r1
             else
               (case r1 of
                  [] \<Rightarrow> ([], ch # cs)
                | c2 # r2 \<Rightarrow>
                    if c1 = CR \<and> c2 = LF then qp_loop (Suc room) r2
                    else
                      (case (hexval c1, hexval c2) of
                         (Some h, Some l) \<Rightarrow> out_cons (push_bit 4 h OR l) (qp_loop room r2)
                       | _ \<Rightarrow> out_cons ch (qp_loop room cs))))
      else if isprint ch \<or> ch = HT \<or> ch = CR \<or> ch = LF then out_cons ch (qp_loop room cs)
      else qp_loop (Suc room) cs)"

definition sf_qpdecode :: "bytes \<Rightarrow> u32 \<Rightarrow> (bytes \<times> bytes) option" where
  \<comment> \<open>\<open>None\<close> for -1\<close>
  "sf_qpdecode src dlen = (if src = [] \<or> dlen = 0 then None else Some (qp_loop (unat dlen) src))"


section \<open>Uuencode\<close>

definition UU_DECODE_CHAR :: "u8 \<Rightarrow> u8" where
  "UU_DECODE_CHAR c = (c - 0x20) AND 0x3F"

fun snort_strnstr :: "u8 \<Rightarrow> bytes \<Rightarrow> nat \<Rightarrow> bytes \<Rightarrow> nat option" where
  \<comment> \<open>\<open>SnortStrnStr\<close> for the string \<open>ch # rest\<close>: the offset of its first occurrence\<close>
  "snort_strnstr ch rest pos [] = None"
| "snort_strnstr ch rest pos (nc # s) =
     (if nc = 0 \<or> s = [] then None
      else if nc \<noteq> ch then snort_strnstr ch rest (pos + 1) s
      else if length s < length rest then None
      else if take (length rest) s = rest then Some pos
      else snort_strnstr ch rest (pos + 1) s)"

primrec memchr :: "u8 \<Rightarrow> bytes \<Rightarrow> nat option" where
  "memchr c [] = None"
| "memchr c (b # bs) = (if b = c then Some 0 else map_option Suc (memchr c bs))"

definition MAX_UNICODE_FILE_NAME :: nat where "MAX_UNICODE_FILE_NAME = 1024"

definition uu_filename :: "bytes \<Rightarrow> bytes" where
  \<comment> \<open>the third word of the line \<open>begin mode filename\<close>\<close>
  "uu_filename sod =
     (case first_some (memchr CR sod) (memchr LF sod) of
        None \<Rightarrow> []
      | Some tlen \<Rightarrow>
          (case memchr SP (take tlen sod) of
             None \<Rightarrow> []
           | Some i \<Rightarrow>
               (case memchr SP (drop (i + 1) (take tlen sod)) of
                  None \<Rightarrow> []
                | Some j \<Rightarrow>
                    (let name = drop (i + 1 + j + 1) (take tlen sod)
                     in if length name \<le> MAX_UNICODE_FILE_NAME then name else []))))"

definition at_or :: "bytes \<Rightarrow> nat \<Rightarrow> u8 \<Rightarrow> u8" where
  \<comment> \<open>a read that may go one byte past the buffer, where \<open>beyond\<close> lies\<close>
  "at_or bs i beyond = (if i < length bs then bs ! i else beyond)"

fun uu_bytes :: "u8 \<Rightarrow> nat \<Rightarrow> bytes \<Rightarrow> bytes \<times> bytes" where
  \<comment> \<open>\<open>len\<close> encoded characters of a line; the second component is what is left of the source\<close>
  "uu_bytes beyond len p =
     (let d = (\<lambda>i. UU_DECODE_CHAR (at_or p i beyond));
          o1 = push_bit 2 (d 0) OR drop_bit 4 (d 1);
          o2 = push_bit 4 (d 1) OR drop_bit 2 (d 2);
          o3 = push_bit 6 (d 2) OR d 3
      in if len = 0 then ([], p)
         else if len = 1 then ([o1], drop 1 p)
         else if len = 2 then ([o1, o2], drop 2 p)
         else (case uu_bytes beyond (len - 4) (drop 4 p) of (out, r) \<Rightarrow> (o1 # o2 # o3 # out, r)))"

declare uu_bytes.simps [simp del]

lemma uu_bytes_rest: "length (snd (uu_bytes beyond len p)) \<le> length p"
proof (induction beyond len p rule: uu_bytes.induct)
  case (1 beyond len p)
  show ?case
  proof (cases "len \<le> 2")
    case True
    then show ?thesis by (subst uu_bytes.simps) (auto simp: Let_def)
  next
    case False
    then have "length (snd (uu_bytes beyond (len - 4) (drop 4 p))) \<le> length (drop 4 p)"
      by (intro 1) auto
    then show ?thesis using False by (subst uu_bytes.simps) (auto simp: Let_def split: prod.split)
  qed
qed

function uu_loop :: "u8 \<Rightarrow> nat \<Rightarrow> bool \<Rightarrow> bytes \<Rightarrow> bytes \<times> bytes \<times> bool" where
  \<comment> \<open>the bytes written, the source not read, and whether the end line was found\<close>
  "uu_loop beyond room sol [] = ([], [], False)"
| "uu_loop beyond room sol (c # cs) =
     (if room = 0 then ([], c # cs, False)
      else if c = LF then uu_loop beyond room True cs
      else if sol then
        (let len0 = unat (UU_DECODE_CHAR c);
             len = (if room < len0 then room else len0) * 4 div 3
         in if len0 = 0 then ([], c # cs, False)
            else if len0 = 5 \<and> c = 0x65 then ([], c # cs, True)
            else if length cs < len then ([], c # cs, False)
            else
              (let (out, r) = uu_bytes beyond len cs;
                   (out', r', e) = uu_loop beyond (room - length out) False r
               in (out @ out', r', e)))
      else uu_loop beyond room sol cs)"
  by pat_completeness auto
termination
proof (relation "measure (\<lambda>(_, _, _, bs). length bs)")
  fix beyond room sol c cs len0 len out r and x :: "bytes \<times> bytes"
  assume "x = uu_bytes beyond len cs" "(out, r) = x"
  then have "r = snd (uu_bytes beyond len cs)" by (metis snd_conv)
  then show "((beyond, room - length out, False, r), (beyond, room, sol, c # cs)) \<in> measure (\<lambda>(_, _, _, bs). length bs)"
    using uu_bytes_rest [of beyond len cs] by simp
qed simp_all

record uu_result =
  uur_read :: nat
  uur_out :: bytes
  uur_begin :: bool
  uur_end :: bool
  uur_name :: "bytes option"

definition uu_body :: "bytes \<Rightarrow> nat \<Rightarrow> u8 \<Rightarrow> bool \<Rightarrow> bytes option \<Rightarrow> bytes \<Rightarrow> uu_result" where
  "uu_body src dlen beyond end_found name p =
     (case uu_loop beyond dlen True p of
        (out, r, e) \<Rightarrow>
          \<lparr>uur_read = (if e \<or> end_found then length src else length src - length r), uur_out = out,
           uur_begin = True, uur_end = e \<or> end_found, uur_name = name\<rparr>)"

definition sf_uudecode :: "bytes \<Rightarrow> u32 \<Rightarrow> u8 \<Rightarrow> bool \<Rightarrow> bool \<Rightarrow> bool \<Rightarrow> uu_result option" where
  \<comment> \<open>\<open>want\<close>: the file name is asked for and not known yet\<close>
  "sf_uudecode src dlen beyond begin_found end_found want =
     (if src = [] \<or> dlen = 0 then None
      else if begin_found then Some (uu_body src (unat dlen) beyond end_found None src)
      else if length src < 5 then
        Some \<lparr>uur_read = 0, uur_out = [], uur_begin = False, uur_end = end_found, uur_name = None\<rparr>
      else
        (case snort_strnstr 0x62 [0x65, 0x67, 0x69, 0x6E] 0 (take 5 src) of
           None \<Rightarrow> None
         | Some i \<Rightarrow>
             (let sod = drop i src;
                  name = (if want then Some (uu_filename sod) else None)
              in case snort_strnstr LF [] 0 sod of
                   None \<Rightarrow>
                     Some \<lparr>uur_read = length src, uur_out = [], uur_begin = True, uur_end = end_found, uur_name = name\<rparr>
                 | Some k \<Rightarrow> Some (uu_body src (unat dlen) beyond end_found name (drop k sod)))))"

end
