(* ===== verification/MimeState.thy ===== *)
theory MimeState
  imports Mime
begin

text \<open>
  The decoding state of a mail session and its operations, \<open>sfutil/sf_email_attach_decode.c\<close>
  and \<open>.h\<close>.

  \<open>prev_encoded_buf\<close> with its length is the list \<open>prev_encoded\<close> of the bytes kept for the next
  packet; they lie in \<open>encodeBuf\<close>, which nothing else writes between two packets.  \<open>decodePtr\<close>
  with \<open>decoded_bytes\<close> is the list \<open>decoded\<close>.  \<open>has_bufs\<close> says that neither buffer is null.  The C
  type \<open>int\<close> of the depths is \<open>u32\<close> read with \<open>sint\<close>.
\<close>

datatype DecodeType = DECODE_NONE | DECODE_B64 | DECODE_QP | DECODE_UU | DECODE_BITENC | DECODE_ALL

datatype decode_result = DECODE_SUCCESS | DECODE_EXCEEDED | DECODE_FAIL

definition MAX_BUF :: u32 where "MAX_BUF = 65535"

record code_state =
  \<comment> \<open>\<open>Base64_DecodeState\<close>, \<open>QP_DecodeState\<close>, the counters of \<open>UU_DecodeState\<close>\<close>
  encode_bytes_read :: u32
  decode_bytes_read :: u32
  encode_depth :: u32
  decode_depth :: u32

record email_state =
  decode_type :: DecodeType
  decode_present :: bool
  prev_encoded :: bytes
  decoded :: bytes
  has_bufs :: bool
  b64_state :: code_state
  qp_state :: code_state
  uu_state :: code_state
  begin_found :: bool
  end_found :: bool
  bitenc_read :: u32
  bitenc_depth :: u32

definition getCodeDepth :: "u32 \<Rightarrow> u64 \<Rightarrow> u32" where
  "getCodeDepth code_depth file_depth =
     (if sint file_depth < 0 then code_depth
      else if sint file_depth > 65535 \<or> file_depth = 0 then 0
      else if sint file_depth > sint code_depth then ucast file_depth
      else code_depth)"

definition fresh_code :: "u32 \<Rightarrow> code_state" where
  "fresh_code d = \<lparr>encode_bytes_read = 0, decode_bytes_read = 0, encode_depth = d, decode_depth = d\<rparr>"

definition SetEmailDecodeState :: "bool \<Rightarrow> u32 \<Rightarrow> u32 \<Rightarrow> u32 \<Rightarrow> u32 \<Rightarrow> u64 \<Rightarrow> email_state" where
  "SetEmailDecodeState data b64_depth qp_depth uu_depth bitenc file_depth =
     \<lparr>decode_type = DECODE_NONE, decode_present = False, prev_encoded = [], decoded = [], has_bufs = data,
      b64_state = fresh_code (getCodeDepth b64_depth file_depth),
      qp_state = fresh_code (getCodeDepth qp_depth file_depth),
      uu_state = fresh_code (getCodeDepth uu_depth file_depth),
      begin_found = False, end_found = False,
      bitenc_read = 0, bitenc_depth = getCodeDepth bitenc file_depth\<rparr>"

definition updateMaxDepth :: "u64 \<Rightarrow> u32 \<Rightarrow> u32" where
  "updateMaxDepth file_depth max_depth =
     (if file_depth = 0 \<or> sint file_depth > 65535 then MAX_BUF
      else if sint file_depth > sint max_depth then ucast file_depth
      else max_depth)"

definition ClearPrevEncodeBuf :: "email_state \<Rightarrow> email_state" where
  "ClearPrevEncodeBuf ds = ds\<lparr>prev_encoded := []\<rparr>"

definition zero_counts :: "code_state \<Rightarrow> code_state" where
  "zero_counts c = c\<lparr>encode_bytes_read := 0, decode_bytes_read := 0\<rparr>"

definition ResetBytesRead :: "email_state \<Rightarrow> email_state" where
  "ResetBytesRead ds =
     (ClearPrevEncodeBuf (ds\<lparr>begin_found := False, end_found := False\<rparr>))
     \<lparr>b64_state := zero_counts (b64_state ds), qp_state := zero_counts (qp_state ds),
      uu_state := zero_counts (uu_state ds), bitenc_read := 0\<rparr>"

definition ResetDecodedBytes :: "email_state \<Rightarrow> email_state" where
  "ResetDecodedBytes ds = ds\<lparr>decoded := [], decode_present := False\<rparr>"

definition ResetEmailDecodeState :: "email_state \<Rightarrow> email_state" where
  "ResetEmailDecodeState ds =
     ClearPrevEncodeBuf (ResetDecodedBytes (ds\<lparr>begin_found := False, end_found := False\<rparr>))"

definition ClearEmailDecodeState :: "email_state \<Rightarrow> email_state" where
  "ClearEmailDecodeState ds = ResetEmailDecodeState (ds\<lparr>decode_type := DECODE_NONE\<rparr>)"

definition limitDetection :: "u32 \<Rightarrow> u32 \<Rightarrow> u32 \<Rightarrow> u32" where
  "limitDetection depth n tot =
     (if depth = 0 then n
      else if sint depth < sint (tot - n) then 0
      else if sint depth > sint tot then n
      else depth + n - tot)"

definition getDetectionSize :: "u32 \<Rightarrow> u32 \<Rightarrow> u32 \<Rightarrow> u32 \<Rightarrow> email_state \<Rightarrow> u32" where
  "getDetectionSize b64_depth qp_depth uu_depth bitenc ds =
     (let n = of_nat (length (decoded ds)) in
      case decode_type ds of
        DECODE_B64 \<Rightarrow> limitDetection b64_depth n (decode_bytes_read (b64_state ds))
      | DECODE_QP \<Rightarrow> limitDetection qp_depth n (decode_bytes_read (qp_state ds))
      | DECODE_UU \<Rightarrow> limitDetection uu_depth n (decode_bytes_read (uu_state ds))
      | DECODE_BITENC \<Rightarrow> limitDetection bitenc n (bitenc_read ds)
      | _ \<Rightarrow> 0)"

section \<open>The part the three decoders share\<close>

definition code_avail :: "code_state \<Rightarrow> u32 \<times> u32" where
  \<comment> \<open>\<open>encode_avail\<close>, \<open>decode_avail\<close>\<close>
  "code_avail c =
     (if encode_depth c = 0 then (MAX_BUF, MAX_BUF)
      else (encode_depth c - encode_bytes_read c, decode_depth c - decode_bytes_read c))"

definition take_prev :: "u32 \<Rightarrow> email_state \<Rightarrow> bytes" where
  \<comment> \<open>the bytes of the previous packet that are moved to the front of the buffer\<close>
  "take_prev encode_avail ds = take (unat encode_avail) (prev_encoded ds)"

definition after_decode :: "code_state \<Rightarrow> u32 \<Rightarrow> u32 \<Rightarrow> code_state" where
  "after_decode c n m = c\<lparr>encode_bytes_read := encode_bytes_read c + n, decode_bytes_read := decode_bytes_read c + m\<rparr>"

definition Base64Decode :: "bytes \<Rightarrow> email_state \<Rightarrow> decode_result \<times> email_state" where
  "Base64Decode data ds =
     (let c = b64_state ds in
      if sint (encode_depth c) < 0 then (DECODE_EXCEEDED, ds)
      else
        (case code_avail c of
           (encode_avail, decode_avail) \<Rightarrow>
             if encode_avail = 0 \<or> decode_avail = 0 \<or> \<not> has_bufs ds
             then (DECODE_EXCEEDED, ResetEmailDecodeState ds)
             else
               let prev = take_prev encode_avail ds;
                   avail = encode_avail - of_nat (length prev);
                   buf = prev @ sf_strip_CRLF data avail;
                   k = length buf mod 4;
                   text = take (length buf - k) buf
               in case sf_base64decode text decode_avail of
                    (e, out) \<Rightarrow>
                      if e \<noteq> 0 \<or> out = [] \<and> avail = 0 then (DECODE_FAIL, ResetEmailDecodeState ds)
                      else
                        (DECODE_SUCCESS,
                         ds\<lparr>decode_present := True, prev_encoded := drop (length buf - k) buf, decoded := out,
                            b64_state := after_decode c (of_nat (length text)) (of_nat (length out))\<rparr>)))"

definition QPDecode :: "bytes \<Rightarrow> email_state \<Rightarrow> decode_result \<times> email_state" where
  "QPDecode data ds =
     (let c = qp_state ds in
      if sint (encode_depth c) < 0 then (DECODE_EXCEEDED, ds)
      else
        (case code_avail c of
           (encode_avail, decode_avail) \<Rightarrow>
             if encode_avail = 0 \<or> decode_avail = 0 \<or> \<not> has_bufs ds
             then (DECODE_EXCEEDED, ResetEmailDecodeState ds)
             else
               let prev = take_prev encode_avail ds;
                   avail = encode_avail - of_nat (length prev);
                   buf = prev @ sf_strip_LWS data avail
               in case sf_qpdecode buf decode_avail of
                    None \<Rightarrow> (DECODE_FAIL, ResetEmailDecodeState ds)
                  | Some (out, rest) \<Rightarrow>
                      if out = [] \<and> avail = 0 then (DECODE_FAIL, ResetEmailDecodeState ds)
                      else
                        (DECODE_SUCCESS,
                         ds\<lparr>decode_present := True, prev_encoded := rest, decoded := out,
                            qp_state := after_decode c (of_nat (length buf - length rest)) (of_nat (length out))\<rparr>)))"

definition UUDecode ::
    "bytes \<Rightarrow> email_state \<Rightarrow> u8 \<Rightarrow> bool \<Rightarrow> decode_result \<times> email_state \<times> bytes option" where
  "UUDecode data ds beyond want =
     (let c = uu_state ds in
      if sint (encode_depth c) < 0 then (DECODE_EXCEEDED, ds\<lparr>begin_found := False\<rparr>, None)
      else
        (case code_avail c of
           (encode_avail, decode_avail) \<Rightarrow>
             if encode_avail = 0 \<or> decode_avail = 0 \<or> \<not> has_bufs ds
             then (DECODE_EXCEEDED, ResetEmailDecodeState ds, None)
             else
               let prev = take_prev encode_avail ds;
                   avail = encode_avail - of_nat (length prev);
                   buf = prev @ take (unat avail) data
               in case sf_uudecode buf decode_avail beyond (begin_found ds) (end_found ds) want of
                    None \<Rightarrow> (DECODE_FAIL, ResetEmailDecodeState ds, None)
                  | Some u \<Rightarrow>
                      if uur_out u = [] \<and> avail = 0 then (DECODE_FAIL, ResetEmailDecodeState ds, uur_name u)
                      else
                        (DECODE_SUCCESS,
                         ds\<lparr>decode_present := True, prev_encoded := drop (uur_read u) buf, decoded := uur_out u,
                            begin_found := uur_begin u \<and> \<not> uur_end u, end_found := False,
                            uu_state := after_decode c (of_nat (uur_read u)) (of_nat (length (uur_out u)))\<rparr>,
                         uur_name u)))"

definition BitEncExtract :: "bytes \<Rightarrow> email_state \<Rightarrow> decode_result \<times> email_state" where
  "BitEncExtract data ds0 =
     (let ds = ClearPrevEncodeBuf ds0 in
      if sint (bitenc_depth ds) < 0 then (DECODE_EXCEEDED, ds)
      else
        let avail = (if bitenc_depth ds = 0 then MAX_BUF else bitenc_depth ds - bitenc_read ds) in
        if avail = 0 then (DECODE_EXCEEDED, ResetEmailDecodeState ds)
        else
          let act = (if (of_nat (length data) :: u32) < avail then of_nat (length data) else avail)
          in (DECODE_SUCCESS,
              ds\<lparr>decode_present := True, decoded := take (unat act) data, bitenc_read := bitenc_read ds + act\<rparr>))"

definition EmailDecode ::
    "bytes \<Rightarrow> email_state \<Rightarrow> u8 \<Rightarrow> bool \<Rightarrow> decode_result \<times> email_state \<times> bytes option" where
  "EmailDecode data ds beyond want =
     (case decode_type ds of
        DECODE_B64 \<Rightarrow> (case Base64Decode data ds of (r, ds') \<Rightarrow> (r, ds', None))
      | DECODE_QP \<Rightarrow> (case QPDecode data ds of (r, ds') \<Rightarrow> (r, ds', None))
      | DECODE_UU \<Rightarrow> UUDecode data ds beyond want
      | DECODE_BITENC \<Rightarrow> (case BitEncExtract data ds of (r, ds') \<Rightarrow> (r, ds', None))
      | _ \<Rightarrow> (DECODE_FAIL, ds, None))"

end
