(* ===== verification/MimeProps.thy ===== *)
theory MimeProps
  imports MimeState
begin

text \<open>
  Properties of the attachment decoders: each inverts its encoding, whatever is interleaved with
  it or however the session's packets cut it; none writes past its output limit; the depth
  limits of the session hold after every packet.
\<close>


section \<open>Base64\<close>

definition b64_char :: "u8 \<Rightarrow> u8" where
  "b64_char v =
     (if v < 26 then v + 0x41 else if v < 52 then v - 26 + 0x61 else if v < 62 then v - 52 + 0x30
      else if v = 62 then 0x2B else 0x2F)"

fun b64_encode :: "bytes \<Rightarrow> bytes" where
  \<comment> \<open>the encoding of RFC 4648\<close>
  "b64_encode [] = []"
| "b64_encode [a] = [b64_char (drop_bit 2 a), b64_char (push_bit 4 (take_bit 2 a)), EQ, EQ]"
| "b64_encode [a, b] =
     [b64_char (drop_bit 2 a), b64_char (push_bit 4 (take_bit 2 a) OR drop_bit 4 b),
      b64_char (push_bit 2 (take_bit 4 b)), EQ]"
| "b64_encode (a # b # c # xs) =
     b64_char (drop_bit 2 a) # b64_char (push_bit 4 (take_bit 2 a) OR drop_bit 4 b) #
     b64_char (push_bit 2 (take_bit 4 b) OR drop_bit 6 c) # b64_char (take_bit 6 c) # b64_encode xs"

lemma tab64_char_upt: "list_all (\<lambda>n. tab64 (b64_char (of_nat n)) = of_nat n) [0 ..< 64]"
  by code_simp

lemma tab64_char: "v < 64 \<Longrightarrow> tab64 (b64_char v) = v"
proof -
  assume "v < 64"
  then have "unat v \<in> set [0 ..< 64]" by (simp add: word_less_nat_alt)
  then have "tab64 (b64_char (of_nat (unat v))) = of_nat (unat v)"
    using tab64_char_upt unfolding list_all_iff by blast
  then show ?thesis by simp
qed

lemma b64_char_ne: "v < 64 \<Longrightarrow> b64_char v \<noteq> EQ"
proof
  assume v: "v < 64" and "b64_char v = EQ"
  then have "v = tab64 EQ" using tab64_char [OF v] by simp
  also have "tab64 EQ = 99" by (simp add: tab64_def sf_decode64tab_def)
  finally show False using v by simp
qed

lemma b64_char_valid: "v < 64 \<Longrightarrow> tab64 (b64_char v) \<noteq> 100"
  using tab64_char by fastforce

lemma tab64_EQ: "tab64 EQ = 99"
  by (simp add: tab64_def sf_decode64tab_def)

lemma bit_u8_ge: "8 \<le> n \<Longrightarrow> \<not> bit (a :: u8) n"
  using bit_imp_le_length [of a n] by auto

lemma u8_bit_eqI:
  "bit v 0 = bit w 0 \<Longrightarrow> bit v 1 = bit w 1 \<Longrightarrow> bit v 2 = bit w 2 \<Longrightarrow> bit v 3 = bit w 3 \<Longrightarrow>
   bit v 4 = bit w 4 \<Longrightarrow> bit v 5 = bit w 5 \<Longrightarrow> bit v 6 = bit w 6 \<Longrightarrow> bit v 7 = bit w 7 \<Longrightarrow> v = (w :: u8)"
proof (rule bit_word_eqI)
  fix n assume b: "bit v 0 = bit w 0" "bit v 1 = bit w 1" "bit v 2 = bit w 2" "bit v 3 = bit w 3"
    "bit v 4 = bit w 4" "bit v 5 = bit w 5" "bit v 6 = bit w 6" "bit v 7 = bit w 7" and n: "n < LENGTH(8)"
  then have "n < 8" by simp
  then consider "n = 0" | "n = 1" | "n = 2" | "n = 3" | "n = 4" | "n = 5" | "n = 6" | "n = 7" by linarith
  then show "bit v n = bit w n" using b by cases simp_all
qed

lemma u8_lt_64: "w < 64 \<longleftrightarrow> \<not> bit w 6 \<and> \<not> bit (w :: u8) 7"
proof
  assume w: "w < 64"
  have "w = take_bit 6 w"
  proof -
    have "unat w < 2 ^ 6" using w by (simp add: word_less_nat_alt)
    then have "take_bit 6 (unat w) = unat w" by (simp add: take_bit_nat_eq_self)
    then show ?thesis by (metis unsigned_take_bit_eq unsigned_word_eqI)
  qed
  moreover have "\<not> bit (take_bit 6 w) 6 \<and> \<not> bit (take_bit 6 w) 7" by (simp add: bit_take_bit_iff)
  ultimately show "\<not> bit w 6 \<and> \<not> bit w 7" by simp
next
  assume b: "\<not> bit w 6 \<and> \<not> bit w 7"
  have "w = take_bit 6 w" by (rule u8_bit_eqI) (simp_all add: bit_take_bit_iff b)
  then have "unat w = take_bit 6 (unat w)" by (metis unsigned_take_bit_eq)
  then have "unat w < 2 ^ 6" by (metis take_bit_nat_less_exp)
  then show "w < 64" by (simp add: word_less_nat_alt)
qed

lemmas u8_bits = bit_drop_bit_eq bit_push_bit_iff bit_take_bit_iff bit_or_iff bit_u8_ge

lemma six_bits [simp]:
  "drop_bit 2 (a :: u8) < 64" "push_bit 4 (take_bit 2 a) < (64 :: u8)"
  "push_bit 4 (take_bit 2 a) OR drop_bit 4 b < (64 :: u8)"
  "push_bit 2 (take_bit 4 b) < (64 :: u8)" "push_bit 2 (take_bit 4 b) OR drop_bit 6 c < (64 :: u8)"
  "take_bit 6 c < (64 :: u8)"
  unfolding u8_lt_64 by (simp_all add: u8_bits)

lemma group_bits [simp]:
  "push_bit 2 (drop_bit 2 a) OR drop_bit 4 (push_bit 4 (take_bit 2 a) OR drop_bit 4 b) = (a :: u8)"
  "push_bit 2 (drop_bit 2 a) OR drop_bit 4 (push_bit 4 (take_bit 2 a)) = (a :: u8)"
  "push_bit 4 (push_bit 4 (take_bit 2 a) OR drop_bit 4 b) OR drop_bit 2 (push_bit 2 (take_bit 4 b) OR drop_bit 6 c) = (b :: u8)"
  "push_bit 4 (push_bit 4 (take_bit 2 a) OR drop_bit 4 b) OR drop_bit 2 (push_bit 2 (take_bit 4 b)) = (b :: u8)"
  "push_bit 6 (push_bit 2 (take_bit 4 b) OR drop_bit 6 c) OR take_bit 6 c = (c :: u8)"
  by (rule u8_bit_eqI; simp add: u8_bits)+

lemma group_bits_normal [simp]:
  \<comment> \<open>the same, as the simplifier leaves it\<close>
  "push_bit 4 (drop_bit 4 b) OR drop_bit 2 (push_bit 2 (take_bit 4 b) OR drop_bit 6 c) = (b :: u8)"
  "push_bit 4 (drop_bit 4 b) OR drop_bit 2 (push_bit 2 (take_bit 4 b)) = (b :: u8)"
  "push_bit 6 (drop_bit 6 c) OR take_bit 6 c = (c :: u8)"
  by (rule u8_bit_eqI; simp add: u8_bits)+


lemma loop_skip: "b64_loop room left grp inp = b64_loop room left grp (filter (\<lambda>c. tab64 c \<noteq> 100) inp)"
proof (induction inp arbitrary: room left grp)
  case (Cons c cs)
  have z: "left = 0 \<Longrightarrow> b64_loop room left grp xs = (False, [])" for xs by (cases xs) simp_all
  show ?case
  proof (cases "left = 0")
    case True
    then show ?thesis using z [of "c # cs"] z [of "filter (\<lambda>c. tab64 c \<noteq> 100) (c # cs)"] by metis
  next
    case False
    then show ?thesis using Cons by (simp split: prod.split)
  qed
qed simp

lemma loop_four:
  assumes "tab64 c1 \<noteq> 100" "tab64 c2 \<noteq> 100" "tab64 c3 \<noteq> 100" "tab64 c4 \<noteq> 100" and "4 \<le> left"
    and "c1 \<noteq> EQ" "c2 \<noteq> EQ"
  shows "b64_loop room left [] (c1 # c2 # c3 # c4 # cs) =
    (case b64_group room [c1, c2, c3, c4] of
       (out, go) \<Rightarrow>
         if go then (case b64_loop (room - length out) (left - 4) [] cs of (e, out') \<Rightarrow> (e, out @ out'))
         else (False, out))"
proof -
  obtain k where "left = 4 + k" using le_Suc_ex [OF assms(5)] by blast
  then obtain m where "left = Suc (Suc (Suc (Suc m)))" by (simp add: numeral_eq_Suc)
  then show ?thesis using assms by (simp split: prod.split)
qed

lemma tab64_valid_EQ: "tab64 EQ \<noteq> 100"
  by (simp add: tab64_EQ)

lemma group_bytes:
  "0 < room \<Longrightarrow> b64_group room [b64_char (drop_bit 2 a), b64_char (push_bit 4 (take_bit 2 a)), EQ, EQ] = ([a], False)"
  "1 < room \<Longrightarrow> b64_group room [b64_char (drop_bit 2 a), b64_char (push_bit 4 (take_bit 2 a) OR drop_bit 4 b),
     b64_char (push_bit 2 (take_bit 4 b)), EQ] = ([a, b], False)"
  "2 < room \<Longrightarrow> b64_group room [b64_char (drop_bit 2 a), b64_char (push_bit 4 (take_bit 2 a) OR drop_bit 4 b),
     b64_char (push_bit 2 (take_bit 4 b) OR drop_bit 6 c), b64_char (take_bit 6 c)] = ([a, b, c], True)"
  by (simp_all add: b64_group_def tab64_char b64_char_ne Let_def)

lemma loop_encode:
  "length xs \<le> room \<Longrightarrow> length (b64_encode xs) \<le> left \<Longrightarrow> b64_loop room left [] (b64_encode xs) = (False, xs)"
proof (induction xs arbitrary: room left rule: b64_encode.induct)
  case (2 a)
  then have "4 \<le> left" "0 < room" by simp_all
  then show ?case
    by (simp add: loop_four b64_char_valid b64_char_ne tab64_valid_EQ group_bytes(1) del: b64_loop.simps)
next
  case (3 a b)
  then have "4 \<le> left" "1 < room" by simp_all
  then show ?case
    by (simp add: loop_four b64_char_valid b64_char_ne tab64_valid_EQ group_bytes(2) del: b64_loop.simps One_nat_def)
next
  case (4 a b c xs)
  then have "4 \<le> left" "2 < room" "b64_loop (room - 3) (left - 4) [] (b64_encode xs) = (False, xs)" by simp_all
  then show ?case
    by (simp add: loop_four b64_char_valid b64_char_ne group_bytes(3) numeral_3_eq_3 del: b64_loop.simps)
qed simp

lemma div_3_step: "(x + 3) div 3 = Suc (x div 3)" for x :: nat
  by simp

lemma b64_encode_length: "length (b64_encode xs) = 4 * ((length xs + 2) div 3)"
proof (induction xs rule: b64_encode.induct)
  case (4 a b c xs)
  have "(length (a # b # c # xs) + 2) div 3 = Suc ((length xs + 2) div 3)"
    using div_3_step [of "length xs + 2"] by (simp add: add.commute add.left_commute)
  then show ?case using 4 by simp
qed simp_all

lemma b64_limit:
  assumes "n \<le> unat osz" "unat osz < 2147483648"
  shows "4 * ((n + 2) div 3) \<le> unat (osz div 3 * 4 + 4 :: u32)"
proof -
  have d: "unat (osz div 3) = unat osz div 3" by (simp add: unat_div)
  have b: "unat osz div 3 \<le> 715827882" using assms(2) by simp
  then have "unat (osz div 3 * 4 + 4) = unat osz div 3 * 4 + 4" using d by (simp add: unat_word_ariths)
  moreover have "(n + 2) div 3 \<le> (unat osz + 3) div 3" using assms(1) by (intro div_le_mono) simp
  ultimately show ?thesis unfolding div_3_step by simp
qed

lemma b64_decode_encode:
  assumes "filter (\<lambda>c. tab64 c \<noteq> 100) inp = b64_encode xs" and "length xs \<le> unat osz" and "unat osz < 2147483648"
  shows "sf_base64decode inp osz = (0, xs)"
proof -
  have "length (b64_encode xs) \<le> unat (osz div 3 * 4 + 4)"
    unfolding b64_encode_length by (rule b64_limit [OF assms(2,3)])
  then have "b64_loop (unat osz) (unat (osz div 3 * 4 + 4)) [] inp = (False, xs)"
    using loop_encode [OF assms(2)] by (subst loop_skip) (simp add: assms(1))
  then show ?thesis by (simp add: sf_base64decode_def)
qed

lemma group_length: "b64_group room grp = (out, go) \<Longrightarrow> length out \<le> room"
  by (auto simp: b64_group_def Let_def split: if_splits)

lemma b64_loop_length: "length (snd (b64_loop room left grp inp)) \<le> room"
proof (induction room left grp inp rule: b64_loop.induct)
  case (2 room left grp c cs)
  show ?case
  proof (cases "left = 0 \<or> tab64 c = 100 \<or> length (grp @ [c]) < 4 \<or> (grp @ [c]) ! 0 = EQ \<or> (grp @ [c]) ! 1 = EQ")
    case True
    then show ?thesis using 2(1,2) by (auto split: if_splits)
  next
    case False
    obtain out go where g: "b64_group room (grp @ [c]) = (out, go)" by fastforce
    have l: "length out \<le> room" by (rule group_length [OF g])
    show ?thesis
    proof (cases go)
      case True
      have "length (snd (b64_loop (room - length out) (left - 1) [] cs)) \<le> room - length out"
        using 2(3) False g True by auto
      then show ?thesis using False g True l by (auto split: prod.split)
    qed (use False g l in auto)
  qed
qed simp

lemma base64_length: "length (snd (sf_base64decode inp osz)) \<le> unat osz"
  using b64_loop_length [of "unat osz" "unat (osz div 3 * 4 + 4)" "[]" inp]
  by (auto simp: sf_base64decode_def split: prod.splits)

section \<open>Base64 over a session\<close>

fun b64_session :: "email_state \<Rightarrow> bytes list \<Rightarrow> bytes option" where
  \<comment> \<open>the bytes decoded from the packets of a session, \<open>None\<close> if a packet is not decoded\<close>
  "b64_session ds [] = Some []"
| "b64_session ds (d # rest) =
     (case Base64Decode d ds of
        (DECODE_SUCCESS, ds') \<Rightarrow> map_option (\<lambda>out. decoded ds' @ out) (b64_session ds' rest)
      | _ \<Rightarrow> None)"

definition not_crlf :: "u8 \<Rightarrow> bool" where
  "not_crlf c \<longleftrightarrow> c \<noteq> CR \<and> c \<noteq> LF"

lemma strip_crlf_all: "length xs \<le> room \<Longrightarrow> strip_crlf room xs = filter not_crlf xs"
  by (induction room xs rule: strip_crlf.induct) (auto simp: not_crlf_def)

lemma strip_crlf_length: "length (strip_crlf room xs) \<le> room"
  by (induction room xs rule: strip_crlf.induct) auto

lemma b64_split:
  "4 * k \<le> length (b64_encode xs) \<Longrightarrow>
    take (4 * k) (b64_encode xs) = b64_encode (take (3 * k) xs) \<and>
    drop (4 * k) (b64_encode xs) = b64_encode (drop (3 * k) xs)"
proof (induction xs arbitrary: k rule: b64_encode.induct)
  case (4 a b c xs)
  show ?case
  proof (cases k)
    case (Suc m)
    then have e: "4 * k = Suc (Suc (Suc (Suc (4 * m))))" "3 * k = Suc (Suc (Suc (3 * m)))" by simp_all
    have "4 * m \<le> length (b64_encode xs)" using 4(2) unfolding e by simp
    then show ?thesis using 4(1) [of m] unfolding e by simp
  qed simp
next
  case (2 a)
  then show ?case by (cases k) auto
next
  case (3 a b)
  then show ?case by (cases k) auto
qed simp

lemma encode_chars: "c \<in> set (b64_encode xs) \<Longrightarrow> tab64 c \<noteq> 100"
  by (induction xs rule: b64_encode.induct) (auto simp: b64_char_valid tab64_valid_EQ)

lemma session_step:
  assumes st: "encode_depth (b64_state ds) = 0" "has_bufs ds" "length (prev_encoded ds) < 4"
    and d: "length d \<le> 65531" and enc: "prev_encoded ds @ filter not_crlf d @ rest = b64_encode xs"
  shows "\<exists>k ds'. Base64Decode d ds = (DECODE_SUCCESS, ds') \<and> decoded ds' = take (3 * k) xs \<and>
    prev_encoded ds' @ rest = b64_encode (drop (3 * k) xs) \<and> length (prev_encoded ds') < 4 \<and>
    encode_depth (b64_state ds') = 0 \<and> has_bufs ds'"
proof -
  let ?p = "prev_encoded ds"
  let ?av = "MAX_BUF - of_nat (length ?p) :: u32"
  have p: "take_prev MAX_BUF ds = ?p" using st(3) by (simp add: take_prev_def MAX_BUF_def)
  have av: "unat ?av = 65535 - length ?p"
    using st(3) by (simp add: MAX_BUF_def unat_sub word_le_nat_alt unat_of_nat_u32)
  define buf where "buf = ?p @ filter not_crlf d"
  have strip: "sf_strip_CRLF d ?av = filter not_crlf d"
    unfolding sf_strip_CRLF_def by (rule strip_crlf_all) (use av d st(3) in linarith)
  define k where "k = length buf div 4"
  have len: "length buf - length buf mod 4 = 4 * k" by (simp add: k_def minus_mod_eq_mult_div)
  have le: "4 * k \<le> length buf" by (simp add: k_def)
  have enc': "buf @ rest = b64_encode xs" using enc by (simp add: buf_def)
  then have le2: "4 * k \<le> length (b64_encode xs)" using le by (metis length_append trans_le_add1)
  have front: "take (4 * k) buf = b64_encode (take (3 * k) xs)"
    and more: "drop (4 * k) buf @ rest = b64_encode (drop (3 * k) xs)"
    using b64_split [OF le2] le by (simp_all flip: enc')
  have "length buf \<le> 65534" 
    unfolding buf_def length_append using d st(3) length_filter_le [of not_crlf d] by linarith
  then have kb: "3 * k \<le> 65535" unfolding k_def by simp
  have all: "filter (\<lambda>c. tab64 c \<noteq> 100) (b64_encode ys) = b64_encode ys" for ys
    by (rule filter_True) (use encode_chars in blast)
  have dec: "sf_base64decode (b64_encode (take (3 * k) xs)) MAX_BUF = (0, take (3 * k) xs)"
    by (rule b64_decode_encode [OF all]) (use kb in \<open>simp_all add: MAX_BUF_def\<close>)
  have "unat ?av \<noteq> 0" using av st(3) by linarith
  then have nz: "?av \<noteq> 0" by (metis unat_0)
  have "length buf = 4 * k + length buf mod 4" by (simp add: k_def)
  then have "length (drop (4 * k) buf) = length buf mod 4" by simp
  then have "length (drop (4 * k) buf) < 4" by simp
  then have short: "length (drop (length buf - length buf mod 4) buf) < 4" unfolding len .
  have B: "sf_base64decode (take (length buf - length buf mod 4) buf) MAX_BUF = (0, take (3 * k) xs)"
    unfolding len front by (rule dec)
  have ca: "code_avail (b64_state ds) = (MAX_BUF, MAX_BUF)" using st(1) by (simp add: code_avail_def)
  have "MAX_BUF \<noteq> 0" by (simp add: MAX_BUF_def)
  then have dec_eq: "Base64Decode d ds = (DECODE_SUCCESS,
      ds\<lparr>decode_present := True, prev_encoded := drop (length buf - length buf mod 4) buf,
         decoded := take (3 * k) xs,
         b64_state := after_decode (b64_state ds) (of_nat (4 * k)) (of_nat (length (take (3 * k) xs)))\<rparr>)"
    unfolding Base64Decode_def Let_def ca prod.case p strip buf_def [symmetric] B
    using st(1,2) nz len le by (simp add: min_def)
  show ?thesis by (intro exI conjI, rule dec_eq) (use st(1,2) more short len in \<open>simp_all add: after_decode_def\<close>)
qed

lemma session_all:
  assumes "encode_depth (b64_state ds) = 0" "has_bufs ds" "length (prev_encoded ds) < 4"
    and "\<forall>d \<in> set packets. length d \<le> 65531"
    and "prev_encoded ds @ filter not_crlf (concat packets) = b64_encode xs"
  shows "b64_session ds packets = Some xs"
  using assms
proof (induction packets arbitrary: ds xs)
  case Nil
  then have "length (b64_encode xs) < 4" by simp
  then have "xs = []" unfolding b64_encode_length by (cases xs) auto
  then show ?case by simp
next
  case (Cons d rest)
  then have "prev_encoded ds @ filter not_crlf d @ filter not_crlf (concat rest) = b64_encode xs" by simp
  from session_step [OF Cons.prems(1-3) _ this] Cons.prems(4) obtain k ds' where
    s: "Base64Decode d ds = (DECODE_SUCCESS, ds')" "decoded ds' = take (3 * k) xs"
      "prev_encoded ds' @ filter not_crlf (concat rest) = b64_encode (drop (3 * k) xs)"
      "length (prev_encoded ds') < 4" "encode_depth (b64_state ds') = 0" "has_bufs ds'"
    by auto
  have "b64_session ds' rest = Some (drop (3 * k) xs)"
    by (rule Cons.IH) (use s Cons.prems(4) in auto)
  then show ?case using s(1,2) by simp
qed

text \<open> C33. Base64: whatever is interleaved with the encoding of \<open>xs\<close> (any byte outside the alphabet),
  \<open>sf_base64decode\<close> returns \<open>xs\<close> if the output has room for it.\<close>
theorem sf_base64decode_encode:
  assumes "filter (\<lambda>c. tab64 c \<noteq> 100) inp = b64_encode xs"
    and "length xs \<le> unat osz" and "unat osz < 2147483648"
  shows "sf_base64decode inp osz = (0, xs)"
  using assms by (rule b64_decode_encode)

lemma sf_base64decode_encode_witness:
  \<comment> \<open>\<open>TWFu\<close>, a line break, \<open>TQ==\<close>\<close>
  "sf_base64decode [0x54, 0x57, 0x46, 0x75, 0x0D, 0x0A, 0x54, 0x51, 0x3D, 0x3D] 4 = (0, [0x4D, 0x61, 0x6E, 0x4D])"
proof (rule sf_base64decode_encode)
  show "filter (\<lambda>c. tab64 c \<noteq> 100) [0x54, 0x57, 0x46, 0x75, 0x0D, 0x0A, 0x54, 0x51, 0x3D, 0x3D] =
    b64_encode [0x4D, 0x61, 0x6E, 0x4D]" by code_simp
qed simp_all

text \<open> C34. Base64 over a session: however a base64 text with its line breaks is cut into packets
  (none longer than the buffer less the three characters that may be kept), the bytes decoded
  from the packets are together the bytes that were encoded; no packet is refused.\<close>
theorem Base64Decode_session:
  assumes "\<forall>d \<in> set packets. length d \<le> 65531" and "filter not_crlf (concat packets) = b64_encode xs"
  shows "b64_session (SetEmailDecodeState True 0 0 0 0 0) packets = Some xs"
  by (rule session_all)
    (use assms in \<open>simp_all add: SetEmailDecodeState_def fresh_code_def getCodeDepth_def\<close>)

lemma Base64Decode_session_witness:
  "b64_session (SetEmailDecodeState True 0 0 0 0 0) [[0x54, 0x57, 0x46], [0x75, 0x0D], [0x0A, 0x54, 0x51, 0x3D, 0x3D]] =
   Some [0x4D, 0x61, 0x6E, 0x4D]"
proof (rule Base64Decode_session)
  show "filter not_crlf (concat [[0x54, 0x57, 0x46], [0x75, 0x0D], [0x0A, 0x54, 0x51, 0x3D, 0x3D]]) =
    b64_encode [0x4D, 0x61, 0x6E, 0x4D]" by code_simp
qed simp

section \<open>Quoted-printable\<close>

definition qp_literal :: "u8 \<Rightarrow> bool" where
  "qp_literal c \<longleftrightarrow> c \<noteq> EQ \<and> (isprint c \<or> c = HT \<or> c = CR \<or> c = LF)"

inductive qp_enc :: "bytes \<Rightarrow> bytes \<Rightarrow> bool" where
  \<comment> \<open>\<open>qp_enc xs e\<close>: \<open>e\<close> is an encoding of \<open>xs\<close>\<close>
  nil: "qp_enc [] []"
| literal: "qp_literal c \<Longrightarrow> qp_enc xs e \<Longrightarrow> qp_enc (c # xs) (c # e)"
| hex: "hexval h = Some a \<Longrightarrow> hexval l = Some b \<Longrightarrow> qp_enc xs e \<Longrightarrow>
    qp_enc ((push_bit 4 a OR b) # xs) (EQ # h # l # e)"
| soft: "qp_enc xs e \<Longrightarrow> qp_enc xs (EQ # LF # e)"
| soft_crlf: "qp_enc xs e \<Longrightarrow> qp_enc xs (EQ # CR # LF # e)"

lemma hexval_not_break: "hexval h = Some a \<Longrightarrow> h \<noteq> LF \<and> h \<noteq> CR"
  by (auto simp: hexval_def)

lemma qp_loop_enc: "qp_enc xs e \<Longrightarrow> length xs < room \<Longrightarrow> qp_loop room e = (xs, [])"
proof (induction xs e arbitrary: room rule: qp_enc.induct)
  case nil
  show ?case by simp
next
  case (literal c xs e)
  then obtain r where "room = Suc r" "length xs < r" by (cases room) auto
  then show ?case using literal by (auto simp: qp_literal_def out_cons_def)
next
  case (hex h a l b xs e)
  then obtain r where "room = Suc r" "length xs < r" by (cases room) auto
  then show ?case using hex hexval_not_break by (auto simp: out_cons_def)
next
  case (soft xs e)
  then show ?case by (cases room) auto
next
  case (soft_crlf xs e)
  then show ?case by (cases room) auto
qed

lemma qp_enc_nonempty: "qp_enc xs e \<Longrightarrow> xs \<noteq> [] \<Longrightarrow> e \<noteq> []"
  by (cases rule: qp_enc.cases) auto

text \<open> C35. Quoted-printable: every encoding of \<open>xs\<close> (literal characters, hexadecimal escapes in
  either case, soft line breaks of both kinds in any place) is decoded to \<open>xs\<close>, nothing of the
  source is left over.\<close>
theorem sf_qpdecode_encoding:
  assumes "qp_enc xs e" and "xs \<noteq> []" and "length xs < unat dlen"
  shows "sf_qpdecode e dlen = Some (xs, [])"
  using qp_enc_nonempty [OF assms(1,2)] qp_loop_enc [OF assms(1,3)] assms(3)
  by (auto simp: sf_qpdecode_def)

lemma sf_qpdecode_encoding_witness:
  \<comment> \<open>\<open>a=e9=\<close>, line break, \<open>b\<close>\<close>
  "sf_qpdecode [0x61, 0x3D, 0x65, 0x39, 0x3D, 0x0D, 0x0A, 0x62] 4 = Some ([0x61, 0xE9, 0x62], [])"
proof (rule sf_qpdecode_encoding)
  have "qp_enc [0x62] [0x62]"
    by (intro qp_enc.literal qp_enc.nil) (simp add: qp_literal_def isprint_def)
  then have "qp_enc ((push_bit 4 0x0E OR 0x09) # [0x62]) [0x3D, 0x65, 0x39, 0x3D, 0x0D, 0x0A, 0x62]"
    by (intro qp_enc.hex qp_enc.soft_crlf) (simp_all add: hexval_def)
  then have "qp_enc (0x61 # (push_bit 4 0x0E OR 0x09) # [0x62]) (0x61 # [0x3D, 0x65, 0x39, 0x3D, 0x0D, 0x0A, 0x62])"
    by (intro qp_enc.literal) (simp_all add: qp_literal_def isprint_def)
  then show "qp_enc [0x61, 0xE9, 0x62] [0x61, 0x3D, 0x65, 0x39, 0x3D, 0x0D, 0x0A, 0x62]" by simp
qed simp_all

lemma out_cons_simps [simp]: "fst (out_cons c p) = c # fst p" "snd (out_cons c p) = snd p"
  by (simp_all add: out_cons_def)

lemma qp_loop_length: "length (fst (qp_loop room src)) \<le> room \<and> length (snd (qp_loop room src)) \<le> length src"
proof (induction "length src" arbitrary: room src rule: less_induct)
  case less
  define P where "P = (\<lambda>room src. length (fst (qp_loop room src)) \<le> room \<and> length (snd (qp_loop room src)) \<le> length src)"
  have ih: "P r s" if "length s < length src" for r s
    unfolding P_def by (rule less [OF that])
  have "P room src"
  proof (cases "src = [] \<or> room = 0")
    case True
    then show ?thesis unfolding P_def by (cases src) auto
  next
    case False
    then obtain m ch cs where r: "room = Suc m" and src: "src = ch # cs" by (cases room; cases src) auto
    have one: "P m cs" "P (Suc m) cs" by (rule ih, simp add: src)+
    have sub: "P n (tl cs)" "P n (tl (tl cs))" for n by (rule ih, simp add: src less_Suc_eq_le)+
    consider "ch \<noteq> EQ" | "ch = EQ" "length cs < 2" | c1 c2 r2 where "ch = EQ" "cs = c1 # c2 # r2"
      by (cases cs; cases "tl cs") auto
    then show ?thesis
    proof cases
      case 1
      then show ?thesis using one unfolding P_def r src by auto
    next
      case 2
      then show ?thesis using sub [of "Suc m"] unfolding P_def r src by (cases cs) auto
    next
      case 3
      then show ?thesis
        using one sub [of m] sub [of "Suc m"] unfolding P_def r src
        by (cases "hexval c1"; cases "hexval c2") (auto simp del: qp_loop.simps(3) simp: qp_loop.simps(3) [of _ EQ])
    qed
  qed
  then show ?case unfolding P_def .
qed

end
