(* ===== verification/UuProps.thy ===== *)
theory UuProps
  imports MimeProps
begin

text \<open>
  Uuencode: the round trip of \<open>sf_uudecode\<close>, what it does at the end of a packet, and the
  bounds of what it reads and writes.
\<close>

section \<open>Uuencode\<close>

definition uu_char :: "u8 \<Rightarrow> u8" where
  "uu_char v = (if v = 0 then 0x60 else v + 0x20)"

fun uu_groups :: "bytes \<Rightarrow> bytes" where
  \<comment> \<open>the groups of a line, the last one filled up\<close>
  "uu_groups [] = []"
| "uu_groups [a] = [uu_char (drop_bit 2 a), uu_char (push_bit 4 (take_bit 2 a)), 0x60, 0x60]"
| "uu_groups [a, b] =
     [uu_char (drop_bit 2 a), uu_char (push_bit 4 (take_bit 2 a) OR drop_bit 4 b),
      uu_char (push_bit 2 (take_bit 4 b)), 0x60]"
| "uu_groups (a # b # c # xs) =
     uu_char (drop_bit 2 a) # uu_char (push_bit 4 (take_bit 2 a) OR drop_bit 4 b) #
     uu_char (push_bit 2 (take_bit 4 b) OR drop_bit 6 c) # uu_char (take_bit 6 c) # uu_groups xs"

definition uu_line :: "bytes \<Rightarrow> bytes \<Rightarrow> bytes" where
  \<comment> \<open>\<open>junk\<close> is what follows the groups on the line\<close>
  "uu_line xs junk = uu_char (of_nat (length xs)) # uu_groups xs @ junk @ [LF]"

lemma uu_char_upt:
  "list_all (\<lambda>n. UU_DECODE_CHAR (uu_char (of_nat n)) = of_nat n \<and> uu_char (of_nat n) \<noteq> LF) [0 ..< 64]"
  by code_simp

lemma UU_DECODE_CHAR_char: "v < 64 \<Longrightarrow> UU_DECODE_CHAR (uu_char v) = v"
  and uu_char_not_LF: "v < 64 \<Longrightarrow> uu_char v \<noteq> LF"
proof -
  assume "v < 64"
  then have "unat v \<in> set [0 ..< 64]" by (simp add: word_less_nat_alt)
  then have "UU_DECODE_CHAR (uu_char (of_nat (unat v))) = of_nat (unat v) \<and> uu_char (of_nat (unat v)) \<noteq> LF"
    using uu_char_upt unfolding list_all_iff by blast
  then show "UU_DECODE_CHAR (uu_char v) = v" "uu_char v \<noteq> LF" by simp_all
qed

lemma uu_bytes_4:
  "3 \<le> len \<Longrightarrow> uu_bytes beyond len (c1 # c2 # c3 # c4 # p) =
    (case uu_bytes beyond (len - 4) p of
       (out, r) \<Rightarrow>
         ((push_bit 2 (UU_DECODE_CHAR c1) OR drop_bit 4 (UU_DECODE_CHAR c2)) #
          (push_bit 4 (UU_DECODE_CHAR c2) OR drop_bit 2 (UU_DECODE_CHAR c3)) #
          (push_bit 6 (UU_DECODE_CHAR c3) OR UU_DECODE_CHAR c4) # out, r))"
  by (subst uu_bytes.simps) (auto simp: at_or_def Let_def)

lemma uu_bytes_0: "uu_bytes beyond 0 p = ([], p)"
  by (subst uu_bytes.simps) simp

lemma uu_bytes_1:
  "uu_bytes beyond 1 (c1 # c2 # p) =
    ([push_bit 2 (UU_DECODE_CHAR c1) OR drop_bit 4 (UU_DECODE_CHAR c2)], c2 # p)"
  by (subst uu_bytes.simps) (simp add: at_or_def Let_def)

lemma uu_bytes_2:
  "uu_bytes beyond 2 (c1 # c2 # c3 # p) =
    ([push_bit 2 (UU_DECODE_CHAR c1) OR drop_bit 4 (UU_DECODE_CHAR c2),
      push_bit 4 (UU_DECODE_CHAR c2) OR drop_bit 2 (UU_DECODE_CHAR c3)], c3 # p)"
  by (subst uu_bytes.simps) (simp add: at_or_def Let_def)

lemma uu_bytes_groups:
  "\<exists>r. uu_bytes beyond (length xs * 4 div 3) (uu_groups xs @ rest) = (xs, r @ rest) \<and> LF \<notin> set r"
proof (induction xs rule: uu_groups.induct)
  case 1
  show ?case by (simp add: uu_bytes_0)
next
  case (2 a)
  have "length [a] * 4 div 3 = 1" by simp
  then show ?case
    using uu_char_not_LF [OF six_bits(2)]
    by (intro exI [of _ "[uu_char (push_bit 4 (take_bit 2 a)), 0x60, 0x60]"])
      (simp only: uu_groups.simps append.simps uu_bytes_1 UU_DECODE_CHAR_char six_bits group_bits, simp)
next
  case (3 a b)
  have "length [a, b] * 4 div 3 = 2" by simp
  then show ?case
    using uu_char_not_LF [OF six_bits(4)]
    by (intro exI [of _ "[uu_char (push_bit 2 (take_bit 4 b)), 0x60]"])
      (simp only: uu_groups.simps append.simps uu_bytes_2 UU_DECODE_CHAR_char six_bits group_bits, simp)
next
  case (4 a b c xs)
  have l: "length (a # b # c # xs) * 4 div 3 = length xs * 4 div 3 + 4"
    by (simp add: algebra_simps)
  obtain r where "uu_bytes beyond (length xs * 4 div 3) (uu_groups xs @ rest) = (xs, r @ rest)" "LF \<notin> set r"
    using 4 by blast
  then show ?case
    unfolding l uu_groups.simps append.simps
    by (intro exI [of _ r], subst uu_bytes_4) (simp_all add: UU_DECODE_CHAR_char)
qed

lemma uu_groups_length: "length (uu_groups xs) = 4 * ((length xs + 2) div 3)"
proof (induction xs rule: uu_groups.induct)
  case (4 a b c xs)
  have "(length (a # b # c # xs) + 2) div 3 = Suc ((length xs + 2) div 3)"
    using div_3_step [of "length xs + 2"] by (simp add: add.commute add.left_commute)
  then show ?case using 4 by simp
qed simp_all

lemma uu_groups_enough: "length xs * 4 div 3 \<le> length (uu_groups xs)"
  unfolding uu_groups_length by linarith

lemma uu_loop_skip: "0 < room \<Longrightarrow> LF \<notin> set r \<Longrightarrow> uu_loop beyond room False (r @ LF # rest) = uu_loop beyond room True rest"
  by (induction r) auto

lemma uu_loop_line:
  assumes "xs \<noteq> []" "length xs < 64" "length xs < room" and junk: "LF \<notin> set junk"
  shows "uu_loop beyond room True (uu_line xs junk @ rest) =
    (case uu_loop beyond (room - length xs) True rest of (out, r, e) \<Rightarrow> (xs @ out, r, e))"
proof -
  let ?n = "of_nat (length xs) :: u8"
  have u: "unat ?n = length xs" using assms(2) by (simp add: unat_of_nat)
  have n64: "?n < 64" using u assms(2) by (simp add: word_less_nat_alt)
  have ne: "uu_char ?n \<noteq> LF" by (rule uu_char_not_LF [OF n64])
  have d: "unat (UU_DECODE_CHAR (uu_char ?n)) = length xs" using UU_DECODE_CHAR_char [OF n64] u by simp
  have e: "\<not> (length xs = 5 \<and> uu_char ?n = 0x65)" by (auto simp: uu_char_def)
  obtain r where r: "uu_bytes beyond (length xs * 4 div 3) (uu_groups xs @ junk @ LF # rest) = (xs, r @ junk @ LF # rest)"
    and nl: "LF \<notin> set r" using uu_bytes_groups by blast
  have enough: "\<not> length (uu_groups xs @ junk @ LF # rest) < length xs * 4 div 3"
    using uu_groups_enough [of xs] by simp
  have step: "uu_loop beyond room True (uu_line xs junk @ rest) =
      (case uu_loop beyond (room - length xs) False (r @ junk @ LF # rest) of (out, r, e) \<Rightarrow> (xs @ out, r, e))"
    using assms ne e enough
    by (auto simp: uu_line_def d r Let_def split: prod.split)
  have "LF \<notin> set (r @ junk)" using nl junk by simp
  from uu_loop_skip [OF _ this] show ?thesis unfolding step using assms(3) by simp
qed

definition uu_lines :: "(bytes \<times> bytes) list \<Rightarrow> bytes" where
  "uu_lines ls = concat (map (\<lambda>(xs, junk). uu_line xs junk) ls)"

definition uu_lines_ok :: "(bytes \<times> bytes) list \<Rightarrow> bool" where
  "uu_lines_ok ls \<longleftrightarrow> (\<forall>(xs, junk) \<in> set ls. xs \<noteq> [] \<and> length xs < 64 \<and> LF \<notin> set junk)"

abbreviation uu_begin :: bytes where "uu_begin \<equiv> [0x62, 0x65, 0x67, 0x69, 0x6E]"
abbreviation uu_end :: bytes where "uu_end \<equiv> [0x65, 0x6E, 0x64]"

text \<open>What ends the lines: the empty line that encoders write before \<open>end\<close>, or \<open>end\<close> at once.\<close>

lemma uu_loop_end: "0 < room \<Longrightarrow> uu_loop beyond room True (uu_end @ tail) = ([], uu_end @ tail, True)"
  by (simp add: UU_DECODE_CHAR_def Let_def)

lemma uu_loop_empty: "0 < room \<Longrightarrow> uu_loop beyond room True (uu_line [] junk @ rest) = ([], uu_line [] junk @ rest, False)"
  by (simp add: uu_line_def uu_char_def UU_DECODE_CHAR_def Let_def)

lemma uu_loop_lines:
  "uu_lines_ok ls \<Longrightarrow> length (concat (map fst ls)) < room \<Longrightarrow>
    (\<And>room. 0 < room \<Longrightarrow> uu_loop beyond room True rest = ([], rest, e)) \<Longrightarrow>
    uu_loop beyond room True (uu_lines ls @ rest) = (concat (map fst ls), rest, e)"
proof (induction ls arbitrary: room)
  case Nil
  then show ?case by (simp add: uu_lines_def)
next
  case (Cons l ls)
  obtain xs junk where l: "l = (xs, junk)" by fastforce
  have "uu_loop beyond (room - length xs) True (uu_lines ls @ rest) = (concat (map fst ls), rest, e)"
    by (rule Cons.IH) (use Cons.prems in \<open>auto simp: uu_lines_ok_def l\<close>)
  then show ?case
    using uu_loop_line [of xs room junk beyond "uu_lines ls @ rest"] Cons.prems
    by (simp add: uu_lines_def uu_lines_ok_def l)
qed

lemma snort_strnstr_LF:
  "LF \<notin> set h \<Longrightarrow> 0 \<notin> set h \<Longrightarrow> rest \<noteq> [] \<Longrightarrow> snort_strnstr LF [] pos (h @ LF # rest) = Some (pos + length h)"
  by (induction h arbitrary: pos) auto

lemma memchr_append: "c \<notin> set h \<Longrightarrow> memchr c (h @ c # rest) = Some (length h)"
  by (induction h) auto

lemma uu_filename_header:
  assumes "{SP, CR} \<inter> set first = {}" "{SP, CR} \<inter> set mode = {}" "CR \<notin> set name"
    and "length name \<le> MAX_UNICODE_FILE_NAME"
  shows "uu_filename (first @ SP # mode @ SP # name @ CR # rest) = name"
proof -
  let ?h = "first @ SP # mode @ SP # name"
  have "CR \<notin> set ?h" using assms by auto
  from memchr_append [OF this, of rest] have cr: "memchr CR (first @ SP # mode @ SP # name @ CR # rest) = Some (length ?h)" by simp
  have t: "take (length ?h) (first @ SP # mode @ SP # name @ CR # rest) = ?h" by simp
  have s1: "memchr SP ?h = Some (length first)" by (rule memchr_append) (use assms in auto)
  have d: "drop (length first + 1) ?h = mode @ SP # name" by simp
  have s2: "memchr SP (mode @ SP # name) = Some (length mode)" by (rule memchr_append) (use assms in auto)
  have d2: "drop (length first + 1 + length mode + 1) ?h = name" by simp
  show ?thesis using assms(4) unfolding uu_filename_def cr first_some.simps option.case t s1 d s2 d2 Let_def by simp
qed


definition uu_trailer :: "bytes option \<Rightarrow> bytes \<Rightarrow> bytes" where
  \<comment> \<open>\<open>Some junk\<close>: the empty line, with \<open>junk\<close> on it, and the \<open>end\<close> line; \<open>None\<close>: only that\<close>
  "uu_trailer zl tail = (case zl of None \<Rightarrow> [] | Some junk \<Rightarrow> uu_line [] junk) @ uu_end @ tail"

definition uu_message :: "bytes \<Rightarrow> bytes \<Rightarrow> (bytes \<times> bytes) list \<Rightarrow> bytes option \<Rightarrow> bytes \<Rightarrow> bytes" where
  "uu_message mode name ls zl tail =
     uu_begin @ SP # mode @ SP # name @ CR # LF # uu_lines ls @ uu_trailer zl tail"

lemma uu_lines_loop:
  assumes "uu_lines_ok ls" "length (concat (map fst ls)) < room"
  shows "uu_loop beyond room True (LF # uu_lines ls @ uu_trailer zl tail) =
    (concat (map fst ls), uu_trailer zl tail, zl = None)"
proof -
  have "uu_loop beyond r True (uu_trailer zl tail) = ([], uu_trailer zl tail, zl = None)" if "0 < r" for r
    using uu_loop_end [OF that] uu_loop_empty [OF that] by (cases zl) (simp_all add: uu_trailer_def)
  from uu_loop_lines [OF assms this] show ?thesis using assms(2) by simp
qed

text \<open> C36. Uuencode: a message (\<open>begin mode name\<close>, lines of at most 63 bytes with anything after
  the groups of a line, the empty line, an \<open>end\<close> line, anything after it) is decoded to the
  bytes that were encoded and its name is found, whatever byte lies behind the buffer.  The zl
  line stops the decoder, which leaves it and the \<open>end\<close> line unread and the end unrecognised;
  the end is recognised, and all is read, only in a message without the empty line.\<close>
theorem sf_uudecode_message:
  assumes "uu_lines_ok ls" and "length (concat (map fst ls)) < unat dlen"
    and "{0, SP, CR, LF} \<inter> set mode = {}" and "{0, CR, LF} \<inter> set name = {}"
    and "length name \<le> MAX_UNICODE_FILE_NAME"
  shows "sf_uudecode (uu_message mode name ls zl tail) dlen beyond False e True =
    Some \<lparr>uur_read = length (uu_message mode name ls zl tail) - (if zl = None \<or> e then 0 else length (uu_trailer zl tail)),
      uur_out = concat (map fst ls), uur_begin = True, uur_end = (zl = None \<or> e), uur_name = Some name\<rparr>"
proof -
  let ?src = "uu_message mode name ls zl tail"
  let ?body = "uu_lines ls @ uu_trailer zl tail"
  let ?h = "uu_begin @ SP # mode @ SP # name @ [CR]"
  have five: "take 5 ?src = uu_begin" "\<not> length ?src < 5" "?src \<noteq> []" by (simp_all add: uu_message_def)
  have begin_at: "snort_strnstr 0x62 [0x65, 0x67, 0x69, 0x6E] 0 uu_begin = Some 0" by simp
  have name: "uu_filename ?src = name"
    unfolding uu_message_def by (rule uu_filename_header) (use assms in auto)
  have src: "?src = ?h @ LF # ?body" by (simp add: uu_message_def)
  have "?body \<noteq> []" by (simp add: uu_trailer_def)
  then have "snort_strnstr LF [] 0 (?h @ LF # ?body) = Some (0 + length ?h)"
    by (intro snort_strnstr_LF) (use assms in auto)
  then have line: "snort_strnstr LF [] 0 ?src = Some (length ?h)" unfolding src by simp
  have body: "drop (length ?h) ?src = LF # ?body" unfolding src by simp
  have "dlen \<noteq> 0" using assms(2) by auto
  then show ?thesis
    unfolding sf_uudecode_def five begin_at option.case Let_def drop_0 name line body uu_body_def
      uu_lines_loop [OF assms(1,2)] prod.case
    using five by simp
qed

text \<open>\<open>begin 644 a\<close>, \<open>#86)C\<close>, \<open>!9```\<close>, an empty line \<open>`\<close>, \<open>end\<close>.\<close>

lemma sf_uudecode_message_witness:
  "sf_uudecode (uu_message [0x36, 0x34, 0x34] [0x61] [([0x61, 0x62, 0x63], []), ([0x64], [CR])] (Some []) [LF]) 100 0 False False True =
    Some \<lparr>uur_read = 26, uur_out = [0x61, 0x62, 0x63, 0x64], uur_begin = True, uur_end = False, uur_name = Some [0x61]\<rparr>"
proof -
  have "uu_lines_ok [([0x61, 0x62, 0x63], []), ([0x64], [CR])]" by (simp add: uu_lines_ok_def)
  from sf_uudecode_message [OF this, of 100 "[0x36, 0x34, 0x34]" "[0x61]" "Some []" "[LF]" 0 False] show ?thesis
    by (simp add: MAX_UNICODE_FILE_NAME_def uu_message_def uu_trailer_def uu_lines_def uu_line_def)
qed

text \<open>After the empty line the session stays in the message: the \<open>end\<close> line and a second message
  that follow are not decoded.\<close>

lemma uudecode_after_empty_line:
  "sf_uudecode (uu_line [] [] @ uu_end @ LF # uu_message [0x36] [0x61] [([0x64], [])] None [LF]) 100 0 True False True =
    Some \<lparr>uur_read = 0, uur_out = [], uur_begin = True, uur_end = False, uur_name = None\<rparr>"
  by code_simp

text \<open>
  The bytes of a line are followed by filling; if a packet ends within it, the next packet
  starts in the middle of a line and is taken for a new line.  A filling character is then the
  empty line, at which decoding stops without reading anything: all later packets of the
  attachment are kept unread.
\<close>

lemma uudecode_stalls:
  assumes "dlen \<noteq> 0"
  shows "sf_uudecode (0x60 # later) dlen beyond True False want =
    Some \<lparr>uur_read = 0, uur_out = [], uur_begin = True, uur_end = False, uur_name = None\<rparr>"
proof -
  have "unat dlen \<noteq> 0" using assms by (simp add: unat_eq_0)
  then show ?thesis by (simp add: sf_uudecode_def uu_body_def UU_DECODE_CHAR_def assms Let_def)
qed

lemma uudecode_cut_in_line:
  \<comment> \<open>\<open>!9```\<close> and a second line, whole and cut after the first filling character\<close>
  "map_option uur_out (sf_uudecode [LF, 0x21, 0x39, 0x30, 0x60, 0x60, LF, 0x21, 0x39, 0x30, 0x60, 0x60, LF] 100 0 True False False)
     = Some [0x65, 0x65]"
  "map_option uur_out (sf_uudecode [LF, 0x21, 0x39, 0x30, 0x60] 100 0 True False False) = Some [0x65]"
  "map_option uur_read (sf_uudecode [LF, 0x21, 0x39, 0x30, 0x60] 100 0 True False False) = Some 5"
  "map_option uur_out (sf_uudecode [0x60, LF, 0x21, 0x39, 0x30, 0x60, 0x60, LF] 100 0 True False False) = Some []"
  by code_simp+

text \<open>The last byte of a line cut short depends on the byte behind the buffer.\<close>

lemma uudecode_reads_beyond:
  "map_option uur_out (sf_uudecode [LF, 0x21, 0x39] 100 0x30 True False False) = Some [0x65]"
  "map_option uur_out (sf_uudecode [LF, 0x21, 0x39] 100 0x50 True False False) = Some [0x67]"
  by code_simp+

text \<open>A name that ends in a line feed swallows the body up to the next carriage return.\<close>

lemma uu_filename_swallows:
  "uu_filename (uu_begin @ [SP, 0x36, SP, 0x61, LF, 0x21, CR]) = [0x61, LF, 0x21]"
  by code_simp

lemma uu_bytes_length: "length (fst (uu_bytes beyond len p)) = 3 * (len div 4) + len mod 4"
proof (induction len arbitrary: p rule: less_induct)
  case (less len)
  consider "len = 0" | "len = 1" | "len = 2" | "len = 3" | "4 \<le> len" by linarith
  then show ?case
  proof cases
    case 5
    then have "length (fst (uu_bytes beyond (len - 4) (drop 4 p))) = 3 * ((len - 4) div 4) + (len - 4) mod 4"
      by (intro less) simp
    moreover have "len div 4 = Suc ((len - 4) div 4)" "len mod 4 = (len - 4) mod 4"
      using 5 by (simp_all add: le_div_geq le_mod_geq)
    ultimately show ?thesis using 5 by (subst uu_bytes.simps) (auto simp: Let_def split: prod.split)
  qed (subst uu_bytes.simps; simp add: Let_def uu_bytes_0 split: prod.split)+
qed

lemma uu_bytes_room: "length (fst (uu_bytes beyond (n * 4 div 3) p)) \<le> n"
proof -
  obtain q s where n: "n = 3 * q + s" and "s < 3" by (metis mult_div_mod_eq mod_less_divisor zero_less_numeral)
  have s: "s * 4 div 3 = s" using \<open>s < 3\<close> by arith
  have "n * 4 div 3 = (s * 4 + 3 * (4 * q)) div 3" by (simp add: n algebra_simps)
  also have "\<dots> = 4 * q + s * 4 div 3" by simp
  finally have d: "n * 4 div 3 = 4 * q + s * 4 div 3" .
  have l: "n * 4 div 3 = 4 * q + s" using d unfolding s .
  have "(4 * q + s) div 4 = q" "(4 * q + s) mod 4 = s" using \<open>s < 3\<close> by simp_all
  then show ?thesis unfolding uu_bytes_length l using n by simp
qed

definition uu_line_len :: "nat \<Rightarrow> u8 \<Rightarrow> nat" where
  "uu_line_len room c =
     (if room < unat (UU_DECODE_CHAR c) then room else unat (UU_DECODE_CHAR c)) * 4 div 3"

definition uu_no_line :: "nat \<Rightarrow> u8 \<Rightarrow> bytes \<Rightarrow> bool" where
  "uu_no_line room c cs \<longleftrightarrow>
     unat (UU_DECODE_CHAR c) = 0 \<or> unat (UU_DECODE_CHAR c) = 5 \<and> c = 0x65 \<or> length cs < uu_line_len room c"

lemma uu_loop_cases:
  "uu_no_line room c cs \<Longrightarrow> 0 < room \<Longrightarrow> c \<noteq> LF \<Longrightarrow> \<exists>e. uu_loop beyond room True (c # cs) = ([], c # cs, e)"
  "\<not> uu_no_line room c cs \<Longrightarrow> 0 < room \<Longrightarrow> c \<noteq> LF \<Longrightarrow>
    uu_loop beyond room True (c # cs) =
      (case uu_bytes beyond (uu_line_len room c) cs of
         (out, r) \<Rightarrow> (case uu_loop beyond (room - length out) False r of (out', r', e) \<Rightarrow> (out @ out', r', e)))"
  "c = LF \<or> \<not> sol \<Longrightarrow> 0 < room \<Longrightarrow> uu_loop beyond room sol (c # cs) = uu_loop beyond room (c = LF \<or> sol) cs"
  by (auto simp: uu_no_line_def uu_line_len_def Let_def split: prod.split)

lemma uu_loop_length:
  "uu_loop beyond room sol p = (out, r, e) \<Longrightarrow> length out \<le> room \<and> length r \<le> length p"
proof (induction "length p" arbitrary: room sol p out r e rule: less_induct)
  case less
  show ?case
  proof (cases p)
    case Nil
    then show ?thesis using less.prems by simp
  next
    case (Cons c cs)
    have ih: "uu_loop beyond room' sol' cs = (out, r, e) \<Longrightarrow> ?thesis" if "room' \<le> room" for room' sol'
      using less.hyps [of cs room' sol' out r e] that by (auto simp: Cons)
    consider "room = 0" | "0 < room" "c = LF \<or> \<not> sol" | "0 < room" "c \<noteq> LF" "sol" "uu_no_line room c cs"
      | "0 < room" "c \<noteq> LF" "sol" "\<not> uu_no_line room c cs" by blast
    then show ?thesis
    proof cases
      case 1
      then show ?thesis using less.prems by (simp add: Cons)
    next
      case 2
      then have "uu_loop beyond room (c = LF \<or> sol) cs = (out, r, e)"
        using less.prems uu_loop_cases(3) [of c sol room beyond cs] by (simp only: Cons)
      then show ?thesis by (rule ih [OF order_refl])
    next
      case 3
      then show ?thesis using less.prems uu_loop_cases(1) [of room c cs beyond] by (auto simp: Cons)
    next
      case 4
      obtain o1 r1 where o1: "uu_bytes beyond (uu_line_len room c) cs = (o1, r1)" by fastforce
      obtain o2 r2 e2 where o2: "uu_loop beyond (room - length o1) False r1 = (o2, r2, e2)" by (metis prod_cases3)
      have r1: "length r1 \<le> length cs" using uu_bytes_rest [of beyond "uu_line_len room c" cs] o1 by simp
      then have "length o2 \<le> room - length o1 \<and> length r2 \<le> length r1"
        using less.hyps [OF _ o2] by (simp add: Cons)
      moreover have "length o1 \<le> room"
        using uu_bytes_room [of beyond room cs] uu_bytes_room [of beyond "unat (UU_DECODE_CHAR c)" cs] o1
        by (auto simp: uu_line_len_def split: if_splits)
      moreover have "out = o1 @ o2 \<and> r = r2"
        using less.prems uu_loop_cases(2) [OF 4(4,1,2), of beyond] 4(3) o1 o2 by (simp add: Cons)
      ultimately show ?thesis using r1 unfolding Cons by (simp only: length_append length_Cons) linarith
    qed
  qed
qed

end
