(* ===== verification/MimeLimits.thy ===== *)
theory MimeLimits
  imports UuProps
begin

text \<open>
  The limits of a mail session as an invariant of every operation on its state, and the bounds
  and the result of \<open>sf_unfold_header\<close>.
\<close>

section \<open>Limits of a session\<close>

definition code_cap :: "u32 \<Rightarrow> nat" where
  \<comment> \<open>the bytes a limit lets into a buffer: 0 is no limit but the buffer's, a negative one is nothing\<close>
  "code_cap d = (if d = 0 then 65535 else if sint d < 0 then 0 else unat d)"

definition code_ok :: "code_state \<Rightarrow> bool" where
  "code_ok c \<longleftrightarrow> encode_depth c = decode_depth c \<and>
     (0 < sint (encode_depth c) \<longrightarrow> encode_bytes_read c \<le> encode_depth c \<and> decode_bytes_read c \<le> encode_depth c)"

lemma sint_pos_nonzero: "0 < sint (d :: u32) \<Longrightarrow> d \<noteq> 0"
  by auto

lemma sint_nonneg_cases: "\<not> sint (d :: u32) < 0 \<Longrightarrow> d \<noteq> 0 \<Longrightarrow> 0 < sint d"
  by (metis linorder_neqE_linordered_idom signed_eq_0_iff)

lemma unat_sub_of_nat: "n \<le> unat (x :: u32) \<Longrightarrow> unat (x - of_nat n) = unat x - n"
proof -
  assume n: "n \<le> unat x"
  then have "n < 4294967296" using unat_u32_bound [of x] by linarith
  then have "unat (of_nat n :: u32) = n" by (rule unat_of_nat_u32)
  then show ?thesis using n by (metis unat_sub word_le_nat_alt)
qed

lemma unat_add_of_nat: "unat (x :: u32) + n \<le> unat (y :: u32) \<Longrightarrow> unat (x + of_nat n) = unat x + n"
proof -
  assume n: "unat x + n \<le> unat y"
  then have n32: "n < 4294967296" using unat_u32_bound [of y] by linarith
  have "unat x + unat (of_nat n :: u32) < 2 ^ LENGTH(32)"
    unfolding unat_of_nat_u32 [OF n32] using order_le_less_trans [OF n unat_u32_bound] by simp
  then show ?thesis by (simp add: unat_add_lem [THEN iffD1] unat_of_nat_u32 [OF n32])
qed

lemma avail_cap:
  assumes "code_ok c" "\<not> sint (encode_depth c) < 0" "code_avail c = (ea, da)"
  shows "unat ea \<le> code_cap (encode_depth c)" "unat da \<le> code_cap (encode_depth c)"
proof -
  have "unat ea \<le> code_cap (encode_depth c) \<and> unat da \<le> code_cap (encode_depth c)"
  proof (cases "encode_depth c = 0")
    case True
    then show ?thesis using assms by (auto simp: code_avail_def code_cap_def MAX_BUF_def)
  next
    case False
    then have "0 < sint (encode_depth c)" using assms(2) by (rule sint_nonneg_cases [rotated])
    then show ?thesis using assms False
      by (auto simp: code_avail_def code_cap_def code_ok_def unat_sub)
  qed
  then show "unat ea \<le> code_cap (encode_depth c)" "unat da \<le> code_cap (encode_depth c)" by auto
qed

lemma after_decode_ok:
  assumes "code_ok c" "\<not> sint (encode_depth c) < 0" "code_avail c = (ea, da)" "n \<le> unat ea" "m \<le> unat da"
  shows "code_ok (after_decode c (of_nat n) (of_nat m))"
proof (cases "encode_depth c = 0")
  case True
  then show ?thesis using assms(1) by (simp add: code_ok_def after_decode_def)
next
  case False
  then have p: "0 < sint (encode_depth c)" using assms(2) by (rule sint_nonneg_cases [rotated])
  then have le: "unat (encode_bytes_read c) \<le> unat (encode_depth c)" "unat (decode_bytes_read c) \<le> unat (encode_depth c)"
    and d: "decode_depth c = encode_depth c"
    using assms(1) by (auto simp: code_ok_def word_le_nat_alt)
  have "n \<le> unat (encode_depth c) - unat (encode_bytes_read c)" "m \<le> unat (encode_depth c) - unat (decode_bytes_read c)"
    using assms(3-5) False le d by (auto simp: code_avail_def unat_sub word_le_nat_alt)
  then have s: "unat (encode_bytes_read c) + n \<le> unat (encode_depth c)" "unat (decode_bytes_read c) + m \<le> unat (encode_depth c)"
    using le by linarith+
  show ?thesis using s d by (simp add: code_ok_def after_decode_def word_le_nat_alt unat_add_of_nat [OF s(1)] unat_add_of_nat [OF s(2)])
qed

lemma take_prev_length: "length (take_prev ea ds) \<le> unat ea"
  by (simp add: take_prev_def)

lemma strip_lws_length: "length out \<le> sz \<Longrightarrow> length (strip_lws sz lws out cs) \<le> sz"
proof (induction sz lws out cs rule: strip_lws.induct)
  case (2 sz lws out c cs)
  have "length (dropWhile is_lws out) \<le> length out" by (rule length_dropWhile_le)
  then show ?case using 2 by auto
qed simp

lemma qpdecode_length:
  "sf_qpdecode src dlen = Some (out, rest) \<Longrightarrow> length out \<le> unat dlen \<and> length rest \<le> length src"
  using qp_loop_length [of "unat dlen" src] by (auto simp: sf_qpdecode_def split: if_splits)

lemma uu_body_length: "length (uur_out (uu_body src dlen beyond e name p)) \<le> dlen"
  "uur_read (uu_body src dlen beyond e name p) \<le> length src"
  using uu_loop_length [of beyond dlen True p] by (auto simp: uu_body_def split: prod.split)

lemma uudecode_length:
  "sf_uudecode src dlen beyond b e want = Some u \<Longrightarrow> length (uur_out u) \<le> unat dlen \<and> uur_read u \<le> length src"
  by (auto simp: sf_uudecode_def uu_body_length Let_def split: if_splits option.splits)

definition state_ok :: "nat \<Rightarrow> email_state \<Rightarrow> bool" where
  \<comment> \<open>\<open>sz\<close>: the size of the two buffers\<close>
  "state_ok sz ds \<longleftrightarrow>
     code_ok (b64_state ds) \<and> code_ok (qp_state ds) \<and> code_ok (uu_state ds) \<and>
     (0 < sint (bitenc_depth ds) \<longrightarrow> bitenc_read ds \<le> bitenc_depth ds) \<and>
     code_cap (encode_depth (b64_state ds)) \<le> sz \<and> code_cap (encode_depth (qp_state ds)) \<le> sz \<and>
     code_cap (encode_depth (uu_state ds)) \<le> sz \<and> code_cap (bitenc_depth ds) \<le> sz \<and>
     length (prev_encoded ds) \<le> sz \<and> length (decoded ds) \<le> sz"

lemma reset_ok [intro]: "state_ok sz ds \<Longrightarrow> state_ok sz (ResetEmailDecodeState ds)"
  by (simp add: state_ok_def ResetEmailDecodeState_def ResetDecodedBytes_def ClearPrevEncodeBuf_def)

lemma flags_ok [intro]: "state_ok sz ds \<Longrightarrow> state_ok sz (ds\<lparr>begin_found := b\<rparr>)"
  "state_ok sz ds \<Longrightarrow> state_ok sz (ds\<lparr>decode_type := t\<rparr>)"
  by (simp_all add: state_ok_def)

lemma clear_ok [intro]: "state_ok sz ds \<Longrightarrow> state_ok sz (ClearPrevEncodeBuf ds)"
  "state_ok sz ds \<Longrightarrow> state_ok sz (ResetDecodedBytes ds)"
  by (simp_all add: state_ok_def ClearPrevEncodeBuf_def ResetDecodedBytes_def)

lemma zero_counts_ok [simp]: "code_ok c \<Longrightarrow> code_ok (zero_counts c)" "encode_depth (zero_counts c) = encode_depth c"
  by (simp_all add: code_ok_def zero_counts_def word_le_nat_alt)

lemma reset_read_ok [intro]: "state_ok sz ds \<Longrightarrow> state_ok sz (ResetBytesRead ds)"
  by (simp add: state_ok_def ResetBytesRead_def ClearPrevEncodeBuf_def word_le_nat_alt)

lemma set_b64_ok:
  "state_ok sz ds \<Longrightarrow> code_ok c \<Longrightarrow> encode_depth c = encode_depth (b64_state ds) \<Longrightarrow> length p \<le> sz \<Longrightarrow> length out \<le> sz \<Longrightarrow>
    state_ok sz (ds\<lparr>decode_present := True, prev_encoded := p, decoded := out, b64_state := c\<rparr>)"
  by (simp add: state_ok_def)

lemma after_decode_depth [simp]: "encode_depth (after_decode c n m) = encode_depth c"
  by (simp add: after_decode_def)

lemma buffer_length:
  assumes "length fill \<le> unat (ea - of_nat (length (take_prev ea ds)))"
  shows "length (take_prev ea ds @ fill) \<le> unat ea"
  using assms unat_sub_of_nat [OF take_prev_length, of ea ds] take_prev_length [of ea ds] by simp

lemma Base64Decode_ok:
  assumes "state_ok sz ds" and "Base64Decode data ds = (r, ds')"
  shows "state_ok sz ds'"
proof -
  let ?c = "b64_state ds"
  obtain ea da where av: "code_avail ?c = (ea, da)" by fastforce
  have c: "code_ok ?c" "code_cap (encode_depth ?c) \<le> sz" using assms(1) by (simp_all add: state_ok_def)
  show ?thesis
  proof (cases "sint (encode_depth ?c) < 0 \<or> ea = 0 \<or> da = 0 \<or> \<not> has_bufs ds")
    case True
    then show ?thesis using assms av by (auto simp: Base64Decode_def Let_def split: if_splits)
  next
    case False
    then have n: "\<not> sint (encode_depth ?c) < 0" by simp
    note cap = avail_cap [OF c(1) n av]
    define avail where "avail = ea - of_nat (length (take_prev ea ds))"
    define buf where "buf = take_prev ea ds @ sf_strip_CRLF data avail"
    have buf: "length buf \<le> unat ea"
      unfolding buf_def by (rule buffer_length) (simp add: sf_strip_CRLF_def avail_def strip_crlf_length)
    define k where "k = length buf - length buf mod 4"
    obtain e out where dec: "sf_base64decode (take k buf) da = (e, out)" by fastforce
    have out: "length out \<le> unat da" using base64_length [of "take k buf" da] dec by simp
    have "ds' = ResetEmailDecodeState ds \<or>
      ds' = ds\<lparr>decode_present := True, prev_encoded := drop k buf, decoded := out,
        b64_state := after_decode ?c (of_nat (length (take k buf))) (of_nat (length out))\<rparr>"
      using assms(2) False av dec
      by (auto simp: Base64Decode_def Let_def k_def buf_def avail_def split: if_splits)
    moreover have "state_ok sz (ds\<lparr>decode_present := True, prev_encoded := drop k buf, decoded := out,
        b64_state := after_decode ?c (of_nat (length (take k buf))) (of_nat (length out))\<rparr>)"
      by (rule set_b64_ok [OF assms(1) after_decode_ok [OF c(1) n av]])
        (use buf out cap c(2) in auto)
    ultimately show ?thesis using assms(1) by auto
  qed
qed

lemma set_qp_ok:
  "state_ok sz ds \<Longrightarrow> code_ok c \<Longrightarrow> encode_depth c = encode_depth (qp_state ds) \<Longrightarrow> length p \<le> sz \<Longrightarrow> length out \<le> sz \<Longrightarrow>
    state_ok sz (ds\<lparr>decode_present := True, prev_encoded := p, decoded := out, qp_state := c\<rparr>)"
  by (simp add: state_ok_def)

lemma set_uu_ok:
  "state_ok sz ds \<Longrightarrow> code_ok c \<Longrightarrow> encode_depth c = encode_depth (uu_state ds) \<Longrightarrow> length p \<le> sz \<Longrightarrow> length out \<le> sz \<Longrightarrow>
    state_ok sz (ds\<lparr>decode_present := True, prev_encoded := p, decoded := out, begin_found := b, end_found := e,
      uu_state := c\<rparr>)"
  by (simp add: state_ok_def)

lemma QPDecode_ok:
  assumes "state_ok sz ds" and "QPDecode data ds = (r, ds')"
  shows "state_ok sz ds'"
proof -
  let ?c = "qp_state ds"
  obtain ea da where av: "code_avail ?c = (ea, da)" by fastforce
  have c: "code_ok ?c" "code_cap (encode_depth ?c) \<le> sz" using assms(1) by (simp_all add: state_ok_def)
  show ?thesis
  proof (cases "sint (encode_depth ?c) < 0 \<or> ea = 0 \<or> da = 0 \<or> \<not> has_bufs ds")
    case True
    then show ?thesis using assms av by (auto simp: QPDecode_def Let_def split: if_splits)
  next
    case False
    then have n: "\<not> sint (encode_depth ?c) < 0" by simp
    note cap = avail_cap [OF c(1) n av]
    define avail where "avail = ea - of_nat (length (take_prev ea ds))"
    define buf where "buf = take_prev ea ds @ sf_strip_LWS data avail"
    have buf: "length buf \<le> unat ea"
      unfolding buf_def by (rule buffer_length) (simp add: sf_strip_LWS_def avail_def strip_lws_length)
    have "ds' = ResetEmailDecodeState ds \<or> (\<exists>out rest. sf_qpdecode buf da = Some (out, rest) \<and>
      ds' = ds\<lparr>decode_present := True, prev_encoded := rest, decoded := out,
        qp_state := after_decode ?c (of_nat (length buf - length rest)) (of_nat (length out))\<rparr>)"
      using assms(2) False av
      by (auto simp: QPDecode_def Let_def buf_def avail_def split: if_splits option.splits)
    moreover have "state_ok sz (ds\<lparr>decode_present := True, prev_encoded := rest, decoded := out,
        qp_state := after_decode ?c (of_nat (length buf - length rest)) (of_nat (length out))\<rparr>)"
      if "sf_qpdecode buf da = Some (out, rest)" for out rest
      by (rule set_qp_ok [OF assms(1) after_decode_ok [OF c(1) n av]])
        (use qpdecode_length [OF that] buf cap c(2) in auto)
    ultimately show ?thesis using assms(1) by auto
  qed
qed

lemma UUDecode_ok:
  assumes "state_ok sz ds" and "UUDecode data ds beyond want = (r, ds', name)"
  shows "state_ok sz ds'"
proof -
  let ?c = "uu_state ds"
  obtain ea da where av: "code_avail ?c = (ea, da)" by fastforce
  have c: "code_ok ?c" "code_cap (encode_depth ?c) \<le> sz" using assms(1) by (simp_all add: state_ok_def)
  show ?thesis
  proof (cases "sint (encode_depth ?c) < 0 \<or> ea = 0 \<or> da = 0 \<or> \<not> has_bufs ds")
    case True
    then show ?thesis using assms av by (auto simp: UUDecode_def Let_def split: if_splits)
  next
    case False
    then have n: "\<not> sint (encode_depth ?c) < 0" by simp
    note cap = avail_cap [OF c(1) n av]
    define avail where "avail = ea - of_nat (length (take_prev ea ds))"
    define buf where "buf = take_prev ea ds @ take (unat avail) data"
    have buf: "length buf \<le> unat ea"
      unfolding buf_def by (rule buffer_length) (simp add: avail_def)
    let ?dec = "sf_uudecode buf da beyond (begin_found ds) (end_found ds) want"
    have "ds' = ResetEmailDecodeState ds \<or> (\<exists>u. ?dec = Some u \<and>
      ds' = ds\<lparr>decode_present := True, prev_encoded := drop (uur_read u) buf, decoded := uur_out u,
        begin_found := uur_begin u \<and> \<not> uur_end u, end_found := False,
        uu_state := after_decode ?c (of_nat (uur_read u)) (of_nat (length (uur_out u)))\<rparr>)"
      using assms(2) False av
      by (auto simp: UUDecode_def Let_def buf_def avail_def split: if_splits option.splits)
    moreover have "state_ok sz (ds\<lparr>decode_present := True, prev_encoded := drop (uur_read u) buf, decoded := uur_out u,
        begin_found := uur_begin u \<and> \<not> uur_end u, end_found := False,
        uu_state := after_decode ?c (of_nat (uur_read u)) (of_nat (length (uur_out u)))\<rparr>)"
      if "?dec = Some u" for u
      by (rule set_uu_ok [OF assms(1) after_decode_ok [OF c(1) n av]])
        (use uudecode_length [OF that] buf cap c(2) in auto)
    ultimately show ?thesis using assms(1) by auto
  qed
qed

lemma BitEncExtract_ok:
  assumes "state_ok sz ds0" and "BitEncExtract data ds0 = (r, ds')"
  shows "state_ok sz ds'"
proof -
  define ds where "ds = ClearPrevEncodeBuf ds0"
  define av where "av = (if bitenc_depth ds = 0 then MAX_BUF else bitenc_depth ds - bitenc_read ds)"
  define act where "act = (if (of_nat (length data) :: u32) < av then of_nat (length data) else av)"
  have ok: "state_ok sz ds" unfolding ds_def using assms(1) by auto
  have le: "unat act \<le> unat av" unfolding act_def by (auto simp: word_less_nat_alt)
  show ?thesis
  proof (cases "sint (bitenc_depth ds) < 0 \<or> av = 0")
    case True
    then show ?thesis using assms(2) ok by (auto simp: BitEncExtract_def Let_def ds_def av_def split: if_splits)
  next
    case False
    then have ds': "ds' = ds\<lparr>decode_present := True, decoded := take (unat act) data, bitenc_read := bitenc_read ds + act\<rparr>"
      using assms(2) by (auto simp: BitEncExtract_def Let_def ds_def [symmetric] av_def act_def split: if_splits)
    have "unat act \<le> code_cap (bitenc_depth ds) \<and>
        (0 < sint (bitenc_depth ds) \<longrightarrow> bitenc_read ds + act \<le> bitenc_depth ds)"
    proof (cases "bitenc_depth ds = 0")
      case True
      then show ?thesis using le by (simp add: av_def code_cap_def MAX_BUF_def)
    next
      case n0: False
      then have p: "0 < sint (bitenc_depth ds)" using False by (auto intro: sint_nonneg_cases)
      then have rd: "unat (bitenc_read ds) \<le> unat (bitenc_depth ds)"
        using ok by (simp add: state_ok_def word_le_nat_alt)
      then have "unat av = unat (bitenc_depth ds) - unat (bitenc_read ds)"
        using n0 by (simp add: av_def unat_sub word_le_nat_alt)
      then have s: "unat (bitenc_read ds) + unat act \<le> unat (bitenc_depth ds)" using le rd by linarith
      then show ?thesis using unat_add_of_nat [OF s] p n0
        by (simp add: code_cap_def word_le_nat_alt)
    qed
    then show ?thesis using ok unfolding ds' state_ok_def by auto
  qed
qed

lemma EmailDecode_ok:
  assumes "state_ok sz ds" and "EmailDecode data ds beyond want = (r, ds', name)"
  shows "state_ok sz ds'"
  using assms Base64Decode_ok [OF assms(1)] QPDecode_ok [OF assms(1)] UUDecode_ok [OF assms(1)] BitEncExtract_ok [OF assms(1)]
  by (fastforce simp: EmailDecode_def split: DecodeType.splits prod.splits)

inductive mail_session :: "email_state \<Rightarrow> email_state \<Rightarrow> bool" for ds0 where
  \<comment> \<open>the states a session goes through from \<open>ds0\<close>\<close>
  start: "mail_session ds0 ds0"
| decode: "mail_session ds0 ds \<Longrightarrow> EmailDecode data ds beyond want = (r, ds', name) \<Longrightarrow> mail_session ds0 ds'"
| set_type: "mail_session ds0 ds \<Longrightarrow> mail_session ds0 (ds\<lparr>decode_type := t\<rparr>)"
| reset_read: "mail_session ds0 ds \<Longrightarrow> mail_session ds0 (ResetBytesRead ds)"
| reset_decoded: "mail_session ds0 ds \<Longrightarrow> mail_session ds0 (ResetDecodedBytes ds)"
| reset: "mail_session ds0 ds \<Longrightarrow> mail_session ds0 (ResetEmailDecodeState ds)"
| clear: "mail_session ds0 ds \<Longrightarrow> mail_session ds0 (ClearEmailDecodeState ds)"

lemma mail_session_ok: "mail_session ds0 ds \<Longrightarrow> state_ok sz ds0 \<Longrightarrow> state_ok sz ds"
  by (induction rule: mail_session.induct) (auto simp: ClearEmailDecodeState_def intro: EmailDecode_ok)

definition depths_fit :: "u32 \<Rightarrow> u32 list \<Rightarrow> bool" where
  \<comment> \<open>no configured depth is larger than the largest one\<close>
  "depths_fit m ds \<longleftrightarrow> 0 \<le> sint m \<and> sint m \<le> 65535 \<and> (\<forall>d \<in> set ds. code_cap d \<le> unat m)"

lemma unat_sint_nonneg: "0 \<le> sint (d :: u32) \<Longrightarrow> unat d = nat (sint d)"
proof -
  assume d: "0 \<le> sint d"
  have "sint d < 2 ^ 32" using sint_lt [of d] by simp
  then have "uint d = sint d" using d by (simp add: uint_sint take_bit_int_eq_self)
  then show ?thesis by (metis nat_uint_eq)
qed

lemma file_depth_word:
  assumes "0 < sint (fd :: u64)" "sint fd \<le> 65535"
  shows "unat (ucast fd :: u32) = nat (sint fd)" "sint (ucast fd :: u32) = sint fd"
proof -
  have u: "uint fd = sint fd" using assms by (simp add: uint_sint take_bit_int_eq_self)
  have "uint (ucast fd :: u32) = take_bit 32 (uint fd)" by (simp add: unsigned_ucast_eq)
  also have "\<dots> = sint fd" using assms unfolding u by (simp add: take_bit_int_eq_self)
  finally have v: "uint (ucast fd :: u32) = sint fd" .
  then show "unat (ucast fd :: u32) = nat (sint fd)" by (metis nat_uint_eq)
  have "sint (ucast fd :: u32) = signed_take_bit 31 (sint fd)" by (simp add: sint_uint v)
  also have "\<dots> = sint fd" using assms by (simp add: signed_take_bit_int_eq_self)
  finally show "sint (ucast fd :: u32) = sint fd" .
qed

lemma depth_fits:
  assumes "code_cap d \<le> unat m" "0 \<le> sint m"
  shows "code_cap (getCodeDepth d fd) \<le> unat (updateMaxDepth fd m)"
proof -
  consider "sint fd < 0" | "fd = 0 \<or> 65535 < sint fd" | "0 < sint fd" "sint fd \<le> 65535"
    by (metis linorder_not_less not_less_iff_gr_or_eq signed_eq_0_iff)
  then show ?thesis
  proof cases
    case 1
    then show ?thesis using assms by (auto simp: getCodeDepth_def updateMaxDepth_def)
  next
    case 2
    then show ?thesis by (auto simp: getCodeDepth_def updateMaxDepth_def code_cap_def MAX_BUF_def)
  next
    case 3
    note w = file_depth_word [OF 3]
    have nz: "(ucast fd :: u32) \<noteq> 0" "fd \<noteq> 0" using w 3 by auto
    show ?thesis
      using 3 assms w nz unat_sint_nonneg [OF assms(2)]
      by (auto simp: getCodeDepth_def updateMaxDepth_def code_cap_def split: if_splits)
  qed
qed

text \<open> C10. Limits of a session: if the buffers are allocated with \<open>updateMaxDepth\<close> of a
  configuration in which no depth exceeds the largest one, then after any sequence of packets,
  changes of the encoding and resets, what is kept and what is decoded fit the buffers, and each
  decoder has read and written no more than its depth since the last reset of its counters.\<close>
theorem mail_session_limits:
  assumes "mail_session (SetEmailDecodeState True b64 qp uu bitenc file_depth) ds"
    and "depths_fit max_depth [b64, qp, uu, bitenc]"
  shows "state_ok (unat (updateMaxDepth file_depth max_depth)) ds"
proof (rule mail_session_ok [OF assms(1)])
  show "state_ok (unat (updateMaxDepth file_depth max_depth)) (SetEmailDecodeState True b64 qp uu bitenc file_depth)"
    using assms(2)
    by (auto simp: state_ok_def SetEmailDecodeState_def fresh_code_def code_ok_def depths_fit_def word_le_nat_alt
        intro: depth_fits)
qed

lemma mail_session_limits_witness:
  "state_ok (unat (updateMaxDepth 0 1464))
     (snd (Base64Decode [0x54, 0x57, 0x46] ((SetEmailDecodeState True 1464 1464 100 50 0)\<lparr>decode_type := DECODE_B64\<rparr>)))"
proof (rule mail_session_limits)
  let ?s = "SetEmailDecodeState True 1464 1464 100 50 0"
  have "mail_session ?s (?s\<lparr>decode_type := DECODE_B64\<rparr>)" by (intro mail_session.set_type mail_session.start)
  then show "mail_session ?s (snd (Base64Decode [0x54, 0x57, 0x46] (?s\<lparr>decode_type := DECODE_B64\<rparr>)))"
    by (rule mail_session.decode [where data = "[0x54, 0x57, 0x46]" and beyond = 0 and want = False and name = None
          and r = "fst (Base64Decode [0x54, 0x57, 0x46] (?s\<lparr>decode_type := DECODE_B64\<rparr>))"])
      (simp add: EmailDecode_def split: prod.split)
qed (simp add: depths_fit_def code_cap_def)

section \<open>Unfolding\<close>

abbreviation not_lws :: "u8 \<Rightarrow> bool" where "not_lws c \<equiv> \<not> is_lws c"

lemma unfold_length:
  assumes "unfold_loop sz trim n f p s cs = (out, m, s')"
  shows "length out \<le> length cs" "trim \<Longrightarrow> m = n + length out" "n \<le> sz \<Longrightarrow> m \<le> sz" "m \<le> n + length out"
proof -
  have "length out \<le> length cs \<and> (trim \<longrightarrow> m = n + length out) \<and> (n \<le> sz \<longrightarrow> m \<le> sz) \<and> m \<le> n + length out"
    using assms
  proof (induction cs arbitrary: n f p s out)
    case (Cons c cs)
    let ?P = "\<lambda>n cs out. length out \<le> length cs \<and> (trim \<longrightarrow> m = n + length out) \<and> (n \<le> sz \<longrightarrow> m \<le> sz) \<and> m \<le> n + length out"
    have skip: ?case if "unfold_loop sz trim n f' p' s1 cs = (out, m, s')" for f' p' s1
      using Cons.IH [OF that] by auto
    have keep: ?case if "unfold_loop sz trim n' f' p' s1 cs = (o1, m, s')" "out = c # o1"
        "trim \<and> n' = n + 1 \<or> \<not> trim \<and> (n' = n + 1 \<or> n' = n)" "n < sz" for n' f' p' s1 o1
      using Cons.IH [OF that(1)] that(2-4) by auto
    show ?case
    proof (cases "n < sz \<and> (is_lws c \<or> f = 0 \<or> c = LF)")
      case True
      then show ?thesis
        using Cons.prems skip keep
        by (cases "is_lws c") (auto simp: Let_def split: if_splits prod.splits)
    next
      case False
      then show ?thesis using Cons.prems skip by (auto split: if_splits)
    qed
  qed simp
  then show "length out \<le> length cs" "trim \<Longrightarrow> m = n + length out" "n \<le> sz \<Longrightarrow> m \<le> sz" "m \<le> n + length out" by auto
qed

text \<open>\<open>sf_unfold_header\<close> writes inside its output buffer only, if that is not empty and spaces
  are trimmed or the input is shorter than it.\<close>
theorem sf_unfold_header_bounds:
  assumes "outbuf_size \<noteq> 0" and "trim \<or> length inbuf < unat outbuf_size"
    and "sf_unfold_header inbuf outbuf_size trim mem = (mem', n, folded)"
  shows "n \<le> unat outbuf_size \<and> (\<forall>i \<ge> unat outbuf_size. mem' i = mem i)"
proof -
  obtain out m s where l: "unfold_loop (unat outbuf_size) trim 0 0 False 0 inbuf = (out, m, s)"
    by (metis prod_cases3)
  have m: "length out \<le> length inbuf" "trim \<Longrightarrow> m = length out" "m \<le> unat outbuf_size" "m \<le> length out"
    using unfold_length [OF l] by simp_all
  then have le: "length out \<le> unat outbuf_size" "m < unat outbuf_size \<Longrightarrow> length out < unat outbuf_size"
    using assms(2) by auto
  have "unat (outbuf_size - 1) < unat outbuf_size" using assms(1) by (simp add: unat_minus_one unat_gt_0)
  then show ?thesis using assms(3) le by (auto simp: sf_unfold_header_def l Let_def)
qed

lemma sf_unfold_header_bounds_witness:
  "case sf_unfold_header [0x61, SP, 0x62, 0x63] 2 True (\<lambda>_. 0) of
     (mem', n, folded) \<Rightarrow> n \<le> unat (2 :: u32) \<and> mem' 2 = 0 \<and> mem' 3 = 0"
proof -
  obtain mem' n folded where eq: "sf_unfold_header [0x61, SP, 0x62, 0x63] 2 True (\<lambda>_. 0) = (mem', n, folded)"
    by (metis prod_cases3)
  have "n \<le> unat (2 :: u32) \<and> (\<forall>i \<ge> unat (2 :: u32). mem' i = 0)"
    by (rule sf_unfold_header_bounds [OF _ _ eq]) simp_all
  then show ?thesis by (simp add: eq)
qed

text \<open>
  Otherwise the loop counts only what is not white space but writes both: white space runs
  over the end of the buffer.
\<close>

lemma sf_unfold_header_overflow:
  "fst (sf_unfold_header [SP, SP, SP] 1 False (\<lambda>_. 0x41)) 1 = SP"
  "fst (sf_unfold_header [SP, SP, SP] 1 False (\<lambda>_. 0x41)) 2 = SP"
  "fst (sf_unfold_header [SP, SP, SP] 1 False (\<lambda>_. 0x41)) 3 = 0"
  by code_simp+

definition fold_break :: "bytes \<Rightarrow> bool" where
  "fold_break brk \<longleftrightarrow> brk = [CR, LF] \<or> brk = [LF]"

definition no_break :: "bytes \<Rightarrow> bool" where
  "no_break seg \<longleftrightarrow> (\<forall>c \<in> set seg. c \<noteq> CR \<and> c \<noteq> LF)"

fun folded_lines :: "(bytes \<times> u8 \<times> bytes) list \<Rightarrow> bytes" where
  \<comment> \<open>the continuation lines of a header: line break, one character of white space, text\<close>
  "folded_lines [] = []"
| "folded_lines ((brk, w, seg) # ls) = brk @ w # seg @ folded_lines ls"

definition folds_ok :: "(bytes \<times> u8 \<times> bytes) list \<Rightarrow> bool" where
  "folds_ok ls \<longleftrightarrow> (\<forall>(brk, w, seg) \<in> set ls. fold_break brk \<and> is_lws w \<and> no_break seg)"

definition kept :: "bool \<Rightarrow> bytes \<Rightarrow> bytes" where
  "kept trim cs = (if trim then filter not_lws cs else cs)"

lemma kept_append [simp]: "kept trim (xs @ ys) = kept trim xs @ kept trim ys" "kept trim [] = []"
  by (simp_all add: kept_def)

lemma kept_length: "length (filter not_lws cs) \<le> length (kept trim cs)"
  by (simp add: kept_def)

lemma break_not_lws [simp]: "\<not> is_lws CR" "\<not> is_lws LF"
  by (simp_all add: is_lws_def)

lemma unfold_seg:
  assumes "no_break seg" "n + length (filter not_lws seg) < sz"
  shows "\<exists>s'. unfold_loop sz trim n 0 p s (seg @ rest) =
    (case unfold_loop sz trim (n + length (filter not_lws seg)) 0 p s' rest of (out, r) \<Rightarrow> (kept trim seg @ out, r))"
  using assms
proof (induction seg arbitrary: n s)
  case (Cons c seg)
  show ?case
  proof (cases "is_lws c")
    case True
    obtain s' where "unfold_loop sz trim n 0 p (if p then s + 1 else s) (seg @ rest) =
      (case unfold_loop sz trim (n + length (filter not_lws seg)) 0 p s' rest of (out, r) \<Rightarrow> (kept trim seg @ out, r))"
      using Cons.IH [of n] Cons.prems True by (auto simp: no_break_def)
    moreover obtain o2 r2 where "unfold_loop sz trim (n + length (filter not_lws seg)) 0 p s' rest = (o2, r2)" by (rule prod.exhaust)
    ultimately show ?thesis using True Cons.prems
      by (intro exI [of _ s']) (cases p; cases trim; simp add: kept_def)
  next
    case False
    obtain s' where "unfold_loop sz trim (n + 1) 0 p s (seg @ rest) =
      (case unfold_loop sz trim (n + 1 + length (filter not_lws seg)) 0 p s' rest of (out, r) \<Rightarrow> (kept trim seg @ out, r))"
      using Cons.IH [of "n + 1"] Cons.prems False by (auto simp: no_break_def)
    moreover obtain o2 r2 where "unfold_loop sz trim (n + 1 + length (filter not_lws seg)) 0 p s' rest = (o2, r2)" by (rule prod.exhaust)
    ultimately show ?thesis using False Cons.prems
      by (intro exI [of _ s']) (simp add: no_break_def kept_def)
  qed
qed (auto split: prod.split)

lemma unfold_break:
  "fold_break brk \<Longrightarrow> is_lws w \<Longrightarrow> n < sz \<Longrightarrow>
    unfold_loop sz trim n 0 p s (brk @ w # rest) = unfold_loop sz trim n 0 True ((if p then s + 1 else s) + 1) rest"
  by (auto simp: fold_break_def Let_def)

definition header_ends :: "bytes \<Rightarrow> bool" where
  \<comment> \<open>what follows the header: nothing, or a line break and no white space\<close>
  "header_ends rest \<longleftrightarrow> rest = [] \<or>
     (\<exists>brk c rest'. fold_break brk \<and> rest = brk @ c # rest' \<and> \<not> is_lws c \<and> c \<noteq> LF \<and> c \<noteq> CR)"

lemma unfold_end: "header_ends rest \<Longrightarrow> n < sz \<Longrightarrow> unfold_loop sz trim n 0 p s rest = ([], n, s)"
  by (auto simp: header_ends_def fold_break_def)

definition texts :: "(bytes \<times> u8 \<times> bytes) list \<Rightarrow> bytes" where
  "texts ls = concat (map (\<lambda>(_, _, seg). seg) ls)"

lemma unfold_lines:
  assumes "folds_ok ls" "header_ends rest" and "n + length (filter not_lws (texts ls)) < sz"
  shows "\<exists>s'. unfold_loop sz trim n 0 p s (folded_lines ls @ rest) =
    (kept trim (texts ls), n + length (filter not_lws (texts ls)), s')"
  using assms
proof (induction ls arbitrary: n p s)
  case (Cons l ls)
  obtain brk w seg where l: "l = (brk, w, seg)" by (metis prod_cases3)
  have ok: "fold_break brk" "is_lws w" "no_break seg" "folds_ok ls"
    using Cons.prems(1) by (auto simp: folds_ok_def l)
  have t: "texts (l # ls) = seg @ texts ls" "texts ((brk, w, seg) # ls) = seg @ texts ls" by (simp_all add: texts_def l)
  let ?m = "n + length (filter not_lws seg)"
  have room: "?m + length (filter not_lws (texts ls)) < sz" "n < sz" "?m < sz"
    using Cons.prems(3) by (simp_all add: t)
  define s1 where "s1 = (if p then s + 1 else s) + 1"
  obtain s2 where s2: "unfold_loop sz trim n 0 True s1 (seg @ folded_lines ls @ rest) =
      (case unfold_loop sz trim ?m 0 True s2 (folded_lines ls @ rest) of (out, r) \<Rightarrow> (kept trim seg @ out, r))"
    using unfold_seg [OF ok(3) room(3)] by blast
  obtain s' where "unfold_loop sz trim ?m 0 True s2 (folded_lines ls @ rest) =
      (kept trim (texts ls), ?m + length (filter not_lws (texts ls)), s')"
    using Cons.IH [OF ok(4) Cons.prems(2) room(1)] by blast
  then show ?case
    using unfold_break [OF ok(1,2) room(2), of trim p s "seg @ folded_lines ls @ rest"]
    by (simp add: l t s2 s1_def [symmetric])
qed (simp add: unfold_end texts_def)

text \<open> C37. A folded header (a first line, continuation lines after a line break and a character of
  white space, then the end or a line that is no continuation) is unfolded to the texts of its
  lines, a null byte after them; white space is kept or left out as \<open>trim_spaces\<close> says.  The line
  break goes with the one white space character after it: it is counted in \<open>folded\<close> but,
  against the comment in the function ("add the space to the buffer"), not written.\<close>
theorem sf_unfold_header_lines:
  assumes "no_break first" and "folds_ok ls" and "header_ends rest"
    and room: "length (kept trim (first @ texts ls)) < unat outbuf_size"
  shows "\<exists>mem' n folded. sf_unfold_header (first @ folded_lines ls @ rest) outbuf_size trim mem = (mem', n, folded) \<and>
     map mem' [0 ..< n + 1] = kept trim (first @ texts ls) @ [0]"
proof -
  let ?sz = "unat outbuf_size" and ?f = "length (filter not_lws first)" and ?l = "length (filter not_lws (texts ls))"
  have lens: "0 + ?f < ?sz" "0 + ?f + ?l < ?sz"
    using room kept_length [of first trim] kept_length [of "texts ls" trim] by simp_all
  obtain s1 where s1: "unfold_loop ?sz trim 0 0 False 0 (first @ folded_lines ls @ rest) =
      (case unfold_loop ?sz trim (0 + ?f) 0 False s1 (folded_lines ls @ rest) of (out, r) \<Rightarrow> (kept trim first @ out, r))"
    using unfold_seg [OF assms(1) lens(1)] by blast
  obtain s2 where "unfold_loop ?sz trim (0 + ?f) 0 False s1 (folded_lines ls @ rest) = (kept trim (texts ls), 0 + ?f + ?l, s2)"
    using unfold_lines [OF assms(2,3) lens(2)] by blast
  then have loop: "unfold_loop ?sz trim 0 0 False 0 (first @ folded_lines ls @ rest) =
      (kept trim (first @ texts ls), ?f + ?l, s2)"
    using s1 by simp
  define out where "out = kept trim (first @ texts ls)"
  define mem' where "mem' = (\<lambda>i. if i < length out then out ! i else mem i)(length out := 0)"
  have "map mem' [0 ..< length out + 1] = out @ [0]"
    by (rule nth_equalityI) (auto simp: mem'_def nth_append simp del: upt_Suc)
  moreover have "sf_unfold_header (first @ folded_lines ls @ rest) outbuf_size trim mem = (mem', length out, s2)"
    using lens(2) by (simp add: sf_unfold_header_def loop [folded out_def] Let_def mem'_def)
  ultimately show ?thesis unfolding out_def [symmetric] by blast
qed

lemma sf_unfold_header_lines_witness:
  "\<exists>mem' n folded. sf_unfold_header ([0x61, SP, 0x62] @ folded_lines [([CR, LF], HT, [0x63])] @ []) 8 False (\<lambda>_. 0x41) =
     (mem', n, folded) \<and>
     map mem' [0 ..< n + 1] = kept False ([0x61, SP, 0x62] @ texts [([CR, LF], HT, [0x63])]) @ [0]"
  by (rule sf_unfold_header_lines)
    (simp_all add: no_break_def folds_ok_def fold_break_def header_ends_def is_lws_def kept_def texts_def)

end
