(* ===== verification/Thd.thy ===== *)
theory Thd
  imports TrackerStore RateFilter
begin

text \<open>
  Event filters, suppressions and detection filters: \<open>sfutil/sfthd.c\<close> with its two clients
  \<open>sfthreshold.c\<close> (event filters, applied when an event is logged) and \<open>detection_filter.c\<close>
  (the last condition of a rule).

  The threshold objects \<open>THD_NODE\<close> lie in a store \<open>to_node\<close> from addresses, since
  \<open>sfthd_garray\<close> shares one object between generators and compares pointers.  Its hash tables
  of items are partial functions from signature and policy, its lists are lists.  Tracking
  nodes \<open>THD_IP_NODE\<close> are the data of an \<open>sfxhash\<close> table.  A C \<open>int\<close> that only configures is an
  \<open>int\<close>.  Policies and the allocators are parameters: \<open>mem i\<close> tells whether the \<open>i\<close>th
  allocation of an operation succeeds.  \<open>None\<close> stands for an access outside an array or
  through a null pointer.
\<close>

section \<open>Data\<close>

datatype thd_type = THD_TYPE_LIMIT | THD_TYPE_THRESHOLD | THD_TYPE_BOTH | THD_TYPE_SUPPRESS | THD_TYPE_DETECT

datatype thd_track = THD_TRK_NONE | THD_TRK_SRC | THD_TRK_DST

definition THD_MAX_GENID :: u32 where "THD_MAX_GENID = 8129"
definition THD_NO_THRESHOLD :: int where "THD_NO_THRESHOLD = -1"
definition THD_TOO_MANY_THDOBJ :: int where "THD_TOO_MANY_THDOBJ = -15"
definition THD_PRIORITY_SUPPRESS :: int where "THD_PRIORITY_SUPPRESS = 1000000"

record thd_ip_node =
  ip_count :: u32
  ip_prev :: u32
  ip_tstart :: u64
  ip_tlast :: u64

definition thd_zero_node :: thd_ip_node where
  "thd_zero_node = \<lparr>ip_count = 0, ip_prev = 0, ip_tstart = 0, ip_tlast = 0\<rparr>"

record thd_node =
  td_id :: u32
  td_gen :: u32
  td_sig :: u32
  td_tracking :: thd_track
  td_type :: thd_type
  td_priority :: int
  td_count :: int
  td_seconds :: u32
  td_filtered :: u64
  td_addr :: "(bytes \<Rightarrow> bool) option"

record thd_item =
  ti_policy :: u32
  ti_gen :: u32
  ti_sig :: u32
  ti_list :: "nat list"

record thd_objs =
  to_count :: u32
  to_array :: "u32 \<Rightarrow> (u32 \<times> u32 \<Rightarrow> thd_item option) option"
  to_garray :: "u32 \<Rightarrow> (u32 \<Rightarrow> nat option) option"
  to_policies :: u32
  to_node :: "nat \<Rightarrow> thd_node option"
  to_fresh :: nat

record thd_tables =
  ip_nodes :: "thd_ip_node xhash"
  ip_gnodes :: "thd_ip_node xhash option"

definition sfthd_objs_new :: thd_objs where
  "sfthd_objs_new =
     \<lparr>to_count = 0, to_array = (\<lambda>_. None), to_garray = (\<lambda>_. None), to_policies = 0,
      to_node = (\<lambda>_. None), to_fresh = 0\<rparr>"

section \<open>The tracking tables\<close>

definition thd_key :: "u32 \<Rightarrow> bytes \<Rightarrow> u32 \<Rightarrow> bytes" where
  \<comment> \<open>\<open>THD_IP_NODE_KEY\<close> in memory\<close>
  "thd_key thd_id ip policy = u32_bytes thd_id @ ip @ u32_bytes policy"

definition thd_gkey :: "u32 \<Rightarrow> u32 \<Rightarrow> bytes \<Rightarrow> u32 \<Rightarrow> bytes" where
  \<comment> \<open>\<open>THD_IP_GNODE_KEY\<close> in memory\<close>
  "thd_gkey gen_id sig_id ip policy = u32_bytes gen_id @ u32_bytes sig_id @ ip @ u32_bytes policy"

definition sfthd_new_hash :: "(u64 \<Rightarrow> bool) \<Rightarrow> hashfcn \<Rightarrow> u32 \<Rightarrow> nat \<Rightarrow> nat \<Rightarrow> thd_ip_node xhash option" where
  "sfthd_new_hash os fcn nbytes0 key data =
     (let size = of_nat (key + data);
          nbytes = (if nbytes0 < size then size else nbytes0)
      in sfxhash_new os fcn thd_zero_node (nbytes div size) key data (ucast nbytes) True None False True)"

definition sfthd_local_new :: "(u64 \<Rightarrow> bool) \<Rightarrow> hashfcn \<Rightarrow> u32 \<Rightarrow> thd_ip_node xhash option" where
  "sfthd_local_new os fcn bytes = sfthd_new_hash os fcn bytes 24 24"

definition sfthd_global_new :: "(u64 \<Rightarrow> bool) \<Rightarrow> hashfcn \<Rightarrow> u32 \<Rightarrow> thd_ip_node xhash option" where
  "sfthd_global_new os fcn bytes = sfthd_new_hash os fcn bytes 28 24"

definition sfthd_new :: "(u64 \<Rightarrow> bool) \<Rightarrow> hashfcn \<Rightarrow> hashfcn \<Rightarrow> u32 \<Rightarrow> u32 \<Rightarrow> thd_tables option" where
  "sfthd_new os fcn gfcn lbytes gbytes =
     (case sfthd_local_new os fcn lbytes of
        None \<Rightarrow> None
      | Some l \<Rightarrow>
          if gbytes = 0 then Some \<lparr>ip_nodes = l, ip_gnodes = None\<rparr>
          else (case sfthd_global_new os gfcn gbytes of
                  None \<Rightarrow> None
                | Some g \<Rightarrow> Some \<lparr>ip_nodes = l, ip_gnodes = Some g\<rparr>))"

section \<open>One object, one tracking node\<close>

definition sfthd_create_rule_threshold :: "u32 \<Rightarrow> thd_track \<Rightarrow> thd_type \<Rightarrow> int \<Rightarrow> u32 \<Rightarrow> thd_node" where
  "sfthd_create_rule_threshold i tracking type count seconds =
     \<lparr>td_id = i, td_gen = 0, td_sig = 0, td_tracking = tracking, td_type = type, td_priority = 0,
      td_count = count, td_seconds = seconds, td_filtered = 0, td_addr = None\<rparr>"

definition thd_filter :: "thd_node \<Rightarrow> thd_node" where
  "thd_filter n = n\<lparr>td_filtered := td_filtered n + 1\<rparr>"

definition sfthd_test_suppress :: "thd_node \<Rightarrow> bytes \<Rightarrow> int \<times> thd_node" where
  "sfthd_test_suppress n ip =
     (if (case td_addr n of None \<Rightarrow> True | Some contains \<Rightarrow> contains ip) then (-1, thd_filter n) else (1, n))"

definition thd_over :: "thd_node \<Rightarrow> thd_ip_node \<Rightarrow> u64 \<Rightarrow> bool" where
  \<comment> \<open>\<open>dt >= seconds\<close>\<close>
  "thd_over n d curtime \<longleftrightarrow> ucast (curtime - ip_tstart d) \<ge> td_seconds n"

definition thd_reset :: "thd_node \<Rightarrow> thd_ip_node \<Rightarrow> u64 \<Rightarrow> thd_ip_node" where
  \<comment> \<open>the reset of \<open>LIMIT\<close> and \<open>THRESHOLD\<close>\<close>
  "thd_reset n d curtime = (if thd_over n d curtime then d\<lparr>ip_tstart := curtime, ip_count := 1\<rparr> else d)"

definition sfthd_test_non_suppress :: "thd_node \<Rightarrow> thd_ip_node \<Rightarrow> u64 \<Rightarrow> int \<times> thd_node \<times> thd_ip_node" where
  "sfthd_test_non_suppress n d curtime =
     (case td_type n of
        THD_TYPE_DETECT \<Rightarrow>
          (let d1 = (if thd_over n d curtime
                     then d\<lparr>ip_tstart := curtime,
                            ip_prev := (if ucast (curtime - ip_tlast d) > td_seconds n then 0 else ip_count d - 1),
                            ip_count := 1\<rparr>
                     else d);
               d2 = d1\<lparr>ip_tlast := curtime\<rparr>
           in if sint (ip_count d2) > td_count n \<or> sint (ip_prev d2) > td_count n
              then (0, n, d2) else (-2, thd_filter n, d2))
      | THD_TYPE_LIMIT \<Rightarrow>
          (let d1 = thd_reset n d curtime
           in if sint (ip_count d1) \<le> td_count n then (0, n, d1) else (-2, thd_filter n, d1))
      | THD_TYPE_THRESHOLD \<Rightarrow>
          (let d1 = thd_reset n d curtime
           in if sint (ip_count d1) \<ge> td_count n
              then (0, n, d1\<lparr>ip_count := 0, ip_tstart := curtime\<rparr>) else (-2, thd_filter n, d1))
      | THD_TYPE_BOTH \<Rightarrow>
          (if thd_over n d curtime
           then (-2, thd_filter n, d\<lparr>ip_tstart := curtime, ip_count := 1\<rparr>)
           else if sint (ip_count d) \<ge> td_count n then
             (if sint (ip_count d) > td_count n then (-2, thd_filter n, d) else (0, n, d))
           else (-2, thd_filter n, d))
      | THD_TYPE_SUPPRESS \<Rightarrow> (0, n, d))"

record thd_env =
  te_os :: "u64 \<Rightarrow> bool"
  te_ips :: u32

definition thd_ip :: "thd_node \<Rightarrow> bytes \<Rightarrow> bytes \<Rightarrow> bytes" where
  "thd_ip n sip dip = (if td_tracking n = THD_TRK_SRC then sip else dip)"

text \<open>
  \<open>eval\<close> is \<open>eval_data->detection_filter_count\<close>, \<open>None\<close> for a null pointer.  The branch of
  \<open>sfthd_test_local\<close> for a node just added is never taken: its condition comes last.
\<close>

definition thd_count :: "u8 option \<Rightarrow> thd_ip_node \<Rightarrow> u8 option \<times> thd_ip_node" where
  "thd_count eval d =
     (case eval of
        None \<Rightarrow> (None, d\<lparr>ip_count := ip_count d + 1\<rparr>)
      | Some c \<Rightarrow> if c = 0 then (Some 1, d\<lparr>ip_count := ip_count d + 1\<rparr>) else (eval, d))"

definition sfthd_test_local ::
    "thd_env \<Rightarrow> thd_node \<Rightarrow> bytes \<Rightarrow> bytes \<Rightarrow> u64 \<Rightarrow> u8 option \<Rightarrow> thd_ip_node xhash \<Rightarrow>
     int \<times> thd_node \<times> u8 option \<times> thd_ip_node xhash" where
  "sfthd_test_local env n sip dip curtime eval h =
     (if td_count n = THD_NO_THRESHOLD then (0, n, eval, h)
      else if td_type n = THD_TYPE_SUPPRESS then
        (case sfthd_test_suppress n (thd_ip n sip dip) of (r, n') \<Rightarrow> (r, n', eval, h))
      else
        (let data = \<lparr>ip_count = 0, ip_prev = 0, ip_tstart = curtime, ip_tlast = curtime\<rparr>
         in case sfxhash_add (te_os env) h (thd_key (td_id n) (thd_ip n sip dip) (te_ips env)) (Some data) of
              (st, h1) \<Rightarrow>
                if st = XInTable \<or> st = XOk then
                  (let a = the (xh_cnode h1);
                       (eval', d1) = thd_count eval (ndata h1 a);
                       (r, n', d2) = sfthd_test_non_suppress n d1 curtime
                   in (r, n', eval', node_write h1 a d2))
                else (1, n, eval, h1)))"

definition sfthd_test_rule ::
    "thd_env \<Rightarrow> thd_node option \<Rightarrow> bytes \<Rightarrow> bytes \<Rightarrow> u64 \<Rightarrow> u8 option \<Rightarrow> thd_ip_node xhash option \<Rightarrow>
     int \<times> thd_node option \<times> u8 option \<times> thd_ip_node xhash option" where
  "sfthd_test_rule env node sip dip curtime eval rule_hash =
     (case (rule_hash, node) of
        (Some h, Some n) \<Rightarrow>
          (case sfthd_test_local env n sip dip curtime eval h of
             (status, n', eval', h') \<Rightarrow> (if status < -1 then 1 else status, Some n', eval', Some h'))
      | _ \<Rightarrow> (0, node, eval, rule_hash))"

text \<open>A global object: a node just added is tested on a copy, the one in the table keeps its first data.\<close>

definition sfthd_test_global ::
    "thd_env \<Rightarrow> thd_node \<Rightarrow> u32 \<Rightarrow> bytes \<Rightarrow> bytes \<Rightarrow> u64 \<Rightarrow> thd_ip_node xhash \<Rightarrow>
     int \<times> thd_node \<times> thd_ip_node xhash" where
  "sfthd_test_global env n sig_id sip dip curtime h =
     (if td_count n = THD_NO_THRESHOLD then (0, n, h)
      else if td_type n = THD_TYPE_SUPPRESS then
        (case sfthd_test_suppress n (thd_ip n sip dip) of (r, n') \<Rightarrow> (r, n', h))
      else
        (let data = \<lparr>ip_count = 1, ip_prev = 0, ip_tstart = curtime, ip_tlast = curtime\<rparr>
         in case sfxhash_add (te_os env) h (thd_gkey (td_gen n) sig_id (thd_ip n sip dip) (te_ips env)) (Some data) of
              (st, h1) \<Rightarrow>
                if st = XInTable then
                  (let a = the (xh_cnode h1); d = ndata h1 a;
                       (r, n', d2) = sfthd_test_non_suppress n (d\<lparr>ip_count := ip_count d + 1\<rparr>) curtime
                   in (r, n', node_write h1 a d2))
                else if st \<noteq> XOk then (1, n, h1)
                else (case sfthd_test_non_suppress n data curtime of (r, n', _) \<Rightarrow> (r, n', h1))))"

section \<open>Configuration\<close>

text \<open>
  \<open>config\<close> is the node \<open>sfthd_create_threshold\<close> fills in.  The allocations of
  \<open>sfthd_create_threshold_local\<close> are numbered by the error that answers them; 7 is the list
  node, whose failure is not noticed.
\<close>

fun thd_insert :: "(nat \<Rightarrow> int) \<Rightarrow> nat \<Rightarrow> nat list \<Rightarrow> nat list" where
  "thd_insert pr a [] = [a]"
| "thd_insert pr a (b # bs) = (if pr a > pr b then a # b # bs else b # thd_insert pr a bs)"

definition thd_prio :: "thd_objs \<Rightarrow> nat \<Rightarrow> int" where
  "thd_prio o1 a = td_priority (the (to_node o1 a))"

definition thd_put_item :: "thd_objs \<Rightarrow> u32 \<Rightarrow> u32 \<times> u32 \<Rightarrow> thd_item \<Rightarrow> thd_objs" where
  "thd_put_item o1 gen key it =
     o1\<lparr>to_array := (to_array o1)(gen := Some ((the (to_array o1 gen))(key := Some it)))\<rparr>"

definition thd_new_node :: "thd_objs \<Rightarrow> thd_node \<Rightarrow> nat \<times> thd_objs" where
  "thd_new_node o1 n =
     (to_fresh o1, o1\<lparr>to_node := (to_node o1)(to_fresh o1 := Some n), to_fresh := to_fresh o1 + 1\<rparr>)"

definition thd_add_node ::
    "(nat \<Rightarrow> bool) \<Rightarrow> thd_objs \<Rightarrow> u32 \<times> u32 \<Rightarrow> thd_item \<Rightarrow> thd_node \<Rightarrow> int \<times> thd_objs" where
  \<comment> \<open>from the test of the list's tail on\<close>
  "thd_add_node mem o1 key it config =
     (if ti_list it \<noteq> [] \<and> td_type (the (to_node o1 (last (ti_list it)))) \<noteq> THD_TYPE_SUPPRESS
         \<and> td_type config \<noteq> THD_TYPE_SUPPRESS
      then (THD_TOO_MANY_THDOBJ, o1)
      else if \<not> mem 6 then (-6, o1)
      else
        (let pr = (if td_type config = THD_TYPE_SUPPRESS then THD_PRIORITY_SUPPRESS
                   else if td_priority config \<ge> THD_PRIORITY_SUPPRESS then THD_PRIORITY_SUPPRESS - 1
                   else td_priority config);
             (a, o2) = thd_new_node o1 (config\<lparr>td_priority := pr, td_filtered := 0\<rparr>);
             it' = it\<lparr>ti_list := thd_insert (thd_prio o2) a (ti_list it)\<rparr>
         in (0, if mem 7 then thd_put_item o2 (td_gen config) key it' else o2)))"

definition sfthd_create_threshold_local ::
    "(nat \<Rightarrow> bool) \<Rightarrow> u32 \<Rightarrow> thd_objs \<Rightarrow> thd_node \<Rightarrow> int \<times> thd_objs" where
  "sfthd_create_threshold_local mem policy o1 config =
     (let gen = td_gen config; key = (td_sig config, policy) in
      if gen \<ge> THD_MAX_GENID then (-1, o1)
      else if to_array o1 gen = None \<and> \<not> mem 2 then (-2, o1)
      else
        let o2 = (if to_array o1 gen = None
                  then o1\<lparr>to_array := (to_array o1)(gen := Some (\<lambda>_. None))\<rparr> else o1)
        in case the (to_array o2 gen) key of
             Some it \<Rightarrow> thd_add_node mem o2 key it config
           | None \<Rightarrow>
               if \<not> mem 3 then (-3, o2)
               else if \<not> mem 4 then (-4, o2)
               else if \<not> mem 5 then (-5, o2)
               else
                 let it = \<lparr>ti_policy = policy, ti_gen = gen, ti_sig = td_sig config, ti_list = []\<rparr>
                 in thd_add_node mem (thd_put_item o2 gen key it) key it config)"

definition sfthd_create_threshold_global ::
    "(nat \<Rightarrow> bool) \<Rightarrow> u32 \<Rightarrow> thd_objs \<Rightarrow> thd_node \<Rightarrow> (int \<times> thd_objs) option" where
  "sfthd_create_threshold_global mem policy o1 config =
     (let gen = td_gen config in
      if to_garray o1 policy = None \<and> \<not> mem 1 then Some (-1, o1)
      else
        let row = (case to_garray o1 policy of None \<Rightarrow> (\<lambda>_. None) | Some row \<Rightarrow> row);
            o2 = o1\<lparr>to_garray := (to_garray o1)(policy := Some row)\<rparr>
        in if gen = 0 \<and> row gen \<noteq> None then Some (THD_TOO_MANY_THDOBJ, o2)
           else if gen \<ge> THD_MAX_GENID then None
           else if row gen \<noteq> row 0 \<and> row gen \<noteq> None then Some (THD_TOO_MANY_THDOBJ, o2)
           else
             let row1 = (if row gen = row 0 then row(gen := None) else row);
                 o3 = o2\<lparr>to_garray := (to_garray o2)(policy := Some row1)\<rparr>
             in if \<not> mem 2 then Some (-2, o3)
                else
                  let (a, o4) = thd_new_node o3 (config\<lparr>td_filtered := 0\<rparr>);
                      row2 = (if gen = 0
                              then (\<lambda>i. if i < THD_MAX_GENID \<and> row1 i = None then Some a else row1 i)
                              else row1(gen := Some a))
                  in Some (0, o4\<lparr>to_garray := (to_garray o4)(policy := Some row2)\<rparr>))"

definition POLICY_ALLOCATION_CHUNK :: u32 where "POLICY_ALLOCATION_CHUNK = 10"

definition sfDynArrayCheckBounds :: "bool \<Rightarrow> u32 \<Rightarrow> u32 \<Rightarrow> int \<times> u32" where
  \<comment> \<open>the answer and the new size; the new elements are null\<close>
  "sfDynArrayCheckBounds mem index maxElements =
     (if index \<ge> maxElements then
        (if \<not> mem then (-1, maxElements) else (0, index + POLICY_ALLOCATION_CHUNK))
      else (0, maxElements))"

definition sfthd_create_threshold ::
    "(nat \<Rightarrow> bool) \<Rightarrow> u32 \<Rightarrow> thd_objs \<Rightarrow> u32 \<Rightarrow> u32 \<Rightarrow> thd_track \<Rightarrow> thd_type \<Rightarrow> int \<Rightarrow> int \<Rightarrow> u32 \<Rightarrow>
     (bytes \<Rightarrow> bool) option \<Rightarrow> (int \<times> thd_objs) option" where
  "sfthd_create_threshold mem policy o0 gen_id sig_id tracking type priority count seconds addr =
     (let o1 = o0\<lparr>to_count := to_count o0 + 1\<rparr>;
          config = \<lparr>td_id = to_count o1, td_gen = gen_id, td_sig = sig_id, td_tracking = tracking,
                    td_type = type, td_priority = priority, td_count = count, td_seconds = seconds,
                    td_filtered = 0, td_addr = addr\<rparr>;
          o2 = o1\<lparr>to_policies := snd (sfDynArrayCheckBounds (mem 0) policy (to_policies o1))\<rparr>
      in if policy \<ge> to_policies o2 then None
         else
           let o3 = (if to_garray o2 policy = None
                     then o2\<lparr>to_garray := (to_garray o2)(policy := Some (\<lambda>_. None))\<rparr> else o2)
           in if sig_id = 0 then sfthd_create_threshold_global mem policy o3 config
              else if gen_id = 0 then Some (-1, o3)
              else Some (sfthd_create_threshold_local mem policy o3 config))"

section \<open>Testing an event\<close>

definition thd_set_node :: "thd_objs \<Rightarrow> nat \<Rightarrow> thd_node \<Rightarrow> thd_objs" where
  "thd_set_node o1 a n = o1\<lparr>to_node := (to_node o1)(a := Some n)\<rparr>"

fun sfthd_test_list ::
    "thd_env \<Rightarrow> nat list \<Rightarrow> bytes \<Rightarrow> bytes \<Rightarrow> u64 \<Rightarrow> thd_objs \<Rightarrow> thd_ip_node xhash \<Rightarrow>
     int option \<times> thd_objs \<times> thd_ip_node xhash" where
  \<comment> \<open>the answer of the objects of an item, \<open>None\<close> if all of them leave it open\<close>
  "sfthd_test_list env [] sip dip curtime o1 h = (None, o1, h)"
| "sfthd_test_list env (a # as) sip dip curtime o1 h =
     (case sfthd_test_local env (the (to_node o1 a)) sip dip curtime None h of
        (status, n', _, h') \<Rightarrow>
          if status < 0 then (Some (if status < -1 then 1 else -1), thd_set_node o1 a n', h')
          else if status = 0 then (Some 0, thd_set_node o1 a n', h')
          else sfthd_test_list env as sip dip curtime (thd_set_node o1 a n') h')"

definition thd_local_list :: "thd_objs \<Rightarrow> u32 \<Rightarrow> u32 \<Rightarrow> u32 \<Rightarrow> nat list" where
  \<comment> \<open>the objects of an event, none if there is no table or no item\<close>
  "thd_local_list o1 gen_id sig_id policy =
     (case to_array o1 gen_id of
        None \<Rightarrow> []
      | Some tab \<Rightarrow> (case tab (sig_id, policy) of None \<Rightarrow> [] | Some it \<Rightarrow> ti_list it))"

definition thd_global_node :: "thd_objs \<Rightarrow> u32 \<Rightarrow> u32 \<Rightarrow> nat option" where
  "thd_global_node o1 gen_id policy =
     (case to_garray o1 policy of None \<Rightarrow> None | Some row \<Rightarrow> row gen_id)"

definition sfthd_test_threshold ::
    "thd_env \<Rightarrow> thd_objs \<Rightarrow> thd_tables option \<Rightarrow> u32 \<Rightarrow> u32 \<Rightarrow> bytes \<Rightarrow> bytes \<Rightarrow> u64 \<Rightarrow>
     (int \<times> thd_objs \<times> thd_tables option) option" where
  "sfthd_test_threshold env o1 thd gen_id sig_id sip dip curtime =
     (case thd of
        None \<Rightarrow> Some (0, o1, thd)
      | Some t \<Rightarrow>
          if gen_id \<ge> THD_MAX_GENID then Some (0, o1, thd)
          else
            (case sfthd_test_list env (thd_local_list o1 gen_id sig_id (te_ips env)) sip dip curtime o1 (ip_nodes t) of
               (Some r, o2, h) \<Rightarrow> Some (r, o2, Some (t\<lparr>ip_nodes := h\<rparr>))
             | (None, o2, h) \<Rightarrow>
                 if to_policies o2 \<noteq> 0 \<and> te_ips env \<ge> to_policies o2 then None
                 else (case thd_global_node o2 gen_id (te_ips env) of
                    None \<Rightarrow> Some (0, o2, Some (t\<lparr>ip_nodes := h\<rparr>))
                  | Some g \<Rightarrow>
                      let n = the (to_node o2 g) in
                      (case ip_gnodes t of
                         None \<Rightarrow>
                           if td_count n = THD_NO_THRESHOLD \<or> td_type n = THD_TYPE_SUPPRESS then
                             (let (r, n', _) = sfthd_test_global env n sig_id sip dip curtime h
                              in Some (if r < 0 then (if r < -1 then 1 else -1) else 0, thd_set_node o2 g n',
                                       Some (t\<lparr>ip_nodes := h\<rparr>)))
                           else None
                       | Some gh \<Rightarrow>
                           (let (r, n', gh') = sfthd_test_global env n sig_id sip dip curtime gh
                            in Some (if r < 0 then (if r < -1 then 1 else -1) else 0, thd_set_node o2 g n',
                                     Some (t\<lparr>ip_nodes := h, ip_gnodes := Some gh'\<rparr>)))))))"

section \<open>Event filters, \<open>sfthreshold.c\<close>\<close>

record thd_config =
  tc_memcap :: u32
  tc_enabled :: bool
  tc_objs :: thd_objs

text \<open>The static variables: \<open>thd_runtime\<close>, \<open>thd_checked\<close> and \<open>thd_answer\<close>.\<close>

record thd_state =
  thd_runtime :: "thd_tables option"
  thd_checked :: bool
  thd_answer :: int

definition ThresholdConfigNew :: thd_config where
  "ThresholdConfigNew = \<lparr>tc_memcap = 1048576, tc_enabled = True, tc_objs = sfthd_objs_new\<rparr>"

definition sfthreshold_free :: "thd_state \<Rightarrow> thd_state" where
  "sfthreshold_free s = s\<lparr>thd_runtime := None\<rparr>"

definition sfthreshold_create ::
    "(u64 \<Rightarrow> bool) \<Rightarrow> hashfcn \<Rightarrow> hashfcn \<Rightarrow> (nat \<Rightarrow> bool) \<Rightarrow> u32 \<Rightarrow> thd_config option \<Rightarrow> thd_node \<Rightarrow> thd_state \<Rightarrow>
     (int \<times> thd_config option \<times> thd_state) option" where
  \<comment> \<open>\<open>thdx\<close> has the fields of a threshold object\<close>
  "sfthreshold_create os fcn gfcn mem policy config thdx s =
     (case config of
        None \<Rightarrow> Some (-1, None, s)
      | Some tc \<Rightarrow>
          if \<not> tc_enabled tc then Some (0, config, s)
          else
            let rt = (case thd_runtime s of
                        None \<Rightarrow> sfthd_new os fcn gfcn (tc_memcap tc) (tc_memcap tc)
                      | Some t \<Rightarrow> Some t);
                s1 = s\<lparr>thd_runtime := rt\<rparr>
            in if rt = None then Some (-1, config, s1)
               else map_option (\<lambda>(r, o1). (r, Some (tc\<lparr>tc_objs := o1\<rparr>), s1))
                      (sfthd_create_threshold mem policy (tc_objs tc) (td_gen thdx) (td_sig thdx)
                         (td_tracking thdx) (td_type thdx) (td_priority thdx) (td_count thdx)
                         (td_seconds thdx) (td_addr thdx)))"

definition sfthreshold_test ::
    "thd_env \<Rightarrow> thd_config option \<Rightarrow> u32 \<Rightarrow> u32 \<Rightarrow> bytes \<Rightarrow> bytes \<Rightarrow> u64 \<Rightarrow> thd_state \<Rightarrow>
     (int \<times> thd_config option \<times> thd_state) option" where
  "sfthreshold_test env config gen_id sig_id sip dip curtime s =
     (case config of
        None \<Rightarrow> Some (0, config, s)
      | Some tc \<Rightarrow>
          if \<not> tc_enabled tc then Some (0, config, s)
          else if thd_checked s then Some (thd_answer s, config, s)
          else map_option (\<lambda>(r, o1, rt).
                 (r, Some (tc\<lparr>tc_objs := o1\<rparr>), s\<lparr>thd_checked := True, thd_answer := r, thd_runtime := rt\<rparr>))
                 (sfthd_test_threshold env (tc_objs tc) (thd_runtime s) gen_id sig_id sip dip curtime))"

definition sfthreshold_reset :: "thd_state \<Rightarrow> thd_state" where
  "sfthreshold_reset s = s\<lparr>thd_checked := False\<rparr>"

definition sfthreshold_reset_active :: "thd_state \<Rightarrow> thd_state" where
  "sfthreshold_reset_active s =
     (case thd_runtime s of
        None \<Rightarrow> s
      | Some t \<Rightarrow>
          s\<lparr>thd_runtime := Some (t\<lparr>ip_nodes := sfxhash_make_empty (ip_nodes t),
                                   ip_gnodes := map_option sfxhash_make_empty (ip_gnodes t)\<rparr>)\<rparr>)"

section \<open>Detection filters, \<open>detection_filter.c\<close>\<close>

record df_config =
  df_count :: u32
  df_memcap :: u32
  df_enabled :: bool

definition DetectionFilterConfigNew :: df_config where
  "DetectionFilterConfigNew = \<lparr>df_count = 0, df_memcap = 1048576, df_enabled = True\<rparr>"

text \<open>The static \<open>detection_filter_hash\<close> is the argument \<open>h\<close>, \<open>None\<close> before its allocation.\<close>

definition detection_filter_cleanup :: "thd_ip_node xhash option \<Rightarrow> thd_ip_node xhash option" where
  "detection_filter_cleanup h = None"

definition detection_filter_test ::
    "thd_env \<Rightarrow> thd_node option \<Rightarrow> bytes \<Rightarrow> bytes \<Rightarrow> u64 \<Rightarrow> u8 option \<Rightarrow> thd_ip_node xhash option \<Rightarrow>
     int \<times> thd_node option \<times> u8 option \<times> thd_ip_node xhash option" where
  "detection_filter_test env pv sip dip curtime eval h =
     (if pv = None then (0, pv, eval, h) else sfthd_test_rule env pv sip dip curtime eval h)"

definition detection_filter_reset_active :: "thd_ip_node xhash option \<Rightarrow> thd_ip_node xhash option" where
  "detection_filter_reset_active h = map_option sfxhash_make_empty h"

definition detection_filter_create ::
    "(u64 \<Rightarrow> bool) \<Rightarrow> hashfcn \<Rightarrow> df_config option \<Rightarrow> thd_node \<Rightarrow> thd_ip_node xhash option \<Rightarrow>
     thd_node option \<times> df_config option \<times> thd_ip_node xhash option" where
  "detection_filter_create os fcn config thdx h =
     (case config of
        None \<Rightarrow> (None, None, h)
      | Some c \<Rightarrow>
          if \<not> df_enabled c then (None, config, h)
          else
            let h1 = (case h of None \<Rightarrow> sfthd_local_new os fcn (df_memcap c) | Some _ \<Rightarrow> h)
            in if h1 = None then (None, config, h1)
               else
                 let c1 = c\<lparr>df_count := df_count c + 1\<rparr>
                 in (Some (sfthd_create_rule_threshold (df_count c1) (td_tracking thdx) (td_type thdx)
                             (td_count thdx) (td_seconds thdx)), Some c1, h1))"

end
