(* ===== verification/ThdProps.thy ===== *)
theory ThdProps
  imports Thd
begin

text \<open>
  What the filters of \<open>sfthd.c\<close> promise: which events of a window are logged, that suppression
  comes first, how general and specific objects combine.  The tracking table enters through
  an extension of the tracker-store interface in which a new record is known.
\<close>

section \<open>A store whose new records are known\<close>

locale tracker_init = tracker_store ok keyok lookup addr touch rd wr lost
  for ok :: "'s \<Rightarrow> bool" and keyok :: "'k \<Rightarrow> bool"
    and lookup :: "'s \<Rightarrow> 'k \<Rightarrow> 'd option" and addr :: "'s \<Rightarrow> 'k \<Rightarrow> 'a option"
    and touch :: "'s \<Rightarrow> 'k \<Rightarrow> 'a option \<times> 's"
    and rd :: "'s \<Rightarrow> 'a \<Rightarrow> 'd" and wr :: "'s \<Rightarrow> 'a \<Rightarrow> 'd \<Rightarrow> 's"
    and lost :: "'s \<Rightarrow> 'k \<Rightarrow> 'k \<Rightarrow> bool" +
  fixes fresh :: 'd
  assumes touch_new: "ok s \<Longrightarrow> keyok k \<Longrightarrow> addr s k = None \<Longrightarrow> touch s k = (Some a, s') \<Longrightarrow> lookup s' k = Some fresh"
begin

definition current :: "'s \<Rightarrow> 'k \<Rightarrow> 'd" where
  "current s k = (case lookup s k of None \<Rightarrow> fresh | Some d \<Rightarrow> d)"

lemma touch_current:
  assumes "ok s" "keyok k" "touch s k = (Some a, s')"
  shows "lookup s' k = Some (current s k)" "rd s' a = current s k" "addr s' k = Some a" "ok s'"
proof -
  show a: "addr s' k = Some a" by (rule touch_some [OF assms])
  show "ok s'" by (rule touch_ok [OF assms])
  show l: "lookup s' k = Some (current s k)"
  proof (cases "addr s k")
    case None
    then have "lookup s k = None" by (simp add: lookup_addr)
    then show ?thesis using touch_new [OF assms(1,2) None assms(3)] by (simp add: current_def)
  next
    case (Some b)
    obtain s1 where "touch s k = (Some b, s1)" "lookup s1 = lookup s"
      using touch_hit [OF assms(1,2) Some] by blast
    then show ?thesis using assms(3) Some by (auto simp: current_def lookup_addr)
  qed
  show "rd s' a = current s k" using l a by (simp add: lookup_addr)
qed

lemma update_current:
  assumes "ok s" "keyok k" and up: "track_update touch rd wr f s k = (Some r, s')"
  shows "r = fst (f (current s k))" "lookup s' k = Some (snd (f (current s k)))" "ok s'"
proof -
  obtain a s1 where t: "touch s k = (Some a, s1)" "s' = wr s1 a (snd (f (rd s1 a)))" "r = fst (f (rd s1 a))"
    using up by (auto simp: track_update_def split: prod.splits option.splits)
  note c = touch_current [OF assms(1,2) t(1)]
  show "r = fst (f (current s k))" using t c by simp
  show "lookup s' k = Some (snd (f (current s k)))" "ok s'"
    unfolding t(2) c(2) using write_lookup [OF c(4,3)] write_ok [OF c(4,3)] by simp_all
qed

end

definition add_touch :: "(u64 \<Rightarrow> bool) \<Rightarrow> 'd \<Rightarrow> 'd xhash \<Rightarrow> bytes \<Rightarrow> nat option \<times> 'd xhash" where
  \<comment> \<open>\<open>sfxhash_add\<close>, answering the node it leaves in \<open>cnode\<close>\<close>
  "add_touch os d h k = (case sfxhash_add_ex os h k (Some d) of (st, a, h') \<Rightarrow> (a, h'))"

interpretation xti: tracker_init "xh_ready n" "\<lambda>k. length k = n" xh_map xh_node_of
    "add_touch os d" ndata node_write "xh_lost os" d for n os and d :: 'd
proof
  fix s :: "'d xhash" and k a e
  show "xh_map s k = map_option (ndata s) (xh_node_of s k)" by (rule xts.lookup_addr)
  assume ok: "xh_ready n s"
  show "xh_ready n (node_write s a e)" if "xh_node_of s k = Some a"
    by (rule xts.write_ok [OF ok that])
  show "xh_map (node_write s a e) = (xh_map s)(k \<mapsto> e)" if "xh_node_of s k = Some a"
    by (rule xts.write_lookup [OF ok that])
next
  fix s s' :: "'d xhash" and k :: bytes and r a j
  assume ok: "xh_ready n s" and len: "length k = n"
  have wf: "xh_wf s" and ks: "xh_keysize s \<le> length k" and tk: "take (xh_keysize s) k = k"
    using ok len by (simp_all add: xh_ready_def)
  have tn: "take n k = k" using len by simp
  have cfg: "xh_keysize t = n" if "xh_same_cfg s t" for t
    using that ok by (simp add: xh_ready_def xh_same_cfg_def)
  note cases = add_ex_cases [OF wf ks, of os "Some d", unfolded tk, case_names found nomem new]
  show "xh_ready n s'" if "add_touch os d s k = (r, s')"
    using that cfg by (cases rule: cases)
      (auto simp: add_touch_def xh_ready_def touched_def unchanged_def added_def)
  show "xh_map s' = xh_map s" if "add_touch os d s k = (None, s')"
    using that by (cases rule: cases) (auto simp: add_touch_def touched_def unchanged_def added_def)
  show "\<exists>s'. add_touch os d s k = (Some a, s') \<and> xh_map s' = xh_map s" if "xh_node_of s k = Some a"
    using that by (cases rule: cases) (auto simp: add_touch_def touched_def)
  show "xh_node_of s' k = Some a" if t: "add_touch os d s k = (Some a, s')"
  proof (cases rule: cases)
    case (found b t')
    then have eq: "s' = t'" "a = b" using t by (simp_all add: add_touch_def)
    have "b \<in> set (xh_glist s)" "nkey s b = k" using found(1) by (simp_all add: xh_node_of_Some [OF wf])
    moreover have "xh_wf t'" "set (xh_glist t') = set (xh_glist s)" "xh_nodes t' = xh_nodes s"
      using found(3) calculation(1) wf by (auto simp: touched_def xh_wf_def xh_heap_ok_def set_remove1_eq)
    ultimately show ?thesis using eq by (simp add: xh_node_of_Some xn_def)
  qed (use t in \<open>auto simp: add_touch_def added_def\<close>)
  show "xh_map s' j = xh_map s j \<or> xh_map s' j = None \<and> xh_lost os s k j"
    if t: "add_touch os d s k = (r, s')" and j: "j \<noteq> k"
  proof (cases rule: cases)
    case (new b t2 t' t'')
    then show ?thesis using t added_lost [OF wf new(2,1,5) j] by (simp add: add_touch_def)
  qed (use t in \<open>auto simp: add_touch_def touched_def unchanged_def\<close>)
  show "xh_map s' k = Some d" if "xh_node_of s k = None" "add_touch os d s k = (Some a, s')"
    using that by (cases rule: cases) (auto simp: add_touch_def dest: added_data)
qed

section \<open>One test as an update of a tracking node\<close>

definition thd_first :: "u64 \<Rightarrow> thd_ip_node" where
  "thd_first t = \<lparr>ip_count = 0, ip_prev = 0, ip_tstart = t, ip_tlast = t\<rparr>"

definition thd_node_test :: "thd_node \<Rightarrow> u64 \<Rightarrow> u8 option \<Rightarrow> thd_ip_node \<Rightarrow> (int \<times> thd_node \<times> u8 option) \<times> thd_ip_node" where
  "thd_node_test n t eval d =
     (let (eval', d1) = thd_count eval d; (r, n', d2) = sfthd_test_non_suppress n d1 t
      in ((r, n', eval'), d2))"

lemma add_ex_cnode:
  "sfxhash_add_ex os h k (Some d) = (st, a, h') \<Longrightarrow>
    (st = XInTable \<or> st = XOk) = (a \<noteq> None) \<and> (a \<noteq> None \<longrightarrow> xh_cnode h' = a)"
  by (auto simp: sfxhash_add_ex_def Let_def split: prod.splits option.splits)

lemma test_local_update:
  assumes "td_count n \<noteq> THD_NO_THRESHOLD" "td_type n \<noteq> THD_TYPE_SUPPRESS"
  shows "sfthd_test_local env n sip dip t eval h =
    (case track_update (add_touch (te_os env) (thd_first t)) ndata node_write (thd_node_test n t eval) h
             (thd_key (td_id n) (thd_ip n sip dip) (te_ips env)) of
       (None, h') \<Rightarrow> (1, n, eval, h')
     | (Some (r, n', eval'), h') \<Rightarrow> (r, n', eval', h'))"
proof -
  let ?k = "thd_key (td_id n) (thd_ip n sip dip) (te_ips env)"
  obtain st a h1 where add: "sfxhash_add_ex (te_os env) h ?k (Some (thd_first t)) = (st, a, h1)"
    by (metis prod_cases3)
  note c = add_ex_cnode [OF add]
  show ?thesis
    using assms add c
    by (cases a) (auto simp: sfthd_test_local_def sfxhash_add_def track_update_def add_touch_def
        thd_node_test_def thd_first_def [symmetric] Let_def split: prod.splits)
qed

lemma thd_key_length: "length ip = 16 \<Longrightarrow> length (thd_key i ip p) = 24"
  by (simp add: thd_key_def u32_bytes_def)

section \<open>The events of a window\<close>

primrec thd_run :: "thd_env \<Rightarrow> thd_node \<Rightarrow> bytes \<Rightarrow> bytes \<Rightarrow> u64 list \<Rightarrow> thd_ip_node xhash \<Rightarrow> int list \<times> thd_ip_node xhash" where
  \<comment> \<open>the events of one address against one object\<close>
  "thd_run env n sip dip [] h = ([], h)"
| "thd_run env n sip dip (t # ts) h =
     (case sfthd_test_local env n sip dip t None h of
        (r, n', _, h1) \<Rightarrow> (case thd_run env n' sip dip ts h1 of (rs, h2) \<Rightarrow> (r # rs, h2)))"

definition thd_logs :: "thd_type \<Rightarrow> nat \<Rightarrow> nat \<Rightarrow> bool" where
  \<comment> \<open>is the \<open>i\<close>th event of a window logged?\<close>
  "thd_logs ty c i =
     (case ty of
        THD_TYPE_LIMIT \<Rightarrow> i \<le> c | THD_TYPE_THRESHOLD \<Rightarrow> c dvd i | THD_TYPE_BOTH \<Rightarrow> i = c
      | THD_TYPE_DETECT \<Rightarrow> c < i | THD_TYPE_SUPPRESS \<Rightarrow> True)"

definition thd_at :: "thd_type \<Rightarrow> nat \<Rightarrow> nat \<Rightarrow> u64 \<Rightarrow> u64 \<Rightarrow> thd_ip_node \<Rightarrow> bool" where
  \<comment> \<open>the node after \<open>k\<close> events of the window that began at \<open>t0\<close>, the last at \<open>te\<close>\<close>
  "thd_at ty c k t0 te d \<longleftrightarrow> t0 \<le> ip_tstart d \<and> ip_tstart d \<le> te \<and> ip_prev d = 0 \<and>
     unat (ip_count d) = (if ty = THD_TYPE_THRESHOLD then k mod c else k)"

definition thd_obj :: "thd_node \<Rightarrow> nat \<Rightarrow> bool" where
  \<comment> \<open>an object that counts, with its count\<close>
  "thd_obj n c \<longleftrightarrow> td_type n \<noteq> THD_TYPE_SUPPRESS \<and> td_count n = int c \<and> 0 < c \<and> c < 2147483648"

lemma thd_obj_plain: "thd_obj n c \<Longrightarrow> td_count n \<noteq> THD_NO_THRESHOLD \<and> td_type n \<noteq> THD_TYPE_SUPPRESS"
  by (simp add: thd_obj_def THD_NO_THRESHOLD_def)

lemma sint_small: "unat (w :: u32) < 2147483648 \<Longrightarrow> sint w = int (unat w)"
proof -
  assume w: "unat w < 2147483648"
  have "int (unat w) < 2147483648" using w by linarith
  then have u: "uint w < 2147483648" by simp
  have "sint w = signed_take_bit 31 (uint w)" by (simp add: sint_uint)
  also have "\<dots> = uint w" by (rule signed_take_bit_int_eq_self) (use u in \<open>simp_all add: order_trans [OF _ uint_ge_0]\<close>)
  finally show ?thesis by simp
qed

lemma unat_count_succ: "unat (w :: u32) < 2147483648 \<Longrightarrow> unat (w + 1) = unat w + 1"
  using unat_add_lem [of w 1] by simp

lemma not_over:
  assumes "t0 \<le> s" "s \<le> (t :: u64)" "unat t - unat t0 < unat (m :: u32)"
  shows "\<not> m \<le> ucast (t - s)"
proof -
  have "unat (t - s) = unat t - unat s" using assms(2) by (simp add: unat_sub)
  then have lt: "unat (t - s) < unat m" using assms by (simp add: word_le_nat_alt)
  then have "unat (t - s) < 2 ^ 32" using order_less_trans [OF lt unat_u32_bound] by simp
  then have "unat (ucast (t - s) :: u32) = unat (t - s)"
    by (simp add: unsigned_ucast_eq take_bit_nat_eq_self)
  then show ?thesis using lt by (simp add: word_le_nat_alt)
qed

lemma thd_step:
  assumes n: "thd_obj n c" and d: "thd_at (td_type n) c k t0 te d" and k: "k < 2147483647"
    and t: "t0 \<le> te" "te \<le> t" "unat t - unat t0 < unat (td_seconds n)"
  shows "\<exists>n' d'. thd_node_test n t None d = ((if thd_logs (td_type n) c (k + 1) then 0 else -2, n', None), d') \<and>
    thd_at (td_type n) c (k + 1) t0 t d' \<and> (n' = n \<or> n' = thd_filter n)"
proof -
  let ?d = "d\<lparr>ip_count := ip_count d + 1\<rparr>"
  have c: "0 < c" "c < 2147483648" "td_count n = int c" "td_type n \<noteq> THD_TYPE_SUPPRESS"
    using n by (simp_all add: thd_obj_def)
  have st: "t0 \<le> ip_tstart d" "ip_tstart d \<le> t" "ip_prev d = 0" and t0: "t0 \<le> t"
    using d t by (auto simp: thd_at_def)
  have over: "\<not> thd_over n ?d t" "\<not> thd_over n d t"
    using not_over [OF st(1,2) t(3)] by (simp_all add: thd_over_def)
  have "k mod c < 2147483647" using k mod_less_eq_dividend [of k c] by linarith
  then have lt: "unat (ip_count d) < 2147483647" using d k by (simp add: thd_at_def split: if_splits)
  then have u: "unat (ip_count d + 1) = unat (ip_count d) + 1" by (simp add: unat_count_succ)
  then have s: "sint (ip_count d + 1) = int (unat (ip_count d) + 1)" using lt by (simp add: sint_small)
  show ?thesis
  proof (cases "td_type n")
    case THD_TYPE_THRESHOLD
    have dv: "c dvd k + 1 \<longleftrightarrow> Suc (k mod c) = c" by (simp add: dvd_eq_mod_eq_0 mod_Suc)
    have le: "k mod c < c" using c by simp
    show ?thesis using d over st t0 u s c dv le THD_TYPE_THRESHOLD
      by (simp add: thd_node_test_def thd_count_def sfthd_test_non_suppress_def thd_reset_def thd_at_def thd_logs_def
          mod_Suc)
  qed (use d over st t0 u s c in \<open>auto simp: thd_node_test_def thd_count_def sfthd_test_non_suppress_def thd_reset_def
         thd_at_def thd_logs_def Let_def\<close>)
qed

lemma thd_at_first: "thd_at ty c 0 t t (thd_first t)"
  by (simp add: thd_at_def thd_first_def)

lemma test_local_current:
  assumes ok: "xh_ready 24 h" and ip: "length (thd_ip n sip dip) = 16" and n: "thd_obj n c"
    and test: "sfthd_test_local env n sip dip t eval h = (r, n', eval', h')" and r: "r \<noteq> 1"
  defines "k \<equiv> thd_key (td_id n) (thd_ip n sip dip) (te_ips env)"
  defines "d \<equiv> (case xh_map h k of None \<Rightarrow> thd_first t | Some d \<Rightarrow> d)"
  shows "(r, n', eval') = fst (thd_node_test n t eval d)" "xh_map h' k = Some (snd (thd_node_test n t eval d))"
    "xh_ready 24 h'"
proof -
  have kl: "length k = 24" unfolding k_def by (rule thd_key_length [OF ip])
  have cur: "xti.current (thd_first t) h k = d" by (simp add: xti.current_def d_def)
  from test r obtain x where up: "track_update (add_touch (te_os env) (thd_first t)) ndata node_write (thd_node_test n t eval) h k
      = (Some x, h')" and x: "x = (r, n', eval')"
    unfolding test_local_update [OF thd_obj_plain [OF n, THEN conjunct1] thd_obj_plain [OF n, THEN conjunct2]] k_def [symmetric]
    by (auto split: prod.splits option.splits)
  note u = xti.update_current [OF ok kl up, unfolded cur]
  show "(r, n', eval') = fst (thd_node_test n t eval d)" using u(1) x by simp
  show "xh_map h' k = Some (snd (thd_node_test n t eval d))" "xh_ready 24 h'" by (rule u)+
qed

lemma thd_filter_fields [simp]:
  "td_id (thd_filter n) = td_id n" "td_type (thd_filter n) = td_type n" "td_count (thd_filter n) = td_count n"
  "td_seconds (thd_filter n) = td_seconds n" "td_tracking (thd_filter n) = td_tracking n"
  "thd_ip (thd_filter n) sip dip = thd_ip n sip dip" "thd_obj (thd_filter n) c = thd_obj n c"
  by (simp_all add: thd_filter_def thd_ip_def thd_obj_def)

definition thd_results :: "thd_type \<Rightarrow> nat \<Rightarrow> nat \<Rightarrow> nat \<Rightarrow> int list" where
  \<comment> \<open>the answers to \<open>m\<close> events in a window that had \<open>k\<close>\<close>
  "thd_results ty c k m = map (\<lambda>i. if thd_logs ty c (k + i + 1) then 0 else -2) [0 ..< m]"

lemma thd_results_Suc:
  "thd_results ty c k (Suc m) = (if thd_logs ty c (k + 1) then 0 else -2) # thd_results ty c (Suc k) m"
  unfolding thd_results_def upt_conv_Cons [OF zero_less_Suc]
  by (simp add: map_Suc_upt [symmetric] del: upt_Suc)

lemma thd_run_window:
  assumes "xh_ready 24 h" "length (thd_ip n sip dip) = 16" "thd_obj n c"
    and "thd_at (td_type n) c k t0 te d" "d = (case xh_map h (thd_key (td_id n) (thd_ip n sip dip) (te_ips env)) of
      None \<Rightarrow> thd_first (hd ts) | Some d \<Rightarrow> d)"
    and "t0 \<le> te" "\<forall>t \<in> set ts. te \<le> t" "sorted ts" "\<forall>t \<in> set ts. unat t - unat t0 < unat (td_seconds n)"
    and "k + length ts < 2147483648" "thd_run env n sip dip ts h = (rs, h')" "1 \<notin> set rs"
  shows "rs = thd_results (td_type n) c k (length ts)"
  using assms
proof (induction ts arbitrary: h n k te d rs)
  case Nil
  then show ?case by (simp add: thd_results_def)
next
  case (Cons t ts)
  let ?key = "thd_key (td_id n) (thd_ip n sip dip) (te_ips env)"
  obtain r n' e h1 where test: "sfthd_test_local env n sip dip t None h = (r, n', e, h1)" by (metis prod_cases4)
  obtain rs' where rs: "thd_run env n' sip dip ts h1 = (rs', h')" "rs = r # rs'"
    using Cons.prems(11) test by (auto split: prod.splits)
  have "r \<noteq> 1" using Cons.prems(12) rs(2) by simp
  note cur = test_local_current [OF Cons.prems(1-3) test this]
  have d: "(case xh_map h ?key of None \<Rightarrow> thd_first t | Some d \<Rightarrow> d) = d"
    by (simp only: Cons.prems(5) list.sel)
  have le: "te \<le> t" "unat t - unat t0 < unat (td_seconds n)" "k < 2147483647"
    using Cons.prems(7,9,10) by simp_all
  obtain n'' d' where step: "thd_node_test n t None d = ((if thd_logs (td_type n) c (k + 1) then 0 else -2, n'', None), d')"
    "thd_at (td_type n) c (k + 1) t0 t d'" "n'' = n \<or> n'' = thd_filter n"
    using thd_step [OF Cons.prems(3,4) le(3) Cons.prems(6) le(1,2)] by blast
  have r: "r = (if thd_logs (td_type n) c (k + 1) then 0 else -2)" "n' = n''" and h1: "xh_map h1 ?key = Some d'" "xh_ready 24 h1"
    using cur step(1) d by auto
  have same: "td_type n' = td_type n" "td_seconds n' = td_seconds n" "thd_ip n' sip dip = thd_ip n sip dip"
      "td_id n' = td_id n" "thd_obj n' c"
    using step(3) Cons.prems(3) r(2) by auto
  have "rs' = thd_results (td_type n') c (k + 1) (length ts)"
    by (rule Cons.IH [OF h1(2), where te = t and d = d'])
      (use Cons.prems same step(2) h1 rs le in auto)
  then show ?case using rs(2) r(1) same(1) thd_results_Suc by simp
qed

text \<open> C9. An event or detection filter over a window: the events of an address that fall, in the
  order of time, into the \<open>seconds\<close> of the first one are logged as the type says: the first
  \<open>count\<close> ones (limit), every \<open>count\<close>th (threshold), the \<open>count\<close>th only (both), all after the
  first \<open>count\<close> (detection filter), unless the table had no memory for the address.\<close>
theorem sfthd_test_local_window:
  assumes "xh_ready 24 h" and "length (thd_ip n sip dip) = 16" and "thd_obj n c"
    and "xh_map h (thd_key (td_id n) (thd_ip n sip dip) (te_ips env)) = None"
    and "sorted (t # ts)" and "\<forall>u \<in> set (t # ts). unat u - unat t < unat (td_seconds n)"
    and "length (t # ts) < 2147483648" and "thd_run env n sip dip (t # ts) h = (rs, h')" and "1 \<notin> set rs"
  shows "rs = map (\<lambda>i. if thd_logs (td_type n) c (i + 1) then 0 else -2) [0 ..< length (t # ts)]"
proof -
  have "rs = thd_results (td_type n) c 0 (length (t # ts))"
    by (rule thd_run_window [OF assms(1-3) thd_at_first [of _ _ t], where env = env])
      (use assms(4-9) in auto)
  then show ?thesis by (simp add: thd_results_def)
qed

lemma sfthd_new_hash_ready:
  assumes new: "sfthd_new_hash os fcn n key data = Some h" and "2 \<le> key + data" "key + data < 4294967296"
  shows "xh_ready key h" "xh_map h = Map.empty"
proof -
  let ?size = "of_nat (key + data) :: u32"
  let ?n = "if n < ?size then ?size else n"
  have size: "unat ?size = key + data" by (rule unat_of_nat_u32 [OF assms(3)])
  have "unat ?size \<le> unat ?n" by (auto simp: word_less_nat_alt not_less)
  then have n0: "0 < ?n div ?size"
    using size assms(2) by (simp add: word_less_nat_alt unat_div div_greater_zero_iff) linarith
  have "unat ?n div (key + data) \<le> unat ?n div 2" by (rule div_le_mono2) (use assms(2) in simp_all)
  also have "\<dots> \<le> 2147483648" using unat_u32_bound [of ?n] by linarith
  finally have "?n div ?size \<le> 0x80000000" by (simp only: word_le_nat_alt unat_div size) simp
  then have "xh_empty h"
    by (rule sfxhash_new_empty [OF n0 _ new [unfolded sfthd_new_hash_def Let_def]])
  moreover have "xh_keysize h = key"
    using new by (auto simp: sfthd_new_hash_def sfxhash_new_def Let_def split: prod.splits option.splits)
  ultimately show "xh_ready key h" "xh_map h = Map.empty" by (simp_all add: xh_ready_def xh_empty_wf)
qed

definition thd_demo_env :: thd_env where
  "thd_demo_env = \<lparr>te_os = (\<lambda>_. True), te_ips = 0\<rparr>"

definition thd_demo_ip :: bytes where
  "thd_demo_ip = replicate 15 0 @ [1]"

definition thd_demo_table :: "thd_ip_node xhash" where
  "thd_demo_table = the (sfthd_local_new (\<lambda>_. True) sfhashfcn_static 480)"

lemma thd_demo_ready: "xh_ready 24 thd_demo_table" "xh_map thd_demo_table = Map.empty"
proof -
  have "sfthd_local_new (\<lambda>_. True) sfhashfcn_static 480 \<noteq> None"
    by (simp add: sfthd_local_new_def sfthd_new_hash_def sfxhash_new_def s_alloc_def sfmemcap_alloc_def
        sfmemcap_init_def Let_def) code_simp
  then have "sfthd_new_hash (\<lambda>_. True) sfhashfcn_static 480 24 24 = Some thd_demo_table"
    by (auto simp: thd_demo_table_def sfthd_local_new_def)
  from sfthd_new_hash_ready [OF this]
  show "xh_ready 24 thd_demo_table" "xh_map thd_demo_table = Map.empty" by simp_all
qed

definition thd_demo_node :: "thd_type \<Rightarrow> int \<Rightarrow> thd_node" where
  "thd_demo_node ty c = sfthd_create_rule_threshold 1 THD_TRK_SRC ty c 60"

lemma sfthd_test_local_window_witness:
  "fst (thd_run thd_demo_env (thd_demo_node THD_TYPE_THRESHOLD 2) thd_demo_ip thd_demo_ip [100, 101, 101, 140, 159] thd_demo_table)
    = [-2, 0, -2, 0, -2]"
proof -
  let ?n = "thd_demo_node THD_TYPE_THRESHOLD 2"
  obtain rs h' where run: "thd_run thd_demo_env ?n thd_demo_ip thd_demo_ip (100 # [101, 101, 140, 159]) thd_demo_table = (rs, h')"
    by fastforce
  have "1 \<notin> set (fst (thd_run thd_demo_env ?n thd_demo_ip thd_demo_ip (100 # [101, 101, 140, 159]) thd_demo_table))"
    by code_simp
  then have "1 \<notin> set rs" using run by simp
  then have "rs = map (\<lambda>i. if thd_logs (td_type ?n) 2 (i + 1) then 0 else -2) [0 ..< length [100, 101, 101, 140, 159 :: u64]]"
    using sfthd_test_local_window [OF thd_demo_ready(1), of ?n thd_demo_ip thd_demo_ip 2 thd_demo_env 100 "[101, 101, 140, 159]" rs h']
      run thd_demo_ready(2)
    by (simp add: thd_demo_node_def sfthd_create_rule_threshold_def thd_obj_def thd_ip_def thd_demo_ip_def)
  then show ?thesis using run
    by (simp add: thd_logs_def thd_demo_node_def sfthd_create_rule_threshold_def upt_rec)
qed

section \<open>Both, with a count of one\<close>

lemma both_step:
  assumes n: "td_type n = THD_TYPE_BOTH" "td_count n = 1" and d: "1 \<le> unat (ip_count d)" "unat (ip_count d) \<le> k"
    and k: "k < 2147483647"
  shows "\<exists>d'. thd_node_test n t None d = ((-2, thd_filter n, None), d') \<and>
    1 \<le> unat (ip_count d') \<and> unat (ip_count d') \<le> k + 1"
proof -
  have lt: "unat (ip_count d) < 2147483647" using d k by linarith
  have u: "unat (ip_count d + 1) = unat (ip_count d) + 1" using lt by (simp add: unat_count_succ)
  then have s: "sint (ip_count d + 1) = int (unat (ip_count d) + 1)" using lt by (simp add: sint_small)
  have "int (unat (ip_count d)) \<ge> 1" using d by linarith
  then have gt: "sint (ip_count d + 1) > 1" unfolding s by linarith
  show ?thesis using n d u gt k
    by (auto simp: thd_node_test_def thd_count_def sfthd_test_non_suppress_def)
qed

lemma both_run:
  assumes "xh_ready 24 h" "length (thd_ip n sip dip) = 16" "td_type n = THD_TYPE_BOTH" "td_count n = 1"
    and "xh_map h (thd_key (td_id n) (thd_ip n sip dip) (te_ips env)) = Some d"
    and "1 \<le> unat (ip_count d)" "unat (ip_count d) \<le> k" "k + length ts < 2147483648"
    and "thd_run env n sip dip ts h = (rs, h')" "1 \<notin> set rs"
  shows "rs = replicate (length ts) (-2)"
  using assms
proof (induction ts arbitrary: h n k d rs)
  case Nil
  then show ?case by simp
next
  case (Cons t ts)
  obtain r n' e h1 where test: "sfthd_test_local env n sip dip t None h = (r, n', e, h1)" by (metis prod_cases4)
  obtain rs' where rs: "thd_run env n' sip dip ts h1 = (rs', h')" "rs = r # rs'"
    using Cons.prems(9) test by (auto split: prod.splits)
  have r: "r \<noteq> 1" using Cons.prems(10) rs(2) by simp
  have obj: "thd_obj n 1" using Cons.prems(3,4) by (simp add: thd_obj_def)
  note cur = test_local_current [OF Cons.prems(1,2) obj test r]
  obtain d' where d': "thd_node_test n t None d = ((-2, thd_filter n, None), d')" "1 \<le> unat (ip_count d')" "unat (ip_count d') \<le> k + 1"
    using both_step [OF Cons.prems(3,4,6,7)] Cons.prems(8) by fastforce
  have h1: "r = -2" "n' = thd_filter n" "xh_ready 24 h1"
      "xh_map h1 (thd_key (td_id n') (thd_ip n' sip dip) (te_ips env)) = Some d'"
    using cur d'(1) Cons.prems(5) by auto
  have "rs' = replicate (length ts) (-2)"
    by (rule Cons.IH [OF h1(3) _ _ _ h1(4) d'(2,3)]) (use Cons.prems rs h1(2) in auto)
  then show ?case using rs(2) h1(1) by simp
qed

text \<open> C38. A filter of type \<open>both\<close> with a count of 1 logs the first event of an address and none
  after it, however much time passes between them: the event that opens a new window is always
  filtered and those that follow it are beyond the count.\<close>
theorem sfthd_both_once:
  assumes "xh_ready 24 h" and "length (thd_ip n sip dip) = 16"
    and "td_type n = THD_TYPE_BOTH" and "td_count n = 1" and "td_seconds n \<noteq> 0"
    and "xh_map h (thd_key (td_id n) (thd_ip n sip dip) (te_ips env)) = None"
    and "length ts < 2147483647" and "thd_run env n sip dip (t # ts) h = (rs, h')" and "1 \<notin> set rs"
  shows "rs = 0 # replicate (length ts) (-2)"
proof -
  obtain r n' e h1 where test: "sfthd_test_local env n sip dip t None h = (r, n', e, h1)" by (metis prod_cases4)
  obtain rs' where rs: "thd_run env n' sip dip ts h1 = (rs', h')" "rs = r # rs'"
    using assms(8) test by (auto split: prod.splits)
  have r: "r \<noteq> 1" using assms(9) rs(2) by simp
  have obj: "thd_obj n 1" using assms(3,4) by (simp add: thd_obj_def)
  note cur = test_local_current [OF assms(1,2) obj test r]
  have "\<not> td_seconds n \<le> 0" using assms(5) by simp
  then have "thd_node_test n t None (thd_first t) = ((0, n, None), (thd_first t)\<lparr>ip_count := 1\<rparr>)"
    using assms(3,4)
    by (simp add: thd_node_test_def thd_count_def sfthd_test_non_suppress_def thd_over_def thd_first_def)
  then have h1: "r = 0" "n' = n" "xh_ready 24 h1"
      "xh_map h1 (thd_key (td_id n) (thd_ip n sip dip) (te_ips env)) = Some ((thd_first t)\<lparr>ip_count := 1\<rparr>)"
    using cur assms(6) by auto
  have "rs' = replicate (length ts) (-2)"
    by (rule both_run [OF h1(3) assms(2-4) h1(4), where k = 1 and ts = ts and h' = h'])
      (use assms(7,9) rs h1(2) in auto)
  then show ?thesis using rs(2) h1(1) by simp
qed

lemma sfthd_both_once_witness:
  \<comment> \<open>a minute is the window; the events are hours apart\<close>
  "fst (thd_run thd_demo_env (thd_demo_node THD_TYPE_BOTH 1) thd_demo_ip thd_demo_ip [100, 7200, 14400, 14401] thd_demo_table)
    = [0, -2, -2, -2]"
proof -
  let ?n = "thd_demo_node THD_TYPE_BOTH 1"
  obtain rs h' where run: "thd_run thd_demo_env ?n thd_demo_ip thd_demo_ip (100 # [7200, 14400, 14401]) thd_demo_table = (rs, h')"
    by fastforce
  have "1 \<notin> set (fst (thd_run thd_demo_env ?n thd_demo_ip thd_demo_ip (100 # [7200, 14400, 14401]) thd_demo_table))"
    by code_simp
  then have "1 \<notin> set rs" using run by simp
  then have "rs = 0 # replicate (length [7200, 14400, 14401 :: u64]) (-2)"
    using sfthd_both_once [OF thd_demo_ready(1), of ?n thd_demo_ip thd_demo_ip thd_demo_env "[7200, 14400, 14401]" 100 rs h']
      run thd_demo_ready(2)
    by (simp add: thd_demo_node_def sfthd_create_rule_threshold_def thd_ip_def thd_demo_ip_def)
  then show ?thesis using run by simp
qed

section \<open>The objects of an event\<close>

definition is_suppress :: "thd_objs \<Rightarrow> nat \<Rightarrow> bool" where
  "is_suppress o1 a \<longleftrightarrow> td_type (the (to_node o1 a)) = THD_TYPE_SUPPRESS"

definition list_ok :: "thd_objs \<Rightarrow> nat list \<Rightarrow> bool" where
  \<comment> \<open>suppressions first, at most one filter behind them\<close>
  "list_ok o1 as \<longleftrightarrow>
     (\<exists>ss fs. as = ss @ fs \<and> (\<forall>a \<in> set ss. is_suppress o1 a) \<and> length fs \<le> 1 \<and> (\<forall>a \<in> set fs. \<not> is_suppress o1 a)) \<and>
     (\<forall>a \<in> set as. a < to_fresh o1 \<and>
        (if is_suppress o1 a then thd_prio o1 a = THD_PRIORITY_SUPPRESS else thd_prio o1 a < THD_PRIORITY_SUPPRESS))"

definition objs_ok :: "thd_objs \<Rightarrow> bool" where
  "objs_ok o1 \<longleftrightarrow> (\<forall>gen tab key it. to_array o1 gen = Some tab \<longrightarrow> tab key = Some it \<longrightarrow> list_ok o1 (ti_list it))"

lemma thd_insert_end: "\<forall>b \<in> set bs. pr a \<le> pr b \<Longrightarrow> thd_insert pr a (bs @ cs) = bs @ thd_insert pr a cs"
  by (induction bs) auto

lemma list_ok_Nil [simp]: "list_ok o1 []"
  by (simp add: list_ok_def)

lemma list_okI:
  "as = ss @ fs \<Longrightarrow> \<forall>a \<in> set ss. is_suppress o1 a \<Longrightarrow> length fs \<le> 1 \<Longrightarrow> \<forall>a \<in> set fs. \<not> is_suppress o1 a \<Longrightarrow>
    \<forall>a \<in> set as. a < to_fresh o1 \<and>
      (if is_suppress o1 a then thd_prio o1 a = THD_PRIORITY_SUPPRESS else thd_prio o1 a < THD_PRIORITY_SUPPRESS) \<Longrightarrow>
    list_ok o1 as"
  unfolding list_ok_def by blast

lemma list_ok_frame:
  assumes "list_ok o1 as" "to_fresh o1 \<le> to_fresh o2"
    and "\<And>a. a < to_fresh o1 \<Longrightarrow> is_suppress o2 a = is_suppress o1 a \<and> thd_prio o2 a = thd_prio o1 a"
  shows "list_ok o2 as"
proof -
  obtain ss fs where s: "as = ss @ fs" "\<forall>a \<in> set ss. is_suppress o1 a" "length fs \<le> 1" "\<forall>a \<in> set fs. \<not> is_suppress o1 a"
    and lt: "\<forall>a \<in> set as. a < to_fresh o1 \<and>
        (if is_suppress o1 a then thd_prio o1 a = THD_PRIORITY_SUPPRESS else thd_prio o1 a < THD_PRIORITY_SUPPRESS)"
    using assms(1) unfolding list_ok_def by blast
  have same: "is_suppress o2 a = is_suppress o1 a" "thd_prio o2 a = thd_prio o1 a" if "a \<in> set as" for a
    using assms(3) [of a] lt that by simp_all
  show ?thesis
  proof (rule list_okI [OF s(1) _ s(3)])
    show "\<forall>a \<in> set ss. is_suppress o2 a" "\<forall>a \<in> set fs. \<not> is_suppress o2 a"
      using s(2,4) same unfolding s(1) by simp_all
    show "\<forall>a \<in> set as. a < to_fresh o2 \<and>
        (if is_suppress o2 a then thd_prio o2 a = THD_PRIORITY_SUPPRESS else thd_prio o2 a < THD_PRIORITY_SUPPRESS)"
      using lt same assms(2) by auto
  qed
qed

lemma list_ok_insert:
  assumes ok: "list_ok o1 as" and new: "a = to_fresh o1" "o2 = o1\<lparr>to_node := (to_node o1)(a := Some n), to_fresh := a + 1\<rparr>"
    and prio: "td_priority n = (if td_type n = THD_TYPE_SUPPRESS then THD_PRIORITY_SUPPRESS else td_priority n)"
      "td_type n \<noteq> THD_TYPE_SUPPRESS \<Longrightarrow> td_priority n < THD_PRIORITY_SUPPRESS"
    and one: "as = [] \<or> is_suppress o1 (last as) \<or> td_type n = THD_TYPE_SUPPRESS"
  shows "list_ok o2 (thd_insert (thd_prio o2) a as)"
proof -
  have same: "is_suppress o2 b = is_suppress o1 b \<and> thd_prio o2 b = thd_prio o1 b" if "b < to_fresh o1" for b
    using that new by (simp add: is_suppress_def thd_prio_def)
  have "list_ok o2 as" by (rule list_ok_frame [OF ok]) (use same new in auto)
  then obtain ss fs where s: "as = ss @ fs" "\<forall>b \<in> set ss. is_suppress o2 b" "length fs \<le> 1" "\<forall>b \<in> set fs. \<not> is_suppress o2 b"
    and lt: "\<forall>b \<in> set as. b < to_fresh o2 \<and>
        (if is_suppress o2 b then thd_prio o2 b = THD_PRIORITY_SUPPRESS else thd_prio o2 b < THD_PRIORITY_SUPPRESS)"
    unfolding list_ok_def by blast
  have a: "is_suppress o2 a = (td_type n = THD_TYPE_SUPPRESS)" "thd_prio o2 a = td_priority n" "a < to_fresh o2"
    using new by (simp_all add: is_suppress_def thd_prio_def)
  have top: "thd_prio o2 a \<le> THD_PRIORITY_SUPPRESS" using a(2) prio by (cases "td_type n = THD_TYPE_SUPPRESS") auto
  have ss: "\<forall>b \<in> set ss. thd_prio o2 b = THD_PRIORITY_SUPPRESS" using s(1,2) lt by simp
  have front: "thd_insert (thd_prio o2) a as = ss @ thd_insert (thd_prio o2) a fs"
    unfolding s(1) by (rule thd_insert_end) (use ss top in simp)
  show ?thesis
  proof (cases "td_type n = THD_TYPE_SUPPRESS")
    case True
    have "thd_insert (thd_prio o2) a fs = a # fs"
      using s lt a prio True by (cases fs) auto
    then have eq: "thd_insert (thd_prio o2) a as = (ss @ [a]) @ fs" using front by simp
    show ?thesis unfolding eq by (rule list_okI [OF refl]) (use s lt a prio True in auto)
  next
    case False
    have "fs = []"
    proof (rule ccontr)
      assume "fs \<noteq> []"
      then have "last as \<in> set fs" "as \<noteq> []" using s(1) by auto
      moreover have "last as < to_fresh o1"
        using ok calculation(2) unfolding list_ok_def by (meson last_in_set)
      ultimately show False using one False s(4) same by blast
    qed
    then have eq: "thd_insert (thd_prio o2) a as = ss @ [a]" using front by simp
    show ?thesis unfolding eq by (rule list_okI [OF refl]) (use s lt a prio False \<open>fs = []\<close> in auto)
  qed
qed

lemma objs_ok_frame:
  assumes "objs_ok o1" "to_array o2 = to_array o1" "to_fresh o1 \<le> to_fresh o2"
    and "\<And>a. a < to_fresh o1 \<Longrightarrow> is_suppress o2 a = is_suppress o1 a \<and> thd_prio o2 a = thd_prio o1 a"
  shows "objs_ok o2"
  unfolding objs_ok_def
proof (intro allI impI)
  fix gen tab key it assume "to_array o2 gen = Some tab" "tab key = Some it"
  then have "list_ok o1 (ti_list it)" using assms(1,2) unfolding objs_ok_def by metis
  then show "list_ok o2 (ti_list it)" by (rule list_ok_frame [OF _ assms(3,4)])
qed

lemma new_node_frame:
  "thd_new_node o1 n = (a, o2) \<Longrightarrow> b < to_fresh o1 \<Longrightarrow>
    is_suppress o2 b = is_suppress o1 b \<and> thd_prio o2 b = thd_prio o1 b"
  by (auto simp: thd_new_node_def is_suppress_def thd_prio_def)

lemma put_item_frame:
  "is_suppress (thd_put_item o1 gen key it) = is_suppress o1" "thd_prio (thd_put_item o1 gen key it) = thd_prio o1"
  "to_fresh (thd_put_item o1 gen key it) = to_fresh o1" "to_node (thd_put_item o1 gen key it) = to_node o1"
  by (auto simp: fun_eq_iff is_suppress_def thd_prio_def thd_put_item_def)

lemma list_ok_put [simp]: "list_ok (thd_put_item o1 gen key it) as = list_ok o1 as"
  by (simp add: list_ok_def put_item_frame)

lemma put_item_ok:
  assumes "objs_ok o1" "list_ok o1 (ti_list it)" and old: "to_array o1 gen = Some tab"
  shows "objs_ok (thd_put_item o1 gen key it)"
  unfolding objs_ok_def list_ok_put
proof (intro allI impI)
  fix gen' tab' key' it' assume h: "to_array (thd_put_item o1 gen key it) gen' = Some tab'" "tab' key' = Some it'"
  show "list_ok o1 (ti_list it')"
  proof (cases "gen' = gen \<and> key' = key")
    case True
    then show ?thesis using h assms(2) by (auto simp: thd_put_item_def)
  next
    case False
    then obtain tab2 where "to_array o1 gen' = Some tab2" "tab2 key' = Some it'"
      using h old by (auto simp: thd_put_item_def split: if_splits)
    then show ?thesis using assms(1) unfolding objs_ok_def by blast
  qed
qed

lemma add_node_ok:
  assumes ok: "objs_ok o1" and tab: "to_array o1 (td_gen config) = Some tab" "tab key = Some it"
    and add: "thd_add_node mem o1 key it config = (r, o2)"
  shows "objs_ok o2"
proof (cases "ti_list it \<noteq> [] \<and> \<not> is_suppress o1 (last (ti_list it)) \<and> td_type config \<noteq> THD_TYPE_SUPPRESS \<or> \<not> mem 6")
  case True
  then show ?thesis using add ok by (auto simp: thd_add_node_def is_suppress_def split: if_splits)
next
  case False
  define pr where "pr = (if td_type config = THD_TYPE_SUPPRESS then THD_PRIORITY_SUPPRESS
      else if td_priority config \<ge> THD_PRIORITY_SUPPRESS then THD_PRIORITY_SUPPRESS - 1 else td_priority config)"
  define n where "n = config\<lparr>td_priority := pr, td_filtered := 0\<rparr>"
  obtain a o3 where new: "thd_new_node o1 n = (a, o3)" by fastforce
  have o3: "a = to_fresh o1" "o3 = o1\<lparr>to_node := (to_node o1)(a := Some n), to_fresh := a + 1\<rparr>"
    using new by (auto simp: thd_new_node_def)
  have n: "td_type n = td_type config" "td_priority n = pr" by (simp_all add: n_def)
  have list: "list_ok o1 (ti_list it)" using ok tab unfolding objs_ok_def by blast
  have ins: "list_ok o3 (thd_insert (thd_prio o3) a (ti_list it))"
    by (rule list_ok_insert [OF list o3]) (use False n in \<open>auto simp: pr_def\<close>)
  have ok3: "objs_ok o3" by (rule objs_ok_frame [OF ok]) (use o3 new_node_frame [OF new] in auto)
  have tab3: "to_array o3 (td_gen config) = Some tab" using tab(1) o3 by simp
  have "o2 = o3 \<or> o2 = thd_put_item o3 (td_gen config) key (it\<lparr>ti_list := thd_insert (thd_prio o3) a (ti_list it)\<rparr>)"
    using add False new by (auto simp: thd_add_node_def is_suppress_def n_def pr_def Let_def split: prod.splits)
  then show ?thesis
  proof
    assume "o2 = thd_put_item o3 (td_gen config) key (it\<lparr>ti_list := thd_insert (thd_prio o3) a (ti_list it)\<rparr>)"
    then show ?thesis using put_item_ok [OF ok3 _ tab3] ins by simp
  qed (use ok3 in simp)
qed

lemma list_ok_array [simp]: "list_ok (o1\<lparr>to_array := x\<rparr>) as = list_ok o1 as"
  by (simp add: list_ok_def is_suppress_def thd_prio_def)

lemma objs_ok_empty_table:
  assumes "objs_ok o1" "to_array o1 gen = None"
  shows "objs_ok (o1\<lparr>to_array := (to_array o1)(gen := Some (\<lambda>_. None))\<rparr>)"
  unfolding objs_ok_def list_ok_array
proof (intro allI impI)
  fix gen' tab key it
  assume "to_array (o1\<lparr>to_array := (to_array o1)(gen := Some (\<lambda>_. None))\<rparr>) gen' = Some tab" "tab key = Some it"
  then have "to_array o1 gen' = Some tab" by (auto split: if_splits)
  then show "list_ok o1 (ti_list it)" using assms(1) \<open>tab key = Some it\<close> unfolding objs_ok_def by blast
qed

lemma create_local_ok:
  assumes ok: "objs_ok o1" and cr: "sfthd_create_threshold_local mem policy o1 config = (r, o2)"
  shows "objs_ok o2"
proof -
  let ?g = "td_gen config" and ?key = "(td_sig config, policy)"
  let ?it = "\<lparr>ti_policy = policy, ti_gen = ?g, ti_sig = td_sig config, ti_list = []\<rparr>"
  define o3 where "o3 = (if to_array o1 ?g = None then o1\<lparr>to_array := (to_array o1)(?g := Some (\<lambda>_. None))\<rparr> else o1)"
  have ok3: "objs_ok o3" unfolding o3_def using ok objs_ok_empty_table by simp
  obtain tab where tab: "to_array o3 ?g = Some tab" unfolding o3_def by (cases "to_array o1 ?g") auto
  consider "o2 = o1" | "o2 = o3" | it where "tab ?key = Some it" "thd_add_node mem o3 ?key it config = (r, o2)"
    | "thd_add_node mem (thd_put_item o3 ?g ?key ?it) ?key ?it config = (r, o2)"
    using cr tab by (auto simp: sfthd_create_threshold_local_def Let_def o3_def [symmetric] split: if_splits option.splits)
  then show ?thesis
  proof cases
    case 4
    have "objs_ok (thd_put_item o3 ?g ?key ?it)" by (rule put_item_ok [OF ok3 _ tab]) simp
    moreover have "to_array (thd_put_item o3 ?g ?key ?it) ?g = Some (tab(?key := Some ?it))"
      by (simp add: thd_put_item_def tab)
    ultimately show ?thesis by (rule add_node_ok [OF _ _ _ 4]) simp
  qed (use ok ok3 tab add_node_ok in auto)
qed

lemma create_global_ok:
  assumes ok: "objs_ok o1" and cr: "sfthd_create_threshold_global mem policy o1 config = Some (r, o2)"
  shows "objs_ok o2"
proof -
  have "to_array o2 = to_array o1 \<and> to_fresh o1 \<le> to_fresh o2 \<and> (\<forall>a < to_fresh o1. to_node o2 a = to_node o1 a)"
    using cr by (auto simp: sfthd_create_threshold_global_def thd_new_node_def Let_def split: if_splits)
  then show ?thesis by (intro objs_ok_frame [OF ok]) (auto simp: is_suppress_def thd_prio_def)
qed

lemma objs_ok_update [simp]:
  "objs_ok (o1\<lparr>to_count := c\<rparr>) = objs_ok o1" "objs_ok (o1\<lparr>to_policies := p\<rparr>) = objs_ok o1"
  "objs_ok (o1\<lparr>to_garray := g\<rparr>) = objs_ok o1"
  by (simp_all add: objs_ok_def list_ok_def is_suppress_def thd_prio_def)

lemma create_ok:
  assumes "objs_ok o1" "sfthd_create_threshold mem policy o1 gen sig trk ty prio cnt secs addr = Some (r, o2)"
  shows "objs_ok o2"
proof -
  define cf where "cf = \<lparr>td_id = to_count o1 + 1, td_gen = gen, td_sig = sig, td_tracking = trk, td_type = ty,
    td_priority = prio, td_count = cnt, td_seconds = secs, td_filtered = 0, td_addr = addr\<rparr>"
  define o4 where "o4 = o1\<lparr>to_count := to_count o1 + 1,
    to_policies := snd (sfDynArrayCheckBounds (mem 0) policy (to_policies o1))\<rparr>"
  define o3 where "o3 = (if to_garray o4 policy = None
    then o4\<lparr>to_garray := (to_garray o4)(policy := Some (\<lambda>_. None))\<rparr> else o4)"
  have ok: "objs_ok o3" using assms(1) by (simp add: o3_def o4_def)
  have eq: "sfthd_create_threshold mem policy o1 gen sig trk ty prio cnt secs addr =
      (if policy \<ge> to_policies o4 then None
       else if sig = 0 then sfthd_create_threshold_global mem policy o3 cf
       else if gen = 0 then Some (-1, o3) else Some (sfthd_create_threshold_local mem policy o3 cf))"
    by (simp add: sfthd_create_threshold_def Let_def cf_def o3_def o4_def)
  show ?thesis using assms(2) ok create_local_ok [OF ok] create_global_ok [OF ok]
    unfolding eq by (auto split: if_splits)
qed

definition thd_like :: "thd_objs \<Rightarrow> thd_objs \<Rightarrow> bool" where
  \<comment> \<open>the same objects up to their counts of filtered events\<close>
  "thd_like o1 o2 \<longleftrightarrow> to_array o2 = to_array o1 \<and> to_fresh o2 = to_fresh o1 \<and>
     (\<forall>a. is_suppress o2 a = is_suppress o1 a \<and> thd_prio o2 a = thd_prio o1 a)"

lemma thd_like_ok: "objs_ok o1 \<Longrightarrow> thd_like o1 o2 \<Longrightarrow> objs_ok o2"
  by (rule objs_ok_frame) (auto simp: thd_like_def)

lemma non_suppress_node: "sfthd_test_non_suppress n d t = (r, n', d') \<Longrightarrow> n' = n \<or> n' = thd_filter n"
  by (auto simp: sfthd_test_non_suppress_def Let_def split: thd_type.splits if_splits)

lemma test_suppress_node: "sfthd_test_suppress n ip = (r, n') \<Longrightarrow> n' = n \<or> n' = thd_filter n"
  by (auto simp: sfthd_test_suppress_def split: if_splits)

lemma test_local_node: "sfthd_test_local env n sip dip t eval h = (r, n', eval', h') \<Longrightarrow> n' = n \<or> n' = thd_filter n"
  using non_suppress_node test_suppress_node
  by (fastforce simp: sfthd_test_local_def Let_def split: if_splits prod.splits)

lemma test_global_node: "sfthd_test_global env n sig sip dip t h = (r, n', h') \<Longrightarrow> n' = n \<or> n' = thd_filter n"
  using non_suppress_node test_suppress_node
  by (fastforce simp: sfthd_test_global_def Let_def split: if_splits prod.splits)

lemma set_node_like: "n' = the (to_node o1 a) \<or> n' = thd_filter (the (to_node o1 a)) \<Longrightarrow> thd_like o1 (thd_set_node o1 a n')"
  by (auto simp: thd_like_def thd_set_node_def is_suppress_def thd_prio_def thd_filter_def)

lemma thd_like_trans: "thd_like o1 o2 \<Longrightarrow> thd_like o2 o3 \<Longrightarrow> thd_like o1 o3"
  by (auto simp: thd_like_def)

lemma thd_like_refl: "thd_like o1 o1"
  by (simp add: thd_like_def)

lemma test_list_like: "sfthd_test_list env as sip dip t o1 h = (r, o2, h') \<Longrightarrow> thd_like o1 o2"
proof (induction as arbitrary: o1 h)
  case Nil
  then show ?case by (simp add: thd_like_refl)
next
  case (Cons a as)
  obtain status n' e h1 where test: "sfthd_test_local env (the (to_node o1 a)) sip dip t None h = (status, n', e, h1)"
    by (metis prod_cases4)
  have "thd_like o1 (thd_set_node o1 a n')" by (rule set_node_like [OF test_local_node [OF test]])
  then show ?case using Cons test by (auto split: if_splits intro: thd_like_trans)
qed

lemma test_threshold_like:
  "sfthd_test_threshold env o1 thd gen sig sip dip t = Some (r, o2, thd') \<Longrightarrow> thd_like o1 o2"
proof -
  assume h: "sfthd_test_threshold env o1 thd gen sig sip dip t = Some (r, o2, thd')"
  show ?thesis
  proof (cases "thd = None \<or> gen \<ge> THD_MAX_GENID")
    case True
    then show ?thesis using h by (auto simp: sfthd_test_threshold_def thd_like_refl split: option.splits if_splits)
  next
    case False
    then obtain tt where tt: "thd = Some tt" by auto
    obtain q o3 h3 where l: "sfthd_test_list env (thd_local_list o1 gen sig (te_ips env)) sip dip t o1 (ip_nodes tt) = (q, o3, h3)"
      by (metis prod_cases3)
    have like: "thd_like o1 o3" by (rule test_list_like [OF l])
    have "o2 = o3 \<or> (\<exists>g n'. o2 = thd_set_node o3 g n' \<and> (n' = the (to_node o3 g) \<or> n' = thd_filter (the (to_node o3 g))))"
      using h False tt l test_global_node
      by (fastforce simp: sfthd_test_threshold_def Let_def split: option.splits if_splits prod.splits)
    then show ?thesis using like set_node_like thd_like_trans by blast
  qed
qed

section \<open>Suppression\<close>

inductive thd_reach :: "thd_objs \<Rightarrow> bool" where
  \<comment> \<open>the threshold objects of a running program\<close>
  new: "thd_reach sfthd_objs_new"
| create: "thd_reach o1 \<Longrightarrow>
    sfthd_create_threshold mem policy o1 gen_id sig_id tracking type priority count seconds addr = Some (r, o2) \<Longrightarrow>
    thd_reach o2"
| test: "thd_reach o1 \<Longrightarrow> sfthd_test_threshold env o1 thd gen_id sig_id sip dip curtime = Some (r, o2, thd') \<Longrightarrow>
    thd_reach o2"

lemma objs_ok_new: "objs_ok sfthd_objs_new"
  by (simp add: objs_ok_def sfthd_objs_new_def)

lemma thd_reach_ok: "thd_reach o1 \<Longrightarrow> objs_ok o1"
  by (induction rule: thd_reach.induct) (auto intro: objs_ok_new create_ok thd_like_ok test_threshold_like)

definition suppresses :: "thd_node \<Rightarrow> bytes \<Rightarrow> bytes \<Rightarrow> bool" where
  \<comment> \<open>a suppression that covers the addresses of an event\<close>
  "suppresses n sip dip \<longleftrightarrow> td_type n = THD_TYPE_SUPPRESS \<and>
     (case td_addr n of None \<Rightarrow> True | Some contains \<Rightarrow> contains (thd_ip n sip dip))"

lemma test_suppress_local:
  assumes "td_type n = THD_TYPE_SUPPRESS" "td_count n \<noteq> THD_NO_THRESHOLD"
  shows "sfthd_test_local env n sip dip t eval h =
    (if suppresses n sip dip then (-1, thd_filter n, eval, h) else (1, n, eval, h))"
  using assms by (auto simp: sfthd_test_local_def sfthd_test_suppress_def suppresses_def split: option.split)

lemma suppress_list:
  assumes "\<forall>b \<in> set ss. is_suppress o1 b \<and> td_count (the (to_node o1 b)) \<noteq> THD_NO_THRESHOLD"
    and "\<exists>a \<in> set ss. suppresses (the (to_node o1 a)) sip dip"
  shows "\<exists>o2. sfthd_test_list env (ss @ fs) sip dip t o1 h = (Some (-1), o2, h)"
  using assms
proof (induction ss arbitrary: o1)
  case (Cons b ss)
  let ?n = "the (to_node o1 b)"
  have test: "sfthd_test_local env ?n sip dip t None h =
      (if suppresses ?n sip dip then (-1, thd_filter ?n, None, h) else (1, ?n, None, h))"
    by (rule test_suppress_local) (use Cons.prems(1) in \<open>auto simp: is_suppress_def\<close>)
  show ?case
  proof (cases "suppresses ?n sip dip")
    case True
    then show ?thesis by (simp add: test)
  next
    case False
    let ?o = "thd_set_node o1 b ?n"
    have same: "the (to_node ?o a) = the (to_node o1 a)" for a by (simp add: thd_set_node_def)
    have "\<exists>o2. sfthd_test_list env (ss @ fs) sip dip t ?o h = (Some (-1), o2, h)"
      by (rule Cons.IH) (use Cons.prems False in \<open>auto simp: same is_suppress_def\<close>)
    then show ?thesis using False by (simp add: test)
  qed
qed simp

lemma local_list_ok: "objs_ok o1 \<Longrightarrow> list_ok o1 (thd_local_list o1 gen sig policy)"
  by (auto simp: thd_local_list_def objs_ok_def split: option.split)

text \<open> C39. Suppression comes first: in every configuration the program can reach, an event that one of
  its suppressions covers is answered \<open>-1\<close> (do not log), whatever order the objects were created in,
  and no tracking table is touched: the event is not counted.\<close>
theorem sfthd_test_threshold_suppressed:
  assumes "thd_reach o1" and "gen_id < THD_MAX_GENID"
    and "a \<in> set (thd_local_list o1 gen_id sig_id (te_ips env))" and "suppresses (the (to_node o1 a)) sip dip"
    and "\<forall>b \<in> set (thd_local_list o1 gen_id sig_id (te_ips env)).
      is_suppress o1 b \<longrightarrow> td_count (the (to_node o1 b)) \<noteq> THD_NO_THRESHOLD"
  shows "\<exists>o2. sfthd_test_threshold env o1 (Some thd) gen_id sig_id sip dip curtime = Some (-1, o2, Some thd)"
proof -
  let ?l = "thd_local_list o1 gen_id sig_id (te_ips env)"
  have "list_ok o1 ?l" by (rule local_list_ok [OF thd_reach_ok [OF assms(1)]])
  then obtain ss fs where l: "?l = ss @ fs" "\<forall>b \<in> set ss. is_suppress o1 b" "\<forall>b \<in> set fs. \<not> is_suppress o1 b"
    unfolding list_ok_def by blast
  have "is_suppress o1 a" using assms(4) by (simp add: suppresses_def is_suppress_def)
  then have "a \<in> set ss" using assms(3) l by auto
  then obtain o2 where "sfthd_test_list env ?l sip dip curtime o1 (ip_nodes thd) = (Some (-1), o2, ip_nodes thd)"
    using suppress_list [of ss o1 sip dip env fs curtime "ip_nodes thd"] assms(4,5) l by auto
  then show ?thesis using assms(2) by (simp add: sfthd_test_threshold_def not_le [symmetric])
qed

abbreviation thd_demo_create :: "thd_objs \<Rightarrow> thd_type \<Rightarrow> int \<Rightarrow> (bytes \<Rightarrow> bool) option \<Rightarrow> (int \<times> thd_objs) option" where
  "thd_demo_create o1 ty c addr \<equiv>
     sfthd_create_threshold (\<lambda>_. True) 0 o1 1 5 THD_TRK_SRC ty 0 c 60 addr"

definition thd_demo_limit :: thd_objs where
  "thd_demo_limit = snd (the (thd_demo_create sfthd_objs_new THD_TYPE_LIMIT 1 None))"

definition thd_demo_objs :: thd_objs where
  \<comment> \<open>a limit and then a suppression for signature 5 of generator 1\<close>
  "thd_demo_objs = snd (the (thd_demo_create thd_demo_limit THD_TYPE_SUPPRESS 0 (Some (\<lambda>ip. ip = thd_demo_ip))))"

lemma reach_create:
  "thd_reach o1 \<Longrightarrow>
    \<not> Option.is_none (sfthd_create_threshold mem policy o1 gen_id sig_id tracking type priority count seconds addr) \<Longrightarrow>
    thd_reach (snd (the (sfthd_create_threshold mem policy o1 gen_id sig_id tracking type priority count seconds addr)))"
  by (cases "sfthd_create_threshold mem policy o1 gen_id sig_id tracking type priority count seconds addr")
    (auto intro: thd_reach.create)

lemma thd_demo_objs_reach: "thd_reach thd_demo_objs"
proof -
  have "\<not> Option.is_none (thd_demo_create sfthd_objs_new THD_TYPE_LIMIT 1 None)" by code_simp
  then have "thd_reach thd_demo_limit" unfolding thd_demo_limit_def by (rule reach_create [OF thd_reach.new])
  moreover have "\<not> Option.is_none (thd_demo_create thd_demo_limit THD_TYPE_SUPPRESS 0 (Some (\<lambda>ip. ip = thd_demo_ip)))"
    by code_simp
  ultimately show ?thesis unfolding thd_demo_objs_def by (rule reach_create)
qed

lemma thd_demo_list: "thd_local_list thd_demo_objs 1 5 0 = [1, 0]"
  "td_type (the (to_node thd_demo_objs 1)) = THD_TYPE_SUPPRESS" "td_count (the (to_node thd_demo_objs 1)) = 0"
  "suppresses (the (to_node thd_demo_objs 1)) thd_demo_ip []" "\<not> is_suppress thd_demo_objs 0"
  by code_simp+

lemma sfthd_test_threshold_suppressed_witness:
  "\<exists>o2. sfthd_test_threshold thd_demo_env thd_demo_objs (Some \<lparr>ip_nodes = thd_demo_table, ip_gnodes = None\<rparr>) 1 5
     thd_demo_ip [] 100 = Some (-1, o2, Some \<lparr>ip_nodes = thd_demo_table, ip_gnodes = None\<rparr>)"
  by (rule sfthd_test_threshold_suppressed [OF thd_demo_objs_reach, where a = 1])
    (use thd_demo_list in \<open>auto simp: thd_demo_env_def THD_MAX_GENID_def THD_NO_THRESHOLD_def\<close>)

section \<open>General and specific objects\<close>

primrec create_globals :: "u32 \<Rightarrow> thd_node list \<Rightarrow> thd_objs \<Rightarrow> (int list \<times> thd_objs) option" where
  "create_globals policy [] o1 = Some ([], o1)"
| "create_globals policy (c # cs) o1 =
     (case sfthd_create_threshold_global (\<lambda>_. True) policy o1 c of
        None \<Rightarrow> None
      | Some (r, o2) \<Rightarrow> map_option (\<lambda>(rs, o3). (r # rs, o3)) (create_globals policy cs o2))"

definition thd_row :: "thd_objs \<Rightarrow> u32 \<Rightarrow> u32 \<Rightarrow> nat option" where
  "thd_row o1 policy = (case to_garray o1 policy of None \<Rightarrow> (\<lambda>_. None) | Some row \<Rightarrow> row)"

definition row_inv :: "thd_objs \<Rightarrow> u32 \<Rightarrow> thd_node set \<Rightarrow> bool" where
  \<comment> \<open>the objects \<open>C\<close> have been created\<close>
  "row_inv o1 policy C \<longleftrightarrow> (\<exists>adr. inj_on adr (td_gen ` C) \<and>
     (\<forall>c \<in> C. adr (td_gen c) < to_fresh o1 \<and> to_node o1 (adr (td_gen c)) = Some (c\<lparr>td_filtered := 0\<rparr>)) \<and>
     (\<forall>g < THD_MAX_GENID. thd_row o1 policy g =
        (if g \<in> td_gen ` C then Some (adr g) else if 0 \<in> td_gen ` C then Some (adr 0) else None)))"

lemma create_global_step:
  assumes inv: "row_inv o1 policy C" and new: "td_gen c \<notin> td_gen ` C" "td_gen c < THD_MAX_GENID"
  shows "\<exists>o2. sfthd_create_threshold_global (\<lambda>_. True) policy o1 c = Some (0, o2) \<and> row_inv o2 policy (insert c C)"
proof -
  let ?g = "td_gen c" and ?row = "thd_row o1 policy" and ?a = "to_fresh o1"
  obtain adr where adr: "inj_on adr (td_gen ` C)"
    "\<forall>c \<in> C. adr (td_gen c) < to_fresh o1 \<and> to_node o1 (adr (td_gen c)) = Some (c\<lparr>td_filtered := 0\<rparr>)"
    "\<forall>g < THD_MAX_GENID. ?row g = (if g \<in> td_gen ` C then Some (adr g) else if 0 \<in> td_gen ` C then Some (adr 0) else None)"
    using inv unfolding row_inv_def by blast
  have z: "(0 :: u32) < THD_MAX_GENID" by (simp add: THD_MAX_GENID_def)
  have row: "?row ?g = ?row 0" "?g = 0 \<Longrightarrow> ?row 0 = None" using adr(3) new z by auto
  define row1 where "row1 = ?row(?g := None)"
  define row2 where "row2 = (if ?g = 0 then (\<lambda>i. if i < THD_MAX_GENID \<and> row1 i = None then Some ?a else row1 i)
    else row1(?g := Some ?a))"
  define o2 where "o2 = o1\<lparr>to_garray := (to_garray o1)(policy := Some row2),
    to_node := (to_node o1)(?a := Some (c\<lparr>td_filtered := 0\<rparr>)), to_fresh := ?a + 1\<rparr>"
  have upd: "row1 = ?row" if "?g = 0" using that row by (auto simp: row1_def fun_upd_idem)
  have "sfthd_create_threshold_global (\<lambda>_. True) policy o1 c = Some (0, o2)"
    using row new(2)
    by (auto simp: sfthd_create_threshold_global_def thd_row_def [symmetric] Let_def thd_new_node_def o2_def row2_def
        row1_def not_le cong: if_cong)
  moreover have "row_inv o2 policy (insert c C)"
  proof -
    define adr2 where "adr2 = adr(?g := ?a)"
    have out: "adr g \<noteq> ?a" if "g \<in> td_gen ` C" for g using adr(2) that by auto
    have same: "adr2 g = adr g" if "g \<in> td_gen ` C" for g
    proof -
      have "g \<noteq> ?g" using that new(1) by metis
      then show ?thesis by (simp add: adr2_def)
    qed
    have "inj_on adr2 (td_gen ` C)" using adr(1) same by (simp add: inj_on_def)
    moreover have "adr2 ?g \<notin> adr2 ` (td_gen ` C)"
    proof
      assume "adr2 ?g \<in> adr2 ` (td_gen ` C)"
      then obtain g where g: "g \<in> td_gen ` C" "adr2 g = adr2 ?g" by (metis image_iff)
      then show False using same [OF g(1)] out [OF g(1)] by (simp add: adr2_def)
    qed
    ultimately have "inj_on adr2 (td_gen ` insert c C)" using new(1) by (simp add: inj_on_insert)
    moreover have "\<forall>b \<in> insert c C. adr2 (td_gen b) < to_fresh o2 \<and> to_node o2 (adr2 (td_gen b)) = Some (b\<lparr>td_filtered := 0\<rparr>)"
      using adr(2) same out by (auto simp: o2_def less_Suc_eq adr2_def)
    moreover have "thd_row o2 policy g = (if g \<in> td_gen ` insert c C then Some (adr2 g)
        else if 0 \<in> td_gen ` insert c C then Some (adr2 0) else None)" if "g < THD_MAX_GENID" for g
    proof -
      have r: "thd_row o2 policy = row2" by (simp add: thd_row_def o2_def)
      have rg: "?row g = (if g \<in> td_gen ` C then Some (adr g) else if 0 \<in> td_gen ` C then Some (adr 0) else None)"
        using adr(3) that by blast
      show ?thesis
      proof (cases "?g = 0")
        case True
        then have "0 \<notin> td_gen ` C" using new(1) by simp
        then show ?thesis unfolding r row2_def upd [OF True] using True rg that same by (auto simp: adr2_def)
      next
        case False
        have r2: "row2 g = (if g = ?g then Some ?a else ?row g)" using False by (simp add: row2_def row1_def)
        show ?thesis
        proof (cases "g = ?g")
          case True
          then show ?thesis unfolding r r2 by (simp add: adr2_def)
        next
          case ne: False
          have "adr2 g = adr g" "adr2 0 = adr 0" using ne False by (simp_all add: adr2_def)
          then show ?thesis unfolding r r2 using ne False rg by simp
        qed
      qed
    qed
    ultimately show ?thesis unfolding row_inv_def by blast
  qed
  ultimately show ?thesis by blast
qed

lemma create_globals_inv:
  "row_inv o1 policy C \<Longrightarrow> distinct (map td_gen cs) \<Longrightarrow> td_gen ` set cs \<inter> td_gen ` C = {} \<Longrightarrow>
    \<forall>c \<in> set cs. td_gen c < THD_MAX_GENID \<Longrightarrow>
    \<exists>o2. create_globals policy cs o1 = Some (replicate (length cs) 0, o2) \<and> row_inv o2 policy (set cs \<union> C)"
proof (induction cs arbitrary: o1 C)
  case (Cons c cs)
  obtain o2 where o2: "sfthd_create_threshold_global (\<lambda>_. True) policy o1 c = Some (0, o2)" "row_inv o2 policy (insert c C)"
    using create_global_step [OF Cons.prems(1)] Cons.prems(3,4) by force
  have "td_gen ` set cs \<inter> td_gen ` insert c C = {}" using Cons.prems(2,3) by auto
  then obtain o3 where "create_globals policy cs o2 = Some (replicate (length cs) 0, o3)" "row_inv o3 policy (set cs \<union> insert c C)"
    using Cons.IH [OF o2(2)] Cons.prems(2,4) by auto
  then show ?case using o2(1) by simp
qed simp

lemma find_member: "find P xs = Some x \<Longrightarrow> x \<in> set xs \<and> P x"
  by (induction xs) (auto split: if_splits)

text \<open> C40. Global objects: created in any order, at most one per generator and one for all of them
  (generator 0), all are accepted, and the object a generator then has is its own if there is
  one, else the general one, else none.\<close>
theorem sfthd_global_objects:
  assumes "to_garray o1 policy = Some (\<lambda>_. None)" and "distinct (map td_gen cs)"
    and "\<forall>c \<in> set cs. td_gen c < THD_MAX_GENID" and "gen_id < THD_MAX_GENID"
  shows "\<exists>o2. create_globals policy cs o1 = Some (replicate (length cs) 0, o2) \<and>
    (case thd_global_node o2 gen_id policy of None \<Rightarrow> None | Some a \<Rightarrow> to_node o2 a) =
      (case find (\<lambda>c. td_gen c = gen_id) cs of
         Some c \<Rightarrow> Some (c\<lparr>td_filtered := 0\<rparr>)
       | None \<Rightarrow> map_option (\<lambda>c. c\<lparr>td_filtered := 0\<rparr>) (find (\<lambda>c. td_gen c = 0) cs))"
proof -
  have "row_inv o1 policy {}" using assms(1) by (simp add: row_inv_def thd_row_def)
  then obtain o2 where o2: "create_globals policy cs o1 = Some (replicate (length cs) 0, o2)" "row_inv o2 policy (set cs)"
    using create_globals_inv [OF _ assms(2) _ assms(3)] by force
  obtain adr where adr: "\<forall>c \<in> set cs. to_node o2 (adr (td_gen c)) = Some (c\<lparr>td_filtered := 0\<rparr>)"
    "thd_row o2 policy gen_id = (if gen_id \<in> td_gen ` set cs then Some (adr gen_id)
       else if 0 \<in> td_gen ` set cs then Some (adr 0) else None)"
    using o2(2) assms(4) unfolding row_inv_def by blast
  have row: "thd_global_node o2 gen_id policy = thd_row o2 policy gen_id"
    by (simp add: thd_global_node_def thd_row_def split: option.split)
  have "(case thd_row o2 policy gen_id of None \<Rightarrow> None | Some a \<Rightarrow> to_node o2 a) =
      (case find (\<lambda>c. td_gen c = gen_id) cs of
         Some c \<Rightarrow> Some (c\<lparr>td_filtered := 0\<rparr>)
       | None \<Rightarrow> map_option (\<lambda>c. c\<lparr>td_filtered := 0\<rparr>) (find (\<lambda>c. td_gen c = 0) cs))"
  proof (cases "find (\<lambda>c. td_gen c = gen_id) cs")
    case (Some c)
    then have "c \<in> set cs" "td_gen c = gen_id" by (auto dest: find_member)
    then show ?thesis using adr Some by auto
  next
    case None
    then have no: "gen_id \<notin> td_gen ` set cs" by (auto simp: find_None_iff)
    show ?thesis
    proof (cases "find (\<lambda>c. td_gen c = 0) cs")
      case (Some c)
      then have "c \<in> set cs" "td_gen c = 0" by (auto dest: find_member)
      moreover from this have "0 \<in> td_gen ` set cs" by force
      ultimately have "to_node o2 (adr 0) = Some (c\<lparr>td_filtered := 0\<rparr>)" using adr(1) by force
      then show ?thesis using adr(2) None Some no \<open>0 \<in> td_gen ` set cs\<close> by simp
    next
      case none: None
      then have "0 \<notin> td_gen ` set cs" by (auto simp: find_None_iff)
      then show ?thesis using adr(2) None none no by simp
    qed
  qed
  then show ?thesis using o2(1) row by auto
qed

definition thd_demo_global :: "u32 \<Rightarrow> int \<Rightarrow> thd_node" where
  "thd_demo_global gen c = (thd_demo_node THD_TYPE_LIMIT c)\<lparr>td_gen := gen\<rparr>"

definition thd_demo_empty :: thd_objs where
  "thd_demo_empty = sfthd_objs_new\<lparr>to_garray := [0 \<mapsto> \<lambda>_. None], to_policies := 10\<rparr>"

lemma sfthd_global_objects_witness:
  \<comment> \<open>an object for generator 3, the general one, one for generator 1: generators 1 and 7\<close>
  "(\<exists>o2. create_globals 0 [thd_demo_global 3 5, thd_demo_global 0 6, thd_demo_global 1 7] thd_demo_empty = Some ([0, 0, 0], o2) \<and>
     (case thd_global_node o2 1 0 of None \<Rightarrow> None | Some a \<Rightarrow> to_node o2 a) = Some (thd_demo_global 1 7)) \<and>
   (\<exists>o2. create_globals 0 [thd_demo_global 3 5, thd_demo_global 0 6, thd_demo_global 1 7] thd_demo_empty = Some ([0, 0, 0], o2) \<and>
     (case thd_global_node o2 7 0 of None \<Rightarrow> None | Some a \<Rightarrow> to_node o2 a) = Some (thd_demo_global 0 6))"
proof -
  let ?cs = "[thd_demo_global 3 5, thd_demo_global 0 6, thd_demo_global 1 7]"
  have h: "to_garray thd_demo_empty 0 = Some (\<lambda>_. None)" "distinct (map td_gen ?cs)"
    "\<forall>c \<in> set ?cs. td_gen c < THD_MAX_GENID" "(1 :: u32) < THD_MAX_GENID" "(7 :: u32) < THD_MAX_GENID"
    by (simp_all add: thd_demo_empty_def thd_demo_global_def THD_MAX_GENID_def)
  show ?thesis
    using sfthd_global_objects [OF h(1-3,4)] sfthd_global_objects [OF h(1-3,5)]
    by (simp add: thd_demo_global_def thd_demo_node_def sfthd_create_rule_threshold_def numeral_3_eq_3)
qed

text \<open>
  The index is not checked: a global object for a generator id beyond the array is written
  outside it; and a runtime policy beyond the allocated rows is read outside them.
\<close>

lemma sfthd_create_threshold_unchecked:
  "policy < to_policies o1 \<Longrightarrow> mem 1 \<Longrightarrow> THD_MAX_GENID \<le> gen_id \<Longrightarrow>
    sfthd_create_threshold mem policy o1 gen_id 0 tracking type priority count seconds addr = None"
proof -
  assume h: "policy < to_policies o1" "mem 1" "THD_MAX_GENID \<le> gen_id"
  have "gen_id \<noteq> 0" using h(3) by (auto simp: THD_MAX_GENID_def)
  then show ?thesis using h
    by (simp add: sfthd_create_threshold_def sfthd_create_threshold_global_def sfDynArrayCheckBounds_def Let_def)
qed

lemma sfthd_test_threshold_unchecked:
  assumes "to_policies o1 \<noteq> 0" "to_policies o1 \<le> te_ips env" "gen_id < THD_MAX_GENID" "to_array o1 gen_id = None"
  shows "sfthd_test_threshold env o1 (Some t) gen_id sig_id sip dip curtime = None"
  using assms by (simp add: sfthd_test_threshold_def thd_local_list_def not_le [symmetric])

end
