(* ===== verification/SfRtDir.thy ===== *)
theory SfRtDir
  imports Prelude "HOL-Library.Monad_Syntax"
begin

text \<open>
  The DIR-n-m tables of \<open>sfutil/sfrt_dir.c\<close>: a tree of tables, each indexed by the next few
  bits of an IP address.

  The arrays \<open>entries\<close> and \<open>lengths\<close> of a \<open>dir_sub_table_t\<close> are one list of slots.  A slot is
  \<open>Ptr t\<close> when the code holds the address of a sub table there (with length 0), else
  \<open>Val e l\<close>; so \<open>Val e 0\<close> with \<open>e \<noteq> 0\<close> is an index the code would follow as a pointer.
  \<open>num_entries\<close> is the length of the list.  \<open>None\<close> as a result stands for such a wild
  pointer, for an index outside an array, for an address word never read in and for a shift by
  the width of the type.  \<open>os a\<close> tells whether \<open>malloc\<close> succeeds with \<open>a\<close> bytes allocated.
  An address is its words after \<open>ntohl\<close>; \<open>bits\<close> of them have been consumed.
\<close>

section \<open>Tables\<close>

datatype dir_sub = Sub (sub_width: nat) (sub_slots: "dir_slot list") (sub_cur_num: int) (sub_filled: int)
  and dir_slot = Val u64 u8 | Ptr dir_sub

record dir_root =
  dimensions :: "nat list"
  dt_mem_cap :: u32
  dt_cur_num :: int
  dt_allocated :: u32

record dir_table =
  dt_root :: dir_root
  sub_table :: dir_sub

datatype rt_behavior = RT_FAVOR_TIME | RT_FAVOR_SPECIFIC | RT_FAVOR_ALL

datatype rt_code = RT_SUCCESS | RT_INSERT_FAILURE | RT_POLICY_TABLE_EXCEEDED | DIR_INSERT_FAILURE
  | DIR_LOOKUP_FAILURE | MEM_ALLOC_FAILURE | RT_REMOVE_FAILURE

definition sub_bytes :: "nat \<Rightarrow> nat" where
  \<comment> \<open>\<open>sizeof(dir_sub_table_t)\<close>, entries and lengths\<close>
  "sub_bytes n = 32 + 8 * n + n"

definition slot_index :: "u32 list \<Rightarrow> nat \<Rightarrow> nat \<Rightarrow> nat option" where
  \<comment> \<open>\<open>(adr[i] << bits % 32) >> (32 - width)\<close>\<close>
  "slot_index h bits w =
     (let i = if bits < 32 then 0 else if bits < 64 then 1 else if bits < 96 then 2 else 3 in
      if i < length h \<and> 0 < w \<and> w \<le> 32
      then Some (unat (drop_bit (32 - w) (push_bit (bits mod 32) (h ! i)))) else None)"

definition sub_table_new ::
    "(u32 \<Rightarrow> bool) \<Rightarrow> dir_root \<Rightarrow> nat \<Rightarrow> u32 \<Rightarrow> nat \<Rightarrow> (dir_sub option \<times> dir_root) option" where
  "sub_table_new os root dimension prefill bit_length =
     (if dimension \<ge> length (dimensions root) then None
      else
        let width = dimensions root ! dimension; len = 2 ^ width in
        if unat (dt_mem_cap root) < unat (dt_allocated root) + sub_bytes len \<or> bit_length > 128
        then Some (None, root)
        else if \<not> os (dt_allocated root) then Some (None, root)
        else Some (Some (Sub width (replicate len (Val (ucast prefill) (of_nat bit_length))) 0
                           (if prefill \<noteq> 0 then int len else 0)),
                   root\<lparr>dt_allocated := dt_allocated root + of_nat (sub_bytes len),
                        dt_cur_num := dt_cur_num root + 1\<rparr>))"

definition sfrt_dir_new :: "(u32 \<Rightarrow> bool) \<Rightarrow> u32 \<Rightarrow> nat list \<Rightarrow> dir_table option option" where
  "sfrt_dir_new os mem_cap dims =
     do { (sub, root) \<leftarrow> sub_table_new os
            \<lparr>dimensions = dims, dt_mem_cap = mem_cap, dt_cur_num = 0, dt_allocated = 0\<rparr> 0 0 0;
          Some (map_option (\<lambda>s. \<lparr>dt_root = root\<lparr>dt_allocated :=
                  dt_allocated root + of_nat (32 + 4 * length dims)\<rparr>, sub_table = s\<rparr>) sub) }"

fun sub_table_free :: "u32 \<Rightarrow> dir_sub \<Rightarrow> u32 option" and free_slots :: "u32 \<Rightarrow> dir_slot list \<Rightarrow> u32 option" where
  "sub_table_free allocated (Sub w slots c f) =
     map_option (\<lambda>a. a - of_nat (sub_bytes (length slots))) (free_slots allocated slots)"
| "free_slots allocated [] = Some allocated"
| "free_slots allocated (Val e l # slots) = (if l = 0 \<and> e \<noteq> 0 then None else free_slots allocated slots)"
| "free_slots allocated (Ptr t # slots) = do { a \<leftarrow> sub_table_free allocated t; free_slots a slots }"

section \<open>Filling and clearing slots\<close>

text \<open>
  Each loop runs over the slots from \<open>index\<close> to \<open>fill\<close>; the function named after it works on
  those slots, \<open>on_range\<close> is its place in the table.
\<close>

definition in_range :: "nat \<Rightarrow> nat \<Rightarrow> 'a list \<Rightarrow> 'a list" where
  "in_range lo hi xs = take (hi - lo) (drop lo xs)"

definition put_range :: "nat \<Rightarrow> nat \<Rightarrow> 'a list \<Rightarrow> 'a list \<Rightarrow> 'a list" where
  "put_range lo hi xs ys = take lo xs @ ys @ drop hi xs"

lemma size_in_range [termination_simp]: "size_list f (in_range lo hi xs) \<le> size_list f xs"
proof -
  have "size_list f (take k ys) \<le> size_list f ys" for k ys
    by (induction ys arbitrary: k) (auto simp: take_Cons split: nat.split)
  moreover have "size_list f (drop k ys) \<le> size_list f ys" for k ys
  proof (induction ys arbitrary: k)
    case (Cons y ys)
    then show ?case by (cases k) (auto intro: le_SucI trans_le_add2)
  qed simp
  ultimately show ?thesis unfolding in_range_def by (meson order_trans)
qed

definition val32 :: "u64 \<Rightarrow> u64" where
  \<comment> \<open>the index as the parameter \<open>uint32_t val\<close> of the fill loops, written back to a \<open>word\<close>\<close>
  "val32 v = ucast (ucast v :: u32)"

fun fill_all_slots :: "nat \<Rightarrow> u64 \<Rightarrow> u32 \<Rightarrow> dir_slot list \<Rightarrow> (dir_slot list \<times> int \<times> u32) option" where
  \<comment> \<open>the new slots, how many were empty, \<open>allocated\<close>\<close>
  "fill_all_slots len v a [] = Some ([], 0, a)"
| "fill_all_slots len v a (s # slots) =
     (case s of
        Val e l \<Rightarrow>
          if e \<noteq> 0 \<and> l = 0 then None
          else do { (ss, n, a1) \<leftarrow> fill_all_slots len v a slots;
                    Some (Val (val32 v) (of_nat len) # ss, (if e = 0 then n + 1 else n), a1) }
      | Ptr t \<Rightarrow>
          do { a1 \<leftarrow> sub_table_free a t;
               (ss, n, a2) \<leftarrow> fill_all_slots len v a1 slots;
               Some (Val (val32 v) (of_nat len) # ss, n, a2) })"

definition dir_fill_all :: "u32 \<Rightarrow> nat \<Rightarrow> nat \<Rightarrow> nat \<Rightarrow> u64 \<Rightarrow> dir_sub \<Rightarrow> (dir_sub \<times> u32) option" where
  "dir_fill_all allocated index fill len v t =
     (case t of Sub w slots c f \<Rightarrow>
        if fill > length slots then None
        else do { (ss, n, a) \<leftarrow> fill_all_slots len v allocated (in_range index fill slots);
                  Some (Sub w (put_range index fill slots ss) c (f + n), a) })"

fun dir_fill_less_specific :: "nat \<Rightarrow> nat \<Rightarrow> nat \<Rightarrow> u64 \<Rightarrow> dir_sub \<Rightarrow> dir_sub option"
  and fill_less_slots :: "nat \<Rightarrow> u64 \<Rightarrow> dir_slot list \<Rightarrow> (dir_slot list \<times> int) option" where
  "dir_fill_less_specific index fill len v (Sub w slots c f) =
     (if fill > length slots then None
      else do { (ss, n) \<leftarrow> fill_less_slots len v (in_range index fill slots);
                Some (Sub w (put_range index fill slots ss) c (f + n)) })"
| "fill_less_slots len v [] = Some ([], 0)"
| "fill_less_slots len v (Ptr t # slots) =
     do { t' \<leftarrow> dir_fill_less_specific 0 (2 ^ sub_width t) len v t;
          (ss, n) \<leftarrow> fill_less_slots len v slots;
          Some (Ptr t' # ss, n) }"
| "fill_less_slots len v (Val e l # slots) =
     (if l = 0 \<and> e \<noteq> 0 then None
      else do { (ss, n) \<leftarrow> fill_less_slots len v slots;
                if len \<ge> unat l then Some (Val (val32 v) (of_nat len) # ss, (if e = 0 then n + 1 else n))
                else Some (Val e l # ss, n) })"

fun remove_all_slots :: "nat \<Rightarrow> u32 \<Rightarrow> u32 \<Rightarrow> dir_slot list \<Rightarrow> (u32 \<times> dir_slot list \<times> int \<times> u32) option" where
  \<comment> \<open>\<open>valueIndex\<close>, the new slots, how many were emptied, \<open>allocated\<close>\<close>
  "remove_all_slots len vi a [] = Some (vi, [], 0, a)"
| "remove_all_slots len vi a (s # slots) =
     (case s of
        Val e l \<Rightarrow>
          if e = 0 then do { (vi', ss, n, a') \<leftarrow> remove_all_slots len vi a slots; Some (vi', s # ss, n, a') }
          else if l = 0 then None
          else do { (vi', ss, n, a') \<leftarrow> remove_all_slots len (if len = unat l then ucast e else vi) a slots;
                    Some (vi', Val 0 0 # ss, n + 1, a') }
      | Ptr t \<Rightarrow>
          if len = 0 then None
          else do { a1 \<leftarrow> sub_table_free a t;
                    (vi', ss, n, a') \<leftarrow> remove_all_slots len vi a1 slots;
                    Some (vi', Val 0 0 # ss, n + 1, a') })"

definition dir_remove_all :: "u32 \<Rightarrow> nat \<Rightarrow> nat \<Rightarrow> nat \<Rightarrow> dir_sub \<Rightarrow> (u32 \<times> dir_sub \<times> u32) option" where
  "dir_remove_all allocated index fill len t =
     (case t of Sub w slots c f \<Rightarrow>
        if fill > length slots then None
        else do { (vi, ss, n, a) \<leftarrow> remove_all_slots len 0 allocated (in_range index fill slots);
                  Some (vi, Sub w (put_range index fill slots ss) c (f - n), a) })"

fun dir_remove_less_specific :: "u32 \<Rightarrow> nat \<Rightarrow> nat \<Rightarrow> nat \<Rightarrow> dir_sub \<Rightarrow> (u32 \<times> dir_sub \<times> u32) option"
  and remove_less_slots :: "u32 \<Rightarrow> u32 \<Rightarrow> nat \<Rightarrow> dir_slot list \<Rightarrow> (u32 \<times> dir_slot list \<times> int \<times> u32) option" where
  "dir_remove_less_specific allocated index fill len (Sub w slots c f) =
     (if fill > length slots then None
      else do { (vi, ss, n, a) \<leftarrow> remove_less_slots 0 allocated len (in_range index fill slots);
                Some (vi, Sub w (put_range index fill slots ss) c (f - n), a) })"
| "remove_less_slots vi a len [] = Some (vi, [], 0, a)"
| "remove_less_slots vi a len (Ptr t # slots) =
     do { (vt, t', a1) \<leftarrow> dir_remove_less_specific a 0 (2 ^ sub_width t) len t;
          let vi1 = (if vt \<noteq> 0 then vt else vi);
          if sub_filled t' = 0
          then do { a2 \<leftarrow> sub_table_free a1 t';
                    (vi', ss, n, a') \<leftarrow> remove_less_slots vi1 a2 len slots;
                    Some (vi', Val 0 0 # ss, n + 1, a') }
          else do { (vi', ss, n, a') \<leftarrow> remove_less_slots vi1 a1 len slots;
                    Some (vi', Ptr t' # ss, n, a') } }"
| "remove_less_slots vi a len (Val e l # slots) =
     (if l = 0 \<and> e \<noteq> 0 then None
      else if len = unat l then
        do { (vi', ss, n, a') \<leftarrow> remove_less_slots (if e \<noteq> 0 then ucast e else vi) a len slots;
             Some (vi', Val 0 0 # ss, (if e \<noteq> 0 then n + 1 else n), a') }
      else do { (vi', ss, n, a') \<leftarrow> remove_less_slots vi a len slots; Some (vi', Val e l # ss, n, a') })"

section \<open>Insertion, lookup, removal\<close>

lemma slot_index_pos: "slot_index h bits w = Some i \<Longrightarrow> 0 < w"
  by (simp add: slot_index_def Let_def split: if_splits)

function dir_sub_insert ::
    "(u32 \<Rightarrow> bool) \<Rightarrow> u32 list \<Rightarrow> nat \<Rightarrow> nat \<Rightarrow> nat \<Rightarrow> u64 \<Rightarrow> nat \<Rightarrow> rt_behavior \<Rightarrow> dir_sub \<Rightarrow> dir_root \<Rightarrow>
     (rt_code \<times> dir_sub \<times> dir_root) option" where
  "dir_sub_insert os h bits len cur_len v depth behavior (Sub w slots c f) root =
     (case slot_index h bits w of
        None \<Rightarrow> None
      | Some i \<Rightarrow>
          if w \<ge> cur_len then
            let lo = i div 2 ^ (w - cur_len) * 2 ^ (w - cur_len); hi = 2 ^ (w - cur_len) + lo
            in if behavior = RT_FAVOR_TIME
               then map_option (\<lambda>(t, a). (RT_SUCCESS, t, root\<lparr>dt_allocated := a\<rparr>))
                      (dir_fill_all (dt_allocated root) lo hi len v (Sub w slots c f))
               else map_option (\<lambda>t. (RT_SUCCESS, t, root))
                      (dir_fill_less_specific lo hi len v (Sub w slots c f))
          else if i \<ge> length slots then None
          else
            (case slots ! i of
               Ptr next \<Rightarrow>
                 map_option (\<lambda>(r, t, root'). (r, Sub w (slots[i := Ptr t]) c f, root'))
                   (dir_sub_insert os h (bits + w) len (cur_len - w) v (depth + 1) behavior next root)
             | Val e l \<Rightarrow>
                 if e \<noteq> 0 \<and> l = 0 then None
                 else if length (dimensions root) \<le> depth then Some (RT_INSERT_FAILURE, Sub w slots c f, root)
                 else
                   let f' = (if e = 0 then f + 1 else f) in
                   (case sub_table_new os root (depth + 1) (ucast e) (unat l) of
                      None \<Rightarrow> None
                    | Some (None, root1) \<Rightarrow>
                        Some (MEM_ALLOC_FAILURE, Sub w (slots[i := Val 0 0]) (c + 1) f', root1)
                    | Some (Some next, root1) \<Rightarrow>
                        map_option (\<lambda>(r, t, root'). (r, Sub w (slots[i := Ptr t]) (c + 1) f', root'))
                          (dir_sub_insert os h (bits + w) len (cur_len - w) v (depth + 1) behavior next root1))))"
  by pat_completeness auto
termination
  by (relation "measure (\<lambda>(os, h, bits, len, cur_len, v, depth, behavior, t, root). cur_len)")
     (auto dest: slot_index_pos)

lemma size_slot: "i < length slots \<Longrightarrow> slots ! i = Ptr t \<Longrightarrow> size t < size_list size slots"
  using size_list_estimation [of "slots ! i" slots "size t" size] nth_mem [of i slots] by simp

function dir_sub_lookup :: "u32 list \<Rightarrow> nat \<Rightarrow> dir_sub \<Rightarrow> (u64 \<times> nat) option" where
  "dir_sub_lookup h bits (Sub w slots c f) =
     (case slot_index h bits w of
        None \<Rightarrow> None
      | Some i \<Rightarrow>
          if i \<ge> length slots then None
          else (case slots ! i of
                  Val e l \<Rightarrow> if e = 0 \<or> l \<noteq> 0 then Some (e, unat l) else None
                | Ptr t \<Rightarrow> dir_sub_lookup h (bits + w) t))"
  by pat_completeness auto
termination
  by (relation "measure (\<lambda>(h, bits, t). size t)") (auto simp: not_le less_SucI dest: size_slot)

function dir_sub_remove ::
    "u32 list \<Rightarrow> nat \<Rightarrow> nat \<Rightarrow> nat \<Rightarrow> rt_behavior \<Rightarrow> dir_sub \<Rightarrow> dir_root \<Rightarrow> (u32 \<times> dir_sub \<times> dir_root) option" where
  "dir_sub_remove h bits len cur_len behavior (Sub w slots c f) root =
     (case slot_index h bits w of
        None \<Rightarrow> None
      | Some i \<Rightarrow>
          if w \<ge> cur_len then
            let lo = i div 2 ^ (w - cur_len) * 2 ^ (w - cur_len); hi = 2 ^ (w - cur_len) + lo
            in map_option (\<lambda>(vi, t, a). (vi, t, root\<lparr>dt_allocated := a\<rparr>))
                 (if behavior = RT_FAVOR_TIME
                  then dir_remove_all (dt_allocated root) lo hi len (Sub w slots c f)
                  else dir_remove_less_specific (dt_allocated root) lo hi len (Sub w slots c f))
          else if i \<ge> length slots then None
          else
            (case slots ! i of
               Val e l \<Rightarrow> if e \<noteq> 0 \<and> l = 0 then None else Some (0, Sub w slots c f, root)
             | Ptr next \<Rightarrow>
                 do { (vi, t, root1) \<leftarrow> dir_sub_remove h (bits + w) len (cur_len - w) behavior next root;
                      if sub_filled t = 0
                      then do { a \<leftarrow> sub_table_free (dt_allocated root1) t;
                                Some (vi, Sub w (slots[i := Val 0 0]) c (f - 1),
                                      root1\<lparr>dt_allocated := a, dt_cur_num := dt_cur_num root1 - 1\<rparr>) }
                      else Some (vi, Sub w (slots[i := Ptr t]) c f, root1) }))"
  by pat_completeness auto
termination
  by (relation "measure (\<lambda>(h, bits, len, cur_len, behavior, t, root). size t)") (auto simp: not_le less_SucI dest: size_slot)

definition be32 :: "bytes \<Rightarrow> u32" where
  \<comment> \<open>\<open>ntohl\<close> of a word in memory\<close>
  "be32 bs = foldl (\<lambda>a b. push_bit 8 a OR ucast b) 0 (take 4 bs)"

definition adr_words :: "bytes \<Rightarrow> nat \<Rightarrow> u32 list" where
  "adr_words adr n = map (\<lambda>i. be32 (drop (4 * i) adr)) [0..<n]"

definition prefix_words :: "nat \<Rightarrow> nat" where
  \<comment> \<open>how many words of the address an insertion or removal reads\<close>
  "prefix_words len = (if len > 96 then 4 else if len > 64 then 3 else if len > 32 then 2 else 1)"

definition sfrt_dir_insert ::
    "(u32 \<Rightarrow> bool) \<Rightarrow> bytes \<Rightarrow> nat \<Rightarrow> u64 \<Rightarrow> rt_behavior \<Rightarrow> dir_table option \<Rightarrow> (rt_code \<times> dir_table option) option" where
  "sfrt_dir_insert os adr len data_index behavior table =
     (case table of
        None \<Rightarrow> Some (DIR_INSERT_FAILURE, table)
      | Some t \<Rightarrow>
          map_option (\<lambda>(r, sub, root). (r, Some \<lparr>dt_root = root, sub_table = sub\<rparr>))
            (dir_sub_insert os (adr_words adr (prefix_words len)) 0 len len data_index 0 behavior
               (sub_table t) (dt_root t)))"

definition sfrt_dir_lookup :: "bytes \<Rightarrow> nat \<Rightarrow> dir_table option \<Rightarrow> (u64 \<times> nat) option" where
  "sfrt_dir_lookup adr numAdrDwords table =
     (case table of
        None \<Rightarrow> Some (0, 0)
      | Some t \<Rightarrow> dir_sub_lookup (adr_words adr numAdrDwords) 0 (sub_table t))"

definition sfrt_dir_remove ::
    "bytes \<Rightarrow> nat \<Rightarrow> rt_behavior \<Rightarrow> dir_table option \<Rightarrow> (u32 \<times> dir_table option) option" where
  "sfrt_dir_remove adr len behavior table =
     (case table of
        None \<Rightarrow> Some (0, table)
      | Some t \<Rightarrow>
          map_option (\<lambda>(vi, sub, root). (vi, Some \<lparr>dt_root = root, sub_table = sub\<rparr>))
            (dir_sub_remove (adr_words adr (prefix_words len)) 0 len len behavior (sub_table t) (dt_root t)))"

definition sfrt_dir_usage :: "dir_table option \<Rightarrow> u32" where
  "sfrt_dir_usage table = (case table of None \<Rightarrow> 0 | Some t \<Rightarrow> dt_allocated (dt_root t))"

end
