(* ===== verification/SfRt.thy ===== *)
theory SfRt
  imports SfRtDir
begin

text \<open>
  The routing table of \<open>sfutil/sfrt.c\<close>: two DIR-n-m tables, for IPv4 and for IPv6 addresses,
  whose entries are indices into an array of user data.

  Every table type installs the same functions (\<open>sfrt_dir_insert\<close> and so on), which are called
  directly.  An address \<open>sfaddr_t\<close> is its family and its sixteen bytes, of which an IPv4
  address is the last four.  A null pointer is \<open>None\<close>; the outer option of a result is
  \<open>None\<close> for an access outside an array.  The data pointers have any type.
\<close>

section \<open>Tables\<close>

datatype rt_type = DIR_24_8 | DIR_16x2 | DIR_16_8x2 | DIR_16_4x4 | DIR_8x4 | DIR_4x8 | DIR_2x16
  | DIR_16_4x4_16x5_4x4 | DIR_16x7_4x4 | DIR_16x8 | DIR_8x16 | IPv4 | IPv6

record sfaddr =
  sf_inet :: bool
  sf_ia8 :: bytes

record 'p rt_table =
  rt_data :: "'p option list"
  num_ent :: u32
  max_size :: u32
  lastAllocatedIndex :: u32
  ip_type :: rt_type
  table_type :: rt_type
  rt_allocated :: u32
  rt :: "dir_table option"
  rt6 :: "dir_table option"

definition is_dir :: "rt_type \<Rightarrow> bool" where
  "is_dir t \<longleftrightarrow> t \<noteq> IPv4 \<and> t \<noteq> IPv6"

definition rt_dims :: "rt_type \<Rightarrow> nat list" where
  "rt_dims t =
     (case t of
        DIR_24_8 \<Rightarrow> [24, 8]
      | DIR_16x2 \<Rightarrow> [16, 16]
      | DIR_16_8x2 \<Rightarrow> [16, 8, 8]
      | DIR_16_4x4 \<Rightarrow> [16, 4, 4, 4, 4]
      | DIR_8x4 \<Rightarrow> [8, 8, 8, 8]
      | DIR_4x8 \<Rightarrow> [4, 4, 4, 4, 4, 4, 4, 4]
      | DIR_2x16 \<Rightarrow> [2, 2, 2, 2, 2, 2, 2, 2, 2, 2, 2, 2, 2, 2, 2, 2]
      | DIR_16_4x4_16x5_4x4 \<Rightarrow> [16, 4, 4, 4, 4]
      | DIR_16x7_4x4 \<Rightarrow> [16, 4, 4, 4, 4]
      | DIR_16x8 \<Rightarrow> [16, 16]
      | DIR_8x16 \<Rightarrow> [16, 8, 4, 4]
      | _ \<Rightarrow> [])"

definition rt6_dims :: "rt_type \<Rightarrow> nat list option" where
  "rt6_dims t =
     (case t of
        DIR_16_4x4_16x5_4x4 \<Rightarrow> Some [16, 4, 4, 4, 4, 16, 16, 16, 16, 16, 4, 4, 4, 4]
      | DIR_16x7_4x4 \<Rightarrow> Some [16, 16, 16, 16, 16, 16, 16, 4, 4, 4, 4]
      | DIR_16x8 \<Rightarrow> Some [16, 16, 16, 16, 16, 16, 16, 16]
      | DIR_8x16 \<Rightarrow> Some [8, 8, 8, 8, 8, 8, 8, 8, 8, 8, 8, 8, 8, 8, 8, 8]
      | _ \<Rightarrow> None)"

definition sfrt_tables ::
    "(u32 \<Rightarrow> bool) \<Rightarrow> u32 \<Rightarrow> rt_type \<Rightarrow> rt_type \<Rightarrow> u32 \<Rightarrow> nat list \<Rightarrow> nat list option \<Rightarrow> 'p rt_table option option" where
  \<comment> \<open>\<open>sfrt_new\<close> from the data array on; \<open>mx\<close> is its size\<close>
  "sfrt_tables os mem_cap type0 ip mx dims dims6 =
     do { t4 \<leftarrow> sfrt_dir_new os mem_cap dims;
          t6 \<leftarrow> (case dims6 of None \<Rightarrow> Some None | Some ds \<Rightarrow> sfrt_dir_new os mem_cap ds);
          if t4 = None \<or> t6 = None then Some None
          else Some (Some \<lparr>rt_data = replicate (unat mx) None, num_ent = 1, max_size = mx,
                           lastAllocatedIndex = 0, ip_type = ip, table_type = type0,
                           rt_allocated = 96 + 8 * mx, rt = t4, rt6 = t6\<rparr>) }"

definition sfrt_new ::
    "bool \<Rightarrow> (u32 \<Rightarrow> bool) \<Rightarrow> rt_type \<Rightarrow> rt_type \<Rightarrow> int \<Rightarrow> u32 \<Rightarrow> 'p rt_table option option" where
  \<comment> \<open>\<open>mem\<close> tells whether the table and its data are allocated\<close>
  "sfrt_new mem os type0 ip data_size mem_cap =
     (if \<not> mem \<or> data_size \<ge> 0x800000000000000 \<or> \<not> is_dir type0 then Some None
      else sfrt_tables os (mem_cap * (1024 * 1024)) type0 ip (of_int data_size) (rt_dims type0) (rt6_dims type0))"

section \<open>Lookup\<close>

definition rt_adr :: "sfaddr \<Rightarrow> bytes \<times> nat" where
  \<comment> \<open>\<open>adr\<close> and \<open>numAdrDwords\<close>\<close>
  "rt_adr ip = (if sf_inet ip then (drop 12 (sf_ia8 ip), 1) else (sf_ia8 ip, 4))"

definition rt_of :: "sfaddr \<Rightarrow> 'p rt_table \<Rightarrow> dir_table option" where
  "rt_of ip t = (if sf_inet ip then rt t else rt6 t)"

definition data_at :: "'p rt_table \<Rightarrow> u64 \<Rightarrow> 'p option option" where
  "data_at t i = (if unat i < length (rt_data t) then Some (rt_data t ! unat i) else None)"

definition rt_tuple :: "sfaddr \<Rightarrow> 'p rt_table \<Rightarrow> (u64 \<times> nat) option" where
  "rt_tuple ip t = (let (adr, n) = rt_adr ip in sfrt_dir_lookup adr n (rt_of ip t))"

definition sfrt_lookup :: "sfaddr option \<Rightarrow> 'p rt_table option \<Rightarrow> 'p option option" where
  "sfrt_lookup ip table =
     (case (ip, table) of
        (Some a, Some t) \<Rightarrow>
          do { (i, l) \<leftarrow> rt_tuple a t;
               if unat i \<ge> unat (max_size t) then Some None else data_at t i }
      | _ \<Rightarrow> Some None)"

definition sfrt_search :: "sfaddr option \<Rightarrow> 'p rt_table option \<Rightarrow> 'p option option" where
  "sfrt_search ip table =
     (case (ip, table) of
        (None, _) \<Rightarrow> Some None
      | (_, None) \<Rightarrow> Some None
      | (Some a, Some t) \<Rightarrow>
          do { (i, l) \<leftarrow> rt_tuple a t;
               if unat i \<ge> unat (max_size t) then Some None else data_at t i })"

fun dir8x_walk :: "'p rt_table \<Rightarrow> nat list \<Rightarrow> dir_sub \<Rightarrow> 'p option option" where
  "dir8x_walk t [] s = Some None"
| "dir8x_walk t (i # is) (Sub w slots c f) =
     (if i \<ge> length slots then None
      else (case slots ! i of
              Val e l \<Rightarrow> if e = 0 \<or> l \<noteq> 0 then data_at t e else None
            | Ptr s \<Rightarrow> dir8x_walk t is s))"

definition sfrt_dir8x_lookup :: "sfaddr \<Rightarrow> 'p rt_table \<Rightarrow> 'p option option" where
  "sfrt_dir8x_lookup ip t =
     (let b = (\<lambda>i. unat (sf_ia8 ip ! i)) in
      if length (sf_ia8 ip) \<noteq> 16 then None
      else if sf_inet ip
      then do { d \<leftarrow> rt t; dir8x_walk t [256 * b 12 + b 13, b 14, b 15 div 16, b 15 mod 16] (sub_table d) }
      else do { d \<leftarrow> rt6 t; dir8x_walk t (map b [0..<16]) (sub_table d) })"

section \<open>Iteration\<close>

text \<open>
  The loops stop after \<open>num_ent\<close> entries.  The callback changes the state it is given; the
  variants with a configuration pass one more argument, which is part of the callback here.
\<close>

fun iter_data :: "('p \<Rightarrow> 's \<Rightarrow> 's) \<Rightarrow> u32 \<Rightarrow> u32 \<Rightarrow> 'p option list \<Rightarrow> 's \<Rightarrow> 's" where
  "iter_data f n count [] s = s"
| "iter_data f n count (None # ds) s = iter_data f n count ds s"
| "iter_data f n count (Some d # ds) s =
     (if count + 1 = n then f d s else iter_data f n (count + 1) ds (f d s))"

definition sfrt_iterate :: "('p \<Rightarrow> 's \<Rightarrow> 's) \<Rightarrow> 'p rt_table option \<Rightarrow> 's \<Rightarrow> 's" where
  "sfrt_iterate f table s = (case table of None \<Rightarrow> s | Some t \<Rightarrow> iter_data f (num_ent t) 0 (rt_data t) s)"

fun iter2_data :: "('p \<Rightarrow> 's \<Rightarrow> int \<times> 's) \<Rightarrow> u32 \<Rightarrow> u32 \<Rightarrow> 'p option list \<Rightarrow> 's \<Rightarrow> int \<times> 's" where
  "iter2_data f n count [] s = (0, s)"
| "iter2_data f n count (None # ds) s = iter2_data f n count ds s"
| "iter2_data f n count (Some d # ds) s =
     (let (r, s') = f d s in
      if r \<noteq> 0 then (r, s') else if count + 1 = n then (0, s') else iter2_data f n (count + 1) ds s')"

definition sfrt_iterate2 :: "('p \<Rightarrow> 's \<Rightarrow> int \<times> 's) \<Rightarrow> 'p rt_table option \<Rightarrow> 's \<Rightarrow> int \<times> 's" where
  "sfrt_iterate2 f table s = (case table of None \<Rightarrow> (0, s) | Some t \<Rightarrow> iter2_data f (num_ent t) 0 (rt_data t) s)"

fun cleanup_data :: "('p \<Rightarrow> 's \<Rightarrow> 's) \<Rightarrow> u32 \<Rightarrow> u32 \<Rightarrow> 'p option list \<Rightarrow> 's \<Rightarrow> 'p option list \<times> 's" where
  "cleanup_data f n count [] s = ([], s)"
| "cleanup_data f n count (None # ds) s = (let (ds', s') = cleanup_data f n count ds s in (None # ds', s'))"
| "cleanup_data f n count (Some d # ds) s =
     (if count + 1 = n then (None # ds, f d s)
      else let (ds', s') = cleanup_data f n (count + 1) ds (f d s) in (None # ds', s'))"

definition sfrt_cleanup :: "('p \<Rightarrow> 's \<Rightarrow> 's) \<Rightarrow> 'p rt_table option \<Rightarrow> 's \<Rightarrow> 'p rt_table option \<times> 's" where
  "sfrt_cleanup f table s =
     (case table of
        None \<Rightarrow> (None, s)
      | Some t \<Rightarrow> (let (ds, s') = cleanup_data f (num_ent t) 0 (rt_data t) s
                   in (Some (t\<lparr>rt_data := ds\<rparr>), s')))"

section \<open>Insertion and removal\<close>

text \<open>
  The search for a free index visits at most \<open>max_size\<close> places; \<open>fuel\<close> counts them.
  \<open>Some 0\<close> is the answer when there is none.
\<close>

fun free_index :: "nat \<Rightarrow> 'p option list \<Rightarrow> u32 \<Rightarrow> u32 \<Rightarrow> u32 \<Rightarrow> u32 option" where
  "free_index 0 data mx la index = None"
| "free_index (Suc fuel) data mx la index =
     (if index = la then Some 0
      else if index = 0 then (if mx = 0 then None else free_index fuel data mx la ((index + 1) mod mx))
      else if unat index \<ge> length data then None
      else if data ! unat index = None then Some index
      else if mx = 0 then None
      else free_index fuel data mx la ((index + 1) mod mx))"

definition allocateTableIndex :: "'p rt_table \<Rightarrow> (u32 \<times> 'p rt_table) option" where
  "allocateTableIndex t =
     map_option (\<lambda>i. (i, if i = 0 then t else t\<lparr>lastAllocatedIndex := i\<rparr>))
       (free_index (unat (max_size t) + 2) (rt_data t) (max_size t) (lastAllocatedIndex t) (lastAllocatedIndex t + 1))"

definition put_rt :: "sfaddr \<Rightarrow> dir_table option \<Rightarrow> 'p rt_table \<Rightarrow> 'p rt_table" where
  "put_rt ip d t = (if sf_inet ip then t\<lparr>rt := d\<rparr> else t\<lparr>rt6 := d\<rparr>)"

definition put_data :: "'p rt_table \<Rightarrow> nat \<Rightarrow> 'p option \<Rightarrow> 'p rt_table option" where
  "put_data t i p = (if i < length (rt_data t) then Some (t\<lparr>rt_data := (rt_data t)[i := p]\<rparr>) else None)"

definition rt_len :: "sfaddr \<Rightarrow> nat \<Rightarrow> nat option" where
  \<comment> \<open>the length of the prefix in the table of its family, \<open>None\<close> if it is refused\<close>
  "rt_len ip len =
     (if len = 0 \<or> len > 128 then None
      else if sf_inet ip then (if len < 96 then None else Some (len - 96)) else Some len)"

definition sfrt_insert ::
    "(u32 \<Rightarrow> bool) \<Rightarrow> sfaddr option \<Rightarrow> u8 \<Rightarrow> 'p option \<Rightarrow> rt_behavior \<Rightarrow> 'p rt_table option \<Rightarrow>
     (rt_code \<times> 'p rt_table option) option" where
  "sfrt_insert os ip0 len0 ptr behavior table =
     (case (ip0, table) of
        (Some ip, Some t) \<Rightarrow>
          (case rt_len ip (unat len0) of
             None \<Rightarrow> Some (RT_INSERT_FAILURE, table)
           | Some len \<Rightarrow>
               if rt_of ip t = None then Some (RT_INSERT_FAILURE, table)
               else do {
                 tuple \<leftarrow> rt_tuple ip t;
                 if snd tuple \<noteq> len then
                   (if num_ent t \<ge> max_size t then Some (RT_POLICY_TABLE_EXCEEDED, table)
                    else do {
                      (index, t1) \<leftarrow> allocateTableIndex t;
                      if index = 0 then Some (RT_POLICY_TABLE_EXCEEDED, Some t1)
                      else do {
                        (res, d) \<leftarrow> sfrt_dir_insert os (fst (rt_adr ip)) len (scast index) behavior (rt_of ip t1);
                        let t2 = put_rt ip d t1;
                        if res = RT_SUCCESS
                        then do { t3 \<leftarrow> put_data (t2\<lparr>num_ent := num_ent t2 + 1\<rparr>) (unat index) ptr;
                                  Some (res, Some t3) }
                        else Some (res, Some t2) } })
                 else do {
                   (res, d) \<leftarrow> sfrt_dir_insert os (fst (rt_adr ip)) len (scast (ucast (fst tuple) :: u32))
                                 behavior (rt_of ip t);
                   Some (res, Some (put_rt ip d t)) } })
      | _ \<Rightarrow> Some (RT_INSERT_FAILURE, table))"

definition sfrt_remove ::
    "sfaddr option \<Rightarrow> u8 \<Rightarrow> rt_behavior \<Rightarrow> 'p rt_table option \<Rightarrow>
     (rt_code \<times> 'p option option \<times> 'p rt_table option) option" where
  \<comment> \<open>the second part is what is stored through \<open>ptr\<close>, if anything is\<close>
  "sfrt_remove ip0 len0 behavior table =
     (case (ip0, table) of
        (Some ip, Some t) \<Rightarrow>
          (case rt_len ip (unat len0) of
             None \<Rightarrow> Some (RT_REMOVE_FAILURE, None, table)
           | Some len \<Rightarrow>
               do {
                 (index, d) \<leftarrow> sfrt_dir_remove (fst (rt_adr ip)) len behavior (rt_of ip t);
                 let t1 = put_rt ip d t;
                 if index = 0 then Some (RT_SUCCESS, None, Some t1)
                 else do {
                   p \<leftarrow> data_at t1 (ucast index);
                   t2 \<leftarrow> put_data t1 (unat index) None;
                   Some (RT_SUCCESS, Some p, Some (t2\<lparr>num_ent := num_ent t2 - 1\<rparr>)) } })
      | _ \<Rightarrow> Some (RT_REMOVE_FAILURE, None, table))"

definition sfrt_num_entries :: "'p rt_table option \<Rightarrow> u32" where
  "sfrt_num_entries table =
     (case table of None \<Rightarrow> 0 | Some t \<Rightarrow> if rt t = None \<or> rt_allocated t = 0 then 0 else num_ent t - 1)"

definition sfrt_usage :: "'p rt_table option \<Rightarrow> u32" where
  "sfrt_usage table =
     (case table of
        None \<Rightarrow> 0
      | Some t \<Rightarrow>
          if rt t = None \<or> rt_allocated t = 0 then 0
          else let u = rt_allocated t + sfrt_dir_usage (rt t)
               in if rt6 t \<noteq> None then u + sfrt_dir_usage (rt6 t) else u)"

end
