(* ===== verification/SfRtDirProps.thy ===== *)
theory SfRtDirProps
  imports SfRtDir
begin

text \<open>
  The DIR-n-m tables as functions from addresses: a well-formedness invariant, what each operation
  does to the result of every lookup, and the accounting of memory.
\<close>

section \<open>Prefixes of an address\<close>

fun pfx :: "u32 list \<Rightarrow> nat \<Rightarrow> nat" where
  \<comment> \<open>the first \<open>n\<close> bits of an address as a number\<close>
  "pfx [] n = 0"
| "pfx (x # h) n = (if n \<le> 32 then unat x div 2 ^ (32 - n) else unat x * 2 ^ (n - 32) + pfx h (n - 32))"

lemma pfx_0 [simp]: "pfx h 0 = 0"
  by (cases h) (simp_all add: order_less_trans [OF unat_u32_bound])

lemma pfx_take: "n \<le> 32 * k \<Longrightarrow> pfx (take k h) n = pfx h n"
proof (induction h arbitrary: k n)
  case (Cons x h)
  then show ?case by (cases k) auto
qed simp

lemma unat_div_bound: "n \<le> 32 \<Longrightarrow> unat (x :: u32) div 2 ^ (32 - n) < 2 ^ n"
proof -
  assume "n \<le> 32"
  then have "(2 :: nat) ^ n * 2 ^ (32 - n) = 2 ^ 32" by (simp flip: power_add)
  then show ?thesis by (simp add: less_mult_imp_div_less)
qed

lemma pfx_bound: "pfx h n < 2 ^ n"
proof (induction h n rule: pfx.induct)
  case (2 x h n)
  show ?case
  proof (cases "n \<le> 32")
    case True
    then show ?thesis by (simp add: unat_div_bound)
  next
    case False
    have "unat x * 2 ^ (n - 32) + pfx h (n - 32) < (unat x + 1) * 2 ^ (n - 32)" using 2 False by simp
    also have "\<dots> \<le> 2 ^ 32 * 2 ^ (n - 32)"
      by (rule mult_right_mono) (use unat_u32_bound [of x] in \<open>simp_all add: Suc_le_eq\<close>)
    also have "\<dots> = 2 ^ n" using False by (simp del: power_numeral flip: power_add)
    finally show ?thesis using False by simp
  qed
qed simp

lemma pfx_div: "m \<le> n \<Longrightarrow> n \<le> 32 * length h \<Longrightarrow> pfx h n div 2 ^ m = pfx h (n - m)"
proof (induction h n arbitrary: m rule: pfx.induct)
  case (2 x h n)
  consider (a) "n \<le> 32" | (b) "n > 32" "m \<le> n - 32" | (c) "n > 32" "m > n - 32" by linarith
  then show ?case
  proof cases
    case a
    then have "n - m \<le> 32" and e: "32 - (n - m) = (32 - n) + m" using 2 by simp_all
    then have "pfx (x # h) (n - m) = unat x div 2 ^ (32 - n) div 2 ^ m" by (simp add: e power_add div_mult2_eq del: diff_diff_left)
    then show ?thesis using a by simp
  next
    case b
    have s: "(2 :: nat) ^ (n - 32) = 2 ^ (n - 32 - m) * 2 ^ m" using b by (simp flip: power_add)
    have "pfx h (n - 32) div 2 ^ m = pfx h (n - 32 - m)" using 2 b by simp
    moreover have "(unat x * 2 ^ (n - 32) + pfx h (n - 32)) div 2 ^ m = unat x * 2 ^ (n - 32 - m) + pfx h (n - 32) div 2 ^ m"
      unfolding s by (simp add: mult.assoc [symmetric])
    moreover have "n - m - 32 = n - 32 - m" "n - m > 32 \<or> n - m = 32" using b by auto
    ultimately show ?thesis using b by (auto simp: add.commute)
  next
    case c
    have s: "(2 :: nat) ^ m = 2 ^ (n - 32) * 2 ^ (m - (n - 32))" using c by (simp flip: power_add)
    have "(unat x * 2 ^ (n - 32) + pfx h (n - 32)) div 2 ^ (n - 32) = unat x"
      using pfx_bound [of h "n - 32"] by simp
    then have "(unat x * 2 ^ (n - 32) + pfx h (n - 32)) div 2 ^ m = unat x div 2 ^ (m - (n - 32))"
      unfolding s by (simp add: div_mult2_eq)
    moreover have "m - (n - 32) = 32 - (n - m)" using c 2 by simp
    ultimately show ?thesis using c by simp
  qed
qed simp

lemma pfx_word: "bits div 32 < length h \<Longrightarrow> bits mod 32 + w \<le> 32 \<Longrightarrow> 0 < w \<Longrightarrow>
  pfx h (bits + w) mod 2 ^ w = unat (h ! (bits div 32)) div 2 ^ (32 - bits mod 32 - w) mod 2 ^ w"
proof (induction h arbitrary: bits)
  case (Cons x h)
  show ?case
  proof (cases "bits < 32")
    case True
    then show ?thesis using Cons.prems by (simp add: diff_diff_left)
  next
    case False
    then have d: "bits div 32 = Suc ((bits - 32) div 32)" "bits mod 32 = (bits - 32) mod 32"
      by (simp_all add: le_div_geq le_mod_geq)
    have "(2 :: nat) ^ (bits + w - 32) = 2 ^ (bits - 32) * 2 ^ w" using False by (simp flip: power_add)
    then have "pfx (x # h) (bits + w) mod 2 ^ w = pfx h (bits - 32 + w) mod 2 ^ w"
      using False Cons.prems(3) by (simp add: mult.assoc [symmetric])
    also have "pfx h (bits - 32 + w) mod 2 ^ w
        = unat (h ! ((bits - 32) div 32)) div 2 ^ (32 - (bits - 32) mod 32 - w) mod 2 ^ w"
      using Cons.prems by (intro Cons.IH) (simp_all only: d, simp)
    also have "\<dots> = unat ((x # h) ! (bits div 32)) div 2 ^ (32 - bits mod 32 - w) mod 2 ^ w"
      by (simp only: d nth_Cons_Suc)
    finally show ?thesis .
  qed
qed simp

lemma slot_index_pfx:
  assumes "bits mod 32 + w \<le> 32" "0 < w" "bits < 32 * length h" "length h \<le> 4"
  shows "slot_index h bits w = Some (pfx h (bits + w) mod 2 ^ w)"
proof -
  have i: "(if bits < 32 then 0 else if bits < 64 then 1 else if bits < 96 then 2 else 3) = bits div 32"
  proof -
    have "bits < 128" using assms(3,4) by linarith
    moreover have d: "k * 32 \<le> bits \<Longrightarrow> bits < Suc k * 32 \<Longrightarrow> bits div 32 = k" for k
      by (rule div_nat_eqI) (simp_all add: mult.commute)
    ultimately show ?thesis using d [of 0] d [of 1] d [of 2] d [of 3] by (auto simp: not_less)
  qed
  have l: "bits div 32 < length h" using assms(3) by (simp add: less_mult_imp_div_less mult.commute)
  let ?x = "h ! (bits div 32)"
  have e: "(2 :: nat) ^ 32 = 2 ^ (32 - w) * 2 ^ w" "(2 :: nat) ^ (32 - w) = 2 ^ (32 - bits mod 32 - w) * 2 ^ (bits mod 32)"
    using assms(1) by (simp_all flip: power_add add: algebra_simps)
  have "unat (drop_bit (32 - w) (push_bit (bits mod 32) ?x)) = unat ?x * 2 ^ (bits mod 32) mod 2 ^ 32 div 2 ^ (32 - w)"
    unfolding unsigned_drop_bit_eq unsigned_push_bit_eq by (simp add: drop_bit_eq_div take_bit_eq_mod push_bit_eq_mult)
  also have "\<dots> = unat ?x * 2 ^ (bits mod 32) div 2 ^ (32 - w) mod 2 ^ w"
    unfolding e(1) by (simp add: mod_mult2_eq)
  also have "unat ?x * 2 ^ (bits mod 32) div 2 ^ (32 - w) = unat ?x div 2 ^ (32 - bits mod 32 - w)"
    unfolding e(2) by simp
  finally show ?thesis using pfx_word [OF l assms(1,2)] assms i l by (simp add: slot_index_def Let_def)
qed

section \<open>The invariant\<close>

definition nonempty :: "dir_slot \<Rightarrow> bool" where
  "nonempty s = (case s of Val e l \<Rightarrow> e \<noteq> 0 | Ptr t \<Rightarrow> True)"

definition filled :: "dir_slot list \<Rightarrow> int" where
  "filled slots = int (length (filter nonempty slots))"

definition slot_ok :: "nat \<Rightarrow> (dir_sub \<Rightarrow> bool) \<Rightarrow> dir_slot \<Rightarrow> bool" where
  "slot_ok b ok s = (case s of Val e l \<Rightarrow> (e = 0 \<longleftrightarrow> l = 0) \<and> unat e < 2 ^ 31 \<and> unat l \<le> b | Ptr t \<Rightarrow> ok t)"

fun wf_sub :: "nat \<Rightarrow> nat list \<Rightarrow> dir_sub \<Rightarrow> bool" where
  \<comment> \<open>a table of these widths reached by \<open>b\<close> bits: no entry is more specific than the bits up to it\<close>
  "wf_sub b [] = (\<lambda>t. False)"
| "wf_sub b (w # ws) = (\<lambda>t. sub_width t = w \<and> length (sub_slots t) = 2 ^ w \<and>
     sub_filled t = filled (sub_slots t) \<and> list_all (slot_ok (b + w) (wf_sub (b + w) ws)) (sub_slots t))"

fun tree_bytes :: "dir_sub \<Rightarrow> nat" and slots_bytes :: "dir_slot list \<Rightarrow> nat" where
  "tree_bytes (Sub w slots c f) = sub_bytes (length slots) + slots_bytes slots"
| "slots_bytes [] = 0"
| "slots_bytes (Val e l # slots) = slots_bytes slots"
| "slots_bytes (Ptr t # slots) = tree_bytes t + slots_bytes slots"

primrec aligned :: "nat \<Rightarrow> nat list \<Rightarrow> bool" where
  \<comment> \<open>no table takes its bits from two words\<close>
  "aligned bits [] = True"
| "aligned bits (w # ws) = (0 < w \<and> bits mod 32 + w \<le> 32 \<and> aligned (bits + w) ws)"

definition fits :: "u32 list \<Rightarrow> nat \<Rightarrow> nat list \<Rightarrow> bool" where
  "fits h bits ws \<longleftrightarrow> aligned bits ws \<and> bits + sum_list ws \<le> 32 * length h \<and> length h \<le> 4"

definition slot_lookup :: "u32 list \<Rightarrow> nat \<Rightarrow> dir_slot \<Rightarrow> (u64 \<times> nat) option" where
  "slot_lookup h bits s =
     (case s of Val e l \<Rightarrow> if e = 0 \<or> l \<noteq> 0 then Some (e, unat l) else None | Ptr t \<Rightarrow> dir_sub_lookup h bits t)"

lemma fits_Cons: "fits h bits (w # ws) \<Longrightarrow> fits h (bits + w) ws \<and> 0 < w \<and> bits < 32 * length h \<and> bits + w \<le> 32 * length h"
  by (auto simp: fits_def)

lemma slot_index_fits: "fits h bits (w # ws) \<Longrightarrow> slot_index h bits w = Some (pfx h (bits + w) mod 2 ^ w)"
  by (rule slot_index_pfx) (auto simp: fits_def)

lemma lookup_slot:
  assumes "wf_sub b (w # ws) t" "fits h bits (w # ws)"
  shows "dir_sub_lookup h bits t = slot_lookup h (bits + w) (sub_slots t ! (pfx h (bits + w) mod 2 ^ w))"
proof -
  have "\<not> 2 ^ w \<le> pfx h (bits + w) mod 2 ^ w" by (simp add: not_le)
  then show ?thesis using assms slot_index_fits [OF assms(2)] by (cases t) (simp add: slot_lookup_def)
qed

lemma slot_nth_ok: "wf_sub b (w # ws) t \<Longrightarrow> i < 2 ^ w \<Longrightarrow> slot_ok (b + w) (wf_sub (b + w) ws) (sub_slots t ! i)"
  by (simp add: list_all_length)

lemma lookup_total:
  "wf_sub b ws t \<Longrightarrow> fits h bits ws \<Longrightarrow>
    \<exists>e l. dir_sub_lookup h bits t = Some (e, l) \<and> (e = 0 \<longleftrightarrow> l = 0) \<and> unat e < 2 ^ 31 \<and> l \<le> b + sum_list ws"
proof (induction ws arbitrary: t b bits)
  case (Cons w ws)
  let ?s = "sub_slots t ! (pfx h (bits + w) mod 2 ^ w)"
  have ok: "slot_ok (b + w) (wf_sub (b + w) ws) ?s" using slot_nth_ok [OF Cons.prems(1)] by simp
  then have "\<exists>e l. slot_lookup h (bits + w) ?s = Some (e, l) \<and> (e = 0 \<longleftrightarrow> l = 0) \<and> unat e < 2 ^ 31 \<and> l \<le> b + sum_list (w # ws)"
  proof (cases ?s)
    case (Val e l)
    then show ?thesis using ok by (auto simp: slot_lookup_def slot_ok_def unat_eq_0)
  next
    case (Ptr t')
    then show ?thesis using ok Cons.IH [of "b + w" t' "bits + w"] fits_Cons [OF Cons.prems(2)] by (simp add: slot_lookup_def slot_ok_def add.assoc)
  qed
  then show ?case using lookup_slot [OF Cons.prems] by simp
qed simp

lemma empty_lookup:
  assumes "wf_sub b ws t" "fits h bits ws" "sub_filled t = 0"
  shows "dir_sub_lookup h bits t = Some (0, 0)"
proof (cases ws)
  case (Cons w vs)
  let ?i = "pfx h (bits + w) mod 2 ^ w"
  have "filter nonempty (sub_slots t) = []" using assms(1,3) Cons by (simp add: filled_def)
  then have "\<not> nonempty (sub_slots t ! ?i)" using assms(1) Cons by (simp add: filter_empty_conv)
  moreover have "slot_ok (b + w) (wf_sub (b + w) vs) (sub_slots t ! ?i)" using slot_nth_ok [of b w vs t ?i] assms(1) Cons by simp
  ultimately have "slot_lookup h (bits + w) (sub_slots t ! ?i) = Some (0, 0)"
    by (auto simp: nonempty_def slot_ok_def slot_lookup_def split: dir_slot.splits)
  then show ?thesis using lookup_slot [of b w vs t h bits] assms Cons by simp
qed (use assms in simp)

section \<open>Ranges of slots\<close>

lemma in_range_length [simp]: "lo \<le> hi \<Longrightarrow> hi \<le> length xs \<Longrightarrow> length (in_range lo hi xs) = hi - lo"
  by (simp add: in_range_def)

lemma in_range_nth [simp]: "lo \<le> hi \<Longrightarrow> hi \<le> length xs \<Longrightarrow> j < hi - lo \<Longrightarrow> in_range lo hi xs ! j = xs ! (lo + j)"
  by (simp add: in_range_def)

lemma range_split: "lo \<le> hi \<Longrightarrow> xs = take lo xs @ in_range lo hi xs @ drop hi xs"
  by (metis append_take_drop_id drop_drop in_range_def le_add_diff_inverse2)

lemma put_range_length [simp]:
  "lo \<le> hi \<Longrightarrow> hi \<le> length xs \<Longrightarrow> length ys = hi - lo \<Longrightarrow> length (put_range lo hi xs ys) = length xs"
  by (simp add: put_range_def)

lemma put_range_nth:
  "lo \<le> hi \<Longrightarrow> hi \<le> length xs \<Longrightarrow> length ys = hi - lo \<Longrightarrow> i < length xs \<Longrightarrow>
    put_range lo hi xs ys ! i = (if lo \<le> i \<and> i < hi then ys ! (i - lo) else xs ! i)"
  by (auto simp: put_range_def nth_append)

lemma filled_append: "filled (xs @ ys) = filled xs + filled ys"
  by (simp add: filled_def)

lemma filled_Cons: "filled (s # slots) = (if nonempty s then 1 else 0) + filled slots"
  by (simp add: filled_def)

lemma filled_Nil [simp]: "filled [] = 0"
  by (simp add: filled_def)

lemma slots_bytes_append: "slots_bytes (xs @ ys) = slots_bytes xs + slots_bytes ys"
proof (induction xs)
  case (Cons s xs)
  then show ?case by (cases s) simp_all
qed simp

lemma filled_put_range: "lo \<le> hi \<Longrightarrow> filled (put_range lo hi xs ys) = filled xs - filled (in_range lo hi xs) + filled ys"
  using arg_cong [OF range_split [of lo hi xs], of filled] by (simp add: put_range_def filled_append)

lemma slots_bytes_put_range:
  "lo \<le> hi \<Longrightarrow> slots_bytes (put_range lo hi xs ys) + slots_bytes (in_range lo hi xs) = slots_bytes xs + slots_bytes ys"
  using arg_cong [OF range_split [of lo hi xs], of slots_bytes] by (simp add: put_range_def slots_bytes_append)

lemma slots_bytes_in_range: "slots_bytes (in_range lo hi xs) \<le> slots_bytes xs"
proof (cases "lo \<le> hi")
  case True
  show ?thesis using arg_cong [OF range_split [OF True, of xs], of slots_bytes] by (simp add: slots_bytes_append)
qed (simp add: in_range_def)

lemma list_update_range: "i < length xs \<Longrightarrow> xs[i := y] = put_range i (Suc i) xs [y]"
  by (simp add: put_range_def upd_conv_take_nth_drop)

lemma in_range_one: "i < length xs \<Longrightarrow> in_range i (Suc i) xs = [xs ! i]"
  by (simp add: in_range_def take_Suc Cons_nth_drop_Suc [symmetric])

section \<open>The loops over slots\<close>

type_synonym upd = "u64 \<times> nat \<Rightarrow> u64 \<times> nat"

definition upd_less :: "nat \<Rightarrow> u64 \<Rightarrow> upd" where
  "upd_less len v x = (if snd x \<le> len then (v, len) else x)"

definition clear_less :: "nat \<Rightarrow> upd" where
  "clear_less len x = (if snd x = len then (0, 0) else x)"

definition slot_maps :: "upd \<Rightarrow> nat \<Rightarrow> nat list \<Rightarrow> dir_slot \<Rightarrow> dir_slot \<Rightarrow> bool" where
  \<comment> \<open>\<open>s'\<close> is a sound slot with the lookups of \<open>s\<close> changed by \<open>u\<close>\<close>
  "slot_maps u b ws s s' \<longleftrightarrow> slot_ok b (wf_sub b ws) s' \<and>
     (\<forall>h bits. fits h bits ws \<longrightarrow> slot_lookup h bits s' = map_option u (slot_lookup h bits s))"

definition range_upd :: "upd \<Rightarrow> nat \<Rightarrow> nat \<Rightarrow> nat list \<Rightarrow> nat \<Rightarrow> nat \<Rightarrow> dir_sub \<Rightarrow> dir_sub \<Rightarrow> bool" where
  "range_upd u b w ws lo hi t t' \<longleftrightarrow> wf_sub b (w # ws) t' \<and>
     (\<forall>h bits. fits h bits (w # ws) \<longrightarrow> dir_sub_lookup h bits t' =
        (let i = pfx h (bits + w) mod 2 ^ w in
         if lo \<le> i \<and> i < hi then map_option u (dir_sub_lookup h bits t) else dir_sub_lookup h bits t))"

lemma range_updI:
  assumes wf: "wf_sub b (w # ws) (Sub w' slots c f)" and r: "lo \<le> hi" "hi \<le> 2 ^ w"
    and ss: "list_all2 (slot_maps u (b + w) ws) (in_range lo hi slots) ss"
    and f': "f' = f + (filled ss - filled (in_range lo hi slots))"
  shows "range_upd u b w ws lo hi (Sub w' slots c f) (Sub w' (put_range lo hi slots ss) c' f')"
proof -
  have len: "length slots = 2 ^ w" "f = filled slots" "w' = w" "list_all (slot_ok (b + w) (wf_sub (b + w) ws)) slots" using wf by auto
  have lss: "length ss = hi - lo" using list_all2_lengthD [OF ss] r len by simp
  have nth: "slot_maps u (b + w) ws (slots ! i) (ss ! (i - lo))" if "lo \<le> i" "i < hi" for i
    using list_all2_nthD [OF ss, of "i - lo"] that r len by simp
  have "slot_ok (b + w) (wf_sub (b + w) ws) (put_range lo hi slots ss ! i)" if "i < 2 ^ w" for i
    using nth [of i] len that r lss by (auto simp: put_range_nth slot_maps_def list_all_length)
  then have wf': "wf_sub b (w # ws) (Sub w' (put_range lo hi slots ss) c' f')"
    using len lss r f' by (auto simp: list_all_length filled_put_range)
  have "dir_sub_lookup h bits (Sub w' (put_range lo hi slots ss) c' f') =
      (let i = pfx h (bits + w) mod 2 ^ w in
       if lo \<le> i \<and> i < hi then map_option u (dir_sub_lookup h bits (Sub w' slots c f))
       else dir_sub_lookup h bits (Sub w' slots c f))" if "fits h bits (w # ws)" for h bits
  proof -
    let ?i = "pfx h (bits + w) mod 2 ^ w"
    have i: "?i < length slots" using len by simp
    have "fits h (bits + w) ws" using fits_Cons [OF that] by simp
    then show ?thesis
      unfolding lookup_slot [OF wf that] lookup_slot [OF wf' that] Let_def
      using nth [of ?i] r len lss put_range_nth [of lo hi slots ss ?i, OF r(1) _ lss i] by (auto simp: slot_maps_def)
  qed
  then show ?thesis using wf' unfolding range_upd_def by blast
qed

lemma range_upd_all:
  assumes "range_upd u b w ws 0 (2 ^ w) t t'"
  shows "slot_maps u b (w # ws) (Ptr t) (Ptr t')"
  using assms by (simp add: range_upd_def slot_maps_def slot_ok_def slot_lookup_def)

lemma slot_maps_Val:
  "slot_ok b (wf_sub b ws) (Val e l) \<Longrightarrow> u (e, unat l) = (e', unat l') \<Longrightarrow> e' = 0 \<longleftrightarrow> l' = 0 \<Longrightarrow> unat e' < 2 ^ 31 \<Longrightarrow>
    unat l' \<le> b \<Longrightarrow> slot_maps u b ws (Val e l) (Val e' l')"
  by (auto simp: slot_maps_def slot_ok_def slot_lookup_def)

lemma unat_len: "len \<le> 128 \<Longrightarrow> unat (of_nat len :: u8) = len"
  by (simp add: unat_of_nat)

lemma of_nat_len: "0 < len \<Longrightarrow> len \<le> 128 \<Longrightarrow> (of_nat len :: u8) \<noteq> 0"
  using unat_len [of len] by auto

lemma slot_nonempty: "slot_ok b ok (Val e l) \<Longrightarrow> \<not> (l = 0 \<and> e \<noteq> 0)"
  by (auto simp: slot_ok_def)

subsection \<open>Filling less specific slots\<close>

lemma val32_eq [simp]: "unat v < 2147483648 \<Longrightarrow> val32 v = v"
proof -
  assume "unat v < 2147483648"
  then have "take_bit 32 (unat v) = unat v" by (simp add: take_bit_nat_eq_self)
  then have "unat (val32 v) = unat v"
    unfolding val32_def by (simp add: unsigned_ucast_eq unsigned_take_bit_eq)
  then show "val32 v = v" by (simp add: word_unat_eq_iff)
qed

lemma fill_less_slots_ok:
  assumes v: "0 < len" "len \<le> 128" "v \<noteq> 0" "unat v < 2 ^ 31" and lb: "len \<le> b"
    and sub: "\<And>t. wf_sub b ws t \<Longrightarrow> \<exists>t'. dir_fill_less_specific 0 (2 ^ sub_width t) len v t = Some t' \<and>
      slot_maps (upd_less len v) b ws (Ptr t) (Ptr t') \<and> tree_bytes t' = tree_bytes t"
  shows "list_all (slot_ok b (wf_sub b ws)) slots \<Longrightarrow> \<exists>ss n. fill_less_slots len v slots = Some (ss, n) \<and>
    list_all2 (slot_maps (upd_less len v) b ws) slots ss \<and> n = filled ss - filled slots \<and> slots_bytes ss = slots_bytes slots"
proof (induction slots)
  case (Cons s slots)
  then obtain ss n where ss: "fill_less_slots len v slots = Some (ss, n)"
    "list_all2 (slot_maps (upd_less len v) b ws) slots ss" "n = filled ss - filled slots" "slots_bytes ss = slots_bytes slots"
    by auto
  show ?case
  proof (cases s)
    case (Ptr t)
    then obtain t' where "dir_fill_less_specific 0 (2 ^ sub_width t) len v t = Some t'"
      "slot_maps (upd_less len v) b ws (Ptr t) (Ptr t')" "tree_bytes t' = tree_bytes t"
      using Cons.prems sub [of t] by (auto simp: slot_ok_def)
    then show ?thesis using ss Ptr by (simp add: filled_Cons nonempty_def)
  next
    case (Val e l)
    then have ok: "slot_ok b (wf_sub b ws) (Val e l)" using Cons.prems by simp
    let ?l = "of_nat len :: u8"
    have "slot_maps (upd_less len v) b ws (Val e l) (if unat l \<le> len then Val v ?l else Val e l)"
      using ok v lb of_nat_len [OF v(1,2)] unat_len [OF v(2)]
      by (auto intro!: slot_maps_Val simp: upd_less_def slot_ok_def)
    moreover have "unat l \<le> len" if "e = 0" using ok that by (simp add: slot_ok_def)
    ultimately show ?thesis using ss Val v slot_nonempty [OF ok] by (auto simp: filled_Cons nonempty_def)
  qed
qed simp

lemma list_all_in_range: "list_all P xs \<Longrightarrow> list_all P (in_range lo hi xs)"
  by (auto simp: in_range_def list_all_iff dest: in_set_takeD in_set_dropD)

lemma fill_less_step:
  assumes v: "0 < len" "len \<le> 128" "v \<noteq> 0" "unat v < 2 ^ 31" and lb: "len \<le> b + w"
    and sub: "\<And>t. wf_sub (b + w) ws t \<Longrightarrow> \<exists>t'. dir_fill_less_specific 0 (2 ^ sub_width t) len v t = Some t' \<and>
      slot_maps (upd_less len v) (b + w) ws (Ptr t) (Ptr t') \<and> tree_bytes t' = tree_bytes t"
    and wf: "wf_sub b (w # ws) t" and r: "lo \<le> hi" "hi \<le> 2 ^ w"
  shows "\<exists>t'. dir_fill_less_specific lo hi len v t = Some t' \<and> range_upd (upd_less len v) b w ws lo hi t t' \<and>
    tree_bytes t' = tree_bytes t"
proof (cases t)
  case (Sub w' slots c f)
  have l: "length slots = 2 ^ w" "list_all (slot_ok (b + w) (wf_sub (b + w) ws)) slots" using wf Sub by auto
  obtain ss n where ss: "fill_less_slots len v (in_range lo hi slots) = Some (ss, n)"
    "list_all2 (slot_maps (upd_less len v) (b + w) ws) (in_range lo hi slots) ss" "n = filled ss - filled (in_range lo hi slots)"
    "slots_bytes ss = slots_bytes (in_range lo hi slots)"
    using fill_less_slots_ok [OF v lb sub list_all_in_range [OF l(2)]] by blast
  have "length ss = hi - lo" using list_all2_lengthD [OF ss(2)] r l by simp
  then have "tree_bytes (Sub w' (put_range lo hi slots ss) c (f + n)) = tree_bytes t"
    using slots_bytes_put_range [OF r(1), of slots ss] ss(4) r l Sub by simp
  then show ?thesis
    using range_updI [OF wf [unfolded Sub] r ss(2) refl, of c] ss(1,3) r l Sub by simp
qed

lemma fill_less_sub:
  assumes v: "0 < len" "len \<le> 128" "v \<noteq> 0" "unat v < 2 ^ 31"
  shows "wf_sub b ws t \<Longrightarrow> len \<le> b \<Longrightarrow> \<exists>t'. dir_fill_less_specific 0 (2 ^ sub_width t) len v t = Some t' \<and>
    slot_maps (upd_less len v) b ws (Ptr t) (Ptr t') \<and> tree_bytes t' = tree_bytes t"
proof (induction ws arbitrary: t b)
  case (Cons w ws)
  from Cons.prems have "sub_width t = w" by simp
  then show ?case using fill_less_step [OF v _ Cons.IH Cons.prems(1), of 0 "2 ^ w"] Cons.prems(2) range_upd_all by auto
qed simp

lemma fill_less_ok:
  assumes v: "0 < len" "len \<le> 128" "v \<noteq> 0" "unat v < 2 ^ 31" and lb: "len \<le> b + w"
    and wf: "wf_sub b (w # ws) t" and r: "lo \<le> hi" "hi \<le> 2 ^ w"
  shows "\<exists>t'. dir_fill_less_specific lo hi len v t = Some t' \<and> range_upd (upd_less len v) b w ws lo hi t t' \<and>
    tree_bytes t' = tree_bytes t"
  by (rule fill_less_step [OF v lb fill_less_sub [OF v _ lb] wf r])

subsection \<open>Freeing and filling all slots\<close>

lemma free_slots_ok:
  assumes sub: "\<And>t a. wf_sub b ws t \<Longrightarrow> tree_bytes t \<le> unat a \<Longrightarrow>
    \<exists>a'. sub_table_free a t = Some a' \<and> unat a' + tree_bytes t = unat a"
  shows "list_all (slot_ok b (wf_sub b ws)) slots \<Longrightarrow> slots_bytes slots \<le> unat a \<Longrightarrow>
    \<exists>a'. free_slots a slots = Some a' \<and> unat a' + slots_bytes slots = unat a"
proof (induction slots arbitrary: a)
  case (Cons s slots)
  show ?case
  proof (cases s)
    case (Val e l)
    then show ?thesis using Cons slot_nonempty [of b "wf_sub b ws" e l] by auto
  next
    case (Ptr t)
    then obtain a1 where a1: "sub_table_free a t = Some a1" "unat a1 + tree_bytes t = unat a"
      using Cons.prems sub [of t a] by (auto simp: slot_ok_def)
    then obtain a2 where "free_slots a1 slots = Some a2" "unat a2 + slots_bytes slots = unat a1"
      using Cons.IH [of a1] Cons.prems Ptr by force
    then show ?thesis using a1 Ptr by simp
  qed
qed simp

lemma unat_minus_of_nat: "n \<le> unat (a :: u32) \<Longrightarrow> unat (a - of_nat n) + n = unat a"
proof -
  assume n: "n \<le> unat a"
  then have u: "unat (of_nat n :: u32) = n" using unat_u32_bound [of a] by (intro unat_of_nat_u32) linarith
  then have "of_nat n \<le> a" using n by (simp add: word_le_nat_alt)
  then show ?thesis using u n by (simp add: unat_sub)
qed

lemma sub_table_free_ok:
  "wf_sub b ws t \<Longrightarrow> tree_bytes t \<le> unat a \<Longrightarrow> \<exists>a'. sub_table_free a t = Some a' \<and> unat a' + tree_bytes t = unat a"
proof (induction ws arbitrary: t a b)
  case (Cons w ws)
  show ?case
  proof (cases t)
    case (Sub w' slots c f)
    then obtain a' where a': "free_slots a slots = Some a'" "unat a' + slots_bytes slots = unat a"
      using free_slots_ok [OF Cons.IH, where slots = slots and a = a] Cons.prems by force
    then have "unat (a' - of_nat (sub_bytes (length slots))) + sub_bytes (length slots) = unat a'"
      using Cons.prems Sub by (intro unat_minus_of_nat) simp
    then show ?thesis using a' Sub by simp
  qed
qed simp

lemma slot_lookup_total:
  "slot_ok b (wf_sub b ws) s \<Longrightarrow> fits h bits ws \<Longrightarrow>
    \<exists>e l. slot_lookup h bits s = Some (e, l) \<and> (e = 0 \<longleftrightarrow> l = 0) \<and> unat e < 2 ^ 31 \<and> l \<le> b + sum_list ws"
proof (cases s)
  case (Val e l)
  assume "slot_ok b (wf_sub b ws) s"
  then show ?thesis using Val by (auto simp: slot_lookup_def slot_ok_def unat_eq_0)
next
  case (Ptr t)
  assume "slot_ok b (wf_sub b ws) s" "fits h bits ws"
  then show ?thesis using Ptr lookup_total [of b ws t h bits] by (simp add: slot_lookup_def slot_ok_def)
qed

lemma slot_maps_const:
  assumes "slot_ok b (wf_sub b ws) s" "e = 0 \<longleftrightarrow> l = 0" "unat e < 2 ^ 31" "unat l \<le> b" "unat l = n"
  shows "slot_maps (\<lambda>_. (e, n)) b ws s (Val e l)"
  using assms slot_lookup_total [OF assms(1)] by (fastforce simp: slot_maps_def slot_ok_def slot_lookup_def)

lemma fill_all_slots_ok:
  assumes v: "0 < len" "len \<le> 128" "v \<noteq> 0" "unat v < 2 ^ 31" and lb: "len \<le> b"
  shows "list_all (slot_ok b (wf_sub b ws)) slots \<Longrightarrow> slots_bytes slots \<le> unat a \<Longrightarrow>
    \<exists>ss n a'. fill_all_slots len v a slots = Some (ss, n, a') \<and>
      list_all2 (slot_maps (\<lambda>_. (v, len)) b ws) slots ss \<and> n = filled ss - filled slots \<and>
      unat a' + slots_bytes slots = unat a + slots_bytes ss \<and> unat a' \<le> unat a"
proof (induction slots arbitrary: a)
  case (Cons s slots)
  have maps: "slot_maps (\<lambda>_. (v, len)) b ws s (Val v (of_nat len))"
    by (rule slot_maps_const) (use Cons.prems(1) v lb of_nat_len [OF v(1,2)] unat_len [OF v(2)] in auto)
  show ?case
  proof (cases s)
    case (Val e l)
    then have ok: "slot_ok b (wf_sub b ws) (Val e l)" using Cons.prems by simp
    obtain ss n a' where "fill_all_slots len v a slots = Some (ss, n, a')"
      "list_all2 (slot_maps (\<lambda>_. (v, len)) b ws) slots ss" "n = filled ss - filled slots"
      "unat a' + slots_bytes slots = unat a + slots_bytes ss \<and> unat a' \<le> unat a"
      using Cons.IH [of a] Cons.prems Val by auto
    then show ?thesis using Val maps v slot_nonempty [OF ok] by (auto simp: filled_Cons nonempty_def)
  next
    case (Ptr t)
    then obtain a1 where a1: "sub_table_free a t = Some a1" "unat a1 + tree_bytes t = unat a"
      using Cons.prems sub_table_free_ok [of b ws t a] by (auto simp: slot_ok_def)
    then obtain ss n a' where "fill_all_slots len v a1 slots = Some (ss, n, a')"
      "list_all2 (slot_maps (\<lambda>_. (v, len)) b ws) slots ss" "n = filled ss - filled slots"
      "unat a' + slots_bytes slots = unat a1 + slots_bytes ss \<and> unat a' \<le> unat a1"
      using Cons.IH [of a1] Cons.prems Ptr by force
    then show ?thesis using Ptr a1 maps v by (simp add: filled_Cons nonempty_def)
  qed
qed simp

lemma fill_all_ok:
  assumes v: "0 < len" "len \<le> 128" "v \<noteq> 0" "unat v < 2 ^ 31" and lb: "len \<le> b + w"
    and wf: "wf_sub b (w # ws) t" and r: "lo \<le> hi" "hi \<le> 2 ^ w" and a: "tree_bytes t \<le> unat a"
  shows "\<exists>t' a'. dir_fill_all a lo hi len v t = Some (t', a') \<and> range_upd (\<lambda>_. (v, len)) b w ws lo hi t t' \<and>
    unat a' + tree_bytes t = unat a + tree_bytes t' \<and> unat a' \<le> unat a"
proof (cases t)
  case (Sub w' slots c f)
  have l: "length slots = 2 ^ w" "list_all (slot_ok (b + w) (wf_sub (b + w) ws)) slots" using wf Sub by auto
  obtain ss n a' where ss: "fill_all_slots len v a (in_range lo hi slots) = Some (ss, n, a')"
    "list_all2 (slot_maps (\<lambda>_. (v, len)) (b + w) ws) (in_range lo hi slots) ss" "n = filled ss - filled (in_range lo hi slots)"
    "unat a' + slots_bytes (in_range lo hi slots) = unat a + slots_bytes ss \<and> unat a' \<le> unat a"
    using fill_all_slots_ok [OF v lb list_all_in_range [OF l(2), of lo hi], where a = a] slots_bytes_in_range [of lo hi slots] a Sub by force
  have "length ss = hi - lo" using list_all2_lengthD [OF ss(2)] r l by simp
  then have "unat a' + tree_bytes t = unat a + tree_bytes (Sub w' (put_range lo hi slots ss) c (f + n))"
    using slots_bytes_put_range [OF r(1), of slots ss] ss(4) r l Sub by simp
  then show ?thesis
    using range_updI [OF wf [unfolded Sub] r ss(2) refl, of c] ss(1,3,4) r l Sub by (simp add: dir_fill_all_def)
qed

subsection \<open>Clearing slots\<close>

lemma remove_all_slots_ok:
  "0 < len \<Longrightarrow> list_all (slot_ok b (wf_sub b ws)) slots \<Longrightarrow> slots_bytes slots \<le> unat a \<Longrightarrow>
    \<exists>vi' ss n a'. remove_all_slots len vi a slots = Some (vi', ss, n, a') \<and>
      list_all2 (slot_maps (\<lambda>_. (0, 0)) b ws) slots ss \<and> n = filled slots - filled ss \<and>
      unat a' + slots_bytes slots = unat a + slots_bytes ss \<and> unat a' \<le> unat a"
proof (induction slots arbitrary: a vi)
  case (Cons s slots)
  have maps: "slot_maps (\<lambda>_. (0, 0)) b ws s (Val 0 0)"
    by (rule slot_maps_const) (use Cons.prems in auto)
  show ?case
  proof (cases s)
    case (Val e l)
    let ?vi = "if e = 0 then vi else if len = unat l then ucast e else vi"
    have ok: "slot_ok b (wf_sub b ws) (Val e l)" using Cons.prems Val by simp
    obtain vi' ss n a' where ss: "remove_all_slots len ?vi a slots = Some (vi', ss, n, a')"
      "list_all2 (slot_maps (\<lambda>_. (0, 0)) b ws) slots ss" "n = filled slots - filled ss"
      "unat a' + slots_bytes slots = unat a + slots_bytes ss \<and> unat a' \<le> unat a"
      using Cons.IH [of a ?vi] Cons.prems Val by auto
    show ?thesis
    proof (cases "e = 0")
      case True
      then have "l = 0" using ok by (simp add: slot_ok_def)
      then show ?thesis using ss maps Val True by (simp add: filled_Cons nonempty_def)
    next
      case False
      then show ?thesis using ss maps Val slot_nonempty [OF ok] by (simp add: filled_Cons nonempty_def)
    qed
  next
    case (Ptr t)
    then obtain a1 where a1: "sub_table_free a t = Some a1" "unat a1 + tree_bytes t = unat a"
      using Cons.prems sub_table_free_ok [of b ws t a] by (auto simp: slot_ok_def)
    then obtain vi' ss n a' where "remove_all_slots len vi a1 slots = Some (vi', ss, n, a')"
      "list_all2 (slot_maps (\<lambda>_. (0, 0)) b ws) slots ss" "n = filled slots - filled ss"
      "unat a' + slots_bytes slots = unat a1 + slots_bytes ss \<and> unat a' \<le> unat a1"
      using Cons.IH [of a1 vi] Cons.prems Ptr by force
    then show ?thesis using Ptr a1 maps Cons.prems by (simp add: filled_Cons nonempty_def)
  qed
qed simp

lemma remove_all_ok:
  assumes len: "0 < len" and wf: "wf_sub b (w # ws) t" and r: "lo \<le> hi" "hi \<le> 2 ^ w" and a: "tree_bytes t \<le> unat a"
  shows "\<exists>vi t' a'. dir_remove_all a lo hi len t = Some (vi, t', a') \<and> range_upd (\<lambda>_. (0, 0)) b w ws lo hi t t' \<and>
    unat a' + tree_bytes t = unat a + tree_bytes t' \<and> unat a' \<le> unat a"
proof (cases t)
  case (Sub w' slots c f)
  have l: "length slots = 2 ^ w" "list_all (slot_ok (b + w) (wf_sub (b + w) ws)) slots" using wf Sub by auto
  obtain vi ss n a' where ss: "remove_all_slots len 0 a (in_range lo hi slots) = Some (vi, ss, n, a')"
    "list_all2 (slot_maps (\<lambda>_. (0, 0)) (b + w) ws) (in_range lo hi slots) ss" "n = filled (in_range lo hi slots) - filled ss"
    "unat a' + slots_bytes (in_range lo hi slots) = unat a + slots_bytes ss \<and> unat a' \<le> unat a"
    using remove_all_slots_ok [OF len list_all_in_range [OF l(2), of lo hi], where a = a and vi = 0]
      slots_bytes_in_range [of lo hi slots] a Sub by force
  have "length ss = hi - lo" using list_all2_lengthD [OF ss(2)] r l by simp
  then have "unat a' + tree_bytes t = unat a + tree_bytes (Sub w' (put_range lo hi slots ss) c (f - n))"
    using slots_bytes_put_range [OF r(1), of slots ss] ss(4) r l Sub by simp
  then show ?thesis
    using range_updI [OF wf [unfolded Sub] r ss(2), of "f - n" c] ss(1,3,4) r l Sub by (simp add: dir_remove_all_def)
qed

lemma slot_maps_emptied:
  assumes "slot_maps u b ws (Ptr t) (Ptr t')" "sub_filled t' = 0"
  shows "slot_maps u b ws (Ptr t) (Val 0 0)"
proof -
  have m: "wf_sub b ws t'" "dir_sub_lookup h bits t' = map_option u (dir_sub_lookup h bits t)" if "fits h bits ws" for h bits
    using assms(1) that by (simp_all add: slot_maps_def slot_ok_def slot_lookup_def)
  have "Some (0, 0) = map_option u (dir_sub_lookup h bits t)" if "fits h bits ws" for h bits
    using m(2) [OF that] empty_lookup [OF m(1) [OF that] that assms(2)] by metis
  then show ?thesis by (simp add: slot_maps_def slot_ok_def slot_lookup_def)
qed

lemma remove_less_slots_ok:
  assumes len: "0 < len"
    and sub: "\<And>t a. wf_sub b ws t \<Longrightarrow> tree_bytes t \<le> unat a \<Longrightarrow>
      \<exists>vt t' a'. dir_remove_less_specific a 0 (2 ^ sub_width t) len t = Some (vt, t', a') \<and>
        slot_maps (clear_less len) b ws (Ptr t) (Ptr t') \<and> unat a' + tree_bytes t = unat a + tree_bytes t' \<and> unat a' \<le> unat a"
  shows "list_all (slot_ok b (wf_sub b ws)) slots \<Longrightarrow> slots_bytes slots \<le> unat a \<Longrightarrow>
    \<exists>vi' ss n a'. remove_less_slots vi a len slots = Some (vi', ss, n, a') \<and>
      list_all2 (slot_maps (clear_less len) b ws) slots ss \<and> n = filled slots - filled ss \<and>
      unat a' + slots_bytes slots = unat a + slots_bytes ss \<and> unat a' \<le> unat a"
proof (induction slots arbitrary: a vi)
  case (Cons s slots)
  have IH: "\<exists>vi' ss n a'. remove_less_slots vi1 a1 len slots = Some (vi', ss, n, a') \<and>
      list_all2 (slot_maps (clear_less len) b ws) slots ss \<and> n = filled slots - filled ss \<and>
      unat a' + slots_bytes slots = unat a1 + slots_bytes ss \<and> unat a' \<le> unat a1" if "slots_bytes slots \<le> unat a1" for a1 vi1
    using Cons.IH [of a1 vi1] Cons.prems that by simp
  show ?case
  proof (cases s)
    case (Ptr t)
    then obtain vt t' a1 where t': "dir_remove_less_specific a 0 (2 ^ sub_width t) len t = Some (vt, t', a1)"
      "slot_maps (clear_less len) b ws (Ptr t) (Ptr t')" "unat a1 + tree_bytes t = unat a + tree_bytes t' \<and> unat a1 \<le> unat a"
      using Cons.prems sub [of t a] by (auto simp: slot_ok_def)
    let ?vi = "if vt \<noteq> 0 then vt else vi"
    have wf': "wf_sub b ws t'" using t'(2) by (simp add: slot_maps_def slot_ok_def)
    have le: "tree_bytes t' + slots_bytes slots \<le> unat a1" using t'(3) Cons.prems Ptr by simp
    show ?thesis
    proof (cases "sub_filled t' = 0")
      case True
      obtain a2 where a2: "sub_table_free a1 t' = Some a2" "unat a2 + tree_bytes t' = unat a1"
        using sub_table_free_ok [OF wf', of a1] le by auto
      then obtain vi' ss n a' where "remove_less_slots ?vi a2 len slots = Some (vi', ss, n, a')"
        "list_all2 (slot_maps (clear_less len) b ws) slots ss" "n = filled slots - filled ss"
        "unat a' + slots_bytes slots = unat a2 + slots_bytes ss \<and> unat a' \<le> unat a2" using IH [of a2 ?vi] le by auto
      then show ?thesis using Ptr t' a2 True slot_maps_emptied [OF t'(2) True] by (simp add: filled_Cons nonempty_def)
    next
      case False
      obtain vi' ss n a' where "remove_less_slots ?vi a1 len slots = Some (vi', ss, n, a')"
        "list_all2 (slot_maps (clear_less len) b ws) slots ss" "n = filled slots - filled ss"
        "unat a' + slots_bytes slots = unat a1 + slots_bytes ss \<and> unat a' \<le> unat a1" using IH [of a1 ?vi] le by auto
      then show ?thesis using Ptr t' False by (simp add: filled_Cons nonempty_def)
    qed
  next
    case (Val e l)
    have ok: "slot_ok b (wf_sub b ws) (Val e l)" using Cons.prems Val by simp
    let ?vi = "if len = unat l then (if e \<noteq> 0 then ucast e else vi) else vi"
    obtain vi' ss n a' where ss: "remove_less_slots ?vi a len slots = Some (vi', ss, n, a')"
      "list_all2 (slot_maps (clear_less len) b ws) slots ss" "n = filled slots - filled ss"
      "unat a' + slots_bytes slots = unat a + slots_bytes ss \<and> unat a' \<le> unat a" using IH [of a ?vi] Cons.prems Val by auto
    have "slot_maps (clear_less len) b ws (Val e l) (if len = unat l then Val 0 0 else Val e l)"
      using ok len by (auto intro!: slot_maps_Val simp: clear_less_def slot_ok_def)
    then show ?thesis using ss Val slot_nonempty [OF ok] by (auto simp: filled_Cons nonempty_def split: if_splits)
  qed
qed simp

lemma remove_less_step:
  assumes len: "0 < len"
    and sub: "\<And>t a. wf_sub (b + w) ws t \<Longrightarrow> tree_bytes t \<le> unat a \<Longrightarrow>
      \<exists>vt t' a'. dir_remove_less_specific a 0 (2 ^ sub_width t) len t = Some (vt, t', a') \<and>
        slot_maps (clear_less len) (b + w) ws (Ptr t) (Ptr t') \<and> unat a' + tree_bytes t = unat a + tree_bytes t' \<and> unat a' \<le> unat a"
    and wf: "wf_sub b (w # ws) t" and r: "lo \<le> hi" "hi \<le> 2 ^ w" and a: "tree_bytes t \<le> unat a"
  shows "\<exists>vi t' a'. dir_remove_less_specific a lo hi len t = Some (vi, t', a') \<and>
    range_upd (clear_less len) b w ws lo hi t t' \<and> unat a' + tree_bytes t = unat a + tree_bytes t' \<and> unat a' \<le> unat a"
proof (cases t)
  case (Sub w' slots c f)
  have l: "length slots = 2 ^ w" "list_all (slot_ok (b + w) (wf_sub (b + w) ws)) slots" using wf Sub by auto
  obtain vi ss n a' where ss: "remove_less_slots 0 a len (in_range lo hi slots) = Some (vi, ss, n, a')"
    "list_all2 (slot_maps (clear_less len) (b + w) ws) (in_range lo hi slots) ss" "n = filled (in_range lo hi slots) - filled ss"
    "unat a' + slots_bytes (in_range lo hi slots) = unat a + slots_bytes ss \<and> unat a' \<le> unat a"
    using remove_less_slots_ok [OF len sub list_all_in_range [OF l(2), of lo hi], where a = a and vi = 0]
      slots_bytes_in_range [of lo hi slots] a Sub by force
  have "length ss = hi - lo" using list_all2_lengthD [OF ss(2)] r l by simp
  then have "unat a' + tree_bytes t = unat a + tree_bytes (Sub w' (put_range lo hi slots ss) c (f - n))"
    using slots_bytes_put_range [OF r(1), of slots ss] ss(4) r l Sub by simp
  then show ?thesis
    using range_updI [OF wf [unfolded Sub] r ss(2), of "f - n" c] ss(1,3,4) r l Sub by simp
qed

lemma remove_less_sub:
  assumes len: "0 < len"
  shows "wf_sub b ws t \<Longrightarrow> tree_bytes t \<le> unat a \<Longrightarrow>
      \<exists>vt t' a'. dir_remove_less_specific a 0 (2 ^ sub_width t) len t = Some (vt, t', a') \<and>
        slot_maps (clear_less len) b ws (Ptr t) (Ptr t') \<and> unat a' + tree_bytes t = unat a + tree_bytes t' \<and> unat a' \<le> unat a"
proof (induction ws arbitrary: t a b)
  case (Cons w ws)
  from Cons.prems have "sub_width t = w" by simp
  then show ?case using remove_less_step [OF len Cons.IH Cons.prems(1) _ _ Cons.prems(2), of 0 "2 ^ w"] range_upd_all by auto
qed simp

lemma remove_less_ok:
  assumes len: "0 < len" and wf: "wf_sub b (w # ws) t" and r: "lo \<le> hi" "hi \<le> 2 ^ w" and a: "tree_bytes t \<le> unat a"
  shows "\<exists>vi t' a'. dir_remove_less_specific a lo hi len t = Some (vi, t', a') \<and>
    range_upd (clear_less len) b w ws lo hi t t' \<and> unat a' + tree_bytes t = unat a + tree_bytes t' \<and> unat a' \<le> unat a"
  by (rule remove_less_step [OF len remove_less_sub [OF len] wf r a])

section \<open>Insertion\<close>

lemma div_block: "0 < d \<Longrightarrow> (i div d * d \<le> j \<and> j < d + i div d * d) \<longleftrightarrow> j div d = (i :: nat) div d"
  by (metis add.commute div_nat_eqI div_times_less_eq_dividend dividend_less_times_div mult.commute mult_Suc_right)

lemma mod_div_pow: "cur \<le> w \<Longrightarrow> (x :: nat) mod 2 ^ w div 2 ^ (w - cur) = x div 2 ^ (w - cur) mod 2 ^ cur"
proof -
  assume "cur \<le> w"
  then have "(2 :: nat) ^ w = 2 ^ (w - cur) * 2 ^ cur" by (simp flip: power_add)
  then show ?thesis by (simp add: mod_mult2_eq)
qed

lemma block_end: "cur \<le> w \<Longrightarrow> i < 2 ^ w \<Longrightarrow> 2 ^ (w - cur) + i div 2 ^ (w - cur) * 2 ^ (w - cur) \<le> (2 :: nat) ^ w"
proof -
  assume a: "cur \<le> w" "i < 2 ^ w"
  then have e: "(2 :: nat) ^ w = 2 ^ cur * 2 ^ (w - cur)" by (simp flip: power_add)
  then have "i div 2 ^ (w - cur) < 2 ^ cur" using a by (simp add: less_mult_imp_div_less)
  then have "(1 + i div 2 ^ (w - cur)) * 2 ^ (w - cur) \<le> 2 ^ cur * 2 ^ (w - cur)" by (intro mult_right_mono) auto
  then show ?thesis using e by simp
qed

lemma same_block:
  assumes h: "pfx h bits = pfx g bits" "bits + w \<le> 32 * length h" "bits + w \<le> 32 * length g" and cur: "cur \<le> w"
  defines "d \<equiv> 2 ^ (w - cur) :: nat"
  shows "(pfx g (bits + w) mod 2 ^ w div d * d \<le> pfx h (bits + w) mod 2 ^ w \<and>
      pfx h (bits + w) mod 2 ^ w < d + pfx g (bits + w) mod 2 ^ w div d * d) \<longleftrightarrow> pfx h (bits + cur) = pfx g (bits + cur)"
proof -
  have d: "0 < d" by (simp add: d_def)
  have n: "bits + w - (w - cur) = bits + cur" using cur by simp
  have c: "pfx k (bits + w) mod 2 ^ w div d = pfx k (bits + cur) mod 2 ^ cur" if "bits + w \<le> 32 * length k" for k
    unfolding d_def mod_div_pow [OF cur] using pfx_div [of "w - cur" "bits + w" k] that n by simp
  have q: "pfx k (bits + cur) div 2 ^ cur = pfx k bits" if "bits + w \<le> 32 * length k" for k
    using pfx_div [of cur "bits + cur" k] that cur by simp
  have "pfx h (bits + cur) mod 2 ^ cur = pfx g (bits + cur) mod 2 ^ cur \<longleftrightarrow> pfx h (bits + cur) = pfx g (bits + cur)"
    using q [OF h(2)] q [OF h(3)] h(1) by (metis div_mult_mod_eq)
  then show ?thesis using div_block [OF d, of "pfx g (bits + w) mod 2 ^ w" "pfx h (bits + w) mod 2 ^ w"]
    by (simp only: c [OF h(2)] c [OF h(3)])
qed

lemma aligned_bound: "aligned bits (w # ws) \<Longrightarrow> bits < 32 * n \<Longrightarrow> bits + w \<le> 32 * n"
proof -
  assume a: "aligned bits (w # ws)" "bits < 32 * n"
  define q r where "q = bits div 32" and "r = bits mod 32"
  then have e: "bits = 32 * q + r" by simp
  have "q < n" using a(2) by (simp add: q_def less_mult_imp_div_less mult.commute)
  moreover have "r + w \<le> 32" using a(1) by (simp add: r_def)
  ultimately show ?thesis unfolding e by linarith
qed

lemma other_slot:
  assumes "pfx h (bits + w) mod 2 ^ w \<noteq> pfx g (bits + w) mod 2 ^ w" "w < cur"
    "bits + cur \<le> 32 * length h" "bits + cur \<le> 32 * length g"
  shows "pfx h (bits + cur) \<noteq> pfx g (bits + cur)"
proof
  assume "pfx h (bits + cur) = pfx g (bits + cur)"
  then have "pfx h (bits + cur) div 2 ^ (cur - w) = pfx g (bits + cur) div 2 ^ (cur - w)" by simp
  then show False using assms by (simp add: pfx_div)
qed

lemma same_slot:
  assumes "pfx h bits = pfx g bits" "pfx h (bits + w) mod 2 ^ w = pfx g (bits + w) mod 2 ^ w"
    "bits + w \<le> 32 * length h" "bits + w \<le> 32 * length g"
  shows "pfx h (bits + w) = pfx g (bits + w)"
proof -
  have "pfx k (bits + w) div 2 ^ w = pfx k bits" if "bits + w \<le> 32 * length k" for k
    using pfx_div [of w "bits + w" k] that by simp
  then show ?thesis using assms by (metis div_mult_mod_eq)
qed

definition dir_upd :: "rt_behavior \<Rightarrow> nat \<Rightarrow> u64 \<Rightarrow> upd" where
  "dir_upd behavior len v = (if behavior = RT_FAVOR_TIME then (\<lambda>_. (v, len)) else upd_less len v)"

definition prefix_upd :: "upd \<Rightarrow> u32 list \<Rightarrow> nat \<Rightarrow> nat \<Rightarrow> nat list \<Rightarrow> dir_sub \<Rightarrow> dir_sub \<Rightarrow> bool" where
  \<comment> \<open>\<open>t'\<close> is \<open>t\<close> with the lookups of the addresses in the prefix \<open>g/len\<close> changed by \<open>u\<close>\<close>
  "prefix_upd u g len bits ws t t' \<longleftrightarrow> wf_sub bits ws t' \<and>
     (\<forall>h. fits h bits ws \<longrightarrow> pfx h bits = pfx g bits \<longrightarrow> dir_sub_lookup h bits t' =
        (if pfx h len = pfx g len then map_option u (dir_sub_lookup h bits t) else dir_sub_lookup h bits t))"

lemma range_prefix:
  assumes "range_upd u bits w ws (pfx g (bits + w) mod 2 ^ w div 2 ^ (w - cur) * 2 ^ (w - cur))
      (2 ^ (w - cur) + pfx g (bits + w) mod 2 ^ w div 2 ^ (w - cur) * 2 ^ (w - cur)) t t'"
    and "cur \<le> w" "bits + w \<le> 32 * length g"
  shows "prefix_upd u g (bits + cur) bits (w # ws) t t'"
proof -
  have "dir_sub_lookup h bits t' = (if pfx h (bits + cur) = pfx g (bits + cur) then map_option u (dir_sub_lookup h bits t)
      else dir_sub_lookup h bits t)" if h: "fits h bits (w # ws)" "pfx h bits = pfx g bits" for h
    using assms(1) h fits_Cons [OF h(1)]
    by (simp add: range_upd_def Let_def same_block [OF h(2) _ assms(3,2)])
  then show ?thesis using assms(1) by (simp add: prefix_upd_def range_upd_def)
qed

lemma put_slot:
  assumes wf: "wf_sub bits (w # ws) (Sub w slots c f)" and g: "bits + w \<le> 32 * length g" "w < cur" "bits + cur \<le> 32 * length g"
    and i: "i = pfx g (bits + w) mod 2 ^ w" and s': "slot_ok (bits + w) (wf_sub (bits + w) ws) s'"
    and f': "f' = f + (if nonempty s' then 1 else 0) - (if nonempty (slots ! i) then 1 else 0)"
    and look: "\<And>h. fits h (bits + w) ws \<Longrightarrow> pfx h (bits + w) = pfx g (bits + w) \<Longrightarrow> bits + cur \<le> 32 * length h \<Longrightarrow>
      slot_lookup h (bits + w) s' = (if pfx h (bits + cur) = pfx g (bits + cur)
        then map_option u (slot_lookup h (bits + w) (slots ! i)) else slot_lookup h (bits + w) (slots ! i))"
    and cur: "cur \<le> sum_list (w # ws)"
  shows "prefix_upd u g (bits + cur) bits (w # ws) (Sub w slots c f) (Sub w (slots[i := s']) c' f')"
proof -
  have l: "length slots = 2 ^ w" "list_all (slot_ok (bits + w) (wf_sub (bits + w) ws)) slots" "f = filled slots" using wf by auto
  have il: "i < length slots" using i l by simp
  have "filled (slots[i := s']) = f'"
    using il f' l(3) by (simp add: list_update_range filled_put_range in_range_one filled_Cons)
  then have wf': "wf_sub bits (w # ws) (Sub w (slots[i := s']) c' f')"
    using l s' il by (auto simp: list_all_length nth_list_update)
  have "dir_sub_lookup h bits (Sub w (slots[i := s']) c' f') =
      (if pfx h (bits + cur) = pfx g (bits + cur) then map_option u (dir_sub_lookup h bits (Sub w slots c f))
       else dir_sub_lookup h bits (Sub w slots c f))" if h: "fits h bits (w # ws)" "pfx h bits = pfx g bits" for h
  proof -
    have hc: "bits + cur \<le> 32 * length h" using h(1) cur by (simp add: fits_def)
    have hw: "fits h (bits + w) ws" "bits + w \<le> 32 * length h" using fits_Cons [OF h(1)] by auto
    show ?thesis
    proof (cases "pfx h (bits + w) mod 2 ^ w = i")
      case True
      then have "pfx h (bits + w) = pfx g (bits + w)" using same_slot [OF h(2) _ hw(2) g(1)] i by simp
      then show ?thesis unfolding lookup_slot [OF wf h(1)] lookup_slot [OF wf' h(1)] True
        using look [OF hw(1) _ hc] il by simp
    next
      case False
      then have "pfx h (bits + cur) \<noteq> pfx g (bits + cur)" using other_slot [OF _ g(2) hc g(3)] i by simp
      then show ?thesis unfolding lookup_slot [OF wf h(1)] lookup_slot [OF wf' h(1)] using False by simp
    qed
  qed
  then show ?thesis using wf' by (simp add: prefix_upd_def)
qed

definition root_step :: "dir_root \<Rightarrow> dir_root \<Rightarrow> dir_sub \<Rightarrow> dir_sub \<Rightarrow> bool" where
  \<comment> \<open>\<open>allocated\<close> follows the size of the tree and does not grow past \<open>mem_cap\<close>\<close>
  "root_step root root' t t' \<longleftrightarrow> dimensions root' = dimensions root \<and> dt_mem_cap root' = dt_mem_cap root \<and>
     unat (dt_allocated root') + tree_bytes t = unat (dt_allocated root) + tree_bytes t' \<and>
     unat (dt_allocated root') \<le> max (unat (dt_allocated root)) (unat (dt_mem_cap root))"

lemma root_step_put:
  assumes "root_step root root' t t'" "i < length slots" "slots ! i = Ptr t"
  shows "root_step root root' (Sub w slots c f) (Sub w (slots[i := Ptr t']) c' f')"
proof -
  have "slots_bytes (slots[i := Ptr t']) + tree_bytes t = slots_bytes slots + tree_bytes t'"
    using slots_bytes_put_range [of i "Suc i" slots "[Ptr t']"] assms(2,3) by (simp add: list_update_range in_range_one)
  then show ?thesis using assms(1) by (simp add: root_step_def)
qed

lemma tree_bytes_nth: "i < length slots \<Longrightarrow> slots ! i = Ptr t \<Longrightarrow> tree_bytes t \<le> tree_bytes (Sub w slots c f)"
  using slots_bytes_in_range [of i "Suc i" slots] by (simp add: in_range_one)

lemma sub_table_new_ok:
  assumes dims: "drop depth (dimensions root) = w # ws" and ok: "slot_ok b ok' (Val e l)" "b \<le> 128"
  shows "sub_table_new os root depth (ucast e) (unat l) = Some (None, root) \<or>
    (\<exists>root1. sub_table_new os root depth (ucast e) (unat l)
        = Some (Some (Sub w (replicate (2 ^ w) (Val e l)) 0 (if e = 0 then 0 else 2 ^ w)), root1) \<and>
      dimensions root1 = dimensions root \<and> dt_mem_cap root1 = dt_mem_cap root \<and>
      unat (dt_allocated root1) = unat (dt_allocated root) + sub_bytes (2 ^ w) \<and>
      unat (dt_allocated root1) \<le> unat (dt_mem_cap root))"
proof -
  have d: "depth < length (dimensions root)" "dimensions root ! depth = w"
    using dims by (metis drop_all list.distinct(1) not_le, metis drop_all hd_drop_conv_nth list.distinct(1) list.sel(1) not_le)
  have small: "unat e < 4294967296" using ok by (simp add: slot_ok_def)
  have l: "unat l \<le> 128" using ok by (simp add: slot_ok_def)
  have e: "ucast (ucast e :: u32) = e"
    by (rule word_unat_eq_iff [THEN iffD2]) (use small in \<open>simp add: unsigned_ucast_eq unsigned_take_bit_eq take_bit_nat_eq_self\<close>)
  have e0: "(ucast e :: u32) = 0 \<longleftrightarrow> e = 0" using e by (metis unsigned_0)
  have a: "unat (dt_allocated root + of_nat (sub_bytes (2 ^ w))) = unat (dt_allocated root) + sub_bytes (2 ^ w)"
    if "unat (dt_allocated root) + sub_bytes (2 ^ w) \<le> unat (dt_mem_cap root)"
  proof -
    have b: "unat (dt_allocated root) + sub_bytes (2 ^ w) < 4294967296"
      using that unat_u32_bound [of "dt_mem_cap root"] by linarith
    then have "unat (of_nat (sub_bytes (2 ^ w)) :: u32) = sub_bytes (2 ^ w)" by (intro unat_of_nat_u32) linarith
    then show ?thesis using b unat_add_lem [where x = "dt_allocated root" and y = "of_nat (sub_bytes (2 ^ w))"] by simp
  qed
  show ?thesis
    using d e e0 a l by (auto simp: sub_table_new_def Let_def not_less)
qed

lemma new_sub_wf:
  assumes "slot_ok (b + w) (wf_sub (b + w) ws) (Val e l)"
  shows "wf_sub b (w # ws) (Sub w (replicate (2 ^ w) (Val e l)) 0 (if e = 0 then 0 else 2 ^ w))"
  using assms by (auto simp: filled_def nonempty_def list_all_length)

lemma new_sub_lookup:
  assumes "slot_ok (b + w) (wf_sub (b + w) ws) (Val e l)" "fits h bits (w # ws)"
  shows "dir_sub_lookup h bits (Sub w (replicate (2 ^ w) (Val e l)) 0 (if e = 0 then 0 else 2 ^ w)) = slot_lookup h bits (Val e l)"
  using lookup_slot [OF new_sub_wf [OF assms(1)] assms(2)] by (simp add: slot_lookup_def)

lemma slot_ok_mono: "slot_ok b ok (Val e l) \<Longrightarrow> b \<le> b' \<Longrightarrow> slot_ok b' ok' (Val e l)"
  by (simp add: slot_ok_def)

lemma slots_bytes_replicate [simp]: "slots_bytes (replicate n (Val e l)) = 0"
  by (induction n) auto

lemma dir_sub_insert_ok:
  assumes v: "0 < len" "len \<le> 128" "v \<noteq> 0" "unat v < 2 ^ 31" and g: "len \<le> 32 * length g" "length g \<le> 4"
  shows "wf_sub bits ws t \<Longrightarrow> aligned bits ws \<Longrightarrow> len = bits + cur \<Longrightarrow> 0 < cur \<Longrightarrow> cur \<le> sum_list ws \<Longrightarrow>
    drop depth (dimensions root) = ws \<Longrightarrow> tree_bytes t \<le> unat (dt_allocated root) \<Longrightarrow>
    \<exists>r t' root'. dir_sub_insert os g bits len cur v depth behavior t root = Some (r, t', root') \<and>
      root_step root root' t t' \<and> (r = RT_SUCCESS \<or> r = MEM_ALLOC_FAILURE) \<and>
      (r = RT_SUCCESS \<longrightarrow> prefix_upd (dir_upd behavior len v) g len bits ws t t')"
proof (induction ws arbitrary: t bits cur depth root)
  case (Cons w ws)
  let ?u = "dir_upd behavior len v"
  obtain slots c f where t: "t = Sub w slots c f" using Cons.prems(1) by (cases t) auto
  have wf: "wf_sub bits (w # ws) (Sub w slots c f)" "length slots = 2 ^ w" using Cons.prems(1) t by auto
  have bg: "bits < 32 * length g" using Cons.prems(3,4) g by linarith
  have bw: "bits + w \<le> 32 * length g" by (rule aligned_bound [OF Cons.prems(2) bg])
  define i where "i = pfx g (bits + w) mod 2 ^ w"
  have si: "slot_index g bits w = Some i" unfolding i_def
    by (rule slot_index_pfx) (use Cons.prems(2) bg g in auto)
  have il: "i < length slots" by (simp add: i_def wf(2))
  show ?case
  proof (cases "cur \<le> w")
    case True
    let ?lo = "i div 2 ^ (w - cur) * 2 ^ (w - cur)" and ?hi = "2 ^ (w - cur) + i div 2 ^ (w - cur) * 2 ^ (w - cur)"
    have r: "?lo \<le> ?hi" "?hi \<le> 2 ^ w" using block_end [OF True, of i] il wf(2) by simp_all
    have lb: "len \<le> bits + w" using True Cons.prems(3) by simp
    note prefix = range_prefix [OF _ True bw, folded i_def, where t = t and ws = ws]
    show ?thesis
    proof (cases "behavior = RT_FAVOR_TIME")
      case time: True
      obtain t' a' where "dir_fill_all (dt_allocated root) ?lo ?hi len v t = Some (t', a')"
        "range_upd (\<lambda>_. (v, len)) bits w ws ?lo ?hi t t'"
        "unat a' + tree_bytes t = unat (dt_allocated root) + tree_bytes t' \<and> unat a' \<le> unat (dt_allocated root)"
        using fill_all_ok [OF v lb Cons.prems(1) r Cons.prems(7)] by blast
      then show ?thesis using True time si t prefix [of "\<lambda>_. (v, len)" t'] Cons.prems(3)
        by (auto simp: root_step_def dir_upd_def)
    next
      case False
      obtain t' where "dir_fill_less_specific ?lo ?hi len v t = Some t'"
        "range_upd (upd_less len v) bits w ws ?lo ?hi t t'" "tree_bytes t' = tree_bytes t"
        using fill_less_ok [OF v lb Cons.prems(1) r] by blast
      then show ?thesis using True False si t prefix [of "upd_less len v" t'] Cons.prems(3)
        by (simp add: root_step_def dir_upd_def Let_def)
    qed
  next
    case False
    have cur: "w < cur" "len = (bits + w) + (cur - w)" "0 < cur - w" "cur - w \<le> sum_list ws" "len = bits + cur"
      using False Cons.prems(3,5) by auto
    have al: "aligned (bits + w) ws" using Cons.prems(2) by simp
    have dr: "drop (Suc depth) (dimensions root) = ws" "depth < length (dimensions root)"
      using Cons.prems(6) by (metis drop_Suc list.sel(3) tl_drop, metis drop_all list.distinct(1) not_le)
    note IH = Cons.IH [OF _ al cur(2,3,4)]
    have step: "prefix_upd ?u g len bits (w # ws) t (Sub w (slots[i := Ptr t']) c' f')"
      if p: "prefix_upd ?u g len (bits + w) ws s t'" and f': "f' = f + 1 - (if nonempty (slots ! i) then 1 else 0)"
        and s: "\<And>h. fits h (bits + w) ws \<Longrightarrow> dir_sub_lookup h (bits + w) s = slot_lookup h (bits + w) (slots ! i)" for s t' c' f'
    proof -
      have "prefix_upd ?u g (bits + cur) bits (w # ws) (Sub w slots c f) (Sub w (slots[i := Ptr t']) c' f')"
      proof (rule put_slot [OF wf(1) bw cur(1) _ i_def])
        show "bits + cur \<le> 32 * length g" using cur(5) g by simp
        show "slot_ok (bits + w) (wf_sub (bits + w) ws) (Ptr t')" using p by (simp add: slot_ok_def prefix_upd_def)
        show "f' = f + (if nonempty (Ptr t') then 1 else 0) - (if nonempty (slots ! i) then 1 else 0)"
          using f' by (simp add: nonempty_def)
        show "cur \<le> sum_list (w # ws)" by (rule Cons.prems(5))
        show "slot_lookup h (bits + w) (Ptr t') = (if pfx h (bits + cur) = pfx g (bits + cur)
            then map_option ?u (slot_lookup h (bits + w) (slots ! i)) else slot_lookup h (bits + w) (slots ! i))"
          if "fits h (bits + w) ws" "pfx h (bits + w) = pfx g (bits + w)" for h
          using p s [OF that(1)] that cur(5) by (simp add: prefix_upd_def slot_lookup_def)
      qed
      then show ?thesis using t cur(5) by simp
    qed
    show ?thesis
    proof (cases "slots ! i")
      case (Ptr s)
      have ws: "wf_sub (bits + w) ws s" using slot_nth_ok [OF wf(1), of i] il wf(2) Ptr by (simp add: slot_ok_def)
      have "tree_bytes s \<le> unat (dt_allocated root)"
        using tree_bytes_nth [OF il Ptr, of w c f] Cons.prems(7) t by simp
      then obtain r t' root' where ih: "dir_sub_insert os g (bits + w) len (cur - w) v (Suc depth) behavior s root = Some (r, t', root')"
        "root_step root root' s t'" "r = RT_SUCCESS \<or> r = MEM_ALLOC_FAILURE"
        "r = RT_SUCCESS \<longrightarrow> prefix_upd ?u g len (bits + w) ws s t'"
        using IH [OF ws dr(1)] by auto
      moreover have "root_step root root' t (Sub w (slots[i := Ptr t']) c f)"
        unfolding t by (rule root_step_put [OF ih(2) il Ptr])
      moreover have "r = RT_SUCCESS \<Longrightarrow> prefix_upd ?u g len bits (w # ws) t (Sub w (slots[i := Ptr t']) c f)"
        by (rule step [of s]) (use ih(4) Ptr in \<open>simp_all add: nonempty_def slot_lookup_def\<close>)
      ultimately show ?thesis using si il False Ptr t by simp
    next
      case (Val e l)
      have ok: "slot_ok (bits + w) (wf_sub (bits + w) ws) (Val e l)" using slot_nth_ok [OF wf(1), of i] il wf(2) Val by simp
      obtain w' vs where vs: "ws = w' # vs" using cur(3,4) by (cases ws) auto
      let ?s = "Sub w' (replicate (2 ^ w') (Val e l)) 0 (if e = 0 then 0 else 2 ^ w')"
      let ?f = "if e = 0 then f + 1 else f"
      note ok' = slot_ok_mono [OF ok le_add1 [of _ w'], where ok' = "wf_sub (bits + w + w') vs"]
      have nz: "\<not> (e \<noteq> 0 \<and> l = 0)" using slot_nonempty [OF ok] by blast
      have b128: "bits + w \<le> 128" using bw g(2) by linarith
      consider (fail) "sub_table_new os root (Suc depth) (ucast e) (unat l) = Some (None, root)"
        | (new) s root1 where "sub_table_new os root (Suc depth) (ucast e) (unat l) = Some (Some s, root1)"
          "dimensions root1 = dimensions root" "dt_mem_cap root1 = dt_mem_cap root"
          "unat (dt_allocated root1) = unat (dt_allocated root) + sub_bytes (2 ^ w')"
          "unat (dt_allocated root1) \<le> unat (dt_mem_cap root)" "s = ?s"
        using sub_table_new_ok [OF dr(1) [unfolded vs] ok b128, of os] by blast
      then show ?thesis
      proof cases
        case fail
        have "slots_bytes (slots[i := Val 0 0]) = slots_bytes slots"
          using slots_bytes_put_range [of i "Suc i" slots "[Val 0 0]"] il Val by (simp add: list_update_range in_range_one)
        then have "root_step root root t (Sub w (slots[i := Val 0 0]) (c + 1) ?f)" by (simp add: root_step_def t)
        then show ?thesis using si il False Val t nz dr(2) fail by simp
      next
        case new
        have sb: "tree_bytes s = sub_bytes (2 ^ w')" "tree_bytes s \<le> unat (dt_allocated root1)" using new(4,6) by simp_all
        have swf: "wf_sub (bits + w) ws s" unfolding vs new(6) by (rule new_sub_wf [OF ok'])
        obtain r t' root' where ih: "dir_sub_insert os g (bits + w) len (cur - w) v (Suc depth) behavior s root1 = Some (r, t', root')"
          "root_step root1 root' s t'" "r = RT_SUCCESS \<or> r = MEM_ALLOC_FAILURE"
          "r = RT_SUCCESS \<longrightarrow> prefix_upd ?u g len (bits + w) ws s t'"
          using IH [where t = s and root = root1 and depth = "Suc depth"] swf sb new(2) dr(1) vs by auto
        have "slots_bytes (slots[i := Ptr t']) = slots_bytes slots + tree_bytes t'"
          using slots_bytes_put_range [of i "Suc i" slots "[Ptr t']"] il Val by (simp add: list_update_range in_range_one)
        then have "root_step root root' t (Sub w (slots[i := Ptr t']) (c + 1) ?f)"
          using ih(2) new(2-5) sb by (simp add: root_step_def t)
        moreover have "r = RT_SUCCESS \<Longrightarrow> prefix_upd ?u g len bits (w # ws) t (Sub w (slots[i := Ptr t']) (c + 1) ?f)"
        proof (rule step [of s])
          show "dir_sub_lookup h (bits + w) s = slot_lookup h (bits + w) (slots ! i)" if "fits h (bits + w) ws" for h
            using new_sub_lookup [OF ok'] that vs Val new(6) by metis
        qed (use ih(4) Val in \<open>simp_all add: nonempty_def\<close>)
        ultimately show ?thesis using si il False Val t nz dr(2) new(1) ih(1,3) by simp
      qed
    qed
  qed
qed simp

section \<open>Removal\<close>

lemma dir_sub_remove_ok:
  assumes l: "0 < len" and g: "len \<le> 32 * length g" "length g \<le> 4" and b: "behavior \<noteq> RT_FAVOR_TIME"
  shows "wf_sub bits ws t \<Longrightarrow> aligned bits ws \<Longrightarrow> len = bits + cur \<Longrightarrow> 0 < cur \<Longrightarrow> cur \<le> sum_list ws \<Longrightarrow>
    tree_bytes t \<le> unat (dt_allocated root) \<Longrightarrow>
    \<exists>vi t' root'. dir_sub_remove g bits len cur behavior t root = Some (vi, t', root') \<and>
      root_step root root' t t' \<and> prefix_upd (clear_less len) g len bits ws t t'"
proof (induction ws arbitrary: t bits cur root)
  case (Cons w ws)
  obtain slots c f where t: "t = Sub w slots c f" using Cons.prems(1) by (cases t) auto
  have wf: "wf_sub bits (w # ws) (Sub w slots c f)" "length slots = 2 ^ w" using Cons.prems(1) t by auto
  have bg: "bits < 32 * length g" using Cons.prems(3,4) g by linarith
  have bw: "bits + w \<le> 32 * length g" by (rule aligned_bound [OF Cons.prems(2) bg])
  define i where "i = pfx g (bits + w) mod 2 ^ w"
  have si: "slot_index g bits w = Some i" unfolding i_def
    by (rule slot_index_pfx) (use Cons.prems(2) bg g in auto)
  have il: "i < length slots" by (simp add: i_def wf(2))
  show ?case
  proof (cases "cur \<le> w")
    case True
    let ?lo = "i div 2 ^ (w - cur) * 2 ^ (w - cur)" and ?hi = "2 ^ (w - cur) + i div 2 ^ (w - cur) * 2 ^ (w - cur)"
    have r: "?lo \<le> ?hi" "?hi \<le> 2 ^ w" using block_end [OF True, of i] il wf(2) by simp_all
    obtain vi t' a' where "dir_remove_less_specific (dt_allocated root) ?lo ?hi len t = Some (vi, t', a')"
      "range_upd (clear_less len) bits w ws ?lo ?hi t t'"
      "unat a' + tree_bytes t = unat (dt_allocated root) + tree_bytes t' \<and> unat a' \<le> unat (dt_allocated root)"
      using remove_less_ok [OF l Cons.prems(1) r Cons.prems(6)] by blast
    then show ?thesis using True b si t range_prefix [OF _ True bw, folded i_def, where t = t and ws = ws] Cons.prems(3)
      by (auto simp: root_step_def Let_def)
  next
    case False
    have cur: "w < cur" "len = (bits + w) + (cur - w)" "0 < cur - w" "cur - w \<le> sum_list ws" "len = bits + cur"
      using False Cons.prems(3,5) by auto
    have al: "aligned (bits + w) ws" using Cons.prems(2) by simp
    have step: "prefix_upd (clear_less len) g len bits (w # ws) t (Sub w (slots[i := s']) c f')"
      if ok: "slot_ok (bits + w) (wf_sub (bits + w) ws) s'"
        and f': "f' = f + (if nonempty s' then 1 else 0) - (if nonempty (slots ! i) then 1 else 0)"
        and s: "\<And>h. fits h (bits + w) ws \<Longrightarrow> pfx h (bits + w) = pfx g (bits + w) \<Longrightarrow>
          slot_lookup h (bits + w) s' = (if pfx h len = pfx g len
            then map_option (clear_less len) (slot_lookup h (bits + w) (slots ! i)) else slot_lookup h (bits + w) (slots ! i))"
      for s' f'
    proof -
      have "prefix_upd (clear_less len) g (bits + cur) bits (w # ws) (Sub w slots c f) (Sub w (slots[i := s']) c f')"
      proof (rule put_slot [OF wf(1) bw cur(1) _ i_def ok f' _ Cons.prems(5)])
        show "bits + cur \<le> 32 * length g" using cur(5) g(1) by simp
        show "slot_lookup h (bits + w) s' = (if pfx h (bits + cur) = pfx g (bits + cur)
            then map_option (clear_less len) (slot_lookup h (bits + w) (slots ! i)) else slot_lookup h (bits + w) (slots ! i))"
          if "fits h (bits + w) ws" "pfx h (bits + w) = pfx g (bits + w)" for h
          using s [OF that] cur(5) by (simp only:)
      qed
      then show ?thesis using t cur(5) by simp
    qed
    show ?thesis
    proof (cases "slots ! i")
      case (Val e m)
      have ok: "slot_ok (bits + w) (wf_sub (bits + w) ws) (Val e m)"
        using slot_nth_ok [OF wf(1), of i] il wf(2) Val by simp
      then have m: "clear_less len (e, unat m) = (e, unat m)" using cur(1,5) by (simp add: clear_less_def slot_ok_def)
      have "prefix_upd (clear_less len) g len bits (w # ws) t t"
      proof -
        have u: "slots[i := Val e m] = slots" using Val by (metis list_update_id)
        have "slot_lookup h (bits + w) (Val e m) = Some (e, unat m)" for h
          using ok by (auto simp: slot_lookup_def slot_ok_def)
        then show ?thesis using step [OF ok, of f] m unfolding Val u t by simp
      qed
      then show ?thesis using si il False Val t slot_nonempty [OF ok] by (auto simp: root_step_def)
    next
      case (Ptr s)
      have ws: "wf_sub (bits + w) ws s" using slot_nth_ok [OF wf(1), of i] il wf(2) Ptr by (simp add: slot_ok_def)
      have sb: "tree_bytes s \<le> unat (dt_allocated root)"
        using tree_bytes_nth [OF il Ptr, of w c f] Cons.prems(6) t by simp
      obtain vi t' root1 where ih: "dir_sub_remove g (bits + w) len (cur - w) behavior s root = Some (vi, t', root1)"
        "root_step root root1 s t'" "prefix_upd (clear_less len) g len (bits + w) ws s t'"
        using Cons.IH [OF ws al cur(2,3,4) sb] by auto
      have wf': "wf_sub (bits + w) ws t'" using ih(3) by (simp add: prefix_upd_def)
      have look: "dir_sub_lookup h (bits + w) t' = (if pfx h len = pfx g len
          then map_option (clear_less len) (slot_lookup h (bits + w) (slots ! i)) else slot_lookup h (bits + w) (slots ! i))"
        if "fits h (bits + w) ws" "pfx h (bits + w) = pfx g (bits + w)" for h
        using ih(3) that Ptr by (simp add: prefix_upd_def slot_lookup_def)
      show ?thesis
      proof (cases "sub_filled t' = 0")
        case True
        have le: "tree_bytes t' \<le> unat (dt_allocated root1)" using ih(2) sb by (simp add: root_step_def)
        obtain a where a: "sub_table_free (dt_allocated root1) t' = Some a"
          "unat a + tree_bytes t' = unat (dt_allocated root1)" using sub_table_free_ok [OF wf' le] by blast
        have "slots_bytes (slots[i := Val 0 0]) + tree_bytes s = slots_bytes slots"
          using slots_bytes_put_range [of i "Suc i" slots "[Val 0 0]"] il Ptr by (simp add: list_update_range in_range_one)
        then have "root_step root (root1\<lparr>dt_allocated := a, dt_cur_num := dt_cur_num root1 - 1\<rparr>) t (Sub w (slots[i := Val 0 0]) c (f - 1))"
          using ih(2) a(2) t by (simp add: root_step_def)
        moreover have "prefix_upd (clear_less len) g len bits (w # ws) t (Sub w (slots[i := Val 0 0]) c (f - 1))"
          by (rule step) (use look empty_lookup [OF wf' _ True] Ptr in \<open>simp_all add: slot_ok_def nonempty_def slot_lookup_def\<close>)
        ultimately show ?thesis using si il False Ptr t ih(1) True a(1) by simp
      next
        case ne: False
        have "prefix_upd (clear_less len) g len bits (w # ws) t (Sub w (slots[i := Ptr t']) c f)"
          by (rule step) (use look wf' Ptr in \<open>simp_all add: slot_ok_def nonempty_def slot_lookup_def\<close>)
        then show ?thesis using si il False Ptr t ih(1) ne root_step_put [OF ih(2) il Ptr] by simp
      qed
    qed
  qed
qed simp

section \<open>Sequences of operations\<close>

datatype dir_op = Insert bytes nat u64 rt_behavior | Remove bytes nat

fun dir_step :: "(u32 \<Rightarrow> bool) \<Rightarrow> dir_op \<Rightarrow> dir_table option \<Rightarrow> (rt_code \<times> dir_table option) option" where
  "dir_step os (Insert adr len v behavior) t = sfrt_dir_insert os adr len v behavior t"
| "dir_step os (Remove adr len) t = map_option (\<lambda>(_, t'). (RT_SUCCESS, t')) (sfrt_dir_remove adr len RT_FAVOR_SPECIFIC t)"

fun dir_run :: "(u32 \<Rightarrow> bool) \<Rightarrow> dir_op list \<Rightarrow> dir_table option \<Rightarrow> (rt_code \<times> dir_table option) option" where
  \<comment> \<open>up to the first operation that fails\<close>
  "dir_run os [] t = Some (RT_SUCCESS, t)"
| "dir_run os (x # xs) t =
     (case dir_step os x t of
        None \<Rightarrow> None
      | Some (r, t') \<Rightarrow> if r = RT_SUCCESS then dir_run os xs t' else Some (r, t'))"

definition in_prefix :: "nat \<Rightarrow> bytes \<Rightarrow> bytes \<Rightarrow> nat \<Rightarrow> bool" where
  \<comment> \<open>the address \<open>a\<close> of \<open>n\<close> words lies in \<open>adr/len\<close>\<close>
  "in_prefix n a adr len \<longleftrightarrow> pfx (adr_words a n) len = pfx (adr_words adr n) len"

fun spec_step :: "nat \<Rightarrow> dir_op \<Rightarrow> (bytes \<Rightarrow> u64 \<times> nat) \<Rightarrow> bytes \<Rightarrow> u64 \<times> nat" where
  \<comment> \<open>a table as the function from addresses to index and prefix length\<close>
  "spec_step n (Insert adr len v behavior) f a = (if in_prefix n a adr len then dir_upd behavior len v (f a) else f a)"
| "spec_step n (Remove adr len) f a = (if in_prefix n a adr len then clear_less len (f a) else f a)"

fun op_ok :: "nat \<Rightarrow> dir_op \<Rightarrow> bool" where
  "op_ok n (Insert adr len v behavior) = (0 < len \<and> len \<le> 32 * n \<and> v \<noteq> 0 \<and> unat v < 2 ^ 31)"
| "op_ok n (Remove adr len) = (0 < len \<and> len \<le> 32 * n)"

definition dims_ok :: "nat \<Rightarrow> nat list \<Rightarrow> bool" where
  "dims_ok n dims \<longleftrightarrow> n \<le> 4 \<and> aligned 0 dims \<and> sum_list dims = 32 * n"

definition dir_inv :: "nat \<Rightarrow> dir_table \<Rightarrow> bool" where
  "dir_inv n t \<longleftrightarrow> dims_ok n (dimensions (dt_root t)) \<and> wf_sub 0 (dimensions (dt_root t)) (sub_table t) \<and>
     unat (dt_allocated (dt_root t)) = tree_bytes (sub_table t) + 32 + 4 * length (dimensions (dt_root t))"

definition dir_sem :: "nat \<Rightarrow> dir_table \<Rightarrow> (bytes \<Rightarrow> u64 \<times> nat) \<Rightarrow> bool" where
  "dir_sem n t f \<longleftrightarrow> (\<forall>a. sfrt_dir_lookup a n (Some t) = Some (f a))"

lemma adr_words_length [simp]: "length (adr_words a n) = n"
  by (simp add: adr_words_def)

lemma adr_words_take: "k \<le> n \<Longrightarrow> adr_words a k = take k (adr_words a n)"
  by (simp add: adr_words_def take_map)

lemma prefix_words_ok: "len \<le> 32 * n \<Longrightarrow> n \<le> 4 \<Longrightarrow> 0 < len \<Longrightarrow> len \<le> 32 * prefix_words len \<and> prefix_words len \<le> n"
  by (auto simp: prefix_words_def)

lemma pfx_words: "len \<le> 32 * n \<Longrightarrow> n \<le> 4 \<Longrightarrow> 0 < len \<Longrightarrow> pfx (adr_words a (prefix_words len)) len = pfx (adr_words a n) len"
  using prefix_words_ok [of len n] by (simp add: adr_words_take [of "prefix_words len" n] pfx_take)

lemma prefix_upd_sem:
  assumes p: "prefix_upd u (adr_words adr (prefix_words len)) len 0 dims s s'" and d: "dims_ok n dims"
    and len: "0 < len" "len \<le> 32 * n"
    and f: "dir_sub_lookup (adr_words a n) 0 s = Some (f a)"
  shows "dir_sub_lookup (adr_words a n) 0 s' = Some (if in_prefix n a adr len then u (f a) else f a)"
proof -
  have "fits (adr_words a n) 0 dims" using d by (simp add: fits_def dims_ok_def)
  then show ?thesis using p f pfx_words [OF len(2) _ len(1), of adr] d
    by (simp add: prefix_upd_def in_prefix_def dims_ok_def)
qed

lemma dir_sem_exists: "dir_inv n t \<Longrightarrow> \<exists>e l. sfrt_dir_lookup a n (Some t) = Some (e, l) \<and> (e = 0 \<longleftrightarrow> l = 0) \<and>
    unat e < 2 ^ 31 \<and> l \<le> 32 * n"
  using lookup_total [of 0 "dimensions (dt_root t)" "sub_table t" "adr_words a n" 0]
  by (auto simp: dir_inv_def dims_ok_def fits_def sfrt_dir_lookup_def)

lemma dir_new_ok:
  assumes d: "dims_ok n dims" "dims \<noteq> []" and cap: "unat mem_cap + 32 + 4 * length dims < 2 ^ 32"
    and new: "sfrt_dir_new os mem_cap dims = Some (Some t)"
  shows "dir_inv n t \<and> dir_sem n t (\<lambda>_. (0, 0)) \<and> dimensions (dt_root t) = dims \<and> dt_mem_cap (dt_root t) = mem_cap \<and>
    unat (dt_allocated (dt_root t)) \<le> unat mem_cap + 32 + 4 * length dims"
proof -
  let ?root = "\<lparr>dimensions = dims, dt_mem_cap = mem_cap, dt_cur_num = 0, dt_allocated = 0\<rparr>"
  obtain w ws where ws: "dims = w # ws" using d(2) by (cases dims) auto
  have z: "slot_ok b ok (Val 0 0)" for b ok by (simp add: slot_ok_def)
  let ?s = "Sub w (replicate (2 ^ w) (Val 0 0)) 0 0"
  obtain root1 where r: "sub_table_new os ?root 0 0 0 = Some (Some ?s, root1)" "dimensions root1 = dims"
    "dt_mem_cap root1 = mem_cap" "unat (dt_allocated root1) = sub_bytes (2 ^ w)" "unat (dt_allocated root1) \<le> unat mem_cap"
    using sub_table_new_ok [of 0 ?root w ws 0 _ 0 0 os, OF _ z] new ws by (auto simp: sfrt_dir_new_def)
  have t: "t = \<lparr>dt_root = root1\<lparr>dt_allocated := dt_allocated root1 + of_nat (32 + 4 * length dims)\<rparr>, sub_table = ?s\<rparr>"
    using new r(1) by (simp add: sfrt_dir_new_def)
  have u: "unat (of_nat (32 + 4 * length dims) :: u32) = 32 + 4 * length dims"
    by (intro unat_of_nat_u32) (use cap in simp)
  have a: "unat (dt_allocated (dt_root t)) = sub_bytes (2 ^ w) + 32 + 4 * length dims"
    using unat_add_lem [where x = "dt_allocated root1" and y = "of_nat (32 + 4 * length dims)"] r(4,5) u cap t by simp
  have wf: "wf_sub 0 dims (sub_table t)" using new_sub_wf [OF z, where w = w and b = 0 and ws = ws] t ws by simp
  have "dir_sub_lookup (adr_words a n) 0 (sub_table t) = Some (0, 0)" for a
    by (rule empty_lookup [OF wf]) (use d(1) t in \<open>simp_all add: fits_def dims_ok_def\<close>)
  then show ?thesis using wf a r t d(1) by (simp add: dir_inv_def dir_sem_def sfrt_dir_lookup_def)
qed

lemma dir_step_ok:
  assumes inv: "dir_inv n t" and sem: "dir_sem n t f" and ok: "op_ok n x"
  shows "\<exists>r t'. dir_step os x (Some t) = Some (r, Some t') \<and> (r = RT_SUCCESS \<or> r = MEM_ALLOC_FAILURE) \<and>
    dimensions (dt_root t') = dimensions (dt_root t) \<and> dt_mem_cap (dt_root t') = dt_mem_cap (dt_root t) \<and>
    unat (dt_allocated (dt_root t')) \<le> max (unat (dt_allocated (dt_root t))) (unat (dt_mem_cap (dt_root t))) \<and>
    (r = RT_SUCCESS \<longrightarrow> dir_inv n t' \<and> dir_sem n t' (spec_step n x f))"
proof -
  let ?dims = "dimensions (dt_root t)"
  have d: "dims_ok n ?dims" "n \<le> 4" "aligned 0 ?dims" "sum_list ?dims = 32 * n" "wf_sub 0 ?dims (sub_table t)"
    "tree_bytes (sub_table t) \<le> unat (dt_allocated (dt_root t))"
    using inv by (simp_all add: dir_inv_def dims_ok_def)
  have look: "dir_sub_lookup (adr_words a n) 0 (sub_table t) = Some (f a)" for a
    using sem by (simp add: dir_sem_def sfrt_dir_lookup_def)
  show ?thesis
  proof (cases x)
    case (Insert adr len v behavior)
    then have v: "0 < len" "len \<le> 128" "v \<noteq> 0" "unat v < 2 ^ 31" "len \<le> 32 * n" using ok d(2) by auto
    let ?g = "adr_words adr (prefix_words len)"
    have g: "len \<le> 32 * length ?g" "length ?g \<le> 4" using prefix_words_ok [OF v(5) d(2) v(1)] d(2) by auto
    have cur: "len = 0 + len" "len \<le> sum_list ?dims" using v(5) d(4) by simp_all
    obtain r s root where "dir_sub_insert os ?g 0 len len v 0 behavior (sub_table t) (dt_root t) = Some (r, s, root)"
      "root_step (dt_root t) root (sub_table t) s" "r = RT_SUCCESS \<or> r = MEM_ALLOC_FAILURE"
      "r = RT_SUCCESS \<longrightarrow> prefix_upd (dir_upd behavior len v) ?g len 0 ?dims (sub_table t) s"
      using dir_sub_insert_ok [OF v(1-4) g d(5,3) cur(1) v(1) cur(2) drop_0 d(6)] by blast
    then show ?thesis using inv prefix_upd_sem [where f = f and u = "dir_upd behavior len v" and adr = adr and s' = s, OF _ d(1) v(1,5) look] Insert
      by (auto simp: sfrt_dir_insert_def root_step_def dir_inv_def dir_sem_def sfrt_dir_lookup_def prefix_upd_def)
  next
    case (Remove adr len)
    then have v: "0 < len" "len \<le> 32 * n" using ok by auto
    let ?g = "adr_words adr (prefix_words len)"
    have g: "len \<le> 32 * length ?g" "length ?g \<le> 4" using prefix_words_ok [OF v(2) d(2) v(1)] d(2) by auto
    have cur: "len = 0 + len" "len \<le> sum_list ?dims" using v(2) d(4) by simp_all
    obtain vi s root where "dir_sub_remove ?g 0 len len RT_FAVOR_SPECIFIC (sub_table t) (dt_root t) = Some (vi, s, root)"
      "root_step (dt_root t) root (sub_table t) s" "prefix_upd (clear_less len) ?g len 0 ?dims (sub_table t) s"
      using dir_sub_remove_ok [OF v(1) g _ d(5,3) cur(1) v(1) cur(2) d(6), of RT_FAVOR_SPECIFIC] by blast
    then show ?thesis using inv prefix_upd_sem [where f = f and u = "clear_less len" and adr = adr and s' = s, OF _ d(1) v look] Remove
      by (auto simp: sfrt_dir_remove_def root_step_def dir_inv_def dir_sem_def sfrt_dir_lookup_def prefix_upd_def)
  qed
qed

text \<open> C3. A DIR-n-m table and any sequence of insertions and of removals favouring the specific:
  no index leaves an array and no number is followed as a pointer, \<open>allocated\<close> never exceeds
  the cap by more than the fixed header, and, unless an allocation fails, the lookup of every
  address is what the insertions and removals of the prefixes it lies in make of it: the most
  recent prefix wins with \<open>RT_FAVOR_TIME\<close>, the longest with \<open>RT_FAVOR_SPECIFIC\<close>, and a removal
  deletes what its prefix length put there.\<close>
theorem sfrt_dir_refines:
  assumes "dims_ok n dims" and "dims \<noteq> []" and "unat mem_cap + 32 + 4 * length dims < 2 ^ 32"
    and "sfrt_dir_new os mem_cap dims = Some (Some t)" and "list_all (op_ok n) ops"
  shows "\<exists>r t'. dir_run os ops (Some t) = Some (r, Some t') \<and>
    unat (sfrt_dir_usage (Some t')) \<le> unat mem_cap + 32 + 4 * length dims \<and>
    (r = RT_SUCCESS \<and> (\<forall>a. sfrt_dir_lookup a n (Some t') = Some (fold (spec_step n) ops (\<lambda>_. (0, 0)) a)) \<or>
     r = MEM_ALLOC_FAILURE)"
proof -
  note new = dir_new_ok [OF assms(1-4)]
  have "list_all (op_ok n) ops \<Longrightarrow> dir_inv n t \<Longrightarrow> dir_sem n t f \<Longrightarrow> dt_mem_cap (dt_root t) = mem_cap \<Longrightarrow>
      unat (dt_allocated (dt_root t)) \<le> unat mem_cap + 32 + 4 * length dims \<Longrightarrow>
      \<exists>r t'. dir_run os ops (Some t) = Some (r, Some t') \<and>
        unat (sfrt_dir_usage (Some t')) \<le> unat mem_cap + 32 + 4 * length dims \<and>
        (r = RT_SUCCESS \<and> dir_sem n t' (fold (spec_step n) ops f) \<or> r = MEM_ALLOC_FAILURE)" for f
  proof (induction ops arbitrary: t f)
    case (Cons x xs)
    have ok: "op_ok n x" using Cons.prems(1) by simp
    obtain r t1 where t1: "dir_step os x (Some t) = Some (r, Some t1)" "r = RT_SUCCESS \<or> r = MEM_ALLOC_FAILURE"
      "dt_mem_cap (dt_root t1) = mem_cap" "unat (dt_allocated (dt_root t1)) \<le> unat mem_cap + 32 + 4 * length dims"
      "r = RT_SUCCESS \<longrightarrow> dir_inv n t1 \<and> dir_sem n t1 (spec_step n x f)"
      using dir_step_ok [OF Cons.prems(2,3) ok, of os] Cons.prems(4,5) by force
    then show ?case using Cons.IH [of t1 "spec_step n x f"] Cons.prems(1) by (auto simp: sfrt_dir_usage_def)
  qed (simp add: sfrt_dir_usage_def)
  then show ?thesis using new assms(5) by (simp add: dir_sem_def)
qed

definition dir_demo_dims :: "nat list" where
  "dir_demo_dims = replicate 16 2"

definition dir_demo :: dir_table where
  "dir_demo = the (the (sfrt_dir_new (\<lambda>_. True) 4096 dir_demo_dims))"

definition dir_demo_ops :: "dir_op list" where
  \<comment> \<open>160.0.0.0/3, 128.0.0.0/1, 160.0.0.0/5 and its removal\<close>
  "dir_demo_ops = [Insert [160, 0, 0, 0] 3 1 RT_FAVOR_SPECIFIC, Insert [128, 0, 0, 0] 1 2 RT_FAVOR_SPECIFIC,
     Insert [160, 0, 0, 0] 5 3 RT_FAVOR_TIME, Remove [128, 0, 0, 0] 1]"

lemma some_some: "\<not> Option.is_none x \<Longrightarrow> \<not> Option.is_none (the x) \<Longrightarrow> x = Some (Some (the (the x)))"
  by (cases x; cases "the x") auto

lemma sfrt_dir_refines_witness:
  "\<exists>t'. dir_run (\<lambda>_. True) dir_demo_ops (Some dir_demo) = Some (RT_SUCCESS, Some t') \<and>
    sfrt_dir_lookup [161, 7, 7, 7] 1 (Some t') = Some (3, 5) \<and>
    sfrt_dir_lookup [191, 7, 7, 7] 1 (Some t') = Some (1, 3) \<and>
    sfrt_dir_lookup [128, 7, 7, 7] 1 (Some t') = Some (0, 0) \<and>
    unat (sfrt_dir_usage (Some t')) \<le> 4192"
proof -
  have d: "dims_ok 1 dir_demo_dims" "dir_demo_dims \<noteq> []" "length dir_demo_dims = 16"
    by code_simp+
  have "\<not> Option.is_none (sfrt_dir_new (\<lambda>_. True) 4096 dir_demo_dims)"
    "\<not> Option.is_none (the (sfrt_dir_new (\<lambda>_. True) 4096 dir_demo_dims))" by code_simp+
  then have new: "sfrt_dir_new (\<lambda>_. True) 4096 dir_demo_dims = Some (Some dir_demo)"
    unfolding dir_demo_def by (rule some_some)
  have w: "adr_words [161, 7, 7, 7] (Suc 0) = [0xA1070707]" "adr_words [191, 7, 7, 7] (Suc 0) = [0xBF070707]"
    "adr_words [128, 7, 7, 7] (Suc 0) = [0x80070707]" "adr_words [160, 0, 0, 0] (Suc 0) = [0xA0000000]"
    "adr_words [128, 0, 0, 0] (Suc 0) = [0x80000000]"
    by code_simp+
  have ok: "list_all (op_ok 1) dir_demo_ops" by (simp add: dir_demo_ops_def)
  have cap: "unat (4096 :: u32) + 32 + 4 * length dir_demo_dims < 2 ^ 32" using d(3) by simp
  obtain r t' where run: "dir_run (\<lambda>_. True) dir_demo_ops (Some dir_demo) = Some (r, Some t')"
    "unat (sfrt_dir_usage (Some t')) \<le> unat (4096 :: u32) + 32 + 4 * 16"
    "r = RT_SUCCESS \<and> (\<forall>a. sfrt_dir_lookup a 1 (Some t') = Some (fold (spec_step 1) dir_demo_ops (\<lambda>_. (0, 0)) a)) \<or>
     r = MEM_ALLOC_FAILURE"
    using sfrt_dir_refines [OF d(1,2) cap new ok] unfolding d(3) by blast
  have "map_option fst (dir_run (\<lambda>_. True) dir_demo_ops (Some dir_demo)) = Some RT_SUCCESS" by code_simp
  then have "r = RT_SUCCESS" using run(1) by simp
  moreover have "fold (spec_step 1) dir_demo_ops (\<lambda>_. (0, 0)) [161, 7, 7, 7] = (3, 5)"
    "fold (spec_step 1) dir_demo_ops (\<lambda>_. (0, 0)) [191, 7, 7, 7] = (1, 3)"
    "fold (spec_step 1) dir_demo_ops (\<lambda>_. (0, 0)) [128, 7, 7, 7] = (0, 0)"
    by (simp_all add: dir_demo_ops_def in_prefix_def w dir_upd_def upd_less_def clear_less_def)
  ultimately show ?thesis using run by simp
qed

end
