(* ===== verification/SfRtProps.thy ===== *)
theory SfRtProps
  imports SfRt SfRtDirProps
begin

text \<open>
  Routing tables: insertion and lookup implement longest prefix match, the fast lookup of
  the largest table type is the general one, and the places where they do not do what they
  mean to.
\<close>

section \<open>Tables of the code\<close>

lemma rt_dims_ok: "is_dir T \<Longrightarrow> rt6_dims T \<noteq> None \<Longrightarrow> dims_ok 1 (rt_dims T) \<and> dims_ok 4 (the (rt6_dims T))"
  by (cases T) (simp_all add: rt_dims_def rt6_dims_def dims_ok_def is_dir_def)

text \<open>Seven of the eleven table types have no table for IPv6 and are never created.\<close>

lemma sfrt_new_needs_rt6:
  "T \<in> {DIR_24_8, DIR_16x2, DIR_16_8x2, DIR_16_4x4, DIR_8x4, DIR_4x8, DIR_2x16} \<Longrightarrow>
    sfrt_new mem os T ip data_size cap = Some (Some t) \<Longrightarrow> False"
  by (auto simp: sfrt_new_def sfrt_tables_def rt6_dims_def bind_eq_Some_conv split: if_splits)

section \<open>Longest prefix match\<close>

record 'p route =
  r_ip :: sfaddr
  r_len :: u8
  r_ptr :: 'p

definition plen :: "'p route \<Rightarrow> nat" where
  "plen r = (if sf_inet (r_ip r) then unat (r_len r) - 96 else unat (r_len r))"

definition matches :: "sfaddr \<Rightarrow> 'p route \<Rightarrow> bool" where
  "matches a r \<longleftrightarrow> sf_inet a = sf_inet (r_ip r) \<and>
     in_prefix (snd (rt_adr a)) (fst (rt_adr a)) (fst (rt_adr (r_ip r))) (plen r)"

definition route_ok :: "'p route \<Rightarrow> bool" where
  \<comment> \<open>a prefix of at least one bit\<close>
  "route_ok r \<longleftrightarrow> unat (r_len r) \<le> 128 \<and> (if sf_inet (r_ip r) then 96 < unat (r_len r) else 0 < unat (r_len r))"

definition better :: "sfaddr \<Rightarrow> 'p route \<Rightarrow> 'p route option \<Rightarrow> 'p route option" where
  "better a r best =
     (if matches a r \<and> (case best of None \<Rightarrow> True | Some b \<Rightarrow> plen b \<le> plen r) then Some r else best)"

definition lpm :: "'p route list \<Rightarrow> sfaddr \<Rightarrow> 'p route option" where
  \<comment> \<open>the longest of the routes that match\<close>
  "lpm rs a = fold (better a) rs None"

definition same_route :: "'p route \<Rightarrow> 'p route \<Rightarrow> bool" where
  "same_route r s \<longleftrightarrow> matches (r_ip r) s \<and> plen r = plen s"

fun distinct_routes :: "'p route list \<Rightarrow> bool" where
  \<comment> \<open>no prefix occurs twice\<close>
  "distinct_routes [] = True"
| "distinct_routes (r # rs) = ((\<forall>s \<in> set rs. \<not> same_route s r) \<and> distinct_routes rs)"

lemma distinct_routes_append:
  "distinct_routes (rs @ ss) \<longleftrightarrow> distinct_routes rs \<and> distinct_routes ss \<and> (\<forall>r \<in> set rs. \<forall>s \<in> set ss. \<not> same_route s r)"
  by (induction rs) auto

fun sfrt_fill ::
    "(u32 \<Rightarrow> bool) \<Rightarrow> 'p route list \<Rightarrow> 'p rt_table option \<Rightarrow> (rt_code \<times> 'p rt_table option) option" where
  \<comment> \<open>up to the first insertion that fails\<close>
  "sfrt_fill os [] t = Some (RT_SUCCESS, t)"
| "sfrt_fill os (x # rs) t =
     (case sfrt_insert os (Some (r_ip x)) (r_len x) (Some (r_ptr x)) RT_FAVOR_SPECIFIC t of
        None \<Rightarrow> None
      | Some (r, t') \<Rightarrow> if r = RT_SUCCESS then sfrt_fill os rs t' else Some (r, t'))"

lemma lpm_snoc: "lpm (rs @ [r]) a = better a r (lpm rs a)"
  by (simp add: lpm_def)

lemma lpm_SomeD: "lpm rs a = Some r \<Longrightarrow> r \<in> set rs \<and> matches a r"
proof (induction rs rule: rev_induct)
  case (snoc s rs)
  then show ?case by (auto simp: lpm_snoc better_def split: if_splits option.splits)
qed (simp add: lpm_def)

lemma lpm_longest: "matches a s \<Longrightarrow> s \<in> set rs \<Longrightarrow> \<exists>r. lpm rs a = Some r \<and> plen s \<le> plen r"
proof (induction rs rule: rev_induct)
  case (snoc t rs)
  then show ?case by (cases "lpm rs a") (auto simp: lpm_snoc better_def)
qed simp

text \<open>The invariant of a table filled with the routes \<open>rs\<close>.\<close>

definition entry_of :: "'p rt_table \<Rightarrow> 'p route option \<Rightarrow> u64 \<times> nat \<Rightarrow> bool" where
  "entry_of t best x = (case best of
     None \<Rightarrow> x = (0, 0)
   | Some r \<Rightarrow> snd x = plen r \<and> unat (fst x) < length (rt_data t) \<and>
       rt_data t ! unat (fst x) = Some (r_ptr r))"

definition rt_inv :: "'p route list \<Rightarrow> 'p rt_table \<Rightarrow> bool" where
  "rt_inv rs t \<longleftrightarrow>
     (\<exists>d4 d6. rt t = Some d4 \<and> rt6 t = Some d6 \<and> dir_inv 1 d4 \<and> dir_inv 4 d6) \<and>
     length (rt_data t) = unat (max_size t) \<and> unat (max_size t) < 2 ^ 31 \<and>
     rt_data t ! 0 = None \<and> unat (num_ent t) = length rs + 1 \<and> unat (lastAllocatedIndex t) = length rs \<and>
     length rs < unat (max_size t) \<and>
     (\<forall>i. length rs < i \<longrightarrow> i < unat (max_size t) \<longrightarrow> rt_data t ! i = None) \<and>
     (\<forall>a. \<exists>x. rt_tuple a t = Some x \<and> entry_of t (lpm rs a) x)"

lemma rt_inv_lookup:
  assumes "rt_inv rs t"
  shows "sfrt_lookup (Some a) (Some t) = Some (map_option r_ptr (lpm rs a))"
proof -
  have d: "length (rt_data t) = unat (max_size t)" "rt_data t ! 0 = None" "0 < unat (max_size t)"
    using assms by (auto simp: rt_inv_def)
  obtain i l where x: "rt_tuple a t = Some (i, l)" "entry_of t (lpm rs a) (i, l)"
    using assms unfolding rt_inv_def by (metis prod.exhaust)
  show ?thesis
  proof (cases "lpm rs a")
    case None
    then show ?thesis using x d by (simp add: sfrt_lookup_def entry_of_def data_at_def)
  next
    case (Some r)
    then show ?thesis using x d by (simp add: sfrt_lookup_def entry_of_def data_at_def)
  qed
qed

text \<open>Enough fuel: from any index the search comes back to the last one in fewer than \<open>max_size\<close> steps.\<close>

lemma unat_below_succ: "unat (a :: u32) < unat (b :: u32) \<Longrightarrow> unat (a + 1) = unat a + 1"
proof -
  assume "unat a < unat b"
  then have "unat a + 1 < 4294967296" by (rule order_le_less_trans [OF Suc_leI [unfolded Suc_eq_plus1] unat_u32_bound])
  then show ?thesis by (simp add: unat_word_ariths)
qed

lemma free_index_total:
  assumes la: "unat la < unat mx" and data: "length data = unat mx"
  shows "unat index < unat mx \<Longrightarrow> (unat la + unat mx - unat index) mod unat mx < fuel \<Longrightarrow>
    free_index fuel data mx la index \<noteq> None"
proof (induction fuel arbitrary: index)
  case (Suc fuel)
  show ?case
  proof (cases "index = la")
    case False
    then have ne: "unat index \<noteq> unat la" by (simp add: word_unat_eq_iff)
    have "unat (index + 1) = unat index + 1"
      using Suc.prems(1) by (rule unat_below_succ)
    then have next': "unat ((index + 1) mod mx) = (unat index + 1) mod unat mx" by (simp add: unat_mod)
    have "unat ((index + 1) mod mx) < unat mx" using la by (simp add: next')
    moreover have "(unat la + unat mx - unat ((index + 1) mod mx)) mod unat mx < fuel"
    proof (cases "unat index + 1 = unat mx")
      case True
      then have "unat la + unat mx - unat index = unat la + 1" by linarith
      with True ne Suc.prems la show ?thesis by (simp add: next')
    next
      case lt: False
      show ?thesis
      proof (cases "unat index < unat la")
        case True
        have a: "unat la + unat mx - unat index = (unat la - unat index) + unat mx"
          "unat la + unat mx - (unat index + 1) = (unat la - unat index - 1) + unat mx" using True by linarith+
        have "(unat la + unat mx - unat index) mod unat mx = unat la - unat index"
          "(unat la + unat mx - (unat index + 1)) mod unat mx = unat la - unat index - 1"
          unfolding a using la by simp_all
        then show ?thesis using Suc.prems lt True by (simp add: next')
      next
        case F: False
        have "(unat la + unat mx - unat index) mod unat mx = unat la + unat mx - unat index"
          "(unat la + unat mx - (unat index + 1)) mod unat mx = unat la + unat mx - (unat index + 1)"
          using F ne Suc.prems(1) by auto
        then show ?thesis using Suc.prems lt F ne by (simp add: next')
      qed
    qed
    ultimately have "free_index fuel data mx la ((index + 1) mod mx) \<noteq> None" by (rule Suc.IH)
    moreover have "mx \<noteq> 0" using la by auto
    moreover have "free_index (Suc fuel) data mx la index =
        (if index = 0 \<or> data ! unat index \<noteq> None then free_index fuel data mx la ((index + 1) mod mx) else Some index)"
      unfolding free_index.simps using Suc.prems(1) data False \<open>mx \<noteq> 0\<close> by (simp only: if_False split: if_split) simp
    ultimately show ?thesis by (simp del: free_index.simps)
  qed simp
qed simp

lemma allocateTableIndex_total:
  assumes "unat (lastAllocatedIndex t) + 1 < unat (max_size t)" "length (rt_data t) = unat (max_size t)"
  shows "allocateTableIndex t \<noteq> None"
proof -
  have "unat (lastAllocatedIndex t + 1) = unat (lastAllocatedIndex t) + 1"
    using assms(1) by (intro unat_below_succ [of _ "max_size t"]) linarith
  moreover have "(unat (lastAllocatedIndex t) + unat (max_size t) - (unat (lastAllocatedIndex t) + 1)) mod unat (max_size t) < unat (max_size t) + 2"
    using assms(1) by (meson less_imp_le mod_less_divisor order_le_less_trans trans_less_add1 zero_le less_nat_zero_code neq0_conv)
  ultimately show ?thesis
    using free_index_total [of "lastAllocatedIndex t" "max_size t" "rt_data t" "lastAllocatedIndex t + 1" "unat (max_size t) + 2"] assms
    by (simp add: allocateTableIndex_def)
qed

lemma free_index_next:
  assumes "length data = unat mx" "unat la + 1 < unat mx" "data ! (unat la + 1) = None"
  shows "free_index (unat mx + 2) data mx la (la + 1) = Some (la + 1) \<and> unat (la + 1) = unat la + 1 \<and> la + 1 \<noteq> 0"
proof -
  have nz: "la + 1 \<noteq> 0"
    using assms(2) unat_u32_bound [of mx] word_succ_nonzero [of la mx] by (simp add: word_less_nat_alt)
  then have u: "unat (la + 1) = unat la + 1" using unat_succ by simp
  then have "la + 1 \<noteq> la" by (metis n_not_Suc_n Suc_eq_plus1)
  then show ?thesis using assms nz u by simp
qed

lemma rt_inv_put_data:
  assumes "entry_of t best x" "i < length (rt_data t)" "rt_data t ! i = None"
  shows "entry_of (t\<lparr>rt_data := (rt_data t)[i := p]\<rparr>) best x"
  using assms by (auto simp: entry_of_def nth_list_update split: option.splits)

lemma rt_fam: "rt_inv rs t \<Longrightarrow> \<exists>d. rt_of ip t = Some d \<and> dir_inv (snd (rt_adr ip)) d"
  by (auto simp: rt_inv_def rt_of_def rt_adr_def)

lemma route_len:
  assumes "route_ok r"
  shows "rt_len (r_ip r) (unat (r_len r)) = Some (plen r) \<and> 0 < plen r \<and> plen r \<le> 32 * snd (rt_adr (r_ip r))"
  using assms by (auto simp: route_ok_def rt_len_def plen_def rt_adr_def)

lemma put_rt_simps [simp]:
  "rt_data (put_rt ip d t) = rt_data t" "max_size (put_rt ip d t) = max_size t" "num_ent (put_rt ip d t) = num_ent t"
  "lastAllocatedIndex (put_rt ip d t) = lastAllocatedIndex t"
  by (simp_all add: put_rt_def)

lemma rt_of_put: "rt_of a (put_rt ip d t) = (if sf_inet a = sf_inet ip then d else rt_of a t)"
  by (auto simp: rt_of_def put_rt_def)

lemma unat_scast_index: "unat (i :: u32) < 2 ^ 31 \<Longrightarrow> unat (scast i :: u64) = unat i"
proof -
  assume a: "unat i < 2 ^ 31"
  have "int (unat i) < int (2 ^ 31)" using a by (rule of_nat_less_iff [THEN iffD2])
  then have u: "uint i < 2 ^ 31" by simp
  have l: "LENGTH(32) - Suc 0 = 31" by simp
  have "sint i = uint i" unfolding sint_uint l
    by (rule signed_take_bit_int_eq_self) (use u uint_ge_0 [of i] in linarith)+
  then have "(scast i :: u64) = ucast i" by (simp only: scast_eq ucast_eq \<open>sint i = uint i\<close>)
  then show ?thesis using a by (simp add: unsigned_ucast_eq take_bit_nat_eq_self)
qed

lemma dir_sem_the: "dir_inv n d \<Longrightarrow> dir_sem n d (\<lambda>a. the (sfrt_dir_lookup a n (Some d)))"
  unfolding dir_sem_def using dir_sem_exists by (metis option.sel)

lemma rt_tuple_of: "rt_tuple a t = sfrt_dir_lookup (fst (rt_adr a)) (snd (rt_adr a)) (rt_of a t)"
  by (simp add: rt_tuple_def split: prod.split)

lemma snd_rt_adr: "sf_inet a = sf_inet b \<Longrightarrow> snd (rt_adr a) = snd (rt_adr b)"
  by (simp add: rt_adr_def)

lemma entry_of_insert:
  assumes x: "entry_of t (lpm rs a) x" and m: "sf_inet a = sf_inet (r_ip r)"
    and i: "unat (v :: u64) = i" "i < length (rt_data t)" "rt_data t ! i = None"
  shows "entry_of (t\<lparr>rt_data := (rt_data t)[i := Some (r_ptr r)]\<rparr>) (lpm (rs @ [r]) a)
    (if in_prefix (snd (rt_adr a)) (fst (rt_adr a)) (fst (rt_adr (r_ip r))) (plen r) then dir_upd RT_FAVOR_SPECIFIC (plen r) v x else x)"
proof (cases "matches a r")
  case False
  then show ?thesis using rt_inv_put_data [OF x i(2,3)] m by (simp add: lpm_snoc better_def matches_def)
next
  case True
  then show ?thesis using rt_inv_put_data [OF x i(2,3)] x i m
    by (auto simp: lpm_snoc better_def matches_def dir_upd_def upd_less_def entry_of_def split: option.splits)
qed

lemma entry_of_other:
  assumes "entry_of t (lpm rs a) x" "sf_inet a \<noteq> sf_inet (r_ip r)" "i < length (rt_data t)" "rt_data t ! i = None"
  shows "entry_of (t\<lparr>rt_data := (rt_data t)[i := p]\<rparr>) (lpm (rs @ [r]) a) x"
  using rt_inv_put_data [OF assms(1,3,4)] assms(2) by (simp add: lpm_snoc better_def matches_def)

lemma new_route_index:
  assumes inv: "rt_inv rs t" and ok: "route_ok r" and new: "\<not> (\<exists>s \<in> set rs. same_route r s)"
    and x: "rt_tuple (r_ip r) t = Some x" "entry_of t (lpm rs (r_ip r)) x"
  shows "snd x \<noteq> plen r"
proof (cases "lpm rs (r_ip r)")
  case None
  then show ?thesis using x(2) route_len [OF ok] by (auto simp: entry_of_def)
next
  case (Some s)
  then have "s \<in> set rs" "matches (r_ip r) s" by (auto dest: lpm_SomeD)
  then have "plen r \<noteq> plen s" using new by (auto simp: same_route_def)
  then show ?thesis using x(2) Some by (simp add: entry_of_def)
qed

lemma rt_inv_insert:
  assumes inv: "rt_inv rs t" and small: "length rs + 1 < unat (max_size t)"
    and d: "rt_of (r_ip r) t = Some d" "dir_inv (snd (rt_adr (r_ip r))) d'"
    and sem: "dir_sem (snd (rt_adr (r_ip r))) d' (spec_step (snd (rt_adr (r_ip r)))
      (Insert (fst (rt_adr (r_ip r))) (plen r) v RT_FAVOR_SPECIFIC) (\<lambda>a. the (sfrt_dir_lookup a (snd (rt_adr (r_ip r))) (Some d))))"
    and v: "unat v = length rs + 1" and la: "unat la = length rs + 1"
  shows "rt_inv (rs @ [r]) (put_rt (r_ip r) (Some d') (t\<lparr>lastAllocatedIndex := la, num_ent := num_ent t + 1,
    rt_data := (rt_data t)[length rs + 1 := Some (r_ptr r)]\<rparr>))" (is "rt_inv _ ?t")
proof -
  let ?n = "snd (rt_adr (r_ip r))"
  have b: "length (rt_data t) = unat (max_size t)" "unat (max_size t) < 2 ^ 31" "rt_data t ! 0 = None"
    "unat (num_ent t) = length rs + 1" "rt_data t ! (length rs + 1) = None"
    "\<And>i. length rs < i \<Longrightarrow> i < unat (max_size t) \<Longrightarrow> rt_data t ! i = None"
    using inv small by (auto simp: rt_inv_def)
  have "num_ent t + 1 \<noteq> 0" by (rule word_succ_nonzero [of _ "max_size t"]) (use b small in \<open>simp add: word_less_nat_alt\<close>)
  then have ne: "unat (num_ent t + 1) = length rs + 2" using b by (simp add: unat_succ)
  have look: "\<exists>x. rt_tuple a ?t = Some x \<and> entry_of ?t (lpm (rs @ [r]) a) x" for a
  proof -
    obtain x where x: "rt_tuple a t = Some x" "entry_of t (lpm rs a) x" using inv unfolding rt_inv_def by blast
    have e: "entry_of ?t best y = entry_of (t\<lparr>rt_data := (rt_data t)[length rs + 1 := Some (r_ptr r)]\<rparr>) best y" for best y
      by (simp add: entry_of_def split: option.split)
    have il: "length rs + 1 < length (rt_data t)" using b small by simp
    show ?thesis
    proof (cases "sf_inet a = sf_inet (r_ip r)")
      case True
      then have "rt_of a t = Some d" "snd (rt_adr a) = ?n" using d(1) by (simp_all add: rt_of_def rt_adr_def)
      then have "rt_tuple a ?t = Some (if in_prefix (snd (rt_adr a)) (fst (rt_adr a)) (fst (rt_adr (r_ip r))) (plen r)
          then dir_upd RT_FAVOR_SPECIFIC (plen r) v x else x)"
        using sem x(1) True by (simp add: rt_tuple_of rt_of_put dir_sem_def)
      then show ?thesis using entry_of_insert [OF x(2) True v il b(5)] e by blast
    next
      case False
      then have "rt_tuple a ?t = Some x" using x(1) by (auto simp: rt_tuple_of put_rt_def rt_of_def split: if_splits)
      then show ?thesis using entry_of_other [OF x(2) False il b(5)] e by blast
    qed
  qed
  have fam: "\<exists>d4 d6. rt ?t = Some d4 \<and> rt6 ?t = Some d6 \<and> dir_inv 1 d4 \<and> dir_inv 4 d6"
    using inv d(2) by (auto simp: rt_inv_def put_rt_def rt_adr_def)
  show ?thesis unfolding rt_inv_def
    using fam look b ne la small by (auto simp: nth_list_update)
qed

lemma put_rt_update: "(put_rt ip d t)\<lparr>num_ent := n, rt_data := x\<rparr> = put_rt ip d (t\<lparr>num_ent := n, rt_data := x\<rparr>)"
  by (cases t) (simp add: put_rt_def)

lemma fill_step:
  assumes inv: "rt_inv rs t" and ok: "route_ok r" and new: "\<not> (\<exists>s \<in> set rs. same_route r s)"
  shows "\<exists>c t'. sfrt_insert os (Some (r_ip r)) (r_len r) (Some (r_ptr r)) RT_FAVOR_SPECIFIC (Some t) = Some (c, Some t') \<and>
    max_size t' = max_size t \<and>
    (c = RT_SUCCESS \<and> rt_inv (rs @ [r]) t' \<or> c = RT_POLICY_TABLE_EXCEEDED \<and> length rs + 1 = unat (max_size t) \<or>
     c = MEM_ALLOC_FAILURE)"
proof -
  let ?ip = "r_ip r" and ?n = "snd (rt_adr (r_ip r))" and ?l = "plen r"
  obtain d where d: "rt_of ?ip t = Some d" "dir_inv ?n d" using rt_fam [OF inv] by blast
  obtain x where x: "rt_tuple ?ip t = Some x" "entry_of t (lpm rs ?ip) x" using inv unfolding rt_inv_def by blast
  have xl: "snd x \<noteq> ?l" by (rule new_route_index [OF inv ok new x])
  have b: "length (rt_data t) = unat (max_size t)" "unat (max_size t) < 2 ^ 31" "unat (num_ent t) = length rs + 1"
    "unat (lastAllocatedIndex t) = length rs" "length rs < unat (max_size t)"
    using inv by (auto simp: rt_inv_def)
  have l: "rt_len ?ip (unat (r_len r)) = Some ?l" "0 < ?l" "?l \<le> 32 * ?n" using route_len [OF ok] by auto
  show ?thesis
  proof (cases "max_size t \<le> num_ent t")
    case True
    then have "length rs + 1 = unat (max_size t)" using b by (simp add: word_le_nat_alt)
    then show ?thesis using True l x(1) xl d(1) by (simp add: sfrt_insert_def)
  next
    case False
    then have small: "length rs + 1 < unat (max_size t)" using b by (simp add: word_le_nat_alt)
    let ?i = "lastAllocatedIndex t + 1"
    have fi: "free_index (unat (max_size t) + 2) (rt_data t) (max_size t) (lastAllocatedIndex t) ?i = Some ?i"
      "unat ?i = length rs + 1" "?i \<noteq> 0"
      using free_index_next [OF b(1), of "lastAllocatedIndex t"] inv b small by (auto simp: rt_inv_def)
    then have alloc: "allocateTableIndex t = Some (?i, t\<lparr>lastAllocatedIndex := ?i\<rparr>)" by (simp add: allocateTableIndex_def)
    have v: "unat (scast ?i :: u64) = length rs + 1" using unat_scast_index [of ?i] fi(2) small b by simp
    have "op_ok ?n (Insert (fst (rt_adr ?ip)) ?l (scast ?i) RT_FAVOR_SPECIFIC)"
      using l v small b by (auto simp: unat_eq_0)
    from dir_step_ok [OF d(2) dir_sem_the [OF d(2)] this, of os]
    obtain c d' where c: "sfrt_dir_insert os (fst (rt_adr ?ip)) ?l (scast ?i) RT_FAVOR_SPECIFIC (Some d) = Some (c, Some d')"
      "c = RT_SUCCESS \<or> c = MEM_ALLOC_FAILURE"
      "c = RT_SUCCESS \<longrightarrow> dir_inv ?n d' \<and> dir_sem ?n d' (spec_step ?n (Insert (fst (rt_adr ?ip)) ?l (scast ?i) RT_FAVOR_SPECIFIC)
         (\<lambda>a. the (sfrt_dir_lookup a ?n (Some d))))"
      by auto
    have rt1: "rt_of ?ip (t\<lparr>lastAllocatedIndex := ?i\<rparr>) = Some d" using d(1) by (auto simp: rt_of_def split: if_splits)
    show ?thesis
    proof (cases "c = RT_SUCCESS")
      case True
      show ?thesis
        using rt_inv_insert [OF inv small d(1) _ _ v fi(2), of d'] c True small b l x(1) xl d(1) False alloc rt1 fi(2,3)
        by (simp add: sfrt_insert_def put_data_def put_rt_update)
    next
      case fail: False
      then show ?thesis using c l x(1) xl d(1) False alloc rt1 fi(2,3) by (simp add: sfrt_insert_def)
    qed
  qed
qed

lemma fresh_rt_inv:
  assumes dims: "dims_ok 1 dims" "dims_ok 4 dims6" "length dims \<le> 32" "length dims6 \<le> 128"
    and cap: "unat mem_cap + 1024 < 2 ^ 32" and mx: "0 < unat mx" "unat mx < 2 ^ 31"
    and new: "sfrt_tables os mem_cap T ip mx dims (Some dims6) = Some (Some t)"
  shows "rt_inv [] t \<and> max_size t = mx"
proof -
  obtain d4 d6 where d: "sfrt_dir_new os mem_cap dims = Some (Some d4)" "sfrt_dir_new os mem_cap dims6 = Some (Some d6)"
    and t: "rt_data t = replicate (unat mx) None" "num_ent t = 1" "max_size t = mx" "lastAllocatedIndex t = 0"
      "rt t = Some d4" "rt6 t = Some d6"
    using new by (auto simp: sfrt_tables_def bind_eq_Some_conv split: if_splits)
  have ne: "dims \<noteq> []" "dims6 \<noteq> []" using dims(1,2) by (auto simp: dims_ok_def)
  have i4: "dir_inv 1 d4" "dir_sem 1 d4 (\<lambda>_. (0, 0))"
    using dir_new_ok [OF dims(1) ne(1) _ d(1)] cap dims(3) by auto
  have i6: "dir_inv 4 d6" "dir_sem 4 d6 (\<lambda>_. (0, 0))"
    using dir_new_ok [OF dims(2) ne(2) _ d(2)] cap dims(4) by auto
  have "rt_tuple a t = Some (0, 0)" for a
    using i4(2) i6(2) t by (auto simp: rt_tuple_def rt_adr_def rt_of_def dir_sem_def)
  then show ?thesis using t i4 i6 mx by (simp add: rt_inv_def entry_of_def lpm_def)
qed

lemma fill_ok:
  "rt_inv past t \<Longrightarrow> list_all route_ok rs \<Longrightarrow> distinct_routes (past @ rs) \<Longrightarrow>
    \<exists>c t'. sfrt_fill os rs (Some t) = Some (c, Some t') \<and>
      (c = RT_SUCCESS \<and> rt_inv (past @ rs) t' \<or>
       c = RT_POLICY_TABLE_EXCEEDED \<and> unat (max_size t) \<le> length (past @ rs) \<or> c = MEM_ALLOC_FAILURE)"
proof (induction rs arbitrary: past t)
  case (Cons r rs)
  have ok: "route_ok r" using Cons.prems(2) by simp
  have new: "\<not> (\<exists>s \<in> set past. same_route r s)" using Cons.prems(3) by (auto simp: distinct_routes_append)
  obtain c t1 where c: "sfrt_insert os (Some (r_ip r)) (r_len r) (Some (r_ptr r)) RT_FAVOR_SPECIFIC (Some t) = Some (c, Some t1)"
    "max_size t1 = max_size t" "c = RT_SUCCESS \<and> rt_inv (past @ [r]) t1 \<or>
      c = RT_POLICY_TABLE_EXCEEDED \<and> length past + 1 = unat (max_size t) \<or> c = MEM_ALLOC_FAILURE"
    using fill_step [OF Cons.prems(1) ok new, of os] by blast
  show ?case
  proof (cases "c = RT_SUCCESS")
    case True
    then have "rt_inv (past @ [r]) t1" using c(3) by simp
    from Cons.IH [OF this] show ?thesis using Cons.prems(2,3) c(1,2) True by simp
  next
    case False
    then show ?thesis using c by auto
  qed
qed simp

text \<open> C11. A fresh routing table filled with prefixes of either family, no prefix twice, each of at
  least one bit: no step leaves an array or follows a number as a pointer, and every lookup returns the
  data of the longest prefix that contains the address, or null if none does.  The filling stops
  early only when the data array is full or an allocation fails.\<close>
theorem sfrt_longest_prefix_match:
  assumes "dims_ok 1 dims" and "dims_ok 4 dims6" and "length dims \<le> 32" and "length dims6 \<le> 128"
    and "unat mem_cap + 1024 < 2 ^ 32" and "0 < unat mx" and "unat mx < 2 ^ 31"
    and "sfrt_tables os mem_cap T ip mx dims (Some dims6) = Some (Some t)"
    and "list_all route_ok rs" and "distinct_routes rs"
  shows "\<exists>c t'. sfrt_fill os rs (Some t) = Some (c, Some t') \<and>
    (c = RT_SUCCESS \<and> (\<forall>a. sfrt_lookup (Some a) (Some t') = Some (map_option r_ptr (lpm rs a))) \<or>
     c = RT_POLICY_TABLE_EXCEEDED \<and> unat mx \<le> length rs \<or>
     c = MEM_ALLOC_FAILURE)"
proof -
  have t: "rt_inv [] t" "max_size t = mx" using fresh_rt_inv [OF assms(1-8)] by auto
  obtain c t' where "sfrt_fill os rs (Some t) = Some (c, Some t')"
    "c = RT_SUCCESS \<and> rt_inv rs t' \<or> c = RT_POLICY_TABLE_EXCEEDED \<and> unat mx \<le> length rs \<or> c = MEM_ALLOC_FAILURE"
    using fill_ok [OF t(1) assms(9), of os] assms(10) t(2) by auto
  then show ?thesis using rt_inv_lookup by blast
qed

definition rt_demo_dims6 :: "nat list" where
  "rt_demo_dims6 = replicate 64 2"

definition rt_demo :: "nat rt_table" where
  "rt_demo = the (the (sfrt_tables (\<lambda>_. True) 8192 DIR_2x16 IPv6 4 dir_demo_dims (Some rt_demo_dims6)))"

definition ip4 :: "bytes \<Rightarrow> sfaddr" where
  "ip4 bs = \<lparr>sf_inet = True, sf_ia8 = [0, 0, 0, 0, 0, 0, 0, 0, 0, 0, 0xFF, 0xFF] @ bs\<rparr>"

definition rt_demo_routes :: "nat route list" where
  "rt_demo_routes = [\<lparr>r_ip = ip4 [160, 0, 0, 0], r_len = 99, r_ptr = 7\<rparr>, \<lparr>r_ip = ip4 [128, 0, 0, 0], r_len = 97, r_ptr = 8\<rparr>,
     \<lparr>r_ip = \<lparr>sf_inet = False, sf_ia8 = 0x20 # replicate 15 0\<rparr>, r_len = 3, r_ptr = 9\<rparr>]"

lemma rt_demo_dims_ok:
  "dims_ok 1 dir_demo_dims" "dims_ok 4 rt_demo_dims6" "length dir_demo_dims \<le> 32" "length rt_demo_dims6 \<le> 128"
  by code_simp+

lemma rt_demo_new: "sfrt_tables (\<lambda>_. True) 8192 DIR_2x16 IPv6 4 dir_demo_dims (Some rt_demo_dims6) = Some (Some rt_demo)"
proof -
  have "\<not> Option.is_none (sfrt_tables (\<lambda>_. True) 8192 DIR_2x16 IPv6 4 dir_demo_dims (Some rt_demo_dims6) :: nat rt_table option option)"
    "\<not> Option.is_none (the (sfrt_tables (\<lambda>_. True) 8192 DIR_2x16 IPv6 4 dir_demo_dims (Some rt_demo_dims6) :: nat rt_table option option))"
    by code_simp+
  then show ?thesis unfolding rt_demo_def by (rule some_some)
qed

lemma rt_demo_words:
  "adr_words [161, 7, 7, 7] (Suc 0) = [0xA1070707]" "adr_words [160, 0, 0, 0] (Suc 0) = [0xA0000000]"
  "adr_words [128, 0, 0, 0] (Suc 0) = [0x80000000]" "adr_words [193, 0, 0, 0] (Suc 0) = [0xC1000000]"
  by code_simp+

lemma sfrt_longest_prefix_match_witness:
  "\<exists>t'. sfrt_fill (\<lambda>_. True) rt_demo_routes (Some rt_demo) = Some (RT_SUCCESS, Some t') \<and>
    sfrt_lookup (Some (ip4 [161, 7, 7, 7])) (Some t') = Some (Some 7) \<and>
    sfrt_lookup (Some (ip4 [193, 0, 0, 0])) (Some t') = Some (Some 8)"
proof -
  have ok: "list_all route_ok rt_demo_routes" by (simp add: rt_demo_routes_def route_ok_def ip4_def)
  have di: "distinct_routes rt_demo_routes"
    by (simp add: rt_demo_routes_def same_route_def matches_def plen_def ip4_def)
  have cap: "unat (8192 :: u32) + 1024 < 2 ^ 32" "0 < unat (4 :: u32)" "unat (4 :: u32) < 2 ^ 31" by simp_all
  obtain c t' where run: "sfrt_fill (\<lambda>_. True) rt_demo_routes (Some rt_demo) = Some (c, Some t')"
    "c = RT_SUCCESS \<and> (\<forall>a. sfrt_lookup (Some a) (Some t') = Some (map_option r_ptr (lpm rt_demo_routes a))) \<or>
     c = RT_POLICY_TABLE_EXCEEDED \<and> unat (4 :: u32) \<le> length rt_demo_routes \<or> c = MEM_ALLOC_FAILURE"
    using sfrt_longest_prefix_match [OF rt_demo_dims_ok cap rt_demo_new ok di] by blast
  have "map_option fst (sfrt_fill (\<lambda>_. True) rt_demo_routes (Some rt_demo)) = Some RT_SUCCESS" by code_simp
  then have "c = RT_SUCCESS" using run(1) by simp
  moreover have "map_option r_ptr (lpm rt_demo_routes (ip4 [161, 7, 7, 7])) = Some 7"
    "map_option r_ptr (lpm rt_demo_routes (ip4 [193, 0, 0, 0])) = Some 8"
    by (simp_all add: lpm_def better_def rt_demo_routes_def matches_def plen_def ip4_def in_prefix_def rt_adr_def rt_demo_words)
  ultimately show ?thesis using run by auto
qed

section \<open>Where the code departs from its intent\<close>

text \<open>Inserting a prefix that is there keeps the data of the first insertion; \<open>ptr\<close> is not stored.\<close>

lemma sfrt_insert_again:
  assumes "rt_tuple ip t = Some (i, l)" "rt_len ip (unat len) = Some l"
    and "sfrt_insert os (Some ip) len ptr behavior (Some t) = Some (c, Some t')"
  shows "rt_data t' = rt_data t"
  using assms by (auto simp: sfrt_insert_def bind_eq_Some_conv split: if_splits prod.splits)

text \<open>
  The IPv4 default route, whose length is 96: on a table that has nothing for its address it
  is accepted and not stored.  Where there is an entry, an index of length 0 is stored
  everywhere else, and the next lookup follows it as a pointer.
\<close>

lemma sfrt_default_route:
  "map_option (\<lambda>(c, t). (c, sfrt_lookup (Some (ip4 [1, 2, 3, 4])) t))
     (sfrt_insert (\<lambda>_. True) (Some (ip4 [0, 0, 0, 0])) 96 (Some 1) RT_FAVOR_SPECIFIC (Some rt_demo)) = Some (RT_SUCCESS, Some None)"
  "map_option (\<lambda>(c, t). (c, sfrt_lookup (Some (ip4 [1, 2, 3, 4])) t))
     (sfrt_insert (\<lambda>_. True) (Some (ip4 [128, 0, 0, 0])) 97 (Some 1) RT_FAVOR_SPECIFIC (Some rt_demo)
       \<bind> (\<lambda>(_, t). sfrt_insert (\<lambda>_. True) (Some (ip4 [128, 0, 0, 0])) 96 (Some 2) RT_FAVOR_SPECIFIC t)) = Some (RT_SUCCESS, None)"
  by code_simp+

text \<open>After the last index has been used the search for a free one starts behind the array.\<close>

lemma allocateTableIndex_beyond:
  assumes "length (rt_data t) = unat (max_size t)" "lastAllocatedIndex t + 1 = max_size t" "max_size t \<noteq> 0"
  shows "allocateTableIndex t = None"
proof -
  have "lastAllocatedIndex t + 1 \<noteq> lastAllocatedIndex t" by simp
  then show ?thesis using assms by (simp add: allocateTableIndex_def)
qed

lemma sfrt_insert_beyond:
  "sfrt_fill (\<lambda>_. True) rt_demo_routes (Some rt_demo) \<bind> (\<lambda>(_, t).
     sfrt_remove (Some (ip4 [128, 0, 0, 0])) 97 RT_FAVOR_SPECIFIC t \<bind> (\<lambda>(c, p, t').
       Some (c, p, Option.is_none (sfrt_insert (\<lambda>_. True) (Some (ip4 [64, 0, 0, 0])) 99 (Some 1) RT_FAVOR_SPECIFIC t')))) =
   Some (RT_SUCCESS, Some (Some 8), True)"
  by code_simp

text \<open>An allocation that fails loses the route that covered the place of the new table.\<close>

lemma sfrt_dir_insert_loses:
  "sfrt_dir_insert (\<lambda>_. True) [128, 0, 0, 0] 1 1 RT_FAVOR_SPECIFIC (Some dir_demo) \<bind> (\<lambda>(_, t).
     sfrt_dir_insert (\<lambda>_. False) [160, 0, 0, 0] 3 2 RT_FAVOR_SPECIFIC t \<bind> (\<lambda>(c, t').
       Some (sfrt_dir_lookup [160, 1, 1, 1] 1 t, c, sfrt_dir_lookup [160, 1, 1, 1] 1 t'))) =
   Some (Some (1, 1), MEM_ALLOC_FAILURE, Some (0, 0))"
  by code_simp

section \<open>The fast lookup\<close>

primrec index_list :: "u32 list \<Rightarrow> nat \<Rightarrow> nat list \<Rightarrow> nat list" where
  "index_list h bits [] = []"
| "index_list h bits (w # ws) = pfx h (bits + w) mod 2 ^ w # index_list h (bits + w) ws"

lemma dir8x_walk_lookup:
  "wf_sub b ws s \<Longrightarrow> fits h bits ws \<Longrightarrow>
    dir8x_walk t (index_list h bits ws) s = (case dir_sub_lookup h bits s of None \<Rightarrow> None | Some (e, l) \<Rightarrow> data_at t e)"
proof (induction ws arbitrary: b bits s)
  case (Cons w ws)
  let ?i = "pfx h (bits + w) mod 2 ^ w"
  obtain slots c f where s: "s = Sub w slots c f" "length slots = 2 ^ w" using Cons.prems(1) by (cases s) auto
  have i: "\<not> length slots \<le> ?i" by (simp add: s(2) not_le)
  have ok: "slot_ok (b + w) (wf_sub (b + w) ws) (slots ! ?i)" using slot_nth_ok [OF Cons.prems(1), of ?i] s by simp
  note l = lookup_slot [OF Cons.prems]
  show ?case
  proof (cases "slots ! ?i")
    case (Val e m)
    then show ?thesis unfolding l using s(1) i by (simp add: slot_lookup_def)
  next
    case (Ptr s')
    then have "wf_sub (b + w) ws s'" using ok by (simp add: slot_ok_def)
    then show ?thesis unfolding l using Cons.IH [of "b + w" s' "bits + w"] fits_Cons [OF Cons.prems(2)] Ptr s(1) i
      by (simp add: slot_lookup_def)
  qed
qed simp

lemma unat_push8_or:
  assumes "unat (x :: u32) < 16777216"
  shows "unat (push_bit 8 x OR ucast (b :: u8)) = 256 * unat x + unat b"
proof -
  have "push_bit 8 x OR ucast b = push_bit 8 x + ucast b"
  proof (rule disjunctive_add [symmetric])
    fix n show "\<not> bit (push_bit 8 x) n \<or> \<not> bit (ucast b :: u32) n"
      using bit_imp_le_length [of b n] by (auto simp: bit_simps)
  qed
  moreover have p: "unat (push_bit 8 x) = 256 * unat x"
    using assms by (simp add: push_bit_eq_mult unat_word_ariths take_bit_nat_eq_self mult.commute)
  moreover have "unat (push_bit 8 x) + unat (ucast b :: u32) < 2 ^ LENGTH(32)"
  proof -
    have "256 * unat x + unat b < 4294967296" using assms unat_u8_bound [of b] by linarith
    then show ?thesis using p by simp
  qed
  ultimately show ?thesis using unat_add_lem [where x = "push_bit 8 x" and y = "ucast b :: u32"] by simp
qed

lemma unat_be32: "unat (be32 (a # b # c # d # bs)) = unat a * 2 ^ 24 + unat b * 2 ^ 16 + unat c * 2 ^ 8 + unat d"
proof -
  have e: "be32 (a # b # c # d # bs) = push_bit 8 (push_bit 8 (push_bit 8 (ucast a) OR ucast b) OR ucast c) OR ucast d"
  proof -
    have "take 4 (a # b # c # d # bs) = [a, b, c, d]" by simp
    then show ?thesis unfolding be32_def by (simp only: foldl.simps push_bit_of_0 or.left_neutral)
  qed
  have a: "unat (ucast a :: u32) = unat a" by simp
  have b8: "unat a \<le> 255" "unat b \<le> 255" "unat c \<le> 255"
    using unat_u8_bound [of a] unat_u8_bound [of b] unat_u8_bound [of c] by linarith+
  have m: "256 * (256 * unat a + unat b) + unat c = 65536 * unat a + 256 * unat b + unat c" by simp
  have l: "unat a < 16777216" "256 * unat a + unat b < 16777216" "256 * (256 * unat a + unat b) + unat c < 16777216"
    unfolding m using b8 by linarith+
  note u1 = unat_push8_or [of "ucast a" b, unfolded a, OF l(1)]
  note u2 = unat_push8_or [of "push_bit 8 (ucast a) OR ucast b" c, unfolded u1, OF l(2)]
  note u3 = unat_push8_or [of "push_bit 8 (push_bit 8 (ucast a) OR ucast b) OR ucast c" d, unfolded u2, OF l(3)]
  show ?thesis unfolding e u3 by simp
qed

lemma index_list_v4:
  "index_list [be32 [a, b, c, d]] 0 [16, 8, 4, 4] = [256 * unat a + unat b, unat c, unat d div 16, unat d mod 16]"
proof -
  define A B C D where "A = unat a" and "B = unat b" and "C = unat c" and "D = unat d"
  then have l: "A < 256" "B < 256" "C < 256" "D < 256" by simp_all
  have "(A * 2 ^ 24 + B * 2 ^ 16 + C * 2 ^ 8 + D) div 2 ^ 16 = 256 * A + B" using l by (intro div_nat_eqI) simp_all
  moreover have "(A * 2 ^ 24 + B * 2 ^ 16 + C * 2 ^ 8 + D) div 2 ^ 8 = 256 * (256 * A + B) + C" using l by (intro div_nat_eqI) simp_all
  moreover have "(A * 2 ^ 24 + B * 2 ^ 16 + C * 2 ^ 8 + D) div 2 ^ 4 = 16 * (256 * (256 * A + B) + C) + D div 16"
  proof -
    have "A * 2 ^ 24 + B * 2 ^ 16 + C * 2 ^ 8 + D = 16 * (16 * (256 * (256 * A + B) + C)) + D" by simp
    then show ?thesis by simp
  qed
  moreover have "(256 * (256 * A + B) + C) mod 256 = C" "(16 * (256 * (256 * A + B) + C) + D div 16) mod 16 = D div 16"
    "(A * 2 ^ 24 + B * 2 ^ 16 + C * 2 ^ 8 + D) mod 16 = D mod 16" "(256 * A + B) mod 65536 = 256 * A + B"
  proof -
    have d: "D div 16 < 16" using l by (simp add: less_mult_imp_div_less)
    have e: "A * 2 ^ 24 + B * 2 ^ 16 + C * 2 ^ 8 + D = 16 * (16 * (256 * (256 * A + B) + C)) + D" by simp
    show "(256 * (256 * A + B) + C) mod 256 = C" "(16 * (256 * (256 * A + B) + C) + D div 16) mod 16 = D div 16"
      using l d by (simp_all only: mod_mult_self4 mod_less)
    show "(A * 2 ^ 24 + B * 2 ^ 16 + C * 2 ^ 8 + D) mod 16 = D mod 16" unfolding e by (simp only: mod_mult_self4)
    have "256 * A + B < 65536" using l by linarith
    then show "(256 * A + B) mod 65536 = 256 * A + B" by (rule mod_less)
  qed
  ultimately show ?thesis unfolding index_list.simps pfx.simps by (simp add: unat_be32 A_def B_def C_def D_def)
qed

lemma index_list_bytes:
  "index_list h bits (replicate n 8) = map (\<lambda>k. pfx h (bits + 8 * k + 8) mod 2 ^ 8) [0..<n]"
proof (induction n arbitrary: bits)
  case (Suc n)
  have "map (\<lambda>k. pfx h (bits + 8 * k + 8) mod 2 ^ 8) [0..<Suc n] =
      pfx h (bits + 8) mod 2 ^ 8 # map (\<lambda>k. pfx h (bits + 8 * Suc k + 8) mod 2 ^ 8) [0..<n]"
    by (simp add: upt_conv_Cons map_Suc_upt [symmetric] o_def del: upt_Suc)
  then show ?case using Suc [of "bits + 8"] by (simp add: algebra_simps)
qed simp

lemma byte_of_word:
  fixes A B C D :: nat
  assumes "A < 256" "B < 256" "C < 256" "D < 256" and n: "N = A * 2 ^ 24 + B * 2 ^ 16 + C * 2 ^ 8 + D"
  shows "N div 2 ^ 24 mod 2 ^ 8 = A" "N div 2 ^ 16 mod 2 ^ 8 = B" "N div 2 ^ 8 mod 2 ^ 8 = C" "N mod 2 ^ 8 = D"
proof -
  have d: "N div 2 ^ 24 = A" "N div 2 ^ 16 = 256 * A + B" "N div 2 ^ 8 = 256 * (256 * A + B) + C"
    unfolding n using assms(1-4) by (intro div_nat_eqI; simp)+
  have e: "N = 256 * (256 * (256 * A + B) + C) + D" by (simp add: n)
  have p: "(2 :: nat) ^ 8 = 256" by simp
  show "N div 2 ^ 24 mod 2 ^ 8 = A" "N div 2 ^ 16 mod 2 ^ 8 = B" "N div 2 ^ 8 mod 2 ^ 8 = C"
    unfolding d unfolding p using assms(1-4) by (simp_all only: mod_mult_self4 mod_less)
  show "N mod 2 ^ 8 = D" unfolding e p using assms(4) by (simp only: mod_mult_self4 mod_less)
qed

lemma be32_byte:
  assumes "r < 4" "length bs \<ge> 4"
  shows "unat (be32 bs) div 2 ^ (24 - 8 * r) mod 2 ^ 8 = unat (bs ! r)"
proof -
  obtain a b c d bs' where bs: "bs = a # b # c # d # bs'"
    using assms(2) by (auto simp: numeral_eq_Suc Suc_le_length_iff)
  note w = byte_of_word [OF unat_u8_bound unat_u8_bound unat_u8_bound unat_u8_bound unat_be32 [of a b c d bs'], folded bs]
  have "r = 0 \<or> r = 1 \<or> r = 2 \<or> r = 3" using assms(1) by linarith
  then show ?thesis using w bs by auto
qed

lemma adr_byte:
  assumes k: "k < 16" and bs: "length bs = 16"
  shows "pfx (adr_words bs 4) (8 * k + 8) mod 2 ^ 8 = unat (bs ! k)"
proof -
  define j r where "j = k div 4" and "r = k mod 4"
  have kr: "k = 4 * j + r" "r < 4" "j < 4" using k by (simp_all add: j_def r_def less_mult_imp_div_less)
  have dm: "8 * k div 32 = j" "8 * k mod 32 = 8 * r" using kr by simp_all
  have "pfx (adr_words bs 4) (8 * k + 8) mod 2 ^ 8 = unat (adr_words bs 4 ! j) div 2 ^ (32 - 8 * r - 8) mod 2 ^ 8"
    using pfx_word [of "8 * k" "adr_words bs 4" 8] kr dm by simp
  also have "adr_words bs 4 ! j = be32 (drop (4 * j) bs)" using kr(3) by (simp add: adr_words_def)
  also have "32 - 8 * r - 8 = 24 - 8 * r" by simp
  also have "unat (be32 (drop (4 * j) bs)) div 2 ^ (24 - 8 * r) mod 2 ^ 8 = unat (drop (4 * j) bs ! r)"
    by (rule be32_byte) (use kr bs in auto)
  finally show ?thesis using kr bs by simp
qed

text \<open>The fast lookup of a table of type \<open>DIR_8x16\<close>: on the tables any insertions and removals
  leave, it ends in the data of the index that the general lookup finds, and is the same as
  \<open>sfrt_lookup\<close> when that index is below \<open>max_size\<close>, which only the general one checks.\<close>
theorem sfrt_dir8x_lookup_correct:
  assumes "rt t = Some d4" and "dir_inv 1 d4" and "dimensions (dt_root d4) = rt_dims DIR_8x16"
    and "rt6 t = Some d6" and "dir_inv 4 d6" and "Some (dimensions (dt_root d6)) = rt6_dims DIR_8x16"
    and "length (sf_ia8 a) = 16"
  shows "\<exists>i l. rt_tuple a t = Some (i, l) \<and> sfrt_dir8x_lookup a t = data_at t i \<and>
    (unat i < unat (max_size t) \<longrightarrow> sfrt_dir8x_lookup a t = sfrt_lookup (Some a) (Some t))"
proof -
  have r6: "rt6_dims DIR_8x16 = Some (replicate 16 8)" by code_simp
  have dm: "dimensions (dt_root d4) = [16, 8, 4, 4]" "dimensions (dt_root d6) = replicate 16 8"
    using assms(3,6) r6 by (simp_all only: rt_dims_def rt_type.case option.inject)
  note inv = assms(2,5) [unfolded dir_inv_def dm dims_ok_def]
  have wf: "wf_sub 0 [16, 8, 4, 4] (sub_table d4)" "wf_sub 0 (replicate 16 8) (sub_table d6)"
    using inv by (simp_all only:)
  have fit: "fits (adr_words b 1) 0 [16, 8, 4, 4]" "fits (adr_words b 4) 0 (replicate 16 8)" for b
    using inv by (simp_all only: fits_def adr_words_length add_0 order_refl)
  have walk: "sfrt_dir8x_lookup a t = (case rt_tuple a t of None \<Rightarrow> None | Some (e, l) \<Rightarrow> data_at t e)"
  proof (cases "sf_inet a")
    case True
    let ?b = "\<lambda>i. unat (sf_ia8 a ! i)"
    have "drop 12 (sf_ia8 a) = [sf_ia8 a ! 12, sf_ia8 a ! 13, sf_ia8 a ! 14, sf_ia8 a ! 15]"
      by (rule nth_equalityI) (use assms(7) in \<open>auto simp: less_Suc_eq numeral_eq_Suc\<close>)
    then have "index_list (adr_words (drop 12 (sf_ia8 a)) 1) 0 [16, 8, 4, 4] = [256 * ?b 12 + ?b 13, ?b 14, ?b 15 div 16, ?b 15 mod 16]"
      using index_list_v4 [of "sf_ia8 a ! 12" "sf_ia8 a ! 13" "sf_ia8 a ! 14" "sf_ia8 a ! 15"] by (simp add: adr_words_def)
    then show ?thesis using dir8x_walk_lookup [OF wf(1) fit(1) [of "drop 12 (sf_ia8 a)"], of t] True assms(1,7)
      by (simp add: sfrt_dir8x_lookup_def rt_tuple_def rt_adr_def rt_of_def sfrt_dir_lookup_def)
  next
    case False
    have "index_list (adr_words (sf_ia8 a) 4) 0 (replicate 16 8) = map (\<lambda>i. unat (sf_ia8 a ! i)) [0..<16]"
      unfolding index_list_bytes using adr_byte [OF _ assms(7)] by (intro map_cong refl) simp
    then show ?thesis using dir8x_walk_lookup [OF wf(2) fit(2) [of "sf_ia8 a"], of t] False assms(4,7)
      by (simp add: sfrt_dir8x_lookup_def rt_tuple_def rt_adr_def rt_of_def sfrt_dir_lookup_def del: upt_conv_Cons_Cons)
  qed
  obtain i l where "rt_tuple a t = Some (i, l)"
  proof (cases "sf_inet a")
    case True
    then show ?thesis using that dir_sem_exists [OF assms(2), of "drop 12 (sf_ia8 a)"] assms(1)
      by (auto simp: rt_tuple_of rt_of_def rt_adr_def)
  next
    case False
    then show ?thesis using that dir_sem_exists [OF assms(5), of "sf_ia8 a"] assms(4)
      by (auto simp: rt_tuple_of rt_of_def rt_adr_def)
  qed
  then show ?thesis using walk by (simp add: sfrt_lookup_def)
qed

lemma sfrt_dir_new_exists:
  assumes "dims = w # ws" "32 + 9 * 2 ^ w \<le> unat mem_cap"
  shows "\<exists>t. sfrt_dir_new (\<lambda>_. True) mem_cap dims = Some (Some t)"
  using assms by (simp add: sfrt_dir_new_def sub_table_new_def sub_bytes_def Let_def)

lemma sfrt_dir8x_lookup_correct_witness:
  "\<exists>t :: nat rt_table. sfrt_new True (\<lambda>_. True) DIR_8x16 IPv6 10 20 = Some (Some t) \<and>
    sfrt_dir8x_lookup (ip4 [10, 0, 0, 1]) t = Some None \<and> sfrt_lookup (Some (ip4 [10, 0, 0, 1])) (Some t) = Some None"
proof -
  let ?cap = "20 * (1024 * 1024) :: u32"
  have d: "rt_dims DIR_8x16 = 16 # [8, 4, 4]" "rt6_dims DIR_8x16 = Some (8 # replicate 15 8)"
    by (simp_all add: rt_dims_def rt6_dims_def numeral_eq_Suc)
  have ok: "dims_ok 1 (rt_dims DIR_8x16)" "dims_ok 4 (8 # replicate 15 8)"
    using rt_dims_ok [of DIR_8x16] d(2) by (simp_all add: is_dir_def)
  obtain d4 where d4: "sfrt_dir_new (\<lambda>_. True) ?cap (rt_dims DIR_8x16) = Some (Some d4)"
    using sfrt_dir_new_exists [OF d(1), of ?cap] by auto
  obtain d6 where d6: "sfrt_dir_new (\<lambda>_. True) ?cap (8 # replicate 15 8) = Some (Some d6)"
    using sfrt_dir_new_exists [OF refl, of 8 ?cap] by auto
  note n4 = dir_new_ok [OF ok(1) _ _ d4] and n6 = dir_new_ok [OF ok(2) _ _ d6]
  have i4: "dir_inv 1 d4" "dir_sem 1 d4 (\<lambda>_. (0, 0))" "dimensions (dt_root d4) = rt_dims DIR_8x16"
    using n4 d(1) by auto
  have i6: "dir_inv 4 d6" "Some (dimensions (dt_root d6)) = rt6_dims DIR_8x16"
    using n6 d(2) by auto
  obtain t :: "nat rt_table" where t: "sfrt_new True (\<lambda>_. True) DIR_8x16 IPv6 10 20 = Some (Some t)"
    "rt t = Some d4" "rt6 t = Some d6" "max_size t = 10" "rt_data t = replicate 10 None"
    using d4 d6 d(2) by (simp add: sfrt_new_def sfrt_tables_def is_dir_def)
  have len: "length (sf_ia8 (ip4 [10, 0, 0, 1])) = 16" by (simp add: ip4_def)
  have "rt_tuple (ip4 [10, 0, 0, 1]) t = Some (0, 0)"
    using i4(2) t(2) by (simp add: rt_tuple_of rt_of_def rt_adr_def ip4_def dir_sem_def)
  moreover have "sfrt_dir8x_lookup (ip4 [10, 0, 0, 1]) t = data_at t 0 \<and>
      sfrt_dir8x_lookup (ip4 [10, 0, 0, 1]) t = sfrt_lookup (Some (ip4 [10, 0, 0, 1])) (Some t)"
    using sfrt_dir8x_lookup_correct [OF t(2) i4(1,3) t(3) i6 len] calculation t(4) by auto
  ultimately show ?thesis using t by (auto simp: data_at_def)
qed

end
