(* ===== verification/Checksum.thy ===== *)
theory Checksum
  imports Prelude
begin

text \<open>
  The Internet checksums of \<open>checksum.h\<close>.  Memory is a list of bytes and \<open>le\<close> the byte order of
  the machine: the code reads it as 16-bit words through casted pointers.  \<open>None\<close> is a read
  behind the bytes.  Lengths are C integers, so \<open>int\<close> here; a length in the code counts bytes and
  may differ from the number of bytes there are.
\<close>

section \<open>Reading words\<close>

definition short_of :: "bool \<Rightarrow> u8 \<Rightarrow> u8 \<Rightarrow> u16" where
  "short_of le a b = (if le then push_bit 8 (ucast b) OR ucast a else push_bit 8 (ucast a) OR ucast b)"

text \<open>\<open>cksum += w[0]; ...; cksum += w[n - 1]; w += n\<close>.\<close>

fun add_shorts :: "bool \<Rightarrow> nat \<Rightarrow> bytes \<Rightarrow> u32 \<Rightarrow> (bytes \<times> u32) option" where
  "add_shorts le 0 w cksum = Some (w, cksum)"
| "add_shorts le (Suc n) (a # b # w) cksum = add_shorts le n w (cksum + ucast (short_of le a b))"
| "add_shorts le (Suc n) w cksum = None"

lemma add_shorts_length: "add_shorts le n w c = Some (w', c') \<Longrightarrow> length w = length w' + 2 * n"
  by (induction le n w c rule: add_shorts.induct) auto

text \<open>\<open>while (len >= 2 * n)\<close> with \<open>n\<close> words per turn; the loop with single words tests \<open>len > 1\<close>.\<close>

function while_shorts :: "bool \<Rightarrow> nat \<Rightarrow> bytes \<Rightarrow> int \<Rightarrow> u32 \<Rightarrow> (bytes \<times> int \<times> u32) option" where
  "while_shorts le n w len cksum =
     (if n = 0 \<or> len < 2 * int n then Some (w, len, cksum)
      else (case add_shorts le n w cksum of
              None \<Rightarrow> None
            | Some (w', cksum') \<Rightarrow> while_shorts le n w' (len - 2 * int n) cksum'))"
  by pat_completeness auto
termination by (relation "measure (\<lambda>(le, n, w, len, cksum). nat len)") auto

definition fold_sum :: "u32 \<Rightarrow> u16" where
  "fold_sum cksum0 =
     (let cksum1 = drop_bit 16 cksum0 + (cksum0 AND 0x0000ffff);
          cksum2 = cksum1 + drop_bit 16 cksum1
      in ucast (NOT cksum2))"

text \<open>The three loops, the odd byte and the folding that all functions but the first end with.\<close>

definition sum_rest :: "bool \<Rightarrow> bytes \<Rightarrow> int \<Rightarrow> u32 \<Rightarrow> u16 option" where
  "sum_rest le d dlen cksum =
     (case while_shorts le 16 d dlen cksum of
        None \<Rightarrow> None
      | Some (d1, dlen1, cksum1) \<Rightarrow>
     (case while_shorts le 4 d1 dlen1 cksum1 of
        None \<Rightarrow> None
      | Some (d2, dlen2, cksum2) \<Rightarrow>
     (case while_shorts le 1 d2 dlen2 cksum2 of
        None \<Rightarrow> None
      | Some (d3, dlen3, cksum3) \<Rightarrow>
          if dlen3 = 1 then
            (case d3 of [] \<Rightarrow> None | a # _ \<Rightarrow> Some (fold_sum (cksum3 + ucast (short_of le a 0))))
          else Some (fold_sum cksum3))))"

section \<open>Pseudo headers\<close>

text \<open>The fields as their bytes in memory.\<close>

record pseudoheader =
  ph_sip :: bytes
  ph_dip :: bytes
  ph_zero :: u8
  ph_protocol :: u8
  ph_len :: bytes

definition ph_bytes :: "pseudoheader \<Rightarrow> bytes" where
  "ph_bytes ph = ph_sip ph @ ph_dip ph @ [ph_zero ph, ph_protocol ph] @ ph_len ph"

definition ph_v4 :: "pseudoheader \<Rightarrow> bool" where
  "ph_v4 ph \<longleftrightarrow> length (ph_sip ph) = 4 \<and> length (ph_dip ph) = 4 \<and> length (ph_len ph) = 2"

definition ph_v6 :: "pseudoheader \<Rightarrow> bool" where
  "ph_v6 ph \<longleftrightarrow> length (ph_sip ph) = 16 \<and> length (ph_dip ph) = 16 \<and> length (ph_len ph) = 2"

section \<open>The checksums\<close>

function ip_options :: "bool \<Rightarrow> bytes \<Rightarrow> int \<Rightarrow> u32 \<Rightarrow> u32 option" where
  "ip_options le w blen cksum =
     (if blen = 0 then Some cksum
      else (case add_shorts le 2 w cksum of
              None \<Rightarrow> None
            | Some (w', cksum') \<Rightarrow> ip_options le w' (blen - 4) cksum'))"
  by pat_completeness auto
termination by (relation "measure (\<lambda>(le, w, blen, cksum). length w)") (auto dest: add_shorts_length)

definition in_chksum_ip :: "bool \<Rightarrow> bytes \<Rightarrow> int \<Rightarrow> u16 option" where
  "in_chksum_ip le w blen =
     (case add_shorts le 10 w 0 of
        None \<Rightarrow> None
      | Some (w', cksum) \<Rightarrow> map_option fold_sum (ip_options le w' (blen - 20) cksum))"

definition in_chksum_tcp :: "bool \<Rightarrow> pseudoheader \<Rightarrow> bytes \<Rightarrow> int \<Rightarrow> u16 option" where
  "in_chksum_tcp le ph d dlen =
     (case add_shorts le 6 (ph_bytes ph) 0 of
        None \<Rightarrow> None
      | Some (_, cksum) \<Rightarrow>
          (case add_shorts le 10 d cksum of
             None \<Rightarrow> None
           | Some (d', cksum') \<Rightarrow> sum_rest le d' (dlen - 20) cksum'))"

definition in_chksum_tcp6 :: "bool \<Rightarrow> pseudoheader \<Rightarrow> bytes \<Rightarrow> int \<Rightarrow> u16 option" where
  "in_chksum_tcp6 le ph d dlen =
     (case add_shorts le 18 (ph_bytes ph) 0 of
        None \<Rightarrow> None
      | Some (_, cksum) \<Rightarrow>
          (case add_shorts le 10 d cksum of
             None \<Rightarrow> None
           | Some (d', cksum') \<Rightarrow> sum_rest le d' (dlen - 20) cksum'))"

definition in_chksum_udp6 :: "bool \<Rightarrow> pseudoheader \<Rightarrow> bytes \<Rightarrow> int \<Rightarrow> u16 option" where
  "in_chksum_udp6 le ph d dlen =
     (case add_shorts le 18 (ph_bytes ph) 0 of
        None \<Rightarrow> None
      | Some (_, cksum) \<Rightarrow>
          (case add_shorts le 4 d cksum of
             None \<Rightarrow> None
           | Some (d', cksum') \<Rightarrow> sum_rest le d' (dlen - 8) cksum'))"

definition in_chksum_udp :: "bool \<Rightarrow> pseudoheader \<Rightarrow> bytes \<Rightarrow> int \<Rightarrow> u16 option" where
  "in_chksum_udp le ph d dlen =
     (case add_shorts le 6 (ph_bytes ph) 0 of
        None \<Rightarrow> None
      | Some (_, cksum) \<Rightarrow>
          (case add_shorts le 4 d cksum of
             None \<Rightarrow> None
           | Some (d', cksum') \<Rightarrow> sum_rest le d' (dlen - 8) cksum'))"

definition in_chksum_icmp :: "bool \<Rightarrow> bytes \<Rightarrow> int \<Rightarrow> u16 option" where
  "in_chksum_icmp le w blen = sum_rest le w blen 0"

definition in_chksum_icmp6 :: "bool \<Rightarrow> pseudoheader \<Rightarrow> bytes \<Rightarrow> int \<Rightarrow> u16 option" where
  "in_chksum_icmp6 le ph w blen =
     (case add_shorts le 18 (ph_bytes ph) 0 of
        None \<Rightarrow> None
      | Some (_, cksum) \<Rightarrow> sum_rest le w blen cksum)"

text \<open>
  \<open>ones_compl_checksum\<close>: the loop compares \<open>i\<close> with the unsigned \<open>size - 1\<close>; an \<open>i\<close> above the
  range of \<open>int\<close> is an overflow.
\<close>

function oc_loop :: "bool \<Rightarrow> bytes \<Rightarrow> u32 \<Rightarrow> nat \<Rightarrow> u32 \<Rightarrow> (nat \<times> u32) option" where
  "oc_loop le buf sz i acc =
     (if i < unat (sz - 1) then
        (if i + 2 > length buf \<or> i + 2 \<ge> 2147483648 then None
         else oc_loop le buf sz (i + 2) (acc + ucast (short_of le (buf ! i) (buf ! (i + 1)))))
      else Some (i, acc))"
  by pat_completeness auto
termination by (relation "measure (\<lambda>(le, buf, sz, i, acc). unat (sz - 1) - i)") auto

lemma low_high:
  "unat ((x :: u32) AND 0xFFFF) = unat x mod 65536" "unat (drop_bit 16 x) = unat x div 65536"
proof -
  have "x AND 0xFFFF = take_bit 16 x" by (simp add: take_bit_eq_mask mask_eq_exp_minus_1)
  then have "unat (x AND 0xFFFF) = take_bit 16 (unat x)" by (simp only: unsigned_take_bit_eq)
  then show "unat (x AND 0xFFFF) = unat x mod 65536" by (simp add: take_bit_eq_mod)
  show "unat (drop_bit 16 x) = unat x div 65536" unfolding unat_drop_bit_eq by (simp add: drop_bit_eq_div)
qed

lemma fold_less:
  assumes "drop_bit 16 (x :: u32) \<noteq> 0"
  shows "unat ((x AND 0xFFFF) + drop_bit 16 x) < unat x"
proof -
  note lo = low_high(1) [of x] and hi = low_high(2) [of x]
  have q: "unat x div 65536 < 65536" using unat_u32_bound [of x] by (simp add: less_mult_imp_div_less)
  have r: "unat x mod 65536 < 65536" by simp
  have "unat ((x AND 0xFFFF) + drop_bit 16 x) = (unat x mod 65536 + unat x div 65536) mod 4294967296"
    unfolding unat_word_ariths lo hi by simp
  also have "\<dots> = unat x mod 65536 + unat x div 65536" using q r by (intro mod_less) linarith
  finally have eq: "unat ((x AND 0xFFFF) + drop_bit 16 x) = unat x mod 65536 + unat x div 65536" .
  have "unat x div 65536 \<noteq> 0" using assms hi by (metis unat_eq_0)
  then show ?thesis using eq mult_div_mod_eq [of 65536 "unat x"] by linarith
qed

function oc_fold :: "u32 \<Rightarrow> u32" where
  "oc_fold acc = (if drop_bit 16 acc = 0 then acc else oc_fold ((acc AND 0xFFFF) + drop_bit 16 acc))"
  by pat_completeness auto
termination by (relation "measure unat") (simp_all only: wf_measure in_measure fold_less not_False_eq_True)

definition ones_compl_checksum :: "bool \<Rightarrow> bytes \<Rightarrow> u32 \<Rightarrow> u16 option" where
  "ones_compl_checksum le buf sz =
     (case oc_loop le buf sz 0 0 of
        None \<Rightarrow> None
      | Some (i, acc) \<Rightarrow>
          if sz AND 1 = 0 then Some (ucast (NOT (oc_fold acc)))
          else if i \<ge> length buf then None
          else Some (ucast (NOT (oc_fold (acc + ucast (buf ! i))))))"

end
