(* ===== verification/ChecksumProps.thy ===== *)
theory ChecksumProps
  imports Checksum
begin

text \<open>
  The checksums are the one's complement sums of RFC 1071, on machines of either byte order, and
  are read within the bytes they are told.
\<close>

section \<open>Reference\<close>

fun shorts :: "bool \<Rightarrow> bytes \<Rightarrow> u16 list" where
  "shorts le [] = []"
| "shorts le [a] = [short_of le a 0]"
| "shorts le (a # b # bs) = short_of le a b # shorts le bs"

text \<open>Addition with the carry added at the low end.\<close>

definition oc_add :: "u16 \<Rightarrow> u16 \<Rightarrow> u16" where
  "oc_add a b = a + b + (if unat a + unat b \<ge> 65536 then 1 else 0)"

definition rfc1071 :: "bool \<Rightarrow> bytes \<Rightarrow> u16" where
  "rfc1071 le bs = NOT (foldl oc_add 0 (shorts le bs))"

text \<open>The bytes of a word in memory.\<close>

definition store_short :: "bool \<Rightarrow> u16 \<Rightarrow> bytes" where
  "store_short le x = (if le then [ucast x, ucast (drop_bit 8 x)] else [ucast (drop_bit 8 x), ucast x])"

section \<open>Numbers\<close>

text \<open>The representative modulo 65535 that repeated folding ends with.\<close>

definition oc_norm :: "nat \<Rightarrow> nat" where
  "oc_norm s = (if s = 0 then 0 else (s - 1) mod 65535 + 1)"

lemma oc_norm_small: "s \<le> 65535 \<Longrightarrow> oc_norm s = s"
  by (simp add: oc_norm_def)

lemma oc_norm_range: "oc_norm s \<le> 65535"
proof -
  have "(s - 1) mod 65535 < 65535" by (rule mod_less_divisor) simp
  then have "(s - 1) mod 65535 + 1 \<le> 65535" by linarith
  then show ?thesis unfolding oc_norm_def by simp
qed

lemma oc_norm_eq_0: "oc_norm s = 0 \<longleftrightarrow> s = 0"
  by (simp add: oc_norm_def)

lemma pred_mod: "0 < k \<Longrightarrow> (m + 1) mod k = (n + 1) mod (k :: nat) \<Longrightarrow> m mod k = n mod k"
proof -
  assume k: "0 < k" and e: "(m + 1) mod k = (n + 1) mod k"
  have "(m + 1 + (k - 1)) mod k = (n + 1 + (k - 1)) mod k" using e by (rule mod_add_cong) simp
  then show ?thesis using k by simp
qed

lemma oc_norm_mod: "oc_norm s mod 65535 = s mod 65535"
proof (cases "s = 0")
  case False
  then have "((s - 1) mod 65535 + 1) mod 65535 = s mod 65535"
    using mod_add_left_eq [of "s - 1" 65535 1] by simp
  then show ?thesis using False by (simp only: oc_norm_def if_False)
qed (simp add: oc_norm_def)

lemma oc_norm_cong:
  assumes "a mod 65535 = b mod 65535" "a = 0 \<longleftrightarrow> b = 0"
  shows "oc_norm a = oc_norm b"
proof (cases "a = 0")
  case False
  then obtain m n where mn: "a = Suc m" "b = Suc n" using assms(2) by (metis not0_implies_Suc)
  have "(m + 1) mod 65535 = (n + 1) mod 65535" using assms(1) mn by simp
  then have "m mod 65535 = n mod 65535" by (rule pred_mod [rotated]) simp
  then show ?thesis by (simp add: oc_norm_def mn)
qed (use assms(2) in simp)

lemma oc_norm_add: "oc_norm (oc_norm a + b) = oc_norm (a + b)"
proof (rule oc_norm_cong)
  show "(oc_norm a + b) mod 65535 = (a + b) mod 65535" using oc_norm_mod by (metis mod_add_left_eq)
qed (simp add: oc_norm_eq_0)

lemma oc_norm_fold: "oc_norm (s mod 65536 + s div 65536) = oc_norm s"
proof (rule oc_norm_cong)
  have "s = s mod 65536 + 65536 * (s div 65536)" by simp
  then have "s = (s mod 65536 + s div 65536) + 65535 * (s div 65536)" by linarith
  then show "(s mod 65536 + s div 65536) mod 65535 = s mod 65535" by (metis mod_mult_self2)
  show "s mod 65536 + s div 65536 = 0 \<longleftrightarrow> s = 0"
    using mult_div_mod_eq [of 65536 s] by (metis add_is_0 div_0 mod_0 mult_0_right)
qed

lemma unat_oc_add: "unat (oc_add a b) = oc_norm (unat a + unat b)"
proof -
  have a: "unat a < 65536" "unat b < 65536" by simp_all
  show ?thesis
  proof (cases "unat a + unat b \<ge> 65536")
    case False
    then have "unat (a + b) = unat a + unat b" unfolding unat_word_ariths by (intro mod_less) simp
    then show ?thesis using False by (simp add: oc_add_def oc_norm_small)
  next
    case True
    then have m: "unat (a + b + 1) = unat a + unat b + 1 - 65536"
    proof -
      have "unat (a + b + 1) = (unat a + unat b + 1) mod 65536"
        using mod_add_left_eq [of "unat a + unat b" 65536 1] by (simp only: unat_word_ariths) simp
      also have "\<dots> = unat a + unat b + 1 - 65536"
        using True a by (subst le_mod_geq) (linarith, intro mod_less, linarith)
      finally show ?thesis .
    qed
    have "oc_norm (unat a + unat b) = oc_norm (unat a + unat b + 1 - 65536)"
    proof (rule oc_norm_cong)
      have "unat a + unat b = (unat a + unat b + 1 - 65536) + 65535" using True by linarith
      then show "(unat a + unat b) mod 65535 = (unat a + unat b + 1 - 65536) mod 65535" by (metis mod_add_self2)
    qed (use True in linarith)
    also have "\<dots> = unat a + unat b + 1 - 65536" using a by (intro oc_norm_small) linarith
    finally show ?thesis using True m by (simp add: oc_add_def)
  qed
qed

text \<open>The plain sum of the words.\<close>

definition ssum :: "bool \<Rightarrow> bytes \<Rightarrow> nat" where
  "ssum le bs = sum_list (map unat (shorts le bs))"

lemma foldl_oc_add: "unat (foldl oc_add a ws) = oc_norm (unat a + sum_list (map unat ws))"
proof (induction ws arbitrary: a)
  case Nil
  then show ?case using oc_norm_small [of "unat a"] unat_u16_bound [of a] by simp
next
  case (Cons w ws)
  then show ?case by (simp add: unat_oc_add oc_norm_add add.assoc)
qed

lemma unat_not_u16: "unat (NOT (x :: u16)) = 65535 - unat x"
proof -
  have "NOT x = (- 1) - x" by (simp add: not_eq_complement)
  moreover have "x \<le> - 1" by simp
  ultimately show ?thesis by (simp add: unat_sub unsigned_minus_1_eq_mask mask_eq_exp_minus_1)
qed

lemma unat_rfc1071: "unat (rfc1071 le bs) = 65535 - oc_norm (ssum le bs)"
  by (simp add: rfc1071_def unat_not_u16 foldl_oc_add ssum_def)

lemma unat_fold_sum: "unat (fold_sum c) = 65535 - oc_norm (unat c)"
proof -
  define s where "s = unat c"
  have s: "s < 4294967296" by (simp add: s_def)
  define t where "t = s mod 65536 + s div 65536"
  have q: "s div 65536 < 65536" using s by (simp add: less_mult_imp_div_less)
  have t: "t \<le> 131070" using q mod_less_divisor [of 65536 s] unfolding t_def by linarith
  define c1 where "c1 = drop_bit 16 c + (c AND 0x0000ffff)"
  have c1: "unat c1 = t"
  proof -
    have "unat c1 = (s div 65536 + s mod 65536) mod 2 ^ LENGTH(32)"
      unfolding c1_def unat_word_ariths low_high s_def ..
    also have "\<dots> = s div 65536 + s mod 65536" using t by (intro mod_less) (simp add: t_def)
    finally show ?thesis by (simp only: t_def add.commute)
  qed
  define c2 where "c2 = c1 + drop_bit 16 c1"
  have c2: "unat c2 = t + t div 65536"
  proof -
    have "unat c2 = (t + t div 65536) mod 2 ^ LENGTH(32)"
      unfolding c2_def unat_word_ariths low_high c1 ..
    also have "\<dots> = t + t div 65536" using t div_le_dividend [of t 65536] by (intro mod_less) simp
    finally show ?thesis .
  qed
  have "unat (fold_sum c) = 65535 - (t + t div 65536) mod 65536"
  proof -
    have "ucast (NOT c2) = NOT (ucast c2 :: u16)" by (rule bit_word_eqI) (simp add: bit_simps)
    then have "fold_sum c = NOT (ucast c2)" by (simp add: fold_sum_def Let_def c1_def c2_def)
    moreover have "unat (ucast c2 :: u16) = unat c2 mod 65536" by (simp add: unsigned_ucast_eq take_bit_eq_mod)
    ultimately show ?thesis using c2 by (simp add: unat_not_u16)
  qed
  moreover have "(t + t div 65536) mod 65536 = oc_norm t"
  proof (cases "t < 65536")
    case False
    then have "t div 65536 = 1" using t by simp
    moreover have "oc_norm t = oc_norm (t - 65535)"
    proof (rule oc_norm_cong)
      show "t mod 65535 = (t - 65535) mod 65535" using False by (simp add: le_mod_geq)
    qed (use False in linarith)
    moreover have "oc_norm (t - 65535) = t - 65535" using t by (intro oc_norm_small) linarith
    ultimately show ?thesis using False t by (simp add: mod_if)
  qed (simp add: oc_norm_small)
  ultimately show ?thesis using oc_norm_fold [of s] by (simp add: t_def s_def)
qed

section \<open>The loops\<close>

lemma shorts_append: "even (length xs) \<Longrightarrow> shorts le (xs @ ys) = shorts le xs @ shorts le ys"
  by (induction le xs rule: shorts.induct) auto

lemma ssum_append: "even (length xs) \<Longrightarrow> ssum le (xs @ ys) = ssum le xs + ssum le ys"
  by (simp add: ssum_def shorts_append)

lemma ssum_Nil [simp]: "ssum le [] = 0"
  by (simp add: ssum_def)

lemma ssum_take_add:
  "even k \<Longrightarrow> k \<le> length w \<Longrightarrow> ssum le (take k w) + ssum le (take m (drop k w)) = ssum le (take (k + m) w)"
  by (simp add: take_add ssum_append)

text \<open>What is read so far: \<open>k\<close> bytes of \<open>w\<close> were added.\<close>

definition has_read :: "bool \<Rightarrow> bytes \<Rightarrow> u32 \<Rightarrow> nat \<Rightarrow> bytes \<Rightarrow> u32 \<Rightarrow> bool" where
  "has_read le w c k w' c' \<longleftrightarrow> even k \<and> k \<le> length w \<and> w' = drop k w \<and> c' = c + of_nat (ssum le (take k w))"

lemma of_nat_short: "of_nat (unat (x :: u16)) = (ucast x :: u32)"
  by (rule word_unat_eq_iff [THEN iffD2]) (simp add: unat_of_nat_u32 order_less_trans [OF unat_u16_bound])

lemma has_read_trans:
  assumes "has_read le w c k w1 c1" "has_read le w1 c1 m w2 c2"
  shows "has_read le w c (k + m) w2 c2"
proof -
  have k: "even k" "k \<le> length w" "w1 = drop k w" "c1 = c + of_nat (ssum le (take k w))"
    and m: "even m" "m \<le> length w1" "w2 = drop m w1" "c2 = c1 + of_nat (ssum le (take m w1))"
    using assms by (simp_all add: has_read_def)
  have "c2 = c + of_nat (ssum le (take k w) + ssum le (take m (drop k w)))"
    by (simp only: m(4) k(3,4) of_nat_add add.assoc)
  then have "c2 = c + of_nat (ssum le (take (k + m) w))" using ssum_take_add [OF k(1,2), of le m] by simp
  then show ?thesis using k m by (simp add: has_read_def add.commute)
qed

lemma add_shorts_read: "add_shorts le n w c = Some (w', c') \<Longrightarrow> has_read le w c (2 * n) w' c'"
proof (induction le n w c rule: add_shorts.induct)
  case (2 le n a b w c)
  then have "has_read le w (c + ucast (short_of le a b)) (2 * n) w' c'" by simp
  moreover have "has_read le (a # b # w) c 2 w (c + ucast (short_of le a b))"
    by (simp add: has_read_def ssum_def numeral_2_eq_2 of_nat_short)
  ultimately have "has_read le (a # b # w) c (2 + 2 * n) w' c'" by (rule has_read_trans [rotated])
  then show ?case by simp
qed (simp_all add: has_read_def)

lemma add_shorts_None: "add_shorts le n w c = None \<longleftrightarrow> length w < 2 * n"
  by (induction le n w c rule: add_shorts.induct) (auto simp: numeral_2_eq_2)

declare while_shorts.simps [simp del] ip_options.simps [simp del] oc_loop.simps [simp del] oc_fold.simps [simp del]

lemma while_shorts_read:
  "0 < n \<Longrightarrow> while_shorts le n w len c = Some (w', len', c') \<Longrightarrow>
   \<exists>k. has_read le w c k w' c' \<and> len' = len - int k \<and> len' < 2 * int n \<and> (0 \<le> len \<longrightarrow> 0 \<le> len') \<and> (len < 0 \<longrightarrow> k = 0)"
proof (induction le n w len c rule: while_shorts.induct)
  case (1 le n w len c)
  show ?case
  proof (cases "len < 2 * int n")
    case True
    then show ?thesis using "1.prems"
      by (intro exI [of _ 0]) (simp add: while_shorts.simps [of le n w len] has_read_def)
  next
    case False
    then obtain w1 c1 where a: "add_shorts le n w c = Some (w1, c1)"
      using "1.prems" by (cases "add_shorts le n w c") (auto simp: while_shorts.simps [of le n w len])
    have "while_shorts le n w1 (len - 2 * int n) c1 = Some (w', len', c')"
      using "1.prems" False a by (simp add: while_shorts.simps [of le n w len])
    then obtain k where k: "has_read le w1 c1 k w' c'" "len' = len - 2 * int n - int k" "len' < 2 * int n"
        "0 \<le> len - 2 * int n \<longrightarrow> 0 \<le> len'"
      using "1.IH" [OF _ a refl "1.prems"(1)] "1.prems"(1) False by auto
    show ?thesis
      using has_read_trans [OF add_shorts_read [OF a] k(1)] k(2-4) False by (intro exI [of _ "2 * n + k"]) simp
  qed
qed

lemma while_shorts_None:
  "0 < n \<Longrightarrow> while_shorts le n w len c = None \<Longrightarrow> int (length w) < len"
proof (induction le n w len c rule: while_shorts.induct)
  case (1 le n w len c)
  then have ge: "\<not> len < 2 * int n" by (auto simp: while_shorts.simps [of le n w len])
  show ?case
  proof (cases "add_shorts le n w c")
    case None
    then show ?thesis using ge by (simp add: add_shorts_None)
  next
    case (Some p)
    obtain w1 c1 where p: "p = (w1, c1)" by (cases p)
    have "while_shorts le n w1 (len - 2 * int n) c1 = None"
      using "1.prems" ge Some p by (simp add: while_shorts.simps [of le n w len])
    then have "int (length w1) < len - 2 * int n" using "1.IH" Some p "1.prems"(1) ge by auto
    then show ?thesis using add_shorts_length Some p by fastforce
  qed
qed

text \<open>All loops together: \<open>dlen\<close> bytes are read, an odd one as the first of a word.\<close>

lemma sum_rest_read:
  assumes "nat dlen \<le> length d"
  shows "sum_rest le d dlen c = Some (fold_sum (c + of_nat (ssum le (take (nat dlen) d))))"
proof -
  obtain d1 l1 c1 where 1: "while_shorts le 16 d dlen c = Some (d1, l1, c1)"
    using while_shorts_None [of 16 le d dlen c] assms by (cases "while_shorts le 16 d dlen c") auto
  obtain k1 where k1: "has_read le d c k1 d1 c1" "l1 = dlen - int k1" "0 \<le> dlen \<longrightarrow> 0 \<le> l1" "dlen < 0 \<longrightarrow> k1 = 0"
    using while_shorts_read [OF _ 1] by auto
  have n1: "nat l1 \<le> length d1" using assms k1 by (auto simp: has_read_def)
  obtain d2 l2 c2 where 2: "while_shorts le 4 d1 l1 c1 = Some (d2, l2, c2)"
    using while_shorts_None [of 4 le d1 l1 c1] n1 by (cases "while_shorts le 4 d1 l1 c1") auto
  obtain k2 where k2: "has_read le d1 c1 k2 d2 c2" "l2 = l1 - int k2" "0 \<le> l1 \<longrightarrow> 0 \<le> l2" "l1 < 0 \<longrightarrow> k2 = 0"
    using while_shorts_read [OF _ 2] by auto
  have n2: "nat l2 \<le> length d2" using n1 k2 by (auto simp: has_read_def)
  obtain d3 l3 c3 where 3: "while_shorts le 1 d2 l2 c2 = Some (d3, l3, c3)"
    using while_shorts_None [of 1 le d2 l2 c2] n2 by (cases "while_shorts le 1 d2 l2 c2") auto
  obtain k3 where k3: "has_read le d2 c2 k3 d3 c3" "l3 = l2 - int k3" "0 \<le> l2 \<longrightarrow> 0 \<le> l3" "l3 < 2" "l2 < 0 \<longrightarrow> k3 = 0"
    using while_shorts_read [OF _ 3] by auto
  have n3: "nat l3 \<le> length d3" using n2 k3 by (auto simp: has_read_def)
  have R: "has_read le d c (k1 + k2 + k3) d3 c3" by (rule has_read_trans [OF has_read_trans [OF k1(1) k2(1)] k3(1)])
  define k where "k = k1 + k2 + k3"
  have k: "even k" "k \<le> length d" "d3 = drop k d" "c3 = c + of_nat (ssum le (take k d))"
    using R by (simp_all add: has_read_def k_def)
  have l3: "l3 = dlen - int k" using k1(2) k2(2) k3(2) by (simp add: k_def)
  show ?thesis
  proof (cases "l3 = 1")
    case True
    then obtain a r where a: "d3 = a # r" using n3 by (cases d3) auto
    have n: "nat dlen = k + 1" using True l3 by simp
    have "take (nat dlen) d = take k d @ [a]" using a k(3) by (simp only: n take_add) simp
    then have s: "ssum le (take (nat dlen) d) = ssum le (take k d) + unat (short_of le a 0)"
      using k(1,2) by (simp add: ssum_append) (simp add: ssum_def)
    have "c3 + ucast (short_of le a 0) = c + of_nat (ssum le (take (nat dlen) d))"
      unfolding s k(4) of_nat_add add.assoc of_nat_short ..
    then show ?thesis using 1 2 3 True a by (simp add: sum_rest_def)
  next
    case False
    have "nat dlen = k"
    proof (cases "dlen < 0")
      case True
      then show ?thesis using k1 k2 k3 by (simp add: k_def)
    next
      case F: False
      then have "l3 = 0" using False k1(3) k2(3) k3(3,4) by simp
      then show ?thesis using l3 by simp
    qed
    then show ?thesis using 1 2 3 False k(4) by (simp add: sum_rest_def)
  qed
qed

lemma sum_rest_Some:
  assumes "sum_rest le d dlen c = Some r"
  shows "nat dlen \<le> length d"
proof -
  obtain d1 l1 c1 d2 l2 c2 d3 l3 c3 where w: "while_shorts le 16 d dlen c = Some (d1, l1, c1)"
      "while_shorts le 4 d1 l1 c1 = Some (d2, l2, c2)" "while_shorts le 1 d2 l2 c2 = Some (d3, l3, c3)"
      "l3 = 1 \<longrightarrow> d3 \<noteq> []"
    using assms by (auto simp: sum_rest_def split: option.splits if_splits list.splits)
  obtain k1 where k1: "has_read le d c k1 d1 c1" "l1 = dlen - int k1" using while_shorts_read [OF _ w(1)] by auto
  obtain k2 where k2: "has_read le d1 c1 k2 d2 c2" "l2 = l1 - int k2" using while_shorts_read [OF _ w(2)] by auto
  obtain k3 where k3: "has_read le d2 c2 k3 d3 c3" "l3 = l2 - int k3" "l3 < 2" using while_shorts_read [OF _ w(3)] by auto
  have "has_read le d c (k1 + k2 + k3) d3 c3" by (rule has_read_trans [OF has_read_trans [OF k1(1) k2(1)] k3(1)])
  then have R: "k1 + k2 + k3 \<le> length d" "d3 = drop (k1 + k2 + k3) d" by (simp_all add: has_read_def)
  have l3: "l3 = dlen - int (k1 + k2 + k3)" using k1(2) k2(2) k3(2) by simp
  show ?thesis
  proof (cases "l3 = 1")
    case True
    then have "k1 + k2 + k3 < length d" using R w(4) by auto
    then show ?thesis using True l3 by linarith
  next
    case False
    then show ?thesis using R(1) l3 k3(3) by linarith
  qed
qed

lemma sum_rest_eq:
  "sum_rest le d dlen c =
     (if nat dlen \<le> length d then Some (fold_sum (c + of_nat (ssum le (take (nat dlen) d)))) else None)"
proof (cases "nat dlen \<le> length d")
  case False
  then show ?thesis using sum_rest_Some [of le d dlen c] by (cases "sum_rest le d dlen c") auto
qed (simp add: sum_rest_read)

lemma add_shorts_eq:
  "add_shorts le n w c =
     (if 2 * n \<le> length w then Some (drop (2 * n) w, c + of_nat (ssum le (take (2 * n) w))) else None)"
proof (cases "add_shorts le n w c")
  case (Some p)
  then obtain w' c' where "p = (w', c')" "has_read le w c (2 * n) w' c'" using add_shorts_read by (cases p) blast
  then show ?thesis using Some by (simp add: has_read_def)
qed (simp add: add_shorts_None)

lemma header_rest:
  "(case add_shorts le n d c of None \<Rightarrow> None | Some (d', c') \<Rightarrow> sum_rest le d' (dlen - 2 * int n) c') =
     (if max (2 * n) (nat dlen) \<le> length d
      then Some (fold_sum (c + of_nat (ssum le (take (max (2 * n) (nat dlen)) d)))) else None)"
proof (cases "2 * n \<le> length d")
  case True
  have m: "2 * n + nat (dlen - 2 * int n) = max (2 * n) (nat dlen)" by linarith
  show ?thesis
    unfolding m [symmetric] using True
    by (simp add: add_shorts_eq sum_rest_eq ssum_take_add [OF _ True, symmetric] add.assoc le_diff_conv2 add.commute)
qed (simp add: add_shorts_eq)

lemma ip_options_eq:
  "ip_options le w blen c =
     (if 0 \<le> blen \<and> 4 dvd blen \<and> blen \<le> int (length w) then Some (c + of_nat (ssum le (take (nat blen) w))) else None)"
proof (induction le w blen c rule: ip_options.induct)
  case (1 le w blen c)
  show ?case
  proof (cases "blen = 0")
    case False
    show ?thesis
    proof (cases "4 \<le> length w")
      case True
      have a: "add_shorts le 2 w c = Some (drop 4 w, c + of_nat (ssum le (take 4 w)))"
        using True by (simp add: add_shorts_eq)
      have d: "4 dvd blen - 4 \<longleftrightarrow> 4 dvd blen" by presburger
      have e: "ssum le (take 4 w) + ssum le (take (nat (blen - 4)) (drop 4 w)) = ssum le (take (nat blen) w)" if "4 \<le> blen"
      proof -
        have "4 + nat (blen - 4) = nat blen" using that by linarith
        then show ?thesis using ssum_take_add [of 4 w le "nat (blen - 4)"] True by simp
      qed
      have neg: "\<not> 0 \<le> blen - 4 \<Longrightarrow> 4 dvd blen \<Longrightarrow> \<not> 0 \<le> blen" using False by presburger
      show ?thesis
        using "1.IH" [OF False a refl] False a d e neg True
        by (subst ip_options.simps) (auto simp: add.assoc of_nat_add [symmetric] simp del: of_nat_add)
    next
      case F: False
      then have "add_shorts le 2 w c = None" by (simp add: add_shorts_None)
      moreover have "\<not> (0 \<le> blen \<and> 4 dvd blen \<and> blen \<le> int (length w))" using F False by presburger
      ultimately show ?thesis using False by (subst ip_options.simps) simp
    qed
  qed (subst ip_options.simps, simp)
qed

section \<open>The checksums and RFC 1071\<close>

lemma ssum_bound: "2 * ssum le bs \<le> 65535 * (length bs + 1)"
proof (induction le bs rule: shorts.induct)
  case (3 le a b bs)
  have "unat (short_of le a b) \<le> 65535" using unat_u16_bound [of "short_of le a b"] by linarith
  then show ?case using 3 by (simp add: ssum_def)
next
  case (2 le a)
  have "unat (short_of le a 0) \<le> 65535" using unat_u16_bound [of "short_of le a 0"] by linarith
  then show ?case by (simp add: ssum_def)
qed simp

lemma fold_sum_rfc1071:
  assumes "length bs \<le> 131071"
  shows "fold_sum (of_nat (ssum le bs)) = rfc1071 le bs"
proof -
  have "65535 * (length bs + 1) \<le> 65535 * 131072" using assms by simp
  then have "2 * ssum le bs \<le> 8589803520" using ssum_bound [of le bs] by simp
  then have "ssum le bs < 4294967296" by simp
  then have "unat (fold_sum (of_nat (ssum le bs))) = unat (rfc1071 le bs)"
    by (simp add: unat_fold_sum unat_rfc1071 unat_of_nat_u32)
  then show ?thesis by (simp add: word_unat_eq_iff)
qed

lemma with_pseudo_header:
  assumes "length hb = 2 * n" "n \<le> 18" "dlen \<le> 131000" "k \<le> 10"
  shows "(case add_shorts le n hb 0 of None \<Rightarrow> None | Some (_, c) \<Rightarrow>
      (case add_shorts le k d c of None \<Rightarrow> None | Some (d', c') \<Rightarrow> sum_rest le d' (dlen - 2 * int k) c')) =
    (if max (2 * k) (nat dlen) \<le> length d then Some (rfc1071 le (hb @ take (max (2 * k) (nat dlen)) d)) else None)"
proof -
  have a: "add_shorts le n hb 0 = Some ([], of_nat (ssum le hb))" using assms(1) by (simp add: add_shorts_eq)
  have "of_nat (ssum le hb) + of_nat (ssum le (take m d)) = (of_nat (ssum le (hb @ take m d)) :: u32)" for m
    using assms(1) by (simp add: ssum_append)
  moreover have "length (hb @ take (max (2 * k) (nat dlen)) d) \<le> 131071" using assms by simp
  ultimately show ?thesis
    unfolding a option.case prod.case header_rest by (simp only: fold_sum_rfc1071)
qed

definition checksum_spec :: "bool \<Rightarrow> bytes \<Rightarrow> nat \<Rightarrow> bytes \<Rightarrow> int \<Rightarrow> u16 option" where
  \<comment> \<open>over \<open>hb\<close> and \<open>n\<close> bytes of \<open>d\<close>, but \<open>hdr\<close> at least; \<open>None\<close> if there are fewer\<close>
  "checksum_spec le hb hdr d n =
     (if max hdr (nat n) \<le> length d then Some (rfc1071 le (hb @ take (max hdr (nat n)) d)) else None)"

lemma ph_bytes_length: "ph_v4 ph \<Longrightarrow> length (ph_bytes ph) = 2 * 6" "ph_v6 ph \<Longrightarrow> length (ph_bytes ph) = 2 * 18"
  by (simp_all add: ph_v4_def ph_v6_def ph_bytes_def)

lemma with_header_spec:
  assumes "length hb = 2 * n" "n \<le> 18" "dlen \<le> 65535" "k \<le> 10" and "i = 2 * int k" "h = 2 * k"
  shows "(case add_shorts le n hb 0 of None \<Rightarrow> None | Some (_, c) \<Rightarrow>
      (case add_shorts le k d c of None \<Rightarrow> None | Some (d', c') \<Rightarrow> sum_rest le d' (dlen - i) c')) = checksum_spec le hb h d dlen"
  unfolding checksum_spec_def assms(5,6) by (rule with_pseudo_header) (use assms in simp_all)

lemma chksum_tcp_udp:
  assumes "n \<le> 65535"
  shows "ph_v4 ph \<Longrightarrow> in_chksum_tcp le ph d n = checksum_spec le (ph_bytes ph) 20 d n"
    and "ph_v6 ph \<Longrightarrow> in_chksum_tcp6 le ph d n = checksum_spec le (ph_bytes ph) 20 d n"
    and "ph_v4 ph \<Longrightarrow> in_chksum_udp le ph d n = checksum_spec le (ph_bytes ph) 8 d n"
    and "ph_v6 ph \<Longrightarrow> in_chksum_udp6 le ph d n = checksum_spec le (ph_bytes ph) 8 d n"
  unfolding in_chksum_tcp_def in_chksum_tcp6_def in_chksum_udp_def in_chksum_udp6_def
  by (rule with_header_spec, use ph_bytes_length assms in simp_all)+

lemma chksum_icmp:
  assumes "n \<le> 65535"
  shows "in_chksum_icmp le d n = checksum_spec le [] 0 d n"
    and "ph_v6 ph \<Longrightarrow> in_chksum_icmp6 le ph d n = checksum_spec le (ph_bytes ph) 0 d n"
proof -
  show "in_chksum_icmp le d n = checksum_spec le [] 0 d n"
    using with_header_spec [of "[]" 0 n 0 0 0 le d] assms by (simp add: in_chksum_icmp_def)
  show "in_chksum_icmp6 le ph d n = checksum_spec le (ph_bytes ph) 0 d n" if "ph_v6 ph"
  proof -
    have "length (ph_bytes ph) = 2 * 18" "(18 :: nat) \<le> 18" "(0 :: nat) \<le> 10" "(0 :: int) = 2 * int 0" "(0 :: nat) = 2 * 0"
      using ph_bytes_length(2) [OF that] by simp_all
    from with_header_spec [OF this(1,2) assms this(3,4,5), of le d] show ?thesis
      unfolding in_chksum_icmp6_def add_shorts.simps(1) option.case prod.case diff_0_right .
  qed
qed

lemma chksum_ip:
  assumes "n \<le> 65535"
  shows "in_chksum_ip le d n = (if 20 \<le> n \<and> 4 dvd n then checksum_spec le [] 20 d n else None)"
proof (cases "20 \<le> length d")
  case False
  then show ?thesis by (simp add: in_chksum_ip_def add_shorts_eq checksum_spec_def)
next
  case True
  have i: "in_chksum_ip le d n =
      (if 0 \<le> n - 20 \<and> 4 dvd n - 20 \<and> n - 20 \<le> int (length (drop 20 d))
       then Some (fold_sum (of_nat (ssum le (take 20 d) + ssum le (take (nat (n - 20)) (drop 20 d))))) else None)"
    using True by (simp add: in_chksum_ip_def add_shorts_eq ip_options_eq)
  have c: "(0 \<le> n - 20 \<and> 4 dvd n - 20 \<and> n - 20 \<le> int (length (drop 20 d))) \<longleftrightarrow>
      20 \<le> n \<and> 4 dvd n \<and> nat n \<le> length d"
  proof -
    have "4 dvd n - 20 \<longleftrightarrow> 4 dvd n" by presburger
    moreover have "n - 20 \<le> int (length (drop 20 d)) \<longleftrightarrow> nat n \<le> length d" using True by auto
    ultimately show ?thesis by auto
  qed
  show ?thesis
  proof (cases "20 \<le> n \<and> 4 dvd n \<and> nat n \<le> length d")
    case T: True
    have m: "20 + nat (n - 20) = nat n" "max 20 (nat n) = nat n" using T by linarith+
    have "even (20 :: nat)" by simp
    then have e: "ssum le (take 20 d) + ssum le (take (nat (n - 20)) (drop 20 d)) = ssum le (take (nat n) d)"
      unfolding m(1) [symmetric] using True by (intro ssum_take_add)
    have "length (take (nat n) d) \<le> 131071" using assms by simp
    then show ?thesis unfolding i c checksum_spec_def e m(2) using T fold_sum_rfc1071 by simp
  next
    case F: False
    then show ?thesis unfolding i c checksum_spec_def by auto
  qed
qed

section \<open>Byte order\<close>

definition swap16 :: "u16 \<Rightarrow> u16" where
  "swap16 x = push_bit 8 x OR drop_bit 8 x"

lemma short_of_swap: "short_of False a b = swap16 (short_of True a b)"
  by (rule bit_word_eqI) (auto simp: short_of_def swap16_def bit_simps dest: bit_imp_le_length)

lemma swap16_bytes: "(ucast (swap16 x) :: u8) = ucast (drop_bit 8 x)" "(ucast (drop_bit 8 (swap16 x)) :: u8) = ucast x"
  by (rule bit_word_eqI; auto simp: swap16_def bit_simps dest: bit_imp_le_length)+

lemma store_short_swap: "store_short False (swap16 x) = store_short True x"
  by (simp add: store_short_def swap16_bytes)

lemma swap16_not: "swap16 (NOT x) = NOT (swap16 x)"
  by (rule bit_word_eqI) (auto simp: swap16_def bit_simps dest: bit_imp_le_length)

lemma unat_swap16: "unat (swap16 x) = 256 * (unat x mod 256) + unat x div 256"
proof -
  let ?h = "push_bit 8 x" and ?l = "drop_bit 8 x"
  have l: "unat ?l = unat x div 256" unfolding unat_drop_bit_eq by (simp add: drop_bit_eq_div)
  have h: "unat ?h = 256 * (unat x mod 256)"
  proof -
    have "unat ?h = (256 * unat x) mod 65536" by (simp add: push_bit_eq_mult unat_word_ariths mult.commute)
    also have "\<dots> = 256 * (unat x mod 256)" using mod_mult_mult1 [of 256 "unat x" 256] by simp
    finally show ?thesis .
  qed
  have "?h AND ?l = 0" by (rule bit_word_eqI) (auto simp: bit_simps dest: bit_imp_le_length)
  then have "swap16 x = ?h + ?l" by (simp add: swap16_def disjunctive_add_eq_or)
  moreover have "256 * (unat x mod 256) + unat x div 256 < 65536"
    using unat_u16_bound [of x] less_mult_imp_div_less [of "unat x" 256 256] mod_less_divisor [of 256 "unat x"] by linarith
  ultimately show ?thesis using l h by (simp add: unat_word_ariths)
qed

lemma swap16_mod: "unat (swap16 x) mod 65535 = 256 * unat x mod 65535"
proof -
  have "256 * unat x = 65536 * (unat x div 256) + 256 * (unat x mod 256)"
    using mult_div_mod_eq [of 256 "unat x"] by linarith
  then have "256 * unat x = unat (swap16 x) + 65535 * (unat x div 256)" by (simp add: unat_swap16)
  then show ?thesis by simp
qed

lemma swap16_0: "unat (swap16 x) = 0 \<longleftrightarrow> unat x = 0"
  unfolding unat_swap16 using mult_div_mod_eq [of 256 "unat x"] by auto

lemma ssum_swap: "ssum False bs mod 65535 = 256 * ssum True bs mod 65535" "ssum False bs = 0 \<longleftrightarrow> ssum True bs = 0"
proof -
  have "ssum False bs mod 65535 = 256 * ssum True bs mod 65535 \<and> (ssum False bs = 0 \<longleftrightarrow> ssum True bs = 0)"
  proof (induction True bs rule: shorts.induct)
    case (2 a)
    show ?case unfolding ssum_def by (simp add: short_of_swap [of a 0] swap16_mod swap16_0 del: unat_eq_0)
  next
    case (3 a b bs)
    let ?x = "short_of True a b"
    have "(unat (swap16 ?x) + ssum False bs) mod 65535 = (256 * unat ?x + 256 * ssum True bs) mod 65535"
      using 3 swap16_mod by (intro mod_add_cong) simp_all
    then show ?case using 3 swap16_0 [of ?x] by (simp add: ssum_def short_of_swap [of a b] distrib_left del: unat_eq_0)
  qed simp
  then show "ssum False bs mod 65535 = 256 * ssum True bs mod 65535" "ssum False bs = 0 \<longleftrightarrow> ssum True bs = 0" by simp_all
qed

lemma rfc1071_swap: "rfc1071 False bs = swap16 (rfc1071 True bs)"
proof -
  let ?f = "foldl oc_add 0 (shorts False bs)" and ?t = "foldl oc_add 0 (shorts True bs)"
  have f: "unat ?f = oc_norm (ssum False bs)" and t: "unat ?t = oc_norm (ssum True bs)"
    using foldl_oc_add [of 0] by (simp_all add: ssum_def)
  have "unat (swap16 ?t) mod 65535 = ssum False bs mod 65535"
    using swap16_mod [of ?t] ssum_swap(1) [of bs] oc_norm_mod [of "ssum True bs"] t by (metis mod_mult_right_eq)
  moreover have "unat (swap16 ?t) = 0 \<longleftrightarrow> ssum False bs = 0"
    using swap16_0 [of ?t] t ssum_swap(2) [of bs] oc_norm_eq_0 by simp
  ultimately have "oc_norm (unat (swap16 ?t)) = oc_norm (ssum False bs)" by (rule oc_norm_cong)
  moreover have "oc_norm (unat (swap16 ?t)) = unat (swap16 ?t)"
    using unat_u16_bound [of "swap16 ?t"] by (intro oc_norm_small) linarith
  ultimately have "?f = swap16 ?t" using f by (simp add: word_unat_eq_iff)
  then show ?thesis by (simp add: rfc1071_def swap16_not)
qed

lemma rfc1071_order: "store_short False (rfc1071 False bs) = store_short True (rfc1071 True bs)"
  by (simp add: rfc1071_swap store_short_swap)

lemma checksum_spec_order:
  "map_option (store_short False) (checksum_spec False hb k d n) = map_option (store_short True) (checksum_spec True hb k d n)"
  by (simp add: checksum_spec_def rfc1071_order)

section \<open>The checksum in its field\<close>

lemma short_of_store: "store_short le x = [a, b] \<Longrightarrow> short_of le a b = x"
  by (rule bit_word_eqI) (auto simp: store_short_def short_of_def bit_simps split: if_splits)

lemma ssum_field:
  assumes "even (length pre)"
  shows "ssum le (pre @ store_short le x @ post) = ssum le (pre @ store_short le 0 @ post) + unat x"
proof -
  have s: "ssum le (store_short le y @ post) = unat y + ssum le post" for y
  proof -
    obtain a b where ab: "store_short le y = [a, b]" by (cases le) (simp_all add: store_short_def)
    then show ?thesis using short_of_store [OF ab] by (simp add: ssum_def)
  qed
  show ?thesis unfolding ssum_append [OF assms] s by simp
qed

lemma field_accepted:
  assumes "even (length pre)" and c: "rfc1071 le (pre @ store_short le 0 @ post) = c"
  shows "rfc1071 le (pre @ store_short le x @ post) = 0 \<longleftrightarrow> x = c \<or> c = 0 \<and> x = 0xFFFF"
proof -
  define s where "s = ssum le (pre @ store_short le 0 @ post)"
  have x: "unat x \<le> 65535" using unat_u16_bound [of x] by linarith
  have uc: "unat c = 65535 - oc_norm s" unfolding c [symmetric] s_def by (rule unat_rfc1071)
  have "rfc1071 le (pre @ store_short le x @ post) = 0 \<longleftrightarrow> 65535 - oc_norm (s + unat x) = 0"
    unfolding word_unat_eq_iff [where w = 0] unat_rfc1071 ssum_field [OF assms(1), of le x] s_def by simp
  also have "\<dots> \<longleftrightarrow> oc_norm (s + unat x) = 65535" using oc_norm_range [of "s + unat x"] by linarith
  also have "\<dots> \<longleftrightarrow> oc_norm (oc_norm s + unat x) = 65535" by (simp only: oc_norm_add)
  also have "\<dots> \<longleftrightarrow> unat x = unat c \<or> unat c = 0 \<and> unat x = 65535"
  proof -
    define t where "t = oc_norm s"
    have t: "t \<le> 65535" unfolding t_def by (rule oc_norm_range)
    have "oc_norm (t + unat x) = 65535 \<longleftrightarrow> t + unat x = 65535 \<or> t + unat x = 131070"
    proof (cases "t + unat x \<le> 65535")
      case False
      then have "oc_norm (t + unat x) = t + unat x - 65535"
      proof -
        have "(t + unat x) mod 65535 = (t + unat x - 65535) mod 65535" using False by (simp add: le_mod_geq)
        then have "oc_norm (t + unat x) = oc_norm (t + unat x - 65535)" by (rule oc_norm_cong) (use False in linarith)
        then show ?thesis using t x by (simp add: oc_norm_small)
      qed
      then show ?thesis using False by linarith
    qed (use oc_norm_small in fastforce)
    then show ?thesis unfolding uc t_def [symmetric] using t x by linarith
  qed
  also have "\<dots> \<longleftrightarrow> x = c \<or> c = 0 \<and> x = 0xFFFF" by (simp add: word_unat_eq_iff)
  finally show ?thesis .
qed

section \<open>Properties\<close>

text \<open> C14. Every checksum function that takes an \<open>int\<close> length up to 65535 computes the checksum of RFC 1071 over
  the pseudo header, where it has one, and the bytes it is told, the fixed part of the header at
  least, on machines of either byte order, although it sums up to sixteen words per turn and folds
  the carries at the end only; and it reads no byte beyond those (\<open>checksum_spec\<close> is \<open>None\<close> exactly
  if there are fewer).  The header length of IPv4 must be a multiple of 4, 20 at least; on every other
  the loop over the options runs out of the header.\<close>

theorem in_chksum_rfc1071:
  assumes "ph_v4 ph" and "ph_v6 ph6" and "n \<le> 65535"
  shows "in_chksum_ip le d n = (if 20 \<le> n \<and> 4 dvd n then checksum_spec le [] 20 d n else None) \<and>
    in_chksum_tcp le ph d n = checksum_spec le (ph_bytes ph) 20 d n \<and>
    in_chksum_tcp6 le ph6 d n = checksum_spec le (ph_bytes ph6) 20 d n \<and>
    in_chksum_udp le ph d n = checksum_spec le (ph_bytes ph) 8 d n \<and>
    in_chksum_udp6 le ph6 d n = checksum_spec le (ph_bytes ph6) 8 d n \<and>
    in_chksum_icmp le d n = checksum_spec le [] 0 d n \<and>
    in_chksum_icmp6 le ph6 d n = checksum_spec le (ph_bytes ph6) 0 d n"
  using assms by (simp add: chksum_ip chksum_tcp_udp chksum_icmp)

text \<open>An IPv4 header (RFC 1071 style example) and pseudo headers.\<close>

definition demo_ip :: bytes where
  "demo_ip = [0x45, 0, 0, 0x73, 0, 0, 0x40, 0, 0x40, 0x11, 0, 0, 0xC0, 0xA8, 0, 1, 0xC0, 0xA8, 0, 0xC7]"

definition demo_ph :: "nat \<Rightarrow> pseudoheader" where
  "demo_ph k = \<lparr>ph_sip = replicate k 1, ph_dip = replicate k 2, ph_zero = 0, ph_protocol = 17, ph_len = [0, 9]\<rparr>"

lemma demo_ph_ok: "ph_v4 (demo_ph 4)" "ph_v6 (demo_ph 16)"
  by (simp_all add: demo_ph_def ph_v4_def ph_v6_def)

lemma demo_ip_checksum: "in_chksum_ip False demo_ip 20 = Some 0xB861"
  by code_simp

theorem in_chksum_rfc1071_witness:
  "checksum_spec False [] 20 demo_ip 20 = Some 0xB861 \<and>
   in_chksum_udp True (demo_ph 4) (take 9 demo_ip) 9 = checksum_spec True (ph_bytes (demo_ph 4)) 8 (take 9 demo_ip) 9"
  using in_chksum_rfc1071 [OF demo_ph_ok, of 20 False demo_ip] in_chksum_rfc1071 [OF demo_ph_ok, of 9 True "take 9 demo_ip"]
    demo_ip_checksum by simp

text \<open> C15. The functions handle both byte orders: the checksum, stored as a word, has the same two bytes in
  memory on machines of either order, without any conversion.\<close>

theorem in_chksum_byte_order:
  assumes "ph_v4 ph" and "ph_v6 ph6" and "n \<le> 65535"
  shows "map_option (store_short False) (in_chksum_ip False d n) = map_option (store_short True) (in_chksum_ip True d n) \<and>
    map_option (store_short False) (in_chksum_tcp False ph d n) = map_option (store_short True) (in_chksum_tcp True ph d n) \<and>
    map_option (store_short False) (in_chksum_tcp6 False ph6 d n) = map_option (store_short True) (in_chksum_tcp6 True ph6 d n) \<and>
    map_option (store_short False) (in_chksum_udp False ph d n) = map_option (store_short True) (in_chksum_udp True ph d n) \<and>
    map_option (store_short False) (in_chksum_udp6 False ph6 d n) = map_option (store_short True) (in_chksum_udp6 True ph6 d n) \<and>
    map_option (store_short False) (in_chksum_icmp False d n) = map_option (store_short True) (in_chksum_icmp True d n) \<and>
    map_option (store_short False) (in_chksum_icmp6 False ph6 d n) = map_option (store_short True) (in_chksum_icmp6 True ph6 d n)"
  using assms by (simp add: chksum_ip chksum_tcp_udp chksum_icmp checksum_spec_order)

theorem in_chksum_byte_order_witness:
  "map_option (store_short False) (in_chksum_ip False demo_ip 20) = Some [0xB8, 0x61] \<and>
   map_option (store_short True) (in_chksum_ip True demo_ip 20) = Some [0xB8, 0x61]"
proof -
  have "map_option (store_short False) (in_chksum_ip False demo_ip 20) = Some [0xB8, 0x61]"
    by (simp add: demo_ip_checksum store_short_def)
  then show ?thesis using in_chksum_byte_order [OF demo_ph_ok, of 20 demo_ip] by simp
qed

text \<open>A packet with the word \<open>x\<close> in its checksum field, \<open>k\<close> bytes from the start.\<close>

definition with_field :: "bool \<Rightarrow> nat \<Rightarrow> bytes \<Rightarrow> u16 \<Rightarrow> bytes" where
  "with_field le k d x = take k d @ store_short le x @ drop (k + 2) d"

lemma with_field_length: "k + 2 \<le> length d \<Longrightarrow> length (with_field le k d x) = length d"
  by (simp add: with_field_def store_short_def)

lemma spec_accepts:
  assumes "even (length hb)" and "even k" and "k + 2 \<le> length d" and "hdr \<le> length d"
    and "checksum_spec le hb hdr (with_field le k d 0) (int (length d)) = Some c"
  shows "checksum_spec le hb hdr (with_field le k d x) (int (length d)) = Some 0 \<longleftrightarrow> x = c \<or> c = 0 \<and> x = 0xFFFF"
proof -
  have s: "checksum_spec le hb hdr (with_field le k d y) (int (length d)) =
      Some (rfc1071 le ((hb @ take k d) @ store_short le y @ drop (k + 2) d))" for y
  proof -
    have "max hdr (nat (int (length d))) = length (with_field le k d y)"
      using assms(4) with_field_length [OF assms(3), of le y] by simp
    then show ?thesis by (simp add: checksum_spec_def) (simp add: with_field_def)
  qed
  have c: "rfc1071 le ((hb @ take k d) @ store_short le 0 @ drop (k + 2) d) = c" using assms(5) unfolding s by simp
  have "even (length (hb @ take k d))" using assms(1-3) by simp
  from field_accepted [OF this c, of x] show ?thesis unfolding s by simp
qed

text \<open> C16. The checksum a sender computes with its field zero and stores there is accepted by the receiver, which
  computes over the packet as it is and expects 0; and so is no other value of the field, but
  0xFFFF where the checksum is 0.  For the fields of TCP, UDP, ICMP, over either version of IP, and for IPv4.\<close>

theorem in_chksum_accepts:
  assumes "ph_v4 ph" and "ph_v6 ph6" and "length d \<le> 65535"
  shows "(20 \<le> length d \<and> 4 dvd length d \<longrightarrow> (\<exists>c. in_chksum_ip le (with_field le 10 d 0) (int (length d)) = Some c \<and>
       (in_chksum_ip le (with_field le 10 d x) (int (length d)) = Some 0 \<longleftrightarrow> x = c \<or> c = 0 \<and> x = 0xFFFF))) \<and>
    (20 \<le> length d \<longrightarrow> (\<exists>c. in_chksum_tcp le ph (with_field le 16 d 0) (int (length d)) = Some c \<and>
       (in_chksum_tcp le ph (with_field le 16 d x) (int (length d)) = Some 0 \<longleftrightarrow> x = c \<or> c = 0 \<and> x = 0xFFFF))) \<and>
    (20 \<le> length d \<longrightarrow> (\<exists>c. in_chksum_tcp6 le ph6 (with_field le 16 d 0) (int (length d)) = Some c \<and>
       (in_chksum_tcp6 le ph6 (with_field le 16 d x) (int (length d)) = Some 0 \<longleftrightarrow> x = c \<or> c = 0 \<and> x = 0xFFFF))) \<and>
    (8 \<le> length d \<longrightarrow> (\<exists>c. in_chksum_udp le ph (with_field le 6 d 0) (int (length d)) = Some c \<and>
       (in_chksum_udp le ph (with_field le 6 d x) (int (length d)) = Some 0 \<longleftrightarrow> x = c \<or> c = 0 \<and> x = 0xFFFF))) \<and>
    (8 \<le> length d \<longrightarrow> (\<exists>c. in_chksum_udp6 le ph6 (with_field le 6 d 0) (int (length d)) = Some c \<and>
       (in_chksum_udp6 le ph6 (with_field le 6 d x) (int (length d)) = Some 0 \<longleftrightarrow> x = c \<or> c = 0 \<and> x = 0xFFFF))) \<and>
    (4 \<le> length d \<longrightarrow> (\<exists>c. in_chksum_icmp le (with_field le 2 d 0) (int (length d)) = Some c \<and>
       (in_chksum_icmp le (with_field le 2 d x) (int (length d)) = Some 0 \<longleftrightarrow> x = c \<or> c = 0 \<and> x = 0xFFFF))) \<and>
    (4 \<le> length d \<longrightarrow> (\<exists>c. in_chksum_icmp6 le ph6 (with_field le 2 d 0) (int (length d)) = Some c \<and>
       (in_chksum_icmp6 le ph6 (with_field le 2 d x) (int (length d)) = Some 0 \<longleftrightarrow> x = c \<or> c = 0 \<and> x = 0xFFFF)))"
proof -
  have n: "int (length d) \<le> 65535" using assms(3) by simp
  have ev: "even (length (ph_bytes ph))" "even (length (ph_bytes ph6))" using ph_bytes_length assms(1,2) by simp_all
  have a: "\<exists>c. checksum_spec le hb hdr (with_field le k d 0) (int (length d)) = Some c \<and>
       (checksum_spec le hb hdr (with_field le k d x) (int (length d)) = Some 0 \<longleftrightarrow> x = c \<or> c = 0 \<and> x = 0xFFFF)"
    if "even (length hb)" "even k" "k + 2 \<le> length d" "hdr \<le> length d" for hb hdr k
  proof -
    have "\<exists>c. checksum_spec le hb hdr (with_field le k d 0) (int (length d)) = Some c"
      using that with_field_length [OF that(3), of le 0] by (simp add: checksum_spec_def)
    then show ?thesis using spec_accepts [OF that] by blast
  qed
  have dvd: "4 dvd int (length d) \<longleftrightarrow> 4 dvd length d" by presburger
  show ?thesis
    unfolding chksum_ip [OF n] chksum_tcp_udp(1) [OF n assms(1)] chksum_tcp_udp(2) [OF n assms(2)] chksum_tcp_udp(3) [OF n assms(1)]
      chksum_tcp_udp(4) [OF n assms(2)] chksum_icmp(1) [OF n] chksum_icmp(2) [OF n assms(2)] dvd
    using a [of "[]" 10 20] a [OF ev(1), of 16 20] a [OF ev(2), of 16 20] a [OF ev(1), of 6 8] a [OF ev(2), of 6 8]
      a [of "[]" 2 0] a [OF ev(2), of 2 0]
    by auto
qed

theorem in_chksum_accepts_witness:
  "in_chksum_ip False (with_field False 10 demo_ip 0xB861) 20 = Some 0 \<and> in_chksum_ip False (with_field False 10 demo_ip 0xB862) 20 \<noteq> Some 0"
proof -
  have l: "length demo_ip = 20" by (simp add: demo_ip_def)
  have "in_chksum_ip False (with_field False 10 demo_ip 0) 20 = Some 0xB861" by code_simp
  then show ?thesis
    using in_chksum_accepts [OF demo_ph_ok, of demo_ip False "0xB861"] in_chksum_accepts [OF demo_ph_ok, of demo_ip False "0xB862"]
    by (simp add: l)
qed

section \<open>The plain loop\<close>

lemma oc_loop_ends:
  "unat (sz - 1) \<le> i \<Longrightarrow> oc_loop le buf sz i acc = Some (i, acc)"
  by (subst oc_loop.simps) simp

lemma oc_loop_read:
  assumes sz: "sz = of_nat m" "0 < m" "m \<le> length buf" "m < 2147483648" and w: "w = drop i buf" "even i" "i \<le> m"
  shows "oc_loop le buf sz i acc = Some (m div 2 * 2, acc + of_nat (ssum le (take (m div 2 * 2 - i) w)))"
  using w
proof (induction "m - i" arbitrary: i acc w rule: less_induct)
  case less
  have u: "unat (sz - 1) = m - 1"
  proof -
    have "unat sz = m" using sz(1,4) by (simp add: unat_of_nat_u32)
    moreover have "1 \<le> sz" using sz(2) calculation by (simp add: word_le_nat_alt)
    ultimately show ?thesis by (simp add: unat_sub)
  qed
  show ?case
  proof (cases "i < m - 1")
    case False
    have "i = m div 2 * 2" using False less.prems by presburger
    then show ?thesis using oc_loop_ends [of sz i le buf acc] u False by simp
  next
    case True
    have i: "i + 2 \<le> m" "even (i + 2)" "i + 1 < length buf" using True less.prems sz(3) by presburger+
    have d: "drop i buf = buf ! i # buf ! (i + 1) # drop (i + 2) buf"
      using i(3) by (simp add: Cons_nth_drop_Suc [symmetric])
    have t: "m div 2 * 2 - i = Suc (Suc (m div 2 * 2 - (i + 2)))" using i True less.prems by presburger
    have "oc_loop le buf sz (i + 2) (acc + ucast (short_of le (buf ! i) (buf ! (i + 1)))) =
        Some (m div 2 * 2, acc + ucast (short_of le (buf ! i) (buf ! (i + 1))) +
          of_nat (ssum le (take (m div 2 * 2 - (i + 2)) (drop (i + 2) buf))))"
      using less.hyps [OF _ refl i(2,1)] True by simp
    moreover have "oc_loop le buf sz i acc = oc_loop le buf sz (i + 2) (acc + ucast (short_of le (buf ! i) (buf ! (i + 1))))"
      using True u i sz(3,4) by (subst oc_loop.simps) simp
    ultimately show ?thesis
      unfolding less.prems(1) d t by (simp add: ssum_def of_nat_short add.assoc)
  qed
qed

lemma oc_fold_norm: "unat (oc_fold acc) = oc_norm (unat acc)"
proof (induction acc rule: oc_fold.induct)
  case (1 acc)
  show ?case
  proof (cases "drop_bit 16 acc = 0")
    case True
    then have "unat acc div 65536 = 0" using low_high(2) [of acc] by simp
    then have "unat acc \<le> 65535" by (simp add: div_eq_0_iff)
    then show ?thesis using True by (subst oc_fold.simps) (simp add: oc_norm_small)
  next
    case False
    have "unat ((acc AND 0xFFFF) + drop_bit 16 acc) = unat acc mod 65536 + unat acc div 65536"
    proof -
      have "unat acc div 65536 < 65536" using unat_u32_bound [of acc] by (simp add: less_mult_imp_div_less)
      moreover have "unat acc mod 65536 < 65536" by simp
      ultimately have "unat acc mod 65536 + unat acc div 65536 < 4294967296" by linarith
      then show ?thesis unfolding unat_word_ariths low_high by simp
    qed
    then show ?thesis using 1 [OF False] False oc_norm_fold [of "unat acc"] by (subst oc_fold.simps) simp
  qed
qed

lemma oc_result:
  assumes "length bs \<le> 131071"
  shows "ucast (NOT (oc_fold (of_nat (ssum le bs)))) = rfc1071 le bs"
proof -
  have "65535 * (length bs + 1) \<le> 65535 * 131072" using assms by simp
  then have "2 * ssum le bs \<le> 8589803520" using ssum_bound [of le bs] by simp
  then have s: "unat (of_nat (ssum le bs) :: u32) = ssum le bs" by (simp add: unat_of_nat_u32)
  define x where "x = oc_fold (of_nat (ssum le bs))"
  have x: "unat x = oc_norm (ssum le bs)" using oc_fold_norm [of "of_nat (ssum le bs)"] s by (simp add: x_def)
  have "(ucast (NOT x) :: u16) = NOT (ucast x)" by (rule bit_word_eqI) (simp add: bit_simps)
  moreover have "unat (ucast x :: u16) = oc_norm (ssum le bs)"
    using x oc_norm_range [of "ssum le bs"] by (simp add: unsigned_ucast_eq take_bit_eq_mod)
  ultimately show ?thesis unfolding x_def [symmetric] by (simp add: word_unat_eq_iff unat_not_u16 unat_rfc1071)
qed

text \<open> C18. \<open>ones_compl_checksum\<close> computes the checksum of RFC 1071 over the \<open>size\<close> bytes of its buffer, and reads
  no other, on a little endian machine and for an even size.  For an odd size a big endian machine takes the
  last byte as the second of a word, after a zero, where RFC 1071 has it first.\<close>

theorem ones_compl_checksum_rfc1071:
  assumes "0 < m" and "m \<le> length buf" and "m \<le> 131070"
  shows "ones_compl_checksum le buf (of_nat m) =
    Some (rfc1071 le (if le \<or> even m then take m buf else take (m - 1) buf @ [0, buf ! (m - 1)]))"
proof -
  define k where "k = m div 2 * 2"
  have loop: "oc_loop le buf (of_nat m) 0 0 = Some (k, of_nat (ssum le (take k buf)))"
    using oc_loop_read [OF refl assms(1,2), of buf 0 le 0] assms(3) by (simp add: k_def)
  have odd: "(of_nat m :: u32) AND 1 = 0 \<longleftrightarrow> even m"
  proof -
    have "unat ((of_nat m :: u32) AND 1) = m mod 2"
      using assms(3) by (simp add: and_one_eq unat_mod unat_of_nat_u32)
    then show ?thesis by (metis even_iff_mod_2_eq_zero unat_eq_0)
  qed
  show ?thesis
  proof (cases "even m")
    case True
    then have "k = m" by (simp add: k_def)
    then show ?thesis using loop odd True assms oc_result [of "take m buf" le] by (simp add: ones_compl_checksum_def)
  next
    case False
    have k: "k = m - 1" "even k" "k < length buf" using False assms by (auto simp: k_def odd_iff_mod_2_eq_one) presburger+
    define bs where "bs = (if le then take m buf else take (m - 1) buf @ [0, buf ! (m - 1)])"
    have m: "m = Suc k" using k(1) assms(1) by simp
    have "ssum le bs = ssum le (take k buf) + unat (buf ! k)"
    proof (cases le)
      case True
      have "take m buf = take k buf @ [buf ! k]" unfolding m by (rule take_Suc_conv_app_nth [OF k(3)])
      moreover have "unat (short_of True a 0) = unat a" for a by (simp add: short_of_def)
      ultimately show ?thesis using True k by (simp add: bs_def ssum_append) (simp add: ssum_def)
    next
      case F: False
      have "unat (short_of False 0 a) = unat a" for a by (simp add: short_of_def)
      then show ?thesis using F k by (simp add: bs_def ssum_append) (simp add: ssum_def)
    qed
    then have "of_nat (ssum le (take k buf)) + ucast (buf ! k) = (of_nat (ssum le bs) :: u32)"
      by simp
    moreover have "length bs \<le> 131071" using assms by (simp add: bs_def)
    ultimately have "ucast (NOT (oc_fold (of_nat (ssum le (take k buf)) + ucast (buf ! k)))) = rfc1071 le bs"
      using oc_result by simp
    then show ?thesis using loop odd False k by (simp add: ones_compl_checksum_def bs_def)
  qed
qed

theorem ones_compl_checksum_rfc1071_witness:
  "ones_compl_checksum True [0x12, 0x34, 0x56] 3 = Some (rfc1071 True [0x12, 0x34, 0x56]) \<and>
   ones_compl_checksum False [0x12, 0x34, 0x56] 3 = Some (rfc1071 False [0x12, 0x34, 0, 0x56])"
  using ones_compl_checksum_rfc1071 [of 3 "[0x12, 0x34, 0x56]" True] ones_compl_checksum_rfc1071 [of 3 "[0x12, 0x34, 0x56]" False]
  by simp

text \<open>The two are different, and a size of 0 reads behind the buffer.\<close>

lemma ones_compl_odd_big_endian: "rfc1071 False [0x12, 0x34, 0, 0x56] \<noteq> rfc1071 False [0x12, 0x34, 0x56]"
  by (simp add: rfc1071_def short_of_def oc_add_def)

lemma ones_compl_empty: "ones_compl_checksum le [] 0 = None"
  by (subst ones_compl_checksum_def, subst oc_loop.simps) (simp add: unsigned_minus_1_eq_mask mask_eq_exp_minus_1)

end
