(* ===== verification/Frag3.thy ===== *)
theory Frag3
  imports Prelude
begin

text \<open>
  The IP defragmenter, \<open>preprocessors/spp_frag3.c\<close>: its data, its memory and the fragment nodes.

  C integers are \<open>int\<close> here, with the conversion to their width written at every assignment
  (\<open>cu16\<close>, \<open>ci16\<close>, \<open>cu32\<close>, \<open>ci32\<close>, \<open>cu64\<close>).  The doubly linked list of the fragments of a
  tracker is the list of its nodes from \<open>fraglist\<close> on.  A node's \<open>data\<close> pointer is its distance
  from the node's buffer \<open>fptr\<close>.  The hash table \<open>f_cache\<close> is the list of its keys and trackers,
  the most recently used first: the contract of \<open>sfutil/sfxhash.c\<close>; a node that left the table
  is kept for reuse.  Counters that are only printed are left out, as are
  \<open>fraglist_tail\<close> and \<open>fraglist_count\<close>, which are only written.
\<close>

section \<open>Conversions\<close>

definition cu16 :: "int \<Rightarrow> int" where "cu16 x = x mod 65536"
definition ci16 :: "int \<Rightarrow> int" where "ci16 x = (x + 32768) mod 65536 - 32768"
definition cu32 :: "int \<Rightarrow> int" where "cu32 x = x mod 4294967296"
definition ci32 :: "int \<Rightarrow> int" where "ci32 x = (x + 2147483648) mod 4294967296 - 2147483648"
definition cu64 :: "int \<Rightarrow> int" where "cu64 x = x mod 18446744073709551616"

lemma cu16_id [simp]: "0 \<le> x \<Longrightarrow> x < 65536 \<Longrightarrow> cu16 x = x" by (simp add: cu16_def)
lemma ci16_id [simp]: "- 32768 \<le> x \<Longrightarrow> x < 32768 \<Longrightarrow> ci16 x = x" by (simp add: ci16_def)
lemma cu32_id [simp]: "0 \<le> x \<Longrightarrow> x < 4294967296 \<Longrightarrow> cu32 x = x" by (simp add: cu32_def)
lemma ci32_id [simp]: "- 2147483648 \<le> x \<Longrightarrow> x < 2147483648 \<Longrightarrow> ci32 x = x" by (simp add: ci32_def)
lemma cu16_range: "0 \<le> cu16 x" "cu16 x < 65536" by (simp_all add: cu16_def)
lemma cu32_range: "0 \<le> cu32 x" "cu32 x < 4294967296" by (simp_all add: cu32_def)

section \<open>Data\<close>

datatype frag_policy =
    FRAG_POLICY_FIRST | FRAG_POLICY_LINUX | FRAG_POLICY_BSD | FRAG_POLICY_BSD_RIGHT
  | FRAG_POLICY_LAST | FRAG_POLICY_WINDOWS | FRAG_POLICY_SOLARIS

datatype frag3_alert =
    FRAG3_IPOPTIONS | FRAG3_TEARDROP | FRAG3_SHORT_FRAG | FRAG3_ANOMALY_OVERSIZE
  | FRAG3_ANOMALY_ZERO | FRAG3_ANOMALY_BADSIZE_SM | FRAG3_ANOMALY_BADSIZE_LG
  | FRAG3_ANOMALY_OVLP | FRAG3_MIN_TTL_EVASION | FRAG3_EXCESSIVE_OVERLAP | FRAG3_TINY_FRAGMENT

record frag3_context =
  fx_policy :: frag_policy
  fx_timeout :: int
  fx_min_ttl :: int
  fx_detect_anomalies :: bool
  fx_bound_addrs :: "(bytes \<Rightarrow> bool) option"
  fx_overlap_limit :: int
  fx_min_fragment_length :: int

record frag3_frag =
  fr_data :: int
  fr_size :: int
  fr_offset :: int
  fr_fptr :: bytes
  fr_flen :: int
  fr_ord :: int
  fr_last :: bool

record fragkey =
  fk_sip :: bytes
  fk_dip :: bytes
  fk_id :: int
  fk_vlan_tag :: int
  fk_proto :: int
  fk_ipver :: int

record frag3_config =
  cfg_max_frags :: int
  cfg_memcap :: int
  cfg_ten_percent :: int
  cfg_static_frags :: int
  cfg_use_prealloc :: bool
  cfg_default_context :: "frag3_context option"
  cfg_contexts :: "frag3_context list"

text \<open>The bits of \<open>frag_flags\<close>.\<close>

definition FRAG_GOT_FIRST :: int where "FRAG_GOT_FIRST = 1"
definition FRAG_GOT_LAST :: int where "FRAG_GOT_LAST = 2"
definition FRAG_REBUILT :: int where "FRAG_REBUILT = 4"
definition FRAG_BAD :: int where "FRAG_BAD = 8"
definition FRAG_NO_BSD_VULN :: int where "FRAG_NO_BSD_VULN = 16"
definition FRAG_DROP_FRAGMENTS :: int where "FRAG_DROP_FRAGMENTS = 32"

lemmas frag_flag_defs = FRAG_GOT_FIRST_def FRAG_GOT_LAST_def FRAG_REBUILT_def FRAG_BAD_def
  FRAG_NO_BSD_VULN_def FRAG_DROP_FRAGMENTS_def

record frag_tracker =
  ft_sip :: bytes
  ft_dip :: bytes
  ft_id :: int
  ft_protocol :: int
  ft_ipver :: int
  ft_ttl :: int
  ft_flags :: int
  ft_bytes :: int
  ft_calculated_size :: int
  ft_pkts :: int
  ft_time :: "int \<times> int"
  ft_fraglist :: "frag3_frag list"
  ft_options_len :: int
  ft_option_count :: int
  ft_options_data :: "bytes option"
  ft_copied_option_count :: int
  ft_context :: frag3_context
  ft_ordinal :: int
  ft_policy :: frag_policy
  ft_overlap_count :: int

text \<open>What the preprocessor reads of a packet.\<close>

record frag_pkt =
  pk_ip6 :: bool
  pk_frag_flag :: bool
  pk_mf :: bool
  pk_frag_offset :: int
  pk_frag_len :: int
  pk_frag_start :: bytes
  pk_sip :: bytes
  pk_dip :: bytes
  pk_id :: int
  pk_vlan :: "int option"
  pk_proto :: int
  pk_ip6f_nxt :: int
  pk_ttl :: int
  pk_time :: "int \<times> int"
  pk_options_len :: int
  pk_options_data :: bytes
  pk_options :: "int list"

text \<open>The state of the preprocessor (its static variables).\<close>

record frag3 =
  f3_cache :: "(fragkey \<times> frag_tracker) list"
  f3_nodes :: nat
  f3_max_nodes :: nat
  f3_mem :: int
  f3_prealloc :: nat
  f3_in_use :: int
  f3_events :: "frag3_alert list"

section \<open>Events\<close>

definition frag3_event :: "frag3_context \<Rightarrow> frag3_alert \<Rightarrow> frag3 \<Rightarrow> frag3" where
  "frag3_event context e st =
     (if fx_detect_anomalies context then st\<lparr>f3_events := f3_events st @ [e]\<rparr> else st)"

section \<open>Memory\<close>

text \<open>\<open>sizeof(Frag3Frag)\<close>: five pointers and two pairs of smaller members.\<close>

definition FRAG3_FRAG_SIZE :: int where "FRAG3_FRAG_SIZE = 56"

definition Frag3PreallocPop :: "frag3 \<Rightarrow> frag3 option" where
  "Frag3PreallocPop st =
     (if f3_prealloc st = 0 then None
      else Some (st\<lparr>f3_prealloc := f3_prealloc st - 1, f3_in_use := cu32 (f3_in_use st + 1)\<rparr>))"

definition Frag3PreallocPush :: "frag3 \<Rightarrow> frag3" where
  "Frag3PreallocPush st = st\<lparr>f3_prealloc := f3_prealloc st + 1, f3_in_use := cu32 (f3_in_use st - 1)\<rparr>"

definition Frag3DeleteFrag :: "frag3_config \<Rightarrow> frag3_frag \<Rightarrow> frag3 \<Rightarrow> frag3" where
  "Frag3DeleteFrag cfg f st =
     (if \<not> cfg_use_prealloc cfg then st\<lparr>f3_mem := cu64 (cu64 (f3_mem st - fr_flen f) - FRAG3_FRAG_SIZE)\<rparr>
      else Frag3PreallocPush st)"

definition Frag3DeleteTracker :: "frag3_config \<Rightarrow> frag_tracker \<Rightarrow> frag3 \<Rightarrow> frag_tracker \<times> frag3" where
  "Frag3DeleteTracker cfg t st =
     (t\<lparr>ft_fraglist := [], ft_options_data := None\<rparr>, fold (Frag3DeleteFrag cfg) (ft_fraglist t) st)"

text \<open>\<open>Frag3RemoveTracker\<close>, with the \<open>Frag3UserFree\<close> that \<open>sfxhash_remove\<close> calls.\<close>

definition Frag3RemoveTracker :: "frag3_config \<Rightarrow> fragkey \<Rightarrow> frag3 \<Rightarrow> frag3" where
  "Frag3RemoveTracker cfg key st =
     (case map_of (f3_cache st) key of
        None \<Rightarrow> st
      | Some t \<Rightarrow>
          (case Frag3DeleteTracker cfg t st of
             (_, st1) \<Rightarrow> st1\<lparr>f3_cache := filter (\<lambda>e. fst e \<noteq> key) (f3_cache st1)\<rparr>))"

text \<open>The two loop conditions of \<open>Frag3Prune\<close>.\<close>

definition over_limit :: "frag3_config \<Rightarrow> frag3 \<Rightarrow> bool" where
  "over_limit cfg st =
     (if \<not> cfg_use_prealloc cfg
      then f3_mem st > cfg_memcap cfg
           \<or> cu32 (int (length (f3_cache st))) > cu32 (cfg_max_frags cfg - 5)
      else f3_in_use st > cu32 (cfg_static_frags cfg - cfg_ten_percent cfg))"

lemma Frag3DeleteFrag_cache [simp]: "f3_cache (Frag3DeleteFrag cfg f st) = f3_cache st"
  by (simp add: Frag3DeleteFrag_def Frag3PreallocPush_def)

lemma fold_DeleteFrag_cache [simp]: "f3_cache (fold (Frag3DeleteFrag cfg) fs st) = f3_cache st"
  by (induction fs arbitrary: st) simp_all

lemma Frag3RemoveTracker_cache [simp]:
  "f3_cache (Frag3RemoveTracker cfg key st) = filter (\<lambda>e. fst e \<noteq> key) (f3_cache st)"
  by (auto simp: Frag3RemoveTracker_def Frag3DeleteTracker_def map_of_eq_None_iff image_iff
      split: option.split intro!: filter_True [symmetric])

lemma remove_key_shorter:
  "xs \<noteq> [] \<Longrightarrow> length (filter (\<lambda>e. fst e \<noteq> fst (last xs)) xs) < length xs"
  using length_filter_less [of "last xs" xs "\<lambda>e. fst e \<noteq> fst (last xs)"] by simp

text \<open>
  \<open>Frag3Prune\<close>: \<open>not_me\<close> is the key of the tracker that must stay; the result is the number of
  trackers pruned.
\<close>

function prune_loop :: "frag3_config \<Rightarrow> fragkey \<Rightarrow> bool \<Rightarrow> nat \<Rightarrow> frag3 \<Rightarrow> nat \<times> frag3" where
  "prune_loop cfg not_me found_this pruned st =
     (if \<not> over_limit cfg st \<or> f3_cache st = [] then (pruned, st)
      else let hnode = last (f3_cache st) in
        if fst hnode = not_me then
          (if found_this then (pruned, st)
           else prune_loop cfg not_me True pruned
                  (st\<lparr>f3_cache := hnode # butlast (f3_cache st)\<rparr>))
        else prune_loop cfg not_me found_this (pruned + 1) (Frag3RemoveTracker cfg (fst hnode) st))"
  by pat_completeness auto
termination
  by (relation "measure (\<lambda>(cfg, not_me, found, pruned, st).
                  2 * length (f3_cache st) + (if found then 0 else 1))")
     (auto dest: remove_key_shorter)

definition Frag3Prune :: "frag3_config \<Rightarrow> fragkey \<Rightarrow> frag3 \<Rightarrow> nat \<times> frag3" where
  "Frag3Prune cfg not_me st = prune_loop cfg not_me False 0 st"

lemma prune_loop_count:
  "prune_loop cfg not_me found pruned st = (n, st') \<Longrightarrow>
   pruned \<le> n \<and> length (f3_cache st') + (n - pruned) \<le> length (f3_cache st)"
proof (induction cfg not_me found pruned st rule: prune_loop.induct)
  case (1 cfg not_me found pruned st)
  show ?case
  proof (cases "\<not> over_limit cfg st \<or> f3_cache st = []")
    case True
    then show ?thesis using "1.prems" by (auto simp: prune_loop.simps [of cfg not_me found])
  next
    case False
    define h where "h = last (f3_cache st)"
    show ?thesis
    proof (cases "fst h = not_me")
      case True
      then show ?thesis using "1.prems" "1.IH"(1) [OF False h_def True] False
        by (auto simp: prune_loop.simps [of cfg not_me found] h_def [symmetric] split: if_splits)
    next
      case False': False
      have "length (filter (\<lambda>e. fst e \<noteq> fst h) (f3_cache st)) < length (f3_cache st)"
        using False unfolding h_def by (intro remove_key_shorter) simp
      then show ?thesis using "1.prems" "1.IH"(2) [OF False h_def False'] False False'
        by (auto simp: prune_loop.simps [of cfg not_me found] h_def [symmetric])
    qed
  qed
qed

text \<open>The loop that waits for a preallocated node.\<close>

function prealloc_get :: "frag3_config \<Rightarrow> fragkey \<Rightarrow> frag3 \<Rightarrow> bool \<times> frag3" where
  "prealloc_get cfg not_me st =
     (case Frag3PreallocPop st of
        Some st1 \<Rightarrow> (True, st1)
      | None \<Rightarrow>
          (let r = Frag3Prune cfg not_me st in
           if fst r = 0 then (False, snd r) else prealloc_get cfg not_me (snd r)))"
  by pat_completeness auto
termination
proof (relation "measure (\<lambda>(cfg, not_me, st). length (f3_cache st))", simp)
  fix cfg not_me st r
  assume "r = Frag3Prune cfg not_me st" "fst r \<noteq> 0"
  then show "((cfg, not_me, snd r), cfg, not_me, st) \<in> measure (\<lambda>(cfg, not_me, st). length (f3_cache st))"
    using prune_loop_count [of cfg not_me False 0 st "fst r" "snd r"] by (simp add: Frag3Prune_def)
qed

text \<open>
  The node and the buffer of \<open>len\<close> bytes a fragment is stored in: the code
  \<open>Frag3NewTracker\<close>, \<open>AddFragNode\<close> and \<open>DupFragNode\<close> share.  False when pruning freed nothing.
\<close>

definition get_frag :: "frag3_config \<Rightarrow> fragkey \<Rightarrow> int \<Rightarrow> frag3 \<Rightarrow> bool \<times> frag3" where
  "get_frag cfg not_me len st =
     (if \<not> cfg_use_prealloc cfg then
        (let r = (if f3_mem st > cfg_memcap cfg then Frag3Prune cfg not_me st else (1, st)) in
         if fst r = 0 then (False, snd r)
         else (True, (snd r)\<lparr>f3_mem := cu64 (cu64 (f3_mem (snd r) + FRAG3_FRAG_SIZE) + len)\<rparr>))
      else prealloc_get cfg not_me st)"

end
