(* ===== verification/Frag3Insert.thy ===== *)
theory Frag3Insert
  imports Frag3
begin

text \<open>
  The insertion of a fragment into its tracker: \<open>Frag3CheckFirstLast\<close>,
  \<open>Frag3HandleIPOptions\<close>, the node functions and \<open>Frag3Insert\<close>.

  During an insertion the fragment list is cut at the pointers \<open>left\<close> and \<open>right\<close> into a
  cursor: the nodes up to \<open>left\<close>, the nodes after it that come before \<open>right\<close> (nodes just
  added), and the nodes from \<open>right\<close> on.  \<open>None\<close> is undefined behaviour in C: a null
  pointer read, a copy of a negative length, or a loop that does not end.
\<close>

section \<open>First and last fragment, IP options\<close>

datatype firstlast = FRAG_FIRSTLAST_OK | FRAG_LAST_DUPLICATE | FRAG_LAST_OFFSET_ADJUST

definition Frag3CheckFirstLast :: "frag_pkt \<Rightarrow> frag_tracker \<Rightarrow> firstlast \<times> frag_tracker" where
  "Frag3CheckFirstLast p ft =
     (let r1 =
        (if pk_mf p \<and> pk_frag_offset p = 0 then
           (FRAG_FIRSTLAST_OK, ft\<lparr>ft_flags := ft_flags ft OR FRAG_GOT_FIRST\<rparr>)
         else if \<not> pk_mf p \<and> pk_frag_offset p > 0 then
           (let endOfThisFrag = cu16 (push_bit 3 (pk_frag_offset p) + pk_frag_len p);
                retVal =
                  (if ft_flags ft AND FRAG_GOT_LAST \<noteq> 0 then
                     (if ft_calculated_size ft > endOfThisFrag then FRAG_LAST_DUPLICATE
                      else if ft_policy ft = FRAG_POLICY_SOLARIS then FRAG_LAST_OFFSET_ADJUST
                      else FRAG_FIRSTLAST_OK)
                   else FRAG_FIRSTLAST_OK);
                ft1 = ft\<lparr>ft_flags := ft_flags ft OR FRAG_GOT_LAST\<rparr>
            in (retVal,
                if ft_calculated_size ft1 < endOfThisFrag \<and> retVal \<noteq> FRAG_LAST_OFFSET_ADJUST
                then ft1\<lparr>ft_calculated_size := endOfThisFrag\<rparr> else ft1))
         else (FRAG_FIRSTLAST_OK, ft))
      in (fst r1, if pk_frag_offset p \<noteq> 0
                  then (snd r1)\<lparr>ft_flags := ft_flags (snd r1) OR FRAG_NO_BSD_VULN\<rparr> else snd r1))"

definition IP_OPTMAX :: nat where "IP_OPTMAX = 40"

definition Frag3HandleIPOptions :: "frag_pkt \<Rightarrow> frag_tracker \<Rightarrow> frag3 \<Rightarrow> frag_tracker \<times> frag3" where
  "Frag3HandleIPOptions p ft st =
     (let count = int (length (pk_options p)) in
      if pk_frag_offset p = 0 then
        (if pk_options_len p = 0 then (ft, st)
         else (case ft_options_data ft of
                 Some _ \<Rightarrow>
                   (if ft_flags ft AND FRAG_GOT_FIRST \<noteq> 0 \<and> ft_option_count ft \<noteq> count
                    then (ft, frag3_event (ft_context ft) FRAG3_IPOPTIONS st) else (ft, st))
               | None \<Rightarrow>
                   (ft\<lparr>ft_options_data := Some (take (nat (pk_options_len p)) (pk_options_data p)),
                       ft_options_len := pk_options_len p, ft_option_count := count\<rparr>, st)))
      else if ft_copied_option_count ft \<noteq> 0 then
        (if ft_copied_option_count ft \<noteq> count
         then (ft, frag3_event (ft_context ft) FRAG3_IPOPTIONS st) else (ft, st))
      else
        (ft\<lparr>ft_copied_option_count := count\<rparr>,
         fold (\<lambda>code st. if code AND 0x80 = 0 then frag3_event (ft_context ft) FRAG3_IPOPTIONS st else st)
           (take IP_OPTMAX (pk_options p)) st))"

section \<open>Nodes\<close>

datatype insert_ret =
    FRAG_INSERT_OK | FRAG_INSERT_FAILED | FRAG_INSERT_ATTACK | FRAG_INSERT_ANOMALY
  | FRAG_INSERT_OVERLAP_LIMIT

record frag_cursor =
  fc_left :: "frag3_frag list"
  fc_mid :: "frag3_frag list"
  fc_right :: "frag3_frag list"

definition cursor_list :: "frag_cursor \<Rightarrow> frag3_frag list" where
  "cursor_list c = fc_left c @ fc_mid c @ fc_right c"

text \<open>\<open>left\<close> and \<open>right\<close>, null when there is no such node.\<close>

definition cur_left :: "frag_cursor \<Rightarrow> frag3_frag option" where
  "cur_left c = (if fc_left c = [] then None else Some (last (fc_left c)))"

definition cur_right :: "frag_cursor \<Rightarrow> frag3_frag option" where
  "cur_right c = (case fc_right c of [] \<Rightarrow> None | r # _ \<Rightarrow> Some r)"

text \<open>\<open>Frag3FraglistAddNode\<close> after \<open>left\<close>; \<open>left = right; right = right->next\<close>.\<close>

definition Frag3FraglistAddNode :: "frag3_frag \<Rightarrow> frag_cursor \<Rightarrow> frag_cursor" where
  "Frag3FraglistAddNode f c = c\<lparr>fc_mid := f # fc_mid c\<rparr>"

definition cur_advance :: "frag_cursor \<Rightarrow> frag_cursor" where
  "cur_advance c =
     (case fc_right c of
        [] \<Rightarrow> c
      | r # rs \<Rightarrow> \<lparr>fc_left = fc_left c @ fc_mid c @ [r], fc_mid = [], fc_right = rs\<rparr>)"

definition cur_set_left :: "frag3_frag \<Rightarrow> frag_cursor \<Rightarrow> frag_cursor" where
  "cur_set_left f c = c\<lparr>fc_left := butlast (fc_left c) @ [f]\<rparr>"

definition cur_set_right :: "frag3_frag \<Rightarrow> frag_cursor \<Rightarrow> frag_cursor" where
  "cur_set_right f c = c\<lparr>fc_right := f # drop 1 (fc_right c)\<rparr>"

text \<open>\<open>Frag3FraglistDeleteNode\<close> of \<open>left\<close> (\<open>left = left->prev\<close>) and of \<open>right\<close> (\<open>right = right->next\<close>).\<close>

definition cur_delete_left :: "frag_cursor \<Rightarrow> frag_cursor" where
  "cur_delete_left c = c\<lparr>fc_left := butlast (fc_left c)\<rparr>"

definition cur_delete_right :: "frag_cursor \<Rightarrow> frag_cursor" where
  "cur_delete_right c = c\<lparr>fc_right := drop 1 (fc_right c)\<rparr>"

definition fr_end :: "frag3_frag \<Rightarrow> int" where
  "fr_end f = fr_offset f + fr_size f"

text \<open>The state of an insertion: the preprocessor, the tracker, the list and the local variables.\<close>

record insert_state =
  is_st :: frag3
  is_ft :: frag_tracker
  is_cur :: frag_cursor
  is_offset :: int
  is_slide :: int
  is_trunc :: int
  is_alerted :: bool
  is_addthis :: bool

text \<open>What stays fixed: configuration, context, key, packet, \<open>len\<close>, \<open>frag_end\<close>, \<open>orig_offset\<close>, \<open>fragLength\<close>.\<close>

record insert_env =
  ie_cfg :: frag3_config
  ie_context :: frag3_context
  ie_key :: fragkey
  ie_pkt :: frag_pkt
  ie_len :: int
  ie_end :: int
  ie_orig :: int
  ie_flen :: int
  ie_last :: bool
  ie_snaplen :: int

definition AddFragNode :: "insert_env \<Rightarrow> bool \<Rightarrow> insert_state \<Rightarrow> (insert_ret \<times> insert_state) option" where
  "AddFragNode e lastfrag s =
     (let slide = cu16 (is_slide s); trunc = cu16 (is_trunc s);
          newSize = ci16 (ie_len e - slide - trunc) in
      if newSize \<le> 0 then Some (FRAG_INSERT_ANOMALY, s)
      else (case get_frag (ie_cfg e) (ie_key e) (ie_flen e) (is_st s) of
              (False, st1) \<Rightarrow> Some (FRAG_INSERT_FAILED, s\<lparr>is_st := st1\<rparr>)
            | (True, st1) \<Rightarrow>
                if ie_flen e < 0 then None
                else
                  (let f = \<lparr>fr_data = slide, fr_size = newSize, fr_offset = is_offset s,
                            fr_fptr = take (nat (ie_flen e)) (pk_frag_start (ie_pkt e)),
                            fr_flen = cu16 (ie_flen e), fr_ord = ft_ordinal (is_ft s), fr_last = lastfrag\<rparr>;
                       ft1 = (is_ft s)\<lparr>ft_ordinal := ft_ordinal (is_ft s) + 1,
                                       ft_bytes := cu32 (ft_bytes (is_ft s) + newSize)\<rparr>
                   in Some (FRAG_INSERT_OK,
                            s\<lparr>is_st := st1, is_ft := ft1, is_cur := Frag3FraglistAddNode f (is_cur s)\<rparr>))))"

text \<open>\<open>DupFragNode\<close>: a copy of \<open>left\<close> after it, which becomes \<open>right\<close>.\<close>

definition DupFragNode :: "insert_env \<Rightarrow> frag3_frag \<Rightarrow> insert_state \<Rightarrow> insert_ret \<times> insert_state" where
  "DupFragNode e left s =
     (case get_frag (ie_cfg e) (ie_key e) (fr_flen left) (is_st s) of
        (False, st1) \<Rightarrow> (FRAG_INSERT_FAILED, s\<lparr>is_st := st1\<rparr>)
      | (True, st1) \<Rightarrow>
          (let f = left\<lparr>fr_ord := ft_ordinal (is_ft s)\<rparr>;
               ft1 = (is_ft s)\<lparr>ft_ordinal := ft_ordinal (is_ft s) + 1,
                               ft_bytes := cu32 (ft_bytes (is_ft s) + fr_size left)\<rparr>
           in (FRAG_INSERT_OK,
               s\<lparr>is_st := st1, is_ft := ft1,
                 is_cur := (is_cur s)\<lparr>fc_right := f # fc_right (is_cur s)\<rparr>\<rparr>)))"

definition checkTinyFragments :: "frag3_context \<Rightarrow> frag_pkt \<Rightarrow> int \<Rightarrow> frag3 \<Rightarrow> frag3" where
  "checkTinyFragments context p trimmedLength st =
     (if pk_mf p \<and> fx_min_fragment_length context \<noteq> 0
         \<and> (pk_frag_len p \<le> fx_min_fragment_length context
            \<or> cu32 trimmedLength \<le> fx_min_fragment_length context)
      then frag3_event context FRAG3_TINY_FRAGMENT st else st)"

definition count_overlap :: "frag_tracker \<Rightarrow> frag_tracker" where
  "count_overlap ft = ft\<lparr>ft_overlap_count := cu32 (ft_overlap_count ft + 1)\<rparr>"

definition less_bytes :: "int \<Rightarrow> frag_tracker \<Rightarrow> frag_tracker" where
  "less_bytes n ft = ft\<lparr>ft_bytes := cu32 (ft_bytes ft - n)\<rparr>"

text \<open>The test for a last fragment that ends elsewhere than the datagram.\<close>

definition teardrop :: "insert_env \<Rightarrow> insert_state \<Rightarrow> bool" where
  "teardrop e s =
     ((ie_end e < ft_calculated_size (is_ft s)
       \<or> ft_flags (is_ft s) AND FRAG_GOT_LAST \<noteq> 0 \<and> ie_end e \<noteq> ft_calculated_size (is_ft s))
      \<and> \<not> pk_mf (ie_pkt e))"

definition attack :: "insert_env \<Rightarrow> insert_state \<Rightarrow> insert_state" where
  "attack e s =
     s\<lparr>is_st := frag3_event (ie_context e) FRAG3_TEARDROP (is_st s),
       is_ft := (is_ft s)\<lparr>ft_flags := ft_flags (is_ft s) OR FRAG_BAD\<rparr>\<rparr>"

section \<open>Overlap with the fragment before\<close>

definition delete_empty_left :: "insert_env \<Rightarrow> insert_state \<Rightarrow> insert_state" where
  "delete_empty_left e s =
     (case cur_left (is_cur s) of
        Some l \<Rightarrow>
          if fr_size l \<le> 0
          then s\<lparr>is_cur := cur_delete_left (is_cur s), is_st := Frag3DeleteFrag (ie_cfg e) l (is_st s)\<rparr>
          else s
      | None \<Rightarrow> s)"

text \<open>The new fragment is moved to the end of \<open>left\<close>.\<close>

definition move_new :: "int \<Rightarrow> insert_state \<Rightarrow> insert_state" where
  "move_new overlap s =
     s\<lparr>is_offset := cu16 (is_offset s + ci16 overlap), is_slide := ci16 overlap\<rparr>"

definition cut_left :: "frag3_frag \<Rightarrow> int \<Rightarrow> insert_state \<Rightarrow> insert_state" where
  "cut_left l overlap s =
     s\<lparr>is_cur := cur_set_left (l\<lparr>fr_size := cu16 (fr_size l - ci16 overlap)\<rparr>) (is_cur s),
       is_ft := less_bytes (ci16 overlap) (is_ft s)\<rparr>"

definition left_policy_last ::
    "insert_env \<Rightarrow> frag3_frag \<Rightarrow> int \<Rightarrow> insert_state \<Rightarrow> (insert_ret \<times> insert_state) + insert_state" where
  "left_policy_last e l overlap s =
     (if fr_offset l < is_offset s \<and> fr_end l > is_offset s + ie_len e then
        (case DupFragNode e l s of
           (FRAG_INSERT_OK, s1) \<Rightarrow>
             (let s2 = cut_left l overlap s1;
                  k = is_offset s + ie_len e - fr_offset l in
              case cur_right (is_cur s2) of
                None \<Rightarrow> Inr s2
              | Some r \<Rightarrow>
                  Inr (delete_empty_left e
                    (s2\<lparr>is_cur := cur_set_right
                           (r\<lparr>fr_offset := cu16 (is_offset s + ie_len e),
                              fr_size := cu16 (fr_size r - k), fr_data := fr_data r + k\<rparr>) (is_cur s2),
                        is_ft := less_bytes k (is_ft s2)\<rparr>)))
         | (r, s1) \<Rightarrow> Inl (r, s1))
      else Inr (delete_empty_left e (cut_left l overlap s)))"

definition left_policy ::
    "insert_env \<Rightarrow> frag3_frag \<Rightarrow> int \<Rightarrow> insert_state \<Rightarrow> (insert_ret \<times> insert_state) + insert_state" where
  "left_policy e l overlap s =
     (case ft_policy (is_ft s) of
        FRAG_POLICY_BSD_RIGHT \<Rightarrow>
          if fr_end l \<ge> is_offset s + ie_len e then Inr (delete_empty_left e (move_new overlap s))
          else left_policy_last e l overlap s
      | FRAG_POLICY_LAST \<Rightarrow> left_policy_last e l overlap s
      | _ \<Rightarrow>
          (let s1 = move_new overlap s in
           if ie_end e \<le> is_offset s1
           then Inl (FRAG_INSERT_ANOMALY,
                     s1\<lparr>is_st := frag3_event (ie_context e) FRAG3_ANOMALY_ZERO (is_st s1)\<rparr>)
           else Inr s1))"

definition left_overlap ::
    "insert_env \<Rightarrow> insert_state \<Rightarrow> (insert_ret \<times> insert_state) + insert_state" where
  "left_overlap e s =
     (case cur_left (is_cur s) of
        None \<Rightarrow> Inr s
      | Some l \<Rightarrow>
          (let overlap = ci32 (fr_end l - is_offset s) in
           if overlap \<le> 0 then Inr s
           else
             (let s1 = s\<lparr>is_ft := count_overlap (is_ft s)\<rparr> in
              if teardrop e s1 then Inl (FRAG_INSERT_ATTACK, attack e s1)
              else (case left_policy e l overlap s1 of
                      Inl r \<Rightarrow> Inl r
                    | Inr s2 \<Rightarrow>
                        if ie_end e < is_offset s2
                        then Inl (FRAG_INSERT_ANOMALY,
                                  s2\<lparr>is_st := frag3_event (ie_context e) FRAG3_ANOMALY_BADSIZE_SM (is_st s2)\<rparr>)
                        else Inr s2))))"

section \<open>Overlap with the fragments after\<close>

definition delete_right :: "insert_env \<Rightarrow> frag3_frag \<Rightarrow> insert_state \<Rightarrow> insert_state" where
  "delete_right e r s =
     s\<lparr>is_cur := cur_delete_right (is_cur s), is_st := Frag3DeleteFrag (ie_cfg e) r (is_st s)\<rparr>"

definition drop_right :: "insert_env \<Rightarrow> frag3_frag \<Rightarrow> insert_state \<Rightarrow> insert_state" where
  "drop_right e r s = delete_right e r (s\<lparr>is_ft := less_bytes (fr_size r) (is_ft s)\<rparr>)"

text \<open>The new fragment starts after \<open>right\<close>, which has the same offset.\<close>

definition skip_right :: "frag3_frag \<Rightarrow> insert_state \<Rightarrow> insert_state" where
  "skip_right r s =
     (let slide = ci16 (fr_end r - is_offset s)
      in s\<lparr>is_slide := slide, is_offset := cu16 (is_offset s + slide)\<rparr>)"

definition cut_right :: "insert_env \<Rightarrow> frag3_frag \<Rightarrow> int \<Rightarrow> insert_state \<Rightarrow> insert_state" where
  "cut_right e r overlap s =
     (let r' = r\<lparr>fr_offset := cu16 (fr_offset r + ci16 overlap), fr_data := fr_data r + ci16 overlap,
                 fr_size := cu16 (fr_size r - ci16 overlap)\<rparr>;
          s1 = s\<lparr>is_cur := cur_set_right r' (is_cur s), is_ft := less_bytes (ci16 overlap) (is_ft s)\<rparr>
      in if fr_size r' \<le> 0 then delete_right e r' s1 else s1)"

text \<open>The last iteration: \<open>right\<close> reaches beyond the new fragment.\<close>

definition right_partial :: "insert_env \<Rightarrow> frag3_frag \<Rightarrow> int \<Rightarrow> insert_state \<Rightarrow> insert_state" where
  "right_partial e r overlap s0 =
     (let s = s0\<lparr>is_ft := count_overlap (is_ft s0)\<rparr>; pol = ft_policy (is_ft s) in
      if pol = FRAG_POLICY_BSD \<and> fr_offset r = is_offset s then skip_right r s
      else if pol \<in> {FRAG_POLICY_LAST, FRAG_POLICY_LINUX, FRAG_POLICY_BSD} then cut_right e r overlap s
      else s\<lparr>is_trunc := ci16 overlap\<rparr>)"

text \<open>The loop that looks for the next gap.\<close>

fun next_gap :: "nat \<Rightarrow> int \<Rightarrow> int \<Rightarrow> frag_cursor \<Rightarrow> int \<times> frag_cursor" where
  "next_gap 0 frag_end curr_end c = (curr_end, c)"
| "next_gap (Suc n) frag_end curr_end c =
     (case cur_right c of
        Some r \<Rightarrow>
          if curr_end = fr_offset r \<and> fr_offset r < frag_end
          then next_gap n frag_end (cu16 (fr_end r)) (cur_advance c) else (curr_end, c)
      | None \<Rightarrow> (curr_end, c))"

text \<open>What is left of the new fragment after a chunk was added: it starts at the next gap.\<close>

definition next_chunk ::
    "insert_env \<Rightarrow> insert_state \<Rightarrow> ((insert_ret \<times> insert_state) + insert_state) option" where
  "next_chunk e s3 =
     (let newfrag = hd (fc_mid (is_cur s3));
          gap = next_gap (length (fc_right (is_cur s3))) (ie_end e) (cu16 (fr_end newfrag)) (is_cur s3);
          curr_end = fst gap; s4 = s3\<lparr>is_cur := snd gap\<rparr> in
      if (case cur_right (snd gap) of Some r' \<Rightarrow> fr_offset r' < ie_end e | None \<Rightarrow> False) then
        (let off = (case cur_left (snd gap) of Some l \<Rightarrow> cu16 (fr_end l) | None \<Rightarrow> ie_orig e)
         in Some (Inr (s4\<lparr>is_offset := off, is_slide := ci16 (off - ie_orig e), is_trunc := 0\<rparr>)))
      else if curr_end < ie_end e then
        (case cur_left (snd gap) of
           None \<Rightarrow> None
         | Some l \<Rightarrow>
             Some (Inr (s4\<lparr>is_slide := ci16 (fr_end l - is_offset s4), is_offset := curr_end,
                           is_trunc := 0\<rparr>)))
      else Some (Inr (s4\<lparr>is_addthis := False\<rparr>)))"

text \<open>
  The fragment is added in chunks: up to \<open>right\<close> (or, when it starts with \<open>right\<close>, all that is
  after it), then from the next gap on.
\<close>

definition chunk_start :: "frag3_frag \<Rightarrow> int \<Rightarrow> insert_state \<Rightarrow> insert_state" where
  "chunk_start r overlap s =
     (if fr_offset r = is_offset s then (skip_right r s)\<lparr>is_cur := cur_advance (is_cur s)\<rparr>
      else s\<lparr>is_trunc := ci16 overlap\<rparr>)"

definition add_chunk ::
    "insert_env \<Rightarrow> frag3_frag \<Rightarrow> int \<Rightarrow> insert_state \<Rightarrow> ((insert_ret \<times> insert_state) + insert_state) option" where
  "add_chunk e r overlap s0 =
     (let s1 = chunk_start r overlap s0 in
      if cu32 (ie_end e - is_trunc s1) \<le> is_offset s1 then Some (Inl (FRAG_INSERT_ANOMALY, s1))
      else
        (let s2 = s1\<lparr>is_st := checkTinyFragments (ie_context e) (ie_pkt e)
                                (ie_len e - is_slide s1 - is_trunc s1) (is_st s1)\<rparr> in
         case AddFragNode e False s2 of
           None \<Rightarrow> None
         | Some (ret, s3) \<Rightarrow> if ret = FRAG_INSERT_OK then next_chunk e s3 else Some (Inl (ret, s3))))"

text \<open>The new fragment covers \<open>right\<close>.\<close>

definition right_full ::
    "insert_env \<Rightarrow> frag3_frag \<Rightarrow> int \<Rightarrow> insert_state \<Rightarrow> ((insert_ret \<times> insert_state) + insert_state) option" where
  "right_full e r overlap s0 =
     (let s = (if \<not> is_alerted s0 \<and> fx_detect_anomalies (ie_context e)
               then s0\<lparr>is_st := frag3_event (ie_context e) FRAG3_ANOMALY_OVLP (is_st s0),
                       is_alerted := True, is_ft := count_overlap (is_ft s0)\<rparr>
               else s0);
          pol = ft_policy (is_ft s) in
      if pol \<in> {FRAG_POLICY_WINDOWS, FRAG_POLICY_SOLARIS, FRAG_POLICY_BSD} then
        (if ie_end e > fr_end r \<and> is_offset s < fr_offset r then Some (Inr (drop_right e r s))
         else if pol \<in> {FRAG_POLICY_SOLARIS, FRAG_POLICY_BSD}
                 \<and> ie_end e = fr_end r \<and> is_offset s < fr_offset r then Some (Inr (drop_right e r s))
         else add_chunk e r overlap s)
      else if pol = FRAG_POLICY_FIRST then add_chunk e r overlap s
      else Some (Inr (drop_right e r s)))"

text \<open>One iteration; the flag is \<open>done\<close>.\<close>

definition right_step ::
    "insert_env \<Rightarrow> frag3_frag \<Rightarrow> insert_state \<Rightarrow> ((insert_ret \<times> insert_state) + (bool \<times> insert_state)) option" where
  "right_step e r s0 =
     (let s = s0\<lparr>is_trunc := 0\<rparr>; overlap = ci32 (ie_end e - fr_offset r) in
      if overlap \<noteq> 0 \<and> teardrop e s then Some (Inl (FRAG_INSERT_ATTACK, attack e s))
      else if overlap < fr_size r then Some (Inr (True, right_partial e r overlap s))
      else map_option (map_sum (\<lambda>x. x) (Pair False)) (right_full e r overlap s))"

primrec right_loop ::
    "nat \<Rightarrow> insert_env \<Rightarrow> insert_state \<Rightarrow> ((insert_ret \<times> insert_state) + insert_state) option" where
  "right_loop 0 e s = None"
| "right_loop (Suc n) e s =
     (case cur_right (is_cur s) of
        None \<Rightarrow> Some (Inr s)
      | Some r \<Rightarrow>
          if fr_offset r < ie_end e then
            (case right_step e r s of
               None \<Rightarrow> None
             | Some (Inl x) \<Rightarrow> Some (Inl x)
             | Some (Inr (True, s')) \<Rightarrow> Some (Inr s')
             | Some (Inr (False, s')) \<Rightarrow> right_loop n e s')
          else Some (Inr s))"

section \<open>Frag3Insert\<close>

text \<open>After the loops: the limit of overlaps and the node itself.\<close>

definition insert_finish :: "insert_env \<Rightarrow> insert_state \<Rightarrow> (insert_ret \<times> insert_state) option" where
  "insert_finish e s0 =
     (let s = s0\<lparr>is_st := checkTinyFragments (ie_context e) (ie_pkt e)
                            (ie_len e - is_slide s0 - is_trunc s0) (is_st s0)\<rparr> in
      if fx_overlap_limit (ie_context e) \<noteq> 0
         \<and> ft_overlap_count (is_ft s) \<ge> fx_overlap_limit (ie_context e)
      then Some (FRAG_INSERT_OVERLAP_LIMIT,
                 s\<lparr>is_st := frag3_event (ie_context e) FRAG3_EXCESSIVE_OVERLAP (is_st s)\<rparr>)
      else if is_addthis s then AddFragNode e (ie_last e) s
      else Some (FRAG_INSERT_OK, s))"

text \<open>The walk of the list, both overlaps and the insertion.\<close>

definition insert_body :: "insert_env \<Rightarrow> int \<Rightarrow> frag_tracker \<Rightarrow> frag3 \<Rightarrow> (insert_ret \<times> insert_state) option" where
  "insert_body e frag_offset ft st =
     (let before = takeWhile (\<lambda>f. fr_offset f < frag_offset) (ft_fraglist ft);
          after = dropWhile (\<lambda>f. fr_offset f < frag_offset) (ft_fraglist ft);
          s = \<lparr>is_st = st, is_ft = ft, is_cur = \<lparr>fc_left = before, fc_mid = [], fc_right = after\<rparr>,
               is_offset = frag_offset, is_slide = 0, is_trunc = 0, is_alerted = False, is_addthis = True\<rparr> in
      case left_overlap e s of
        Inl x \<Rightarrow> Some x
      | Inr s1 \<Rightarrow>
          if cu16 (ie_flen e) > ie_snaplen e then Some (FRAG_INSERT_FAILED, s1)
          else (case right_loop (Suc (length (fc_right (is_cur s1)))) e s1 of
                  None \<Rightarrow> None
                | Some (Inl x) \<Rightarrow> Some x
                | Some (Inr s2) \<Rightarrow> insert_finish e s2))"

definition Frag3Insert ::
    "int \<Rightarrow> frag3_config \<Rightarrow> frag3_context \<Rightarrow> fragkey \<Rightarrow> frag_pkt \<Rightarrow> frag_tracker \<Rightarrow> frag3 \<Rightarrow>
     (insert_ret \<times> frag_tracker \<times> frag3) option" where
  "Frag3Insert snaplen cfg context key p ft0 st0 =
     (let ft = (if pk_ip6 p \<and> pk_frag_offset p = 0 then ft0\<lparr>ft_protocol := pk_ip6f_nxt p\<rparr> else ft0);
          firstLast = fst (Frag3CheckFirstLast p ft);
          ft1 = snd (Frag3CheckFirstLast p ft);
          fragLength = ci16 (pk_frag_len p);
          orig_offset = cu16 (push_bit 3 (pk_frag_offset p));
          frag_offset = (if firstLast = FRAG_LAST_OFFSET_ADJUST then cu16 (ft_calculated_size ft1) else orig_offset);
          end0 = cu32 (frag_offset + fragLength);
          frag_end = (if pk_mf p then end0 AND NOT 7 else end0);
          len = (if pk_mf p then ci16 (fragLength - cu32 (cu16 end0 - frag_end)) else fragLength);
          st1 = (if pk_mf p \<and> end0 AND 7 \<noteq> 0 then frag3_event context FRAG3_SHORT_FRAG st0 else st0);
          beyond = frag_end > ft_calculated_size ft1;
          ft2 = (if beyond \<and> (pk_mf p \<or> firstLast = FRAG_LAST_OFFSET_ADJUST)
                 then ft1\<lparr>ft_calculated_size := frag_end\<rparr> else ft1)
      in if pk_mf p \<and> beyond \<and> ft_flags ft1 AND FRAG_GOT_LAST \<noteq> 0 then
           Some (FRAG_INSERT_ANOMALY, ft1, frag3_event context FRAG3_ANOMALY_OVERSIZE st1)
         else if frag_end = frag_offset then
           Some (FRAG_INSERT_ANOMALY, ft2, frag3_event context FRAG3_ANOMALY_ZERO st1)
         else if frag_end > 65535 then
           Some (FRAG_INSERT_ANOMALY,
                 ft2\<lparr>ft_flags := ft_flags ft2 OR FRAG_BAD, ft_calculated_size := ft_calculated_size ft1\<rparr>,
                 frag3_event context FRAG3_ANOMALY_BADSIZE_LG st1)
         else
           (case Frag3HandleIPOptions p ft2 st1 of
              (ft3, st2) \<Rightarrow>
                (let ft4 = ft3\<lparr>ft_pkts := cu32 (ft_pkts ft3 + 1)\<rparr>;
                     e = \<lparr>ie_cfg = cfg, ie_context = context, ie_key = key, ie_pkt = p, ie_len = len,
                          ie_end = frag_end, ie_orig = orig_offset, ie_flen = fragLength,
                          ie_last = (\<not> pk_mf p), ie_snaplen = snaplen\<rparr>
                 in map_option
                      (\<lambda>(r, s). (r, (is_ft s)\<lparr>ft_fraglist := cursor_list (is_cur s)\<rparr>, is_st s))
                      (insert_body e frag_offset ft4 st2))))"

end
