(* ===== verification/Frag3List.thy ===== *)
theory Frag3List
  imports Frag3Insert
begin

text \<open>
  Lists of fragments: the bytes a list holds, the invariant (sorted, disjoint, every node a
  slice of its buffer), and the bytes a new fragment leaves in place under each policy.
\<close>

section \<open>Bytes held\<close>

definition frag_covers :: "frag3_frag \<Rightarrow> int \<Rightarrow> bool" where
  "frag_covers f x \<longleftrightarrow> fr_offset f \<le> x \<and> x < fr_end f"

definition fr_byte :: "frag3_frag \<Rightarrow> int \<Rightarrow> u8" where
  "fr_byte f x = fr_fptr f ! nat (fr_data f + (x - fr_offset f))"

primrec flist_byte :: "frag3_frag list \<Rightarrow> int \<Rightarrow> u8 option" where
  "flist_byte [] x = None"
| "flist_byte (f # fs) x = (if frag_covers f x then Some (fr_byte f x) else flist_byte fs x)"

definition flist_size :: "frag3_frag list \<Rightarrow> int" where
  "flist_size fs = sum_list (map fr_size fs)"

lemma first_some_None_right [simp]: "first_some x None = x"
  by (cases x) simp_all

lemma flist_byte_append [simp]:
  "flist_byte (xs @ ys) x = first_some (flist_byte xs x) (flist_byte ys x)"
  by (induction xs) auto

lemma flist_size_simps [simp]:
  "flist_size [] = 0" "flist_size (f # fs) = fr_size f + flist_size fs"
  "flist_size (xs @ ys) = flist_size xs + flist_size ys"
  by (simp_all add: flist_size_def)

lemma flist_byte_None: "flist_byte fs x = None \<longleftrightarrow> (\<forall>f \<in> set fs. \<not> frag_covers f x)"
  by (induction fs) auto

lemma flist_byte_before: "\<forall>f \<in> set fs. fr_end f \<le> a \<Longrightarrow> a \<le> x \<Longrightarrow> flist_byte fs x = None"
  by (fastforce simp: flist_byte_None frag_covers_def)

lemma flist_byte_after: "\<forall>f \<in> set fs. b \<le> fr_offset f \<Longrightarrow> x < b \<Longrightarrow> flist_byte fs x = None"
  by (fastforce simp: flist_byte_None frag_covers_def)

section \<open>The invariant\<close>

definition frag_wf :: "frag3_frag \<Rightarrow> bool" where
  "frag_wf f \<longleftrightarrow> 0 \<le> fr_offset f \<and> 0 < fr_size f \<and> fr_size f < 32768 \<and> fr_end f \<le> 65535
     \<and> 0 \<le> fr_data f \<and> fr_data f + fr_size f \<le> int (length (fr_fptr f))
     \<and> fr_flen f = int (length (fr_fptr f)) \<and> fr_flen f < 32768"

definition flist_wf :: "frag3_frag list \<Rightarrow> bool" where
  "flist_wf fs \<longleftrightarrow> (\<forall>f \<in> set fs. frag_wf f) \<and> sorted_wrt (\<lambda>f g. fr_end f \<le> fr_offset g) fs"

lemma flist_wf_Nil [simp]: "flist_wf []"
  by (simp add: flist_wf_def)

lemma flist_wf_Cons:
  "flist_wf (f # fs) \<longleftrightarrow> frag_wf f \<and> (\<forall>g \<in> set fs. fr_end f \<le> fr_offset g) \<and> flist_wf fs"
  by (auto simp: flist_wf_def)

lemma flist_wf_append:
  "flist_wf (xs @ ys) \<longleftrightarrow>
     flist_wf xs \<and> flist_wf ys \<and> (\<forall>f \<in> set xs. \<forall>g \<in> set ys. fr_end f \<le> fr_offset g)"
  by (auto simp: flist_wf_def sorted_wrt_append)

lemmas flist_wf_simps = flist_wf_Cons flist_wf_append

lemma flist_wf_bounds: "flist_wf fs \<Longrightarrow> f \<in> set fs \<Longrightarrow> 0 \<le> fr_offset f \<and> fr_end f \<le> 65535"
  by (auto simp: flist_wf_def frag_wf_def)

lemma frag_wf_size: "frag_wf f \<Longrightarrow> fr_offset f < fr_end f"
  by (simp add: frag_wf_def fr_end_def)

lemma flist_size_bounds:
  "flist_wf fs \<Longrightarrow> \<forall>f \<in> set fs. a \<le> fr_offset f \<and> fr_end f \<le> b \<Longrightarrow> a \<le> b \<Longrightarrow>
   0 \<le> flist_size fs \<and> flist_size fs \<le> b - a"
proof (induction fs arbitrary: a)
  case (Cons f fs)
  have f: "frag_wf f" "fr_offset f + fr_size f = fr_end f" "a \<le> fr_offset f" "fr_end f \<le> b"
    using Cons.prems by (auto simp: flist_wf_Cons fr_end_def)
  have "\<forall>g \<in> set fs. fr_end f \<le> fr_offset g \<and> fr_end g \<le> b"
    using Cons.prems by (auto simp: flist_wf_Cons)
  then have "0 \<le> flist_size fs \<and> flist_size fs \<le> b - fr_end f"
    using Cons.IH [of "fr_end f"] Cons.prems f by (auto simp: flist_wf_Cons)
  then show ?case using f by (auto simp: frag_wf_def)
qed simp

lemma flist_size_max: "flist_wf fs \<Longrightarrow> 0 \<le> flist_size fs \<and> flist_size fs \<le> 65535"
  using flist_size_bounds [of fs 0 65535] flist_wf_bounds [of fs] by simp

text \<open>Disjoint fragments inside an interval as long as all of them together cover it.\<close>

lemma flist_size_less:
  "flist_wf fs \<Longrightarrow> \<forall>f \<in> set fs. a \<le> fr_offset f \<and> fr_end f \<le> b \<Longrightarrow> a \<le> x \<Longrightarrow> x < b \<Longrightarrow>
   flist_byte fs x = None \<Longrightarrow> flist_size fs < b - a"
proof (induction fs arbitrary: a)
  case (Cons f fs)
  have f: "frag_wf f" "fr_offset f + fr_size f = fr_end f" "a \<le> fr_offset f" "fr_end f \<le> b"
    using Cons.prems by (auto simp: flist_wf_Cons fr_end_def)
  have g: "\<forall>g \<in> set fs. fr_end f \<le> fr_offset g \<and> fr_end g \<le> b" "flist_wf fs"
    using Cons.prems by (auto simp: flist_wf_Cons)
  show ?case
  proof (cases "x < fr_offset f")
    case True
    have "flist_size fs \<le> b - fr_end f"
      using flist_size_bounds [OF g(2,1)] f by simp
    then show ?thesis using f True Cons.prems by simp
  next
    case False
    then have "fr_end f \<le> x" "flist_byte fs x = None"
      using Cons.prems(5) by (auto simp: frag_covers_def split: if_splits)
    then have "flist_size fs < b - fr_end f"
      using Cons.IH [of "fr_end f"] g Cons.prems by auto
    then show ?thesis using f by simp
  qed
qed simp

lemma flist_covered:
  "flist_wf fs \<Longrightarrow> \<forall>f \<in> set fs. fr_end f \<le> b \<Longrightarrow> flist_size fs \<ge> b \<Longrightarrow> 0 \<le> x \<Longrightarrow> x < b \<Longrightarrow>
   flist_byte fs x \<noteq> None"
  using flist_size_less [of fs 0 b x] flist_wf_bounds [of fs] by auto

lemma flist_size_full:
  "flist_wf fs \<Longrightarrow> \<forall>f \<in> set fs. a \<le> fr_offset f \<and> fr_end f \<le> b \<Longrightarrow> a \<le> b \<Longrightarrow>
   \<forall>x. a \<le> x \<and> x < b \<longrightarrow> flist_byte fs x \<noteq> None \<Longrightarrow> flist_size fs = b - a"
proof (induction fs arbitrary: a)
  case Nil
  then show ?case by (cases "a < b") auto
next
  case (Cons f fs)
  have f: "frag_wf f" "fr_offset f + fr_size f = fr_end f" "a \<le> fr_offset f" "fr_end f \<le> b"
    using Cons.prems by (auto simp: flist_wf_Cons fr_end_def)
  have g: "\<forall>g \<in> set fs. fr_end f \<le> fr_offset g \<and> fr_end g \<le> b" "flist_wf fs"
    using Cons.prems by (auto simp: flist_wf_Cons)
  have fa: "fr_offset f = a"
  proof (rule ccontr)
    assume "fr_offset f \<noteq> a"
    then have a: "a < fr_offset f" using f by simp
    then have "flist_byte (f # fs) a = None"
      using g frag_wf_size [OF f(1)] by (force simp: flist_byte_None frag_covers_def)
    then show False using Cons.prems(4) a f frag_wf_size [OF f(1)] by force
  qed
  have "\<forall>x. fr_end f \<le> x \<and> x < b \<longrightarrow> flist_byte fs x \<noteq> None"
  proof (intro allI impI)
    fix x assume "fr_end f \<le> x \<and> x < b"
    then show "flist_byte fs x \<noteq> None"
      using Cons.prems(4) [rule_format, of x] f frag_wf_size [OF f(1)] by (auto simp: frag_covers_def split: if_splits)
  qed
  then have "flist_size fs = b - fr_end f" using Cons.IH [OF g(2,1)] f by simp
  then show ?case using f fa by simp
qed

section \<open>What a new fragment leaves in place\<close>

text \<open>A fragment from \<open>s\<close> to \<open>e\<close> meets the stored fragment \<open>f\<close>: does \<open>f\<close> keep the common bytes?\<close>

definition keeps_old :: "frag_policy \<Rightarrow> int \<Rightarrow> int \<Rightarrow> frag3_frag \<Rightarrow> bool" where
  "keeps_old pol s e f =
     (case pol of
        FRAG_POLICY_LAST \<Rightarrow> False
      | FRAG_POLICY_LINUX \<Rightarrow> fr_offset f < s
      | FRAG_POLICY_BSD \<Rightarrow> fr_offset f < s
      | FRAG_POLICY_BSD_RIGHT \<Rightarrow> fr_end f > e \<or> fr_end f = e \<and> fr_offset f < s
      | FRAG_POLICY_SOLARIS \<Rightarrow> fr_offset f < s \<or> fr_end f > e
      | _ \<Rightarrow> True)"

definition merge_byte :: "frag_policy \<Rightarrow> int \<Rightarrow> int \<Rightarrow> (int \<Rightarrow> u8) \<Rightarrow> frag3_frag list \<Rightarrow> int \<Rightarrow> u8 option" where
  "merge_byte pol s e new fs x =
     (if s \<le> x \<and> x < e \<and> (\<forall>f \<in> set fs. frag_covers f x \<longrightarrow> \<not> keeps_old pol s e f)
      then Some (new x) else flist_byte fs x)"

text \<open>
  The cases in which a fragment is stored in one piece: the policies that never keep an old
  fragment inside a new one; for the others, no stored fragment lies inside the new one
  (for BSD and Solaris: none that starts where it does), and after an overlap on the left
  the next fragment inside it is not adjacent.
\<close>

definition one_piece :: "frag_policy \<Rightarrow> int \<Rightarrow> int \<Rightarrow> frag3_frag list \<Rightarrow> bool" where
  "one_piece pol s e fs \<longleftrightarrow>
     pol \<in> {FRAG_POLICY_LAST, FRAG_POLICY_LINUX, FRAG_POLICY_BSD_RIGHT}
     \<or> (\<forall>f \<in> set fs. s \<le> fr_offset f \<and> fr_end f \<le> e \<longrightarrow>
          pol \<in> {FRAG_POLICY_BSD, FRAG_POLICY_SOLARIS} \<and> s < fr_offset f)
       \<and> (pol \<in> {FRAG_POLICY_BSD, FRAG_POLICY_SOLARIS} \<longrightarrow>
            (\<forall>f \<in> set fs. \<forall>g \<in> set fs.
               fr_offset g < s \<and> s < fr_end g \<and> fr_end g = fr_offset f \<longrightarrow> e \<le> fr_offset f))"

end
