(* ===== verification/Frag3InsertProps.thy ===== *)
theory Frag3InsertProps
  imports Frag3List
begin

text \<open>
  Correctness of \<open>Frag3Insert\<close>: one insertion keeps the list of fragments well formed and
  merges the new bytes as the policy says.
\<close>

section \<open>Assumptions and frame\<close>

definition ie_start :: "insert_env \<Rightarrow> int" where
  "ie_start e = ie_end e - ie_len e"

definition env_ok :: "insert_env \<Rightarrow> bool" where
  "env_ok e \<longleftrightarrow> 0 \<le> ie_start e \<and> ie_end e \<le> 65535 \<and> 0 < ie_len e \<and> ie_len e \<le> ie_flen e \<and> ie_flen e < 32768
     \<and> ie_flen e = int (length (pk_frag_start (ie_pkt e))) \<and> ie_flen e \<le> ie_snaplen e"

text \<open>All of a tracker but the counters an insertion changes.\<close>

definition ft_core :: "frag_tracker \<Rightarrow> frag_tracker" where
  "ft_core t = t\<lparr>ft_bytes := 0, ft_overlap_count := 0, ft_ordinal := 0\<rparr>"

lemma ft_core_updates [simp]:
  "ft_core (t\<lparr>ft_bytes := n\<rparr>) = ft_core t" "ft_core (t\<lparr>ft_overlap_count := n\<rparr>) = ft_core t"
  "ft_core (t\<lparr>ft_ordinal := n\<rparr>) = ft_core t"
  by (cases t; simp add: ft_core_def)+

lemma ft_core_fields:
  "ft_core t = ft_core t' \<Longrightarrow> ft_policy t = ft_policy t' \<and> ft_calculated_size t = ft_calculated_size t'
     \<and> ft_flags t = ft_flags t' \<and> ft_context t = ft_context t' \<and> ft_options_data t = ft_options_data t'
     \<and> ft_options_len t = ft_options_len t' \<and> ft_time t = ft_time t'"
  unfolding ft_core_def by (cases t; cases t'; simp)

lemma ft_core_helpers [simp]:
  "ft_core (count_overlap t) = ft_core t" "ft_core (less_bytes n t) = ft_core t"
  "ft_bytes (count_overlap t) = ft_bytes t" "ft_bytes (less_bytes n t) = cu32 (ft_bytes t - n)"
  "ft_policy (count_overlap t) = ft_policy t" "ft_policy (less_bytes n t) = ft_policy t"
  by (simp_all add: count_overlap_def less_bytes_def)

section \<open>The overlap on the left\<close>

text \<open>
  The stored fragments before and after the start \<open>a\<close> of a new one that ends at \<open>b\<close> are \<open>L\<close> and
  \<open>R\<close>; once the overlap on the left is resolved they are \<open>L'\<close> and \<open>R'\<close>, and the new one
  starts at \<open>off\<close>.
\<close>

definition left_ok ::
    "frag_policy \<Rightarrow> int \<Rightarrow> int \<Rightarrow> frag3_frag list \<Rightarrow> frag3_frag list \<Rightarrow> frag3_frag list \<Rightarrow> frag3_frag list \<Rightarrow> int \<Rightarrow> bool" where
  "left_ok pol a b L R L' R' off \<longleftrightarrow>
     flist_wf (L' @ R') \<and> (\<forall>f \<in> set L'. fr_end f \<le> off) \<and> (\<forall>f \<in> set R'. off \<le> fr_offset f)
     \<and> a \<le> off \<and> off \<le> b
     \<and> (\<forall>x. flist_byte L' x = (if x < off then flist_byte L x else None))
     \<and> (\<forall>x. b \<le> x \<longrightarrow> flist_byte R' x = flist_byte (L @ R) x)
     \<and> (\<forall>r \<in> set R'. \<forall>x. fr_offset r \<le> x \<longrightarrow> flist_byte R' x = flist_byte (L @ R) x)
     \<and> (R' = R \<or> (\<forall>f \<in> set R'. b \<le> fr_offset f) \<and> (\<forall>f \<in> set R. b \<le> fr_offset f))
     \<and> (\<forall>f \<in> set L. \<forall>x. frag_covers f x \<and> a \<le> x \<and> x < b \<longrightarrow> (keeps_old pol a b f \<longleftrightarrow> x < off))
     \<and> (\<forall>x. a \<le> x \<and> x < off \<longrightarrow> (\<exists>f \<in> set L. frag_covers f x \<and> keeps_old pol a b f))
     \<and> (off = a \<or> (\<exists>l \<in> set L. fr_end l = off \<and> fr_offset l < a \<and> a < fr_end l) \<and> L' = L \<and> R' = R)
     \<and> (L' = L \<and> R' = R \<or> (\<forall>f \<in> set R'. a < fr_offset f))"

definition left_done ::
    "insert_env \<Rightarrow> frag_tracker \<Rightarrow> int \<Rightarrow> frag3_frag list \<Rightarrow> frag3_frag list \<Rightarrow> insert_state \<Rightarrow> bool" where
  "left_done e ft d L R s \<longleftrightarrow>
     fc_mid (is_cur s) = [] \<and> is_slide s = is_offset s - ie_start e \<and> is_trunc s = 0 \<and> is_addthis s
     \<and> ft_core (is_ft s) = ft_core ft
     \<and> ft_bytes (is_ft s) = flist_size (fc_left (is_cur s) @ fc_right (is_cur s)) + d
     \<and> left_ok (ft_policy ft) (ie_start e) (ie_end e) L R (fc_left (is_cur s)) (fc_right (is_cur s)) (is_offset s)"

text \<open>Where an insertion starts.\<close>

definition ins_start ::
    "insert_env \<Rightarrow> frag_tracker \<Rightarrow> int \<Rightarrow> frag3_frag list \<Rightarrow> frag3_frag list \<Rightarrow> insert_state \<Rightarrow> bool" where
  "ins_start e ft d L R s \<longleftrightarrow>
     is_cur s = \<lparr>fc_left = L, fc_mid = [], fc_right = R\<rparr> \<and> flist_wf (L @ R)
     \<and> (\<forall>f \<in> set L. fr_offset f < ie_start e) \<and> (\<forall>f \<in> set R. ie_start e \<le> fr_offset f)
     \<and> is_offset s = ie_start e \<and> is_slide s = 0 \<and> is_trunc s = 0 \<and> is_addthis s
     \<and> ft_core (is_ft s) = ft_core ft \<and> ft_bytes (is_ft s) = flist_size (L @ R) + d \<and> 0 \<le> d \<and> d < 65536"

text \<open>What a rejected fragment leaves.\<close>

definition rejected :: "frag_tracker \<Rightarrow> insert_ret \<Rightarrow> frag_tracker \<Rightarrow> bool" where
  "rejected ft r ft' \<longleftrightarrow>
     ft_core ft' = ft_core ft
     \<or> r = FRAG_INSERT_ATTACK \<and> ft_core ft' = ft_core (ft\<lparr>ft_flags := ft_flags ft OR FRAG_BAD\<rparr>)"

lemma wf_middle:
  assumes "flist_wf (L0 @ l # R)"
  shows "flist_wf L0" "frag_wf l" "flist_wf R" "\<forall>f \<in> set L0. fr_end f \<le> fr_offset l"
    "\<forall>f \<in> set R. fr_end l \<le> fr_offset f" "\<forall>f \<in> set L0. \<forall>g \<in> set R. fr_end f \<le> fr_offset g"
  using assms by (auto simp: flist_wf_simps)

lemma left_ok_unchanged:
  assumes "flist_wf (L @ R)" "\<forall>f \<in> set L. fr_end f \<le> a" "\<forall>f \<in> set R. a \<le> fr_offset f" "a \<le> b"
  shows "left_ok pol a b L R L R a"
proof -
  have 1: "flist_byte L x = None" if "a \<le> x" for x
    using assms(2) that by (rule flist_byte_before)
  have "\<forall>r \<in> set R. \<forall>x. fr_offset r \<le> x \<longrightarrow> flist_byte R x = flist_byte (L @ R) x"
    using 1 assms(3) by fastforce
  moreover have "\<forall>f \<in> set L. \<forall>x. frag_covers f x \<and> a \<le> x \<and> x < b \<longrightarrow> (keeps_old pol a b f \<longleftrightarrow> x < a)"
    using assms(2) by (force simp: frag_covers_def)
  ultimately show ?thesis using assms 1 by (auto simp: left_ok_def)
qed

lemma left_ok_moved:
  assumes w: "flist_wf (L @ R)" and L: "L = L0 @ [l]" and l: "fr_offset l < a" "a < fr_end l" "fr_end l \<le> b"
    and k: "keeps_old pol a b l"
  shows "left_ok pol a b L R L R (fr_end l)"
proof -
  note W = wf_middle [OF w [unfolded L append_assoc, simplified]]
  have lo: "\<forall>f \<in> set L. fr_end f \<le> fr_end l" "l \<in> set L"
    using W frag_wf_size [OF W(2)] L by force+
  have 1: "flist_byte L x = None" if "fr_end l \<le> x" for x
    using lo(1) that by (rule flist_byte_before)
  have 2: "\<forall>r \<in> set R. \<forall>x. fr_offset r \<le> x \<longrightarrow> flist_byte R x = flist_byte (L @ R) x"
    using 1 W(5) by fastforce
  have 3: "\<forall>f \<in> set L. \<forall>x. frag_covers f x \<and> a \<le> x \<and> x < b \<longrightarrow> (keeps_old pol a b f \<longleftrightarrow> x < fr_end l)"
    using W(4) l k L by (fastforce simp: frag_covers_def)
  have 4: "\<forall>x. a \<le> x \<and> x < fr_end l \<longrightarrow> (\<exists>f \<in> set L. frag_covers f x \<and> keeps_old pol a b f)"
    using l k lo(2) by (force simp: frag_covers_def)
  have 5: "flist_byte R x = flist_byte (L @ R) x" if "b \<le> x" for x
    using 1 [of x] l that by simp
  show ?thesis unfolding left_ok_def
    using w l W(5) lo 1 2 3 4 5 by auto
qed

text \<open>\<open>left\<close> is cut at the start of the new fragment, its rest (if any) becomes a fragment after it.\<close>

definition front_of :: "int \<Rightarrow> frag3_frag \<Rightarrow> frag3_frag" where
  "front_of a l = l\<lparr>fr_size := a - fr_offset l\<rparr>"

definition rest_of :: "int \<Rightarrow> frag3_frag \<Rightarrow> frag3_frag" where
  "rest_of b l = l\<lparr>fr_offset := b, fr_size := fr_end l - b, fr_data := fr_data l + (b - fr_offset l)\<rparr>"

lemma front_of:
  assumes "frag_wf l" "fr_offset l < a" "a \<le> fr_end l"
  shows "frag_wf (front_of a l)" "fr_end (front_of a l) = a" "fr_offset (front_of a l) = fr_offset l"
    "fr_byte (front_of a l) = fr_byte l"
  using assms by (auto simp: front_of_def frag_wf_def fr_end_def fr_byte_def)

lemma rest_of:
  assumes "frag_wf l" "fr_offset l \<le> b" "b < fr_end l"
  shows "frag_wf (rest_of b l)" "fr_end (rest_of b l) = fr_end l" "fr_offset (rest_of b l) = b"
    "fr_byte (rest_of b l) = fr_byte l"
  using assms by (auto simp: rest_of_def frag_wf_def fr_end_def fr_byte_def fun_eq_iff)

lemma rest_of_ord [simp]:
  "fr_offset (l\<lparr>fr_ord := n\<rparr>) = fr_offset l" "fr_end (l\<lparr>fr_ord := n\<rparr>) = fr_end l"
  "frag_wf (l\<lparr>fr_ord := n\<rparr>) = frag_wf l" "fr_byte (l\<lparr>fr_ord := n\<rparr>) = fr_byte l"
  by (auto simp: frag_wf_def fr_end_def fr_byte_def fun_eq_iff)

lemma left_ok_cut:
  assumes w: "flist_wf (L @ R)" and L: "L = L0 @ [l]" and l: "fr_offset l < a" "a < fr_end l" "fr_end l \<le> b"
    and R: "\<forall>f \<in> set R. a \<le> fr_offset f" and k: "\<not> keeps_old pol a b l"
  shows "left_ok pol a b L R (L0 @ [front_of a l]) R a"
proof -
  note W = wf_middle [OF w [unfolded L append_assoc, simplified]]
  note F = front_of [OF W(2) l(1)] 
  have wf: "flist_wf ((L0 @ [front_of a l]) @ R)"
    using W F l by (fastforce simp: flist_wf_simps)
  have ends: "\<forall>f \<in> set (L0 @ [front_of a l]). fr_end f \<le> a"
    using W(4) F l by auto
  have 1: "flist_byte (L0 @ [front_of a l]) x = (if x < a then flist_byte L x else None)" for x
    using W(4) F l L flist_byte_before [OF ends, of x] by (auto simp: frag_covers_def)
  have Lx: "flist_byte L x = None" if "fr_end l \<le> x" for x
    using W(4) frag_wf_size [OF W(2)] that L by (intro flist_byte_before [of _ "fr_end l"]) force+
  have 2: "\<forall>r \<in> set R. \<forall>x. fr_offset r \<le> x \<longrightarrow> flist_byte R x = flist_byte (L @ R) x"
    using Lx W(5) by fastforce
  have 3: "\<forall>f \<in> set L. \<forall>x. frag_covers f x \<and> a \<le> x \<and> x < b \<longrightarrow> \<not> keeps_old pol a b f"
    using W(4) l k L by (fastforce simp: frag_covers_def)
  have 5: "flist_byte R x = flist_byte (L @ R) x" if "b \<le> x" for x
    using Lx [of x] l that by simp
  have 8: "\<forall>f \<in> set R. a < fr_offset f" using W(5) l by force
  show ?thesis unfolding left_ok_def
    using wf ends R l 1 2 3 5 8 by (auto simp del: append_assoc)
qed

lemma left_ok_split:
  assumes w: "flist_wf (L @ R)" and L: "L = L0 @ [l]" and l: "fr_offset l < a" "a < b" "b < fr_end l"
    and k: "\<not> keeps_old pol a b l"
  shows "left_ok pol a b L R (L0 @ [front_of a l]) (rest_of b (l\<lparr>fr_ord := n\<rparr>) # R) a"
proof -
  note W = wf_middle [OF w [unfolded L append_assoc, simplified]]
  have aE: "a \<le> fr_end l" and bO: "fr_offset l \<le> b" using l by auto
  note F = front_of [OF W(2) l(1) aE] and G = rest_of [of "l\<lparr>fr_ord := n\<rparr>", simplified, OF W(2) bO l(3)]
  have wf: "flist_wf ((L0 @ [front_of a l]) @ rest_of b (l\<lparr>fr_ord := n\<rparr>) # R)"
    using W F G l by (fastforce simp: flist_wf_simps)
  have ends: "\<forall>f \<in> set (L0 @ [front_of a l]). fr_end f \<le> a"
    using W(4) F l by auto
  have 1: "flist_byte (L0 @ [front_of a l]) x = (if x < a then flist_byte L x else None)" for x
    using W(4) F l L flist_byte_before [OF ends, of x] by (auto simp: frag_covers_def)
  have L0x: "flist_byte L0 x = None" if "b \<le> x" for x
    using W(4) that l by (intro flist_byte_before [of _ "fr_offset l"]) auto
  have 2: "flist_byte (rest_of b (l\<lparr>fr_ord := n\<rparr>) # R) x = flist_byte (L @ R) x" if "b \<le> x" for x
    using L0x [OF that] L G that bO by (auto simp: frag_covers_def)
  have 3: "\<forall>f \<in> set L. \<forall>x. frag_covers f x \<and> a \<le> x \<and> x < b \<longrightarrow> \<not> keeps_old pol a b f"
    using W(4) l k L by (fastforce simp: frag_covers_def)
  have 4: "\<forall>f \<in> set R. b \<le> fr_offset f" using W(5) l by force
  have 7: "\<forall>f \<in> set (rest_of b (l\<lparr>fr_ord := n\<rparr>) # R). b \<le> fr_offset f" using 4 G by simp
  then have 8: "\<forall>f \<in> set (rest_of b (l\<lparr>fr_ord := n\<rparr>) # R). a < fr_offset f" using l(2) by fastforce
  have 6: "\<forall>r \<in> set (rest_of b (l\<lparr>fr_ord := n\<rparr>) # R). \<forall>x. fr_offset r \<le> x \<longrightarrow>
      flist_byte (rest_of b (l\<lparr>fr_ord := n\<rparr>) # R) x = flist_byte (L @ R) x"
  proof (intro ballI allI impI)
    fix r x assume "r \<in> set (rest_of b (l\<lparr>fr_ord := n\<rparr>) # R)" "fr_offset r \<le> x"
    then have "b \<le> x" using bspec [OF 7] order_trans by blast
    then show "flist_byte (rest_of b (l\<lparr>fr_ord := n\<rparr>) # R) x = flist_byte (L @ R) x" by (rule 2)
  qed
  define L' R' where "L' = L0 @ [front_of a l]" "R' = rest_of b (l\<lparr>fr_ord := n\<rparr>) # R"
  have "left_ok pol a b L R L' R' a"
    unfolding left_ok_def using wf ends l 1 2 3 4 6 7 8 unfolding L'_R'_def [symmetric] by force
  then show ?thesis by (simp add: L'_R'_def)
qed

lemma cut_front: 
  assumes "frag_wf l" "fr_offset l < a" "a < fr_end l"
  shows "l\<lparr>fr_size := cu16 (fr_size l - ci16 (fr_end l - a))\<rparr> = front_of a l" "ci16 (fr_end l - a) = fr_end l - a"
proof -
  show *: "ci16 (fr_end l - a) = fr_end l - a"
    using assms by (intro ci16_id) (auto simp: frag_wf_def fr_end_def)
  show "l\<lparr>fr_size := cu16 (fr_size l - ci16 (fr_end l - a))\<rparr> = front_of a l"
    unfolding * using assms by (simp add: front_of_def frag_wf_def fr_end_def)
qed

lemma cut_rest:
  assumes "frag_wf f" "0 \<le> b" "fr_offset f \<le> b" "b < fr_end f"
  shows "f\<lparr>fr_offset := cu16 b, fr_size := cu16 (fr_size f - (b - fr_offset f)), fr_data := fr_data f + (b - fr_offset f)\<rparr>
    = rest_of b f"
  using assms by (simp add: rest_of_def frag_wf_def fr_end_def)

lemma DupFragNode_cases:
  "(\<exists>s'. DupFragNode e l s = (FRAG_INSERT_FAILED, s') \<and> is_cur s' = is_cur s \<and> is_ft s' = is_ft s)
   \<or> (\<exists>s'. DupFragNode e l s = (FRAG_INSERT_OK, s')
        \<and> is_cur s' = (is_cur s)\<lparr>fc_right := (l\<lparr>fr_ord := ft_ordinal (is_ft s)\<rparr>) # fc_right (is_cur s)\<rparr>
        \<and> ft_core (is_ft s') = ft_core (is_ft s) \<and> ft_bytes (is_ft s') = cu32 (ft_bytes (is_ft s) + fr_size l)
        \<and> is_offset s' = is_offset s \<and> is_slide s' = is_slide s \<and> is_trunc s' = is_trunc s
        \<and> is_addthis s' = is_addthis s)"
  by (cases "get_frag (ie_cfg e) (ie_key e) (fr_flen l) (is_st s)"; cases "fst (get_frag (ie_cfg e) (ie_key e) (fr_flen l) (is_st s))")
     (auto simp: DupFragNode_def Let_def)

lemma left_policy_last_cases:
  assumes e: "env_ok e" and i: "ins_start e ft d (L0 @ [l]) R s" and L: "L = L0 @ [l]"
    and l: "ie_start e < fr_end l" and k: "\<not> keeps_old (ft_policy ft) (ie_start e) (ie_end e) l"
  shows "(\<exists>s'. left_policy_last e l (fr_end l - ie_start e) s = Inr s' \<and> left_done e ft d L R s')
     \<or> (\<exists>s'. left_policy_last e l (fr_end l - ie_start e) s = Inl (FRAG_INSERT_FAILED, s') \<and> is_cur s' = is_cur s
          \<and> ft_bytes (is_ft s') = ft_bytes (is_ft s) \<and> ft_core (is_ft s') = ft_core ft)"
proof -
  have I: "is_cur s = \<lparr>fc_left = L0 @ [l], fc_mid = [], fc_right = R\<rparr>" "flist_wf (L @ R)"
      "fr_offset l < ie_start e" "\<forall>f \<in> set R. ie_start e \<le> fr_offset f" "is_offset s = ie_start e"
      "is_slide s = 0" "is_trunc s = 0" "is_addthis s" "ft_core (is_ft s) = ft_core ft"
      "ft_bytes (is_ft s) = flist_size (L @ R) + d" "0 \<le> d" "d < 65536"
    using i L by (auto simp: ins_start_def)
  have ab: "ie_start e < ie_end e" "ie_start e + ie_len e = ie_end e" "0 \<le> ie_start e" "ie_end e \<le> 65535"
    using e by (auto simp: env_ok_def ie_start_def)
  note W = wf_middle [OF I(2) [unfolded L append_assoc, simplified]]
  note C = cut_front [OF W(2) I(3) l]
  have sz: "flist_size (L @ R) = flist_size L0 + fr_size l + flist_size R" by (simp add: L)
  have szb: "0 \<le> flist_size L0" "0 \<le> flist_size R" "flist_size (L @ R) \<le> 65535"
    using flist_size_max [OF W(1)] flist_size_max [OF W(3)] flist_size_max [OF I(2)] by auto
  have lw: "0 < fr_size l" "fr_size l < 32768" "fr_end l = fr_offset l + fr_size l" "0 \<le> fr_offset l"
    using W(2) by (auto simp: frag_wf_def fr_end_def)
  show ?thesis
  proof (cases "fr_end l > ie_end e")
    case split: True
    from DupFragNode_cases [of e l s] show ?thesis
    proof
      assume "\<exists>s'. DupFragNode e l s = (FRAG_INSERT_FAILED, s') \<and> is_cur s' = is_cur s \<and> is_ft s' = is_ft s"
      then show ?thesis using split I ab by (auto simp: left_policy_last_def)
    next
      let ?f = "l\<lparr>fr_ord := ft_ordinal (is_ft s)\<rparr>"
      assume "\<exists>s'. DupFragNode e l s = (FRAG_INSERT_OK, s')
        \<and> is_cur s' = (is_cur s)\<lparr>fc_right := ?f # fc_right (is_cur s)\<rparr>
        \<and> ft_core (is_ft s') = ft_core (is_ft s) \<and> ft_bytes (is_ft s') = cu32 (ft_bytes (is_ft s) + fr_size l)
        \<and> is_offset s' = is_offset s \<and> is_slide s' = is_slide s \<and> is_trunc s' = is_trunc s
        \<and> is_addthis s' = is_addthis s"
      then obtain s1 where s1: "DupFragNode e l s = (FRAG_INSERT_OK, s1)"
        "is_cur s1 = \<lparr>fc_left = L0 @ [l], fc_mid = [], fc_right = ?f # R\<rparr>"
        "ft_core (is_ft s1) = ft_core ft" "ft_bytes (is_ft s1) = cu32 (ft_bytes (is_ft s) + fr_size l)"
        "is_offset s1 = ie_start e" "is_slide s1 = 0" "is_trunc s1 = 0" "is_addthis s1"
        using I by auto
      have rest: "?f\<lparr>fr_offset := cu16 (ie_end e), fr_size := cu16 (fr_size l - (ie_end e - fr_offset l)),
          fr_data := fr_data l + (ie_end e - fr_offset l)\<rparr> = rest_of (ie_end e) ?f"
        using cut_rest [of ?f "ie_end e"] W(2) I(3) ab split by simp
      define s2 where "s2 = cut_left l (fr_end l - ie_start e) s1"
      define s3 where "s3 = s2\<lparr>is_cur := cur_set_right (rest_of (ie_end e) ?f) (is_cur s2),
                               is_ft := less_bytes (ie_end e - fr_offset l) (is_ft s2)\<rparr>"
      have s2: "is_cur s2 = \<lparr>fc_left = L0 @ [front_of (ie_start e) l], fc_mid = [], fc_right = ?f # R\<rparr>"
        using s1 C by (simp add: s2_def cut_left_def cur_set_left_def butlast_append)
      have s3: "is_cur s3 = \<lparr>fc_left = L0 @ [front_of (ie_start e) l], fc_mid = [], fc_right = rest_of (ie_end e) ?f # R\<rparr>"
        using s2 by (simp add: s3_def cur_set_right_def)
      have s3': "s3 = s2\<lparr>is_cur := cur_set_right (rest_of (ie_end e) ?f)
             \<lparr>fc_left = L0 @ [front_of (ie_start e) l], fc_mid = [], fc_right = ?f # R\<rparr>,
           is_ft := less_bytes (ie_end e - fr_offset l) (is_ft s2)\<rparr>"
        by (simp add: s3_def s2)
      have del: "delete_empty_left e s3 = s3"
        using s3 I(3) by (simp add: delete_empty_left_def cur_left_def front_of_def)
      have "left_policy_last e l (fr_end l - ie_start e) s = Inr s3"
        using split ab I(3,5) s1(1) s2 rest
        by (simp add: left_policy_last_def s2_def [symmetric] cur_right_def s3' [symmetric] del)
      moreover have "left_done e ft d L R s3"
      proof -
        have "ft_bytes (is_ft s3) = flist_size ((L0 @ [front_of (ie_start e) l]) @ rest_of (ie_end e) ?f # R) + d"
          using s1 I szb lw sz split ab C(2)
          by (simp add: s3_def s2_def cut_left_def front_of_def rest_of_def)
        then show ?thesis
          using s3 s1 left_ok_split [OF I(2) L I(3) ab(1) split k]
          by (simp add: left_done_def s3_def s2_def cut_left_def del: append_assoc)
      qed
      ultimately show ?thesis by blast
    qed
  next
    case False
    define s2 where "s2 = cut_left l (fr_end l - ie_start e) s"
    have s2: "is_cur s2 = \<lparr>fc_left = L0 @ [front_of (ie_start e) l], fc_mid = [], fc_right = R\<rparr>"
      using I C by (simp add: s2_def cut_left_def cur_set_left_def butlast_append)
    have del: "delete_empty_left e s2 = s2"
      using s2 I(3) by (simp add: delete_empty_left_def cur_left_def front_of_def)
    have "left_policy_last e l (fr_end l - ie_start e) s = Inr s2"
      using False ab I(5) by (simp add: left_policy_last_def s2_def [symmetric] del)
    moreover have "left_done e ft d L R s2"
    proof -
      have "ft_bytes (is_ft s2) = flist_size ((L0 @ [front_of (ie_start e) l]) @ R) + d"
        using I szb lw sz l C(2) by (simp add: s2_def cut_left_def front_of_def)
      then show ?thesis
        using s2 I left_ok_cut [OF I(2) L I(3) l _ I(4) k] False
        by (simp add: left_done_def s2_def cut_left_def del: append_assoc)
    qed
    ultimately show ?thesis by blast
  qed
qed

lemma keeps_old_left:
  assumes "fr_offset l < a"
  shows "pol \<notin> {FRAG_POLICY_LAST, FRAG_POLICY_BSD_RIGHT} \<Longrightarrow> keeps_old pol a b l"
    "keeps_old FRAG_POLICY_BSD_RIGHT a b l \<longleftrightarrow> b \<le> fr_end l" "\<not> keeps_old FRAG_POLICY_LAST a b l"
  using assms by (auto simp: keeps_old_def split: frag_policy.split)

text \<open>The two outcomes of the policies that move the new fragment.\<close>

lemma move_new_state:
  assumes e: "env_ok e" and i: "ins_start e ft d L R s" and L: "L = L0 @ [l]" and l: "ie_start e < fr_end l"
  defines "s2 \<equiv> move_new (fr_end l - ie_start e) s"
  shows "is_cur s2 = is_cur s" "is_offset s2 = fr_end l" "is_ft s2 = is_ft s" "delete_empty_left e s2 = s2"
    "keeps_old (ft_policy ft) (ie_start e) (ie_end e) l \<Longrightarrow> fr_end l \<le> ie_end e \<Longrightarrow> left_done e ft d L R s2"
proof -
  have I: "is_cur s = \<lparr>fc_left = L, fc_mid = [], fc_right = R\<rparr>" "flist_wf (L @ R)" "fr_offset l < ie_start e"
      "is_offset s = ie_start e" "is_slide s = 0" "is_trunc s = 0" "is_addthis s" "ft_core (is_ft s) = ft_core ft"
      "ft_bytes (is_ft s) = flist_size (L @ R) + d"
    using i L by (auto simp: ins_start_def)
  have w: "frag_wf l" using I(2) L by (simp add: flist_wf_simps)
  have ends: "0 \<le> fr_end l" "fr_end l < 65536" using w by (auto simp: frag_wf_def fr_end_def)
  have s2: "is_offset s2 = fr_end l" "is_slide s2 = fr_end l - ie_start e"
    using I(4) cut_front(2) [OF w I(3) l] ends by (simp_all add: s2_def move_new_def)
  show "is_cur s2 = is_cur s" "is_offset s2 = fr_end l" "is_ft s2 = is_ft s"
    using s2 by (simp_all add: s2_def move_new_def)
  show "delete_empty_left e s2 = s2"
    using w I(1) L by (simp add: s2_def move_new_def delete_empty_left_def cur_left_def frag_wf_def)
  assume "keeps_old (ft_policy ft) (ie_start e) (ie_end e) l" "fr_end l \<le> ie_end e"
  then show "left_done e ft d L R s2"
    using left_ok_moved [OF I(2) L I(3) l] I s2 by (simp add: left_done_def) (simp add: s2_def move_new_def)
qed

lemma left_policy_cases:
  assumes e: "env_ok e" and i: "ins_start e ft d L R s" and L: "L = L0 @ [l]" and l: "ie_start e < fr_end l"
  shows "(\<exists>s'. left_policy e l (fr_end l - ie_start e) s = Inr s' \<and> left_done e ft d L R s')
     \<or> (\<exists>s'. left_policy e l (fr_end l - ie_start e) s = Inr s' \<and> ie_end e < is_offset s'
          \<and> ie_end e \<le> fr_end l \<and> is_cur s' = is_cur s \<and> is_ft s' = is_ft s)
     \<or> (\<exists>r s'. left_policy e l (fr_end l - ie_start e) s = Inl (r, s') \<and> r \<in> {FRAG_INSERT_ANOMALY, FRAG_INSERT_FAILED}
          \<and> (r = FRAG_INSERT_ANOMALY \<longrightarrow> ie_end e \<le> fr_end l)
          \<and> is_cur s' = is_cur s \<and> ft_bytes (is_ft s') = ft_bytes (is_ft s) \<and> ft_core (is_ft s') = ft_core ft)"
proof -
  note M = move_new_state [OF e i L l]
  have I: "fr_offset l < ie_start e" "ft_core (is_ft s) = ft_core ft" "is_offset s + ie_len e = ie_end e"
    using i L by (auto simp: ins_start_def ie_start_def)
  have pol: "ft_policy (is_ft s) = ft_policy ft" using ft_core_fields [OF I(2)] by simp
  show ?thesis
  proof (cases "ft_policy ft \<in> {FRAG_POLICY_LAST, FRAG_POLICY_BSD_RIGHT}")
    case False
    then have k: "keeps_old (ft_policy ft) (ie_start e) (ie_end e) l" using keeps_old_left(1) [OF I(1)] by blast
    have "left_policy e l (fr_end l - ie_start e) s =
        (if ie_end e \<le> fr_end l then Inl (FRAG_INSERT_ANOMALY,
           (move_new (fr_end l - ie_start e) s)\<lparr>is_st := frag3_event (ie_context e) FRAG3_ANOMALY_ZERO
              (is_st (move_new (fr_end l - ie_start e) s))\<rparr>)
         else Inr (move_new (fr_end l - ie_start e) s))"
      using False by (cases "ft_policy ft") (simp_all add: left_policy_def pol Let_def M(2))
    then show ?thesis using M(1,3) M(5) [OF k] I(2) by auto
  next
    case True
    then consider (last) "ft_policy ft = FRAG_POLICY_LAST" | (right) "ft_policy ft = FRAG_POLICY_BSD_RIGHT" by auto
    then show ?thesis
    proof cases
      case last
      then have "\<not> keeps_old (ft_policy ft) (ie_start e) (ie_end e) l" using keeps_old_left(3) [OF I(1)] by simp
      from left_policy_last_cases [OF e i [unfolded L] refl l this] show ?thesis
        using last by (auto simp: left_policy_def pol L)
    next
      case right
      have k: "keeps_old FRAG_POLICY_BSD_RIGHT (ie_start e) (ie_end e) l \<longleftrightarrow> ie_end e \<le> fr_end l"
        by (rule keeps_old_left(2) [OF I(1)])
      show ?thesis
      proof (cases "ie_end e \<le> fr_end l")
        case True
        then show ?thesis using right M k I(3) by (auto simp: left_policy_def pol)
      next
        case False
        then have "\<not> keeps_old (ft_policy ft) (ie_start e) (ie_end e) l" using k right by simp
        from left_policy_last_cases [OF e i [unfolded L] refl l this] show ?thesis
          using right False I(3) by (auto simp: left_policy_def pol L)
      qed
    qed
  qed
qed

lemma rejected_attack: "ft_core (is_ft s) = ft_core ft \<Longrightarrow> rejected ft FRAG_INSERT_ATTACK (is_ft (attack e s))"
  unfolding rejected_def attack_def ft_core_def by (cases ft; cases "is_ft s") simp

lemma attack_simps [simp]: "is_cur (attack e s) = is_cur s" "ft_bytes (is_ft (attack e s)) = ft_bytes (is_ft s)"
  by (simp_all add: attack_def)

lemma teardrop_core: "ft_core (is_ft s) = ft_core (is_ft s') \<Longrightarrow> teardrop e s = teardrop e s'"
  using ft_core_fields [of "is_ft s" "is_ft s'"] by (simp add: teardrop_def)

lemma left_done_off: "left_done e ft d L R s \<Longrightarrow> is_offset s \<le> ie_end e"
  by (simp add: left_done_def left_ok_def)

lemma left_overlap_cases:
  assumes e: "env_ok e" and i: "ins_start e ft d L R s"
  shows "(\<exists>s'. left_overlap e s = Inr s' \<and> left_done e ft d L R s' \<and> (teardrop e s' \<longrightarrow> is_cur s' = is_cur s))
     \<or> (\<exists>r s'. left_overlap e s = Inl (r, s') \<and> r \<in> {FRAG_INSERT_ANOMALY, FRAG_INSERT_ATTACK, FRAG_INSERT_FAILED}
          \<and> (r = FRAG_INSERT_ANOMALY \<longrightarrow> (\<forall>x. ie_start e \<le> x \<and> x < ie_end e \<longrightarrow> flist_byte (L @ R) x \<noteq> None))
          \<and> is_cur s' = is_cur s \<and> ft_bytes (is_ft s') = ft_bytes (is_ft s) \<and> rejected ft r (is_ft s'))"
proof -
  have I: "is_cur s = \<lparr>fc_left = L, fc_mid = [], fc_right = R\<rparr>" "flist_wf (L @ R)"
      "\<forall>f \<in> set R. ie_start e \<le> fr_offset f" "is_offset s = ie_start e" "ft_core (is_ft s) = ft_core ft"
    using i by (auto simp: ins_start_def)
  have ab: "ie_start e < ie_end e" "0 \<le> ie_start e" "ie_end e \<le> 65535"
    using e by (auto simp: env_ok_def ie_start_def)
  have unchanged: "left_done e ft d L R s" if "\<forall>f \<in> set L. fr_end f \<le> ie_start e"
    using i left_ok_unchanged [OF I(2) that I(3)] ab by (simp add: left_done_def ins_start_def)
  show ?thesis
  proof (cases L rule: rev_cases)
    case Nil
    then show ?thesis using unchanged I by (simp add: left_overlap_def cur_left_def)
  next
    case (snoc L0 l)
    note W = wf_middle [OF I(2) [unfolded snoc append_assoc, simplified]]
    have cl: "cur_left (is_cur s) = Some l" using I(1) snoc by (simp add: cur_left_def)
    have lw: "0 < fr_size l" "fr_end l = fr_offset l + fr_size l" "0 \<le> fr_offset l" "fr_end l \<le> 65535"
      using W(2) by (auto simp: frag_wf_def fr_end_def)
    have ov: "ci32 (fr_end l - is_offset s) = fr_end l - ie_start e" using lw ab I(4) by simp
    show ?thesis
    proof (cases "fr_end l \<le> ie_start e")
      case True
      have "\<forall>f \<in> set L. fr_end f \<le> ie_start e" using True W(4) lw snoc by force
      then show ?thesis using unchanged cl ov True by (simp add: left_overlap_def Let_def)
    next
      case False
      define s1 where "s1 = s\<lparr>is_ft := count_overlap (is_ft s)\<rparr>"
      have i1: "ins_start e ft d L R s1" using i by (simp add: ins_start_def s1_def)
      have c1: "is_cur s1 = is_cur s" "ft_bytes (is_ft s1) = ft_bytes (is_ft s)" "ft_core (is_ft s1) = ft_core ft"
        using I(5) by (simp_all add: s1_def)
      have step: "left_overlap e s = (if teardrop e s1 then Inl (FRAG_INSERT_ATTACK, attack e s1)
          else case left_policy e l (fr_end l - ie_start e) s1 of Inl r \<Rightarrow> Inl r
             | Inr s2 \<Rightarrow> if ie_end e < is_offset s2 then
                 Inl (FRAG_INSERT_ANOMALY, s2\<lparr>is_st := frag3_event (ie_context e) FRAG3_ANOMALY_BADSIZE_SM (is_st s2)\<rparr>)
               else Inr s2)"
        using cl ov False by (simp add: left_overlap_def Let_def s1_def)
      have cov: "\<forall>x. ie_start e \<le> x \<and> x < ie_end e \<longrightarrow> flist_byte (L @ R) x \<noteq> None" if "ie_end e \<le> fr_end l"
      proof -
        have "fr_offset l < ie_start e" using i snoc by (simp add: ins_start_def)
        then show ?thesis using that snoc by (auto simp: flist_byte_None frag_covers_def)
      qed
      have "ie_start e < fr_end l" using False by simp
      from left_policy_cases [OF e i1 snoc this] show ?thesis
      proof (cases "teardrop e s1")
        case True
        then show ?thesis using step c1 rejected_attack [OF c1(3)] by simp
      next
        case False
        from left_policy_cases [OF e i1 snoc \<open>ie_start e < fr_end l\<close>] show ?thesis
        proof (elim disjE exE conjE)
          fix s'
          assume a: "left_policy e l (fr_end l - ie_start e) s1 = Inr s'" "left_done e ft d L R s'"
          have "teardrop e s' = teardrop e s1"
            using a(2) c1(3) by (intro teardrop_core) (simp add: left_done_def)
          then show ?thesis using a step False left_done_off [OF a(2)] by simp
        next
          fix s' assume "left_policy e l (fr_end l - ie_start e) s1 = Inr s'" "ie_end e < is_offset s'"
            "ie_end e \<le> fr_end l" "is_cur s' = is_cur s1" "is_ft s' = is_ft s1"
          then show ?thesis using step False c1 cov by (simp add: rejected_def)
        next
          fix r s' assume "left_policy e l (fr_end l - ie_start e) s1 = Inl (r, s')" "r \<in> {FRAG_INSERT_ANOMALY, FRAG_INSERT_FAILED}"
            "r = FRAG_INSERT_ANOMALY \<longrightarrow> ie_end e \<le> fr_end l" "is_cur s' = is_cur s1"
            "ft_bytes (is_ft s') = ft_bytes (is_ft s1)" "ft_core (is_ft s') = ft_core ft"
          then show ?thesis using step False c1 cov by (auto simp: rejected_def simp del: flist_byte_append)
        qed
      qed
    qed
  qed
qed


end
