(* ===== verification/Frag3Merge.thy ===== *)
theory Frag3Merge
  imports Frag3InsertProps
begin

text \<open>The overlap on the right, and the result of one insertion.\<close>

section \<open>The loop over the fragments after\<close>

text \<open>The fragments inside the new one, and the first one that reaches beyond it.\<close>

definition inside :: "int \<Rightarrow> frag3_frag list \<Rightarrow> frag3_frag list" where
  "inside b R = takeWhile (\<lambda>f. fr_end f \<le> b) R"

definition beyond :: "int \<Rightarrow> frag3_frag list \<Rightarrow> frag3_frag list" where
  "beyond b R = dropWhile (\<lambda>f. fr_end f \<le> b) R"

lemma inside_beyond: "R = inside b R @ beyond b R"
  by (simp add: inside_def beyond_def)

lemma inside_props:
  assumes "flist_wf R" "f \<in> set (inside b R)"
  shows "f \<in> set R" "frag_wf f" "fr_end f \<le> b" "beyond b R = r # P \<Longrightarrow> fr_end f \<le> fr_offset r"
proof -
  have "flist_wf (inside b R @ beyond b R)" using assms(1) inside_beyond by simp
  then show "beyond b R = r # P \<Longrightarrow> fr_end f \<le> fr_offset r" "frag_wf f"
    using assms(2) by (auto simp: flist_wf_def sorted_wrt_append)
  show "f \<in> set R" "fr_end f \<le> b" using assms(2) by (auto simp: inside_def dest: set_takeWhileD)
qed

lemma inside_empty:
  assumes "flist_wf R" "\<forall>f \<in> set R. off \<le> fr_offset f" "beyond b R = r # P" "fr_offset r \<le> off"
  shows "inside b R = []"
proof (rule ccontr)
  assume "inside b R \<noteq> []"
  then obtain f where "f \<in> set (inside b R)" by (meson last_in_set)
  note F = inside_props [OF assms(1) this]
  show False using F(4) [OF assms(3)] assms(2,4) F(1) frag_wf_size [OF F(2)] by force
qed

lemma inside_none:
  assumes "flist_wf R" "\<forall>f \<in> set R. b \<le> fr_offset f"
  shows "inside b R = []"
proof (rule ccontr)
  assume "inside b R \<noteq> []"
  then obtain f where "f \<in> set (inside b R)" by (meson last_in_set)
  note F = inside_props [OF assms(1) this]
  show False using F(1,3) assms(2) frag_wf_size [OF F(2)] by force
qed

definition drops_inside :: "frag_policy \<Rightarrow> int \<Rightarrow> int \<Rightarrow> frag3_frag list \<Rightarrow> bool" where
  "drops_inside pol off b R \<longleftrightarrow>
     (\<forall>f \<in> set R. fr_end f \<le> b \<longrightarrow> pol \<in> {FRAG_POLICY_LAST, FRAG_POLICY_LINUX, FRAG_POLICY_BSD_RIGHT}
        \<or> pol \<in> {FRAG_POLICY_BSD, FRAG_POLICY_SOLARIS} \<and> off < fr_offset f)"

text \<open>What the loop keeps of its state.\<close>

definition same_place :: "insert_state \<Rightarrow> insert_state \<Rightarrow> bool" where
  "same_place s s' \<longleftrightarrow> is_offset s' = is_offset s \<and> is_slide s' = is_slide s
     \<and> is_addthis s' = is_addthis s \<and> ft_core (is_ft s') = ft_core (is_ft s)
     \<and> fc_left (is_cur s') = fc_left (is_cur s) \<and> fc_mid (is_cur s') = fc_mid (is_cur s)"

lemma same_place_trans: "same_place s s' \<Longrightarrow> same_place s' s'' \<Longrightarrow> same_place s s''"
  by (simp add: same_place_def)

lemma right_full_drop:
  assumes "fc_right (is_cur s) = r # R" "drops_inside (ft_policy (is_ft s)) (is_offset s) (ie_end e) (r # R)"
    and "fr_end r \<le> ie_end e"
  shows "\<exists>s'. right_full e r overlap s = Some (Inr s') \<and> same_place s s' \<and> fc_right (is_cur s') = R
    \<and> ft_bytes (is_ft s') = cu32 (ft_bytes (is_ft s) - fr_size r) \<and> is_trunc s' = is_trunc s"
proof -
  define s1 where "s1 = (if \<not> is_alerted s \<and> fx_detect_anomalies (ie_context e)
       then s\<lparr>is_st := frag3_event (ie_context e) FRAG3_ANOMALY_OVLP (is_st s),
              is_alerted := True, is_ft := count_overlap (is_ft s)\<rparr> else s)"
  have s1: "same_place s s1" "is_cur s1 = is_cur s" "ft_bytes (is_ft s1) = ft_bytes (is_ft s)"
    "ft_policy (is_ft s1) = ft_policy (is_ft s)" "is_offset s1 = is_offset s" "is_trunc s1 = is_trunc s"
    by (simp_all add: s1_def same_place_def)
  have "right_full e r overlap s = Some (Inr (drop_right e r s1))"
    using assms(2,3) s1(4,5)
    by (cases "ft_policy (is_ft s)") (auto simp: right_full_def s1_def [symmetric] Let_def drops_inside_def)
  then show ?thesis
    using s1 assms(1) by (auto simp: drop_right_def delete_right_def same_place_def cur_delete_right_def)
qed

text \<open>The last iteration.\<close>

lemma right_partial_cases:
  fixes e :: insert_env
  assumes r: "frag_wf r" "fr_offset r < b" "b < fr_end r" "is_offset s \<le> fr_offset r" "0 \<le> is_offset s" "b - is_offset s < 32768"
    and R: "fc_right (is_cur s) = r # R" and B: "ft_bytes (is_ft s) = B + flist_size (r # R)" "0 \<le> B" "B < 1000000"
    and w: "flist_wf (r # R)" and t: "is_trunc s = 0"
  defines "s' \<equiv> right_partial e r (b - fr_offset r) s" and "pol \<equiv> ft_policy (is_ft s)"
  shows "pol = FRAG_POLICY_BSD \<Longrightarrow> fr_offset r = is_offset s \<Longrightarrow>
      is_cur s' = is_cur s \<and> is_slide s' = fr_end r - is_offset s \<and> is_offset s' = fr_end r \<and> is_trunc s' = 0
      \<and> ft_core (is_ft s') = ft_core (is_ft s) \<and> ft_bytes (is_ft s') = ft_bytes (is_ft s) \<and> is_addthis s' = is_addthis s"
    and "pol \<in> {FRAG_POLICY_LAST, FRAG_POLICY_LINUX, FRAG_POLICY_BSD} \<Longrightarrow>
      \<not> (pol = FRAG_POLICY_BSD \<and> fr_offset r = is_offset s) \<Longrightarrow>
      same_place s s' \<and> fc_right (is_cur s') = rest_of b r # R \<and> is_trunc s' = 0
      \<and> ft_bytes (is_ft s') = B + flist_size (rest_of b r # R)"
    and "pol \<notin> {FRAG_POLICY_LAST, FRAG_POLICY_LINUX, FRAG_POLICY_BSD} \<Longrightarrow>
      same_place s s' \<and> fc_right (is_cur s') = r # R \<and> is_trunc s' = b - fr_offset r
      \<and> ft_bytes (is_ft s') = B + flist_size (r # R)"
proof -
  have rw: "0 < fr_size r" "fr_size r < 32768" "fr_end r = fr_offset r + fr_size r" "0 \<le> fr_offset r" "fr_end r \<le> 65535"
    using r(1) by (auto simp: frag_wf_def fr_end_def)
  have sz: "0 \<le> flist_size R" "flist_size R \<le> 65535"
    using flist_size_max [of R] w by (auto simp: flist_wf_Cons)
  { assume "pol = FRAG_POLICY_BSD" "fr_offset r = is_offset s"
    then show "is_cur s' = is_cur s \<and> is_slide s' = fr_end r - is_offset s \<and> is_offset s' = fr_end r \<and> is_trunc s' = 0
      \<and> ft_core (is_ft s') = ft_core (is_ft s) \<and> ft_bytes (is_ft s') = ft_bytes (is_ft s) \<and> is_addthis s' = is_addthis s"
      using rw t by (simp add: s'_def pol_def right_partial_def skip_right_def Let_def) }
  { assume "pol \<in> {FRAG_POLICY_LAST, FRAG_POLICY_LINUX, FRAG_POLICY_BSD}"
      "\<not> (pol = FRAG_POLICY_BSD \<and> fr_offset r = is_offset s)"
    then have "s' = cut_right e r (b - fr_offset r) (s\<lparr>is_ft := count_overlap (is_ft s)\<rparr>)"
      by (auto simp: s'_def pol_def right_partial_def Let_def)
    moreover have "r\<lparr>fr_offset := cu16 (fr_offset r + ci16 (b - fr_offset r)), fr_data := fr_data r + ci16 (b - fr_offset r),
        fr_size := cu16 (fr_size r - ci16 (b - fr_offset r))\<rparr> = rest_of b r"
      using rw r by (simp add: rest_of_def)
    ultimately show "same_place s s' \<and> fc_right (is_cur s') = rest_of b r # R \<and> is_trunc s' = 0
      \<and> ft_bytes (is_ft s') = B + flist_size (rest_of b r # R)"
      using rw r R B t sz
      by (simp add: cut_right_def Let_def same_place_def cur_set_right_def) (simp add: rest_of_def) }
  { assume "pol \<notin> {FRAG_POLICY_LAST, FRAG_POLICY_LINUX, FRAG_POLICY_BSD}"
    then show "same_place s s' \<and> fc_right (is_cur s') = r # R \<and> is_trunc s' = b - fr_offset r
      \<and> ft_bytes (is_ft s') = B + flist_size (r # R)"
      using rw r R B by (simp add: s'_def pol_def right_partial_def Let_def same_place_def) }
qed

lemma right_loop_cases:
  assumes "\<not> teardrop e s" "flist_wf R" "fc_right (is_cur s) = R" "length R < n" "is_trunc s = 0"
    and "drops_inside (ft_policy (is_ft s)) (is_offset s) (ie_end e) R"
    and "ft_bytes (is_ft s) = B + flist_size R" "0 \<le> B" "B < 1000000" "0 \<le> ie_end e" "ie_end e \<le> 65535"
  shows "\<exists>s1. same_place s s1 \<and> fc_right (is_cur s1) = beyond (ie_end e) R \<and> is_trunc s1 = 0
    \<and> ft_bytes (is_ft s1) = B + flist_size (beyond (ie_end e) R)
    \<and> right_loop n e s = Some (Inr
        (case beyond (ie_end e) R of
           [] \<Rightarrow> s1
         | r # _ \<Rightarrow> if fr_offset r < ie_end e then right_partial e r (ie_end e - fr_offset r) s1 else s1))"
  using assms
proof (induction R arbitrary: s n)
  case Nil
  then obtain m where "n = Suc m" by (cases n) auto
  then show ?case using Nil
    by (intro exI [of _ s]) (simp add: same_place_def beyond_def cur_right_def)
next
  case (Cons r R)
  then obtain m where n: "n = Suc m" "length R < m" by (cases n) auto
  have w: "frag_wf r" "flist_wf R" using Cons.prems by (auto simp: flist_wf_Cons)
  have rw: "0 < fr_size r" "fr_end r = fr_offset r + fr_size r" "0 \<le> fr_offset r" "fr_end r \<le> 65535"
    using w(1) by (auto simp: frag_wf_def fr_end_def)
  have sz: "0 \<le> flist_size R" "flist_size R \<le> 65535"
    using flist_size_max [OF w(2)] by auto
  have cr: "cur_right (is_cur s) = Some r" using Cons.prems by (simp add: cur_right_def)
  have s0: "s\<lparr>is_trunc := 0\<rparr> = s" using Cons.prems by simp
  have step: "right_step e r s = (if ie_end e - fr_offset r < fr_size r
      then Some (Inr (True, right_partial e r (ie_end e - fr_offset r) s))
      else map_option (map_sum (\<lambda>x. x) (Pair False)) (right_full e r (ie_end e - fr_offset r) s))"
    using Cons.prems(1,10,11) rw by (simp add: right_step_def s0 Let_def)
  show ?case
  proof (cases "fr_end r \<le> ie_end e")
    case False
    then show ?thesis using Cons.prems cr step rw n
      by (intro exI [of _ s]) (auto simp: same_place_def beyond_def)
  next
    case True
    obtain s' where s': "right_full e r (ie_end e - fr_offset r) s = Some (Inr s')" "same_place s s'"
      "fc_right (is_cur s') = R" "ft_bytes (is_ft s') = cu32 (ft_bytes (is_ft s) - fr_size r)" "is_trunc s' = is_trunc s"
      using right_full_drop [OF Cons.prems(3,6) True] by blast
    have core: "ft_core (is_ft s') = ft_core (is_ft s)" "is_offset s' = is_offset s"
      using s'(2) by (simp_all add: same_place_def)
    have pol: "ft_policy (is_ft s') = ft_policy (is_ft s)" using ft_core_fields [OF core(1)] by simp
    have bytes: "ft_bytes (is_ft s') = B + flist_size R"
      using s'(4) Cons.prems(7,8,9) sz rw by simp
    have "drops_inside (ft_policy (is_ft s')) (is_offset s') (ie_end e) R"
      using Cons.prems(6) pol core by (simp add: drops_inside_def)
    moreover have "\<not> teardrop e s'" using Cons.prems(1) teardrop_core [OF core(1)] by simp
    moreover have "is_trunc s' = 0" using s' Cons.prems by simp
    ultimately obtain s1 where s1: "same_place s' s1" "fc_right (is_cur s1) = beyond (ie_end e) R" "is_trunc s1 = 0"
      "ft_bytes (is_ft s1) = B + flist_size (beyond (ie_end e) R)"
      "right_loop m e s' = Some (Inr (case beyond (ie_end e) R of
           [] \<Rightarrow> s1
         | r # _ \<Rightarrow> if fr_offset r < ie_end e then right_partial e r (ie_end e - fr_offset r) s1 else s1))"
      using Cons.IH [of s' m] w s'(3) n bytes Cons.prems(8-11) by blast
    have "right_loop n e s = right_loop m e s'"
      using n cr step s'(1) True rw by simp
    moreover have "beyond (ie_end e) (r # R) = beyond (ie_end e) R" using True by (simp add: beyond_def)
    ultimately show ?thesis using s1 same_place_trans [OF s'(2)] by auto
  qed
qed

section \<open>Merging lists\<close>

text \<open>
  What the loop makes of the fragments \<open>R\<close> after the new one: \<open>P\<close>; the new one ends \<open>t\<close> bytes
  early.
\<close>

definition right_ok :: "frag_policy \<Rightarrow> int \<Rightarrow> int \<Rightarrow> frag3_frag list \<Rightarrow> frag3_frag list \<Rightarrow> int \<Rightarrow> bool" where
  "right_ok pol a b R P t \<longleftrightarrow>
     (\<forall>f \<in> set (inside b R). \<not> keeps_old pol a b f)
     \<and> (t = 0 \<and> P = beyond b R \<and> (\<forall>f \<in> set P. b \<le> fr_offset f)
        \<or> (\<exists>r P1. beyond b R = r # P1 \<and> fr_offset r < b \<and> b < fr_end r
             \<and> (t = 0 \<and> P = rest_of b r # P1 \<and> \<not> keeps_old pol a b r
                \<or> t = b - fr_offset r \<and> P = r # P1 \<and> keeps_old pol a b r)))"

lemma merge_right:
  assumes w: "flist_wf R" and R: "\<forall>f \<in> set R. off \<le> fr_offset f" "a \<le> off" and o: "right_ok pol a b R P t"
  shows "flist_wf P" "\<forall>f \<in> set P. b - t \<le> fr_offset f \<and> off \<le> fr_offset f" "0 \<le> t"
    and "flist_byte P x = (if b - t \<le> x then flist_byte R x else None)"
    and "f \<in> set R \<Longrightarrow> frag_covers f x \<Longrightarrow> x < b \<Longrightarrow> keeps_old pol a b f \<longleftrightarrow> b - t \<le> x"
    and "b - t \<le> x \<Longrightarrow> x < b \<Longrightarrow> \<exists>f \<in> set R. frag_covers f x \<and> keeps_old pol a b f"
proof -
  have RP: "R = inside b R @ beyond b R" by (rule inside_beyond)
  have wi: "flist_wf (inside b R)" "flist_wf (beyond b R)"
    "\<forall>f \<in> set (inside b R). \<forall>g \<in> set (beyond b R). fr_end f \<le> fr_offset g"
    using w by (subst (asm) RP, simp add: flist_wf_append)+
  have ie: "\<forall>f \<in> set (inside b R). fr_end f \<le> b" by (auto simp: inside_def dest: set_takeWhileD)
  have offs: "\<forall>f \<in> set (beyond b R). off \<le> fr_offset f" using R(1) by (subst (asm) RP) auto
  have ki: "\<forall>f \<in> set (inside b R). \<not> keeps_old pol a b f" using o by (simp add: right_ok_def)
  from o consider
      (A) "t = 0" "P = beyond b R" "\<forall>f \<in> set P. b \<le> fr_offset f"
    | (B) r P1 where "beyond b R = r # P1" "fr_offset r < b" "b < fr_end r" "t = 0" "P = rest_of b r # P1" "\<not> keeps_old pol a b r"
    | (C) r P1 where "beyond b R = r # P1" "fr_offset r < b" "b < fr_end r" "t = b - fr_offset r" "P = r # P1" "keeps_old pol a b r"
    unfolding right_ok_def by blast
  then have "flist_wf P \<and> (\<forall>f \<in> set P. b - t \<le> fr_offset f \<and> off \<le> fr_offset f) \<and> 0 \<le> t
    \<and> flist_byte P x = (if b - t \<le> x then flist_byte R x else None)
    \<and> (\<forall>f \<in> set R. frag_covers f x \<longrightarrow> x < b \<longrightarrow> (keeps_old pol a b f \<longleftrightarrow> b - t \<le> x))
    \<and> (b - t \<le> x \<and> x < b \<longrightarrow> (\<exists>f \<in> set R. frag_covers f x \<and> keeps_old pol a b f))"
  proof cases
    case A
    have 1: "flist_byte (inside b R) x = None" if "b \<le> x" using ie that by (rule flist_byte_before)
    have 2: "flist_byte P x = None" if "x < b" using A(3) that by (rule flist_byte_after)
    have 3: "flist_byte R x = flist_byte P x" if "b \<le> x"
      using 1 [OF that] A by (subst RP) auto
    have 4: "\<forall>f \<in> set R. frag_covers f x \<longrightarrow> x < b \<longrightarrow> \<not> keeps_old pol a b f"
      using ki A by (subst RP) (force simp: frag_covers_def)
    show ?thesis using A wi offs 2 3 4 by auto
  next
    case B
    have rw: "frag_wf r" "\<forall>g \<in> set P1. fr_end r \<le> fr_offset g" "flist_wf P1"
      using wi(2) B(1) by (auto simp: flist_wf_Cons)
    have G: "frag_wf (rest_of b r)" "fr_end (rest_of b r) = fr_end r" "fr_offset (rest_of b r) = b"
      "fr_byte (rest_of b r) = fr_byte r"
      using rest_of [OF rw(1), of b] B by auto
    have 1: "flist_byte (inside b R) x = None" if "b \<le> x" using ie that by (rule flist_byte_before)
    have pb: "\<forall>f \<in> set P. b \<le> fr_offset f" using B rw G by force
    have 2: "flist_byte P x = None" if "x < b" using pb that by (rule flist_byte_after)
    have 3: "flist_byte R x = flist_byte P x" if "b \<le> x"
      using 1 [OF that] that B G by (subst RP) (auto simp: frag_covers_def)
    have 4: "\<forall>f \<in> set R. frag_covers f x \<longrightarrow> x < b \<longrightarrow> \<not> keeps_old pol a b f"
      using ki B rw by (subst RP) (force simp: frag_covers_def)
    have "\<forall>f \<in> set P. off \<le> fr_offset f" using B offs G by auto
    then show ?thesis using B rw G pb 2 3 4 by (auto simp: flist_wf_Cons)
  next
    case C
    have rw: "frag_wf r" "\<forall>g \<in> set P1. fr_end r \<le> fr_offset g" "flist_wf P1"
      using wi(2) C(1) by (auto simp: flist_wf_Cons)
    have ir: "\<forall>f \<in> set (inside b R). fr_end f \<le> fr_offset r" using wi(3) C(1) by simp
    have 1: "flist_byte (inside b R) x = None" if "fr_offset r \<le> x" using ir that by (rule flist_byte_before)
    have pb: "\<forall>f \<in> set P. fr_offset r \<le> fr_offset f" using C rw frag_wf_size [OF rw(1)] by force
    have 2: "flist_byte P x = None" if "x < fr_offset r" using pb that by (rule flist_byte_after)
    have 3: "flist_byte R x = flist_byte P x" if "fr_offset r \<le> x"
      using 1 [OF that] C by (subst RP) auto
    have 4: "\<forall>f \<in> set R. frag_covers f x \<longrightarrow> x < b \<longrightarrow> (keeps_old pol a b f \<longleftrightarrow> fr_offset r \<le> x)"
      using ki ir C rw by (subst RP) (force simp: frag_covers_def)
    have rin: "r \<in> set R" using C(1) by (subst RP) simp
    have "\<forall>f \<in> set P. off \<le> fr_offset f" using C offs by auto
    then show ?thesis using C rw pb 2 3 4 rin by (auto simp: flist_wf_Cons frag_covers_def)
  qed
  then show "flist_wf P" "\<forall>f \<in> set P. b - t \<le> fr_offset f \<and> off \<le> fr_offset f" "0 \<le> t"
    and "flist_byte P x = (if b - t \<le> x then flist_byte R x else None)"
    and "f \<in> set R \<Longrightarrow> frag_covers f x \<Longrightarrow> x < b \<Longrightarrow> keeps_old pol a b f \<longleftrightarrow> b - t \<le> x"
    and "b - t \<le> x \<Longrightarrow> x < b \<Longrightarrow> \<exists>f \<in> set R. frag_covers f x \<and> keeps_old pol a b f"
    by blast+
qed

lemma merged_list:
  assumes l: "left_ok pol a b L R L' R' off" and o: "right_ok pol a b R' P t"
    and f: "frag_wf f" "fr_offset f = off" "fr_end f = b - t" "\<forall>x. off \<le> x \<and> x < b - t \<longrightarrow> fr_byte f x = new x"
  shows "flist_wf (L' @ f # P)" "flist_byte (L' @ f # P) x = merge_byte pol a b new (L @ R) x"
proof -
  note O = l [unfolded left_ok_def]
  have w: "flist_wf L'" "flist_wf R'" "\<forall>g \<in> set R'. off \<le> fr_offset g" "a \<le> off" "\<forall>g \<in> set L'. fr_end g \<le> off"
    using O by (auto simp: flist_wf_append)
  note M = merge_right [OF w(2,3,4) o]
  have off: "off < b - t" using frag_wf_size [OF f(1)] f by simp
  show "flist_wf (L' @ f # P)"
    using w(1,5) M(1,2) f off by (fastforce simp: flist_wf_simps)
  have Lb: "flist_byte L' x = (if x < off then flist_byte L x else None)" using O by blast
  have fb: "flist_byte (L' @ f # P) x =
      (if x < off then flist_byte L x else if x < b - t then Some (new x) else flist_byte R' x)"
    using Lb M(4) [of x] f off by (auto simp: frag_covers_def)
  have R0: "flist_byte R x = None" if "x < off"
  proof -
    have "\<forall>g \<in> set R. off \<le> fr_offset g" 
    proof (cases "R' = R")
      case False
      then have "\<forall>g \<in> set R. b \<le> fr_offset g" using O by blast
      then show ?thesis using off M(3) by fastforce
    qed (use w(3) in simp)
    then show ?thesis using that by (rule flist_byte_after)
  qed
  have kR: "keeps_old pol a b g \<longleftrightarrow> b - t \<le> x" if "g \<in> set R" "frag_covers g x" "x < b" for g
    using O that M(5) [of g] by (auto simp: frag_covers_def)
  have kL: "keeps_old pol a b g \<longleftrightarrow> x < off" if "g \<in> set L" "frag_covers g x" "a \<le> x" "x < b" for g
    using O that by blast
  show "flist_byte (L' @ f # P) x = merge_byte pol a b new (L @ R) x"
  proof -
    consider "x < a" | "a \<le> x" "x < off" | "off \<le> x" "x < b - t" | "b - t \<le> x" "x < b" | "b \<le> x" by linarith
    then show ?thesis
    proof cases
      case 1
      then show ?thesis using fb R0 w(4) by (auto simp: merge_byte_def)
    next
      case 2
      then obtain g where "g \<in> set L" "frag_covers g x" "keeps_old pol a b g" using O by blast
      then show ?thesis using 2 fb R0 by (auto simp: merge_byte_def)
    next
      case 3
      then have "\<forall>g \<in> set (L @ R). frag_covers g x \<longrightarrow> \<not> keeps_old pol a b g"
        using kL [of _] kR [of _] w(4) M(3) by auto
      then show ?thesis using 3 fb w(4) M(3) by (simp add: merge_byte_def)
    next
      case 4
      obtain g where g: "g \<in> set R'" "frag_covers g x" "keeps_old pol a b g" using M(6) 4 by blast
      have "R' = R" using O g(1,2) 4(2) by (force simp: frag_covers_def)
      moreover have "flist_byte R' x = flist_byte (L @ R) x" using O g by (auto simp: frag_covers_def)
      ultimately show ?thesis using 4 fb g off by (auto simp: merge_byte_def)
    next
      case 5
      then have "flist_byte R' x = flist_byte (L @ R) x" using O by blast
      then show ?thesis using 5 fb off M(3) by (simp add: merge_byte_def)
    qed
  qed
qed

text \<open>Cutting invents no byte.\<close>

lemma cut_list:
  assumes l: "left_ok pol a b L R L' R' off" and o: "right_ok pol a b R' P t"
    and x: "flist_byte (L' @ P) x = Some v"
  shows "flist_byte (L @ R) x = Some v"
proof -
  note O = l [unfolded left_ok_def]
  have w: "flist_wf R'" "\<forall>g \<in> set R'. off \<le> fr_offset g" "a \<le> off"
    using O by (auto simp: flist_wf_append)
  show ?thesis
  proof (cases "flist_byte L' x")
    case (Some u)
    then have "flist_byte L x = Some v" using x O by (auto split: if_splits)
    then show ?thesis by simp
  next
    case None
    then have "flist_byte P x = Some v" using x by simp
    then have R': "flist_byte R' x = Some v" using merge_right(4) [OF w o, of x] by (simp split: if_splits)
    then obtain r where "r \<in> set R'" "frag_covers r x" by (metis flist_byte_None option.distinct(1))
    then show ?thesis using O R' by (auto simp: frag_covers_def)
  qed
qed

section \<open>One insertion\<close>

definition new_frag :: "insert_env \<Rightarrow> insert_state \<Rightarrow> bool \<Rightarrow> frag3_frag" where
  "new_frag e s lastfrag =
     \<lparr>fr_data = is_slide s, fr_size = ie_len e - is_slide s - is_trunc s, fr_offset = is_offset s,
      fr_fptr = pk_frag_start (ie_pkt e), fr_flen = ie_flen e, fr_ord = ft_ordinal (is_ft s), fr_last = lastfrag\<rparr>"

lemma AddFragNode_cases:
  assumes e: "env_ok e" and s: "0 \<le> is_slide s" "is_slide s < 65536" "0 \<le> is_trunc s" "is_trunc s < 65536"
    "- 32768 \<le> ie_len e - is_slide s - is_trunc s"
  shows "ie_len e - is_slide s - is_trunc s \<le> 0 \<and> AddFragNode e lastfrag s = Some (FRAG_INSERT_ANOMALY, s)
    \<or> (\<exists>s'. AddFragNode e lastfrag s = Some (FRAG_INSERT_FAILED, s') \<and> is_cur s' = is_cur s \<and> is_ft s' = is_ft s)
    \<or> (\<exists>s'. AddFragNode e lastfrag s = Some (FRAG_INSERT_OK, s') \<and> 0 < ie_len e - is_slide s - is_trunc s
        \<and> is_cur s' = Frag3FraglistAddNode (new_frag e s lastfrag) (is_cur s) \<and> ft_core (is_ft s') = ft_core (is_ft s)
        \<and> ft_bytes (is_ft s') = cu32 (ft_bytes (is_ft s) + fr_size (new_frag e s lastfrag)))"
proof -
  have n: "cu16 (is_slide s) = is_slide s" "cu16 (is_trunc s) = is_trunc s"
    "ci16 (ie_len e - is_slide s - is_trunc s) = ie_len e - is_slide s - is_trunc s"
    using e s by (simp_all add: env_ok_def)
  have fl: "\<not> ie_flen e < 0" "cu16 (ie_flen e) = ie_flen e" "nat (ie_flen e) = length (pk_frag_start (ie_pkt e))"
    using e by (auto simp: env_ok_def)
  show ?thesis
    by (cases "get_frag (ie_cfg e) (ie_key e) (ie_flen e) (is_st s)"; cases "fst (get_frag (ie_cfg e) (ie_key e) (ie_flen e) (is_st s))")
       (auto simp: AddFragNode_def Let_def n fl new_frag_def)
qed

lemma insert_finish_cases:
  assumes e: "env_ok e" and s: "0 \<le> is_slide s" "is_slide s < 65536" "0 \<le> is_trunc s" "is_trunc s < 65536"
    "- 32768 \<le> ie_len e - is_slide s - is_trunc s" "is_addthis s"
  shows "\<exists>r s'. insert_finish e s = Some (r, s')
    \<and> (r \<in> {FRAG_INSERT_OVERLAP_LIMIT, FRAG_INSERT_FAILED} \<and> is_cur s' = is_cur s \<and> is_ft s' = is_ft s
       \<or> r = FRAG_INSERT_ANOMALY \<and> ie_len e - is_slide s - is_trunc s \<le> 0 \<and> is_cur s' = is_cur s \<and> is_ft s' = is_ft s
       \<or> r = FRAG_INSERT_OK \<and> 0 < ie_len e - is_slide s - is_trunc s
         \<and> is_cur s' = Frag3FraglistAddNode (new_frag e s (ie_last e)) (is_cur s) \<and> ft_core (is_ft s') = ft_core (is_ft s)
         \<and> ft_bytes (is_ft s') = cu32 (ft_bytes (is_ft s) + fr_size (new_frag e s (ie_last e))))"
proof -
  define s1 where "s1 = s\<lparr>is_st := checkTinyFragments (ie_context e) (ie_pkt e)
                            (ie_len e - is_slide s - is_trunc s) (is_st s)\<rparr>"
  have f: "insert_finish e s = (if fx_overlap_limit (ie_context e) \<noteq> 0
         \<and> ft_overlap_count (is_ft s1) \<ge> fx_overlap_limit (ie_context e)
      then Some (FRAG_INSERT_OVERLAP_LIMIT,
                 s1\<lparr>is_st := frag3_event (ie_context e) FRAG3_EXCESSIVE_OVERLAP (is_st s1)\<rparr>)
      else AddFragNode e (ie_last e) s1)"
    using s(6) by (simp add: insert_finish_def s1_def)
  have eq: "new_frag e s1 b = new_frag e s b" "is_cur s1 = is_cur s" "is_ft s1 = is_ft s" for b
    by (simp_all add: s1_def new_frag_def)
  have "0 \<le> is_slide s1" "is_slide s1 < 65536" "0 \<le> is_trunc s1" "is_trunc s1 < 65536"
    "- 32768 \<le> ie_len e - is_slide s1 - is_trunc s1"
    using s by (simp_all add: s1_def)
  from AddFragNode_cases [OF e this, of "ie_last e"] show ?thesis
    using f eq by (auto simp: s1_def)
qed

text \<open>The result of an insertion into the fragments \<open>fs\<close>.\<close>

definition insert_ok :: "insert_env \<Rightarrow> frag_tracker \<Rightarrow> int \<Rightarrow> frag3_frag list \<Rightarrow> insert_ret \<times> insert_state \<Rightarrow> bool" where
  "insert_ok e ft d fs x \<longleftrightarrow>
     (case x of (r, s') \<Rightarrow>
        flist_wf (cursor_list (is_cur s')) \<and> ft_bytes (is_ft s') = flist_size (cursor_list (is_cur s')) + d
        \<and> rejected ft r (is_ft s') \<and> (r = FRAG_INSERT_OK \<longrightarrow> ft_core (is_ft s') = ft_core ft)
        \<and> (r = FRAG_INSERT_OK \<longrightarrow> (\<forall>x. flist_byte (cursor_list (is_cur s')) x =
             merge_byte (ft_policy ft) (ie_start e) (ie_end e)
               (\<lambda>x. pk_frag_start (ie_pkt e) ! nat (x - ie_start e)) fs x))
        \<and> (r \<in> {FRAG_INSERT_ANOMALY, FRAG_INSERT_ATTACK} \<longrightarrow>
             (\<forall>x. flist_byte (cursor_list (is_cur s')) x = flist_byte fs x))
        \<and> (\<forall>x v. r \<noteq> FRAG_INSERT_OK \<and> flist_byte (cursor_list (is_cur s')) x = Some v \<longrightarrow> flist_byte fs x = Some v)
        \<and> (r = FRAG_INSERT_ANOMALY \<and> ft_policy ft \<noteq> FRAG_POLICY_BSD \<longrightarrow>
             (\<forall>x. ie_start e \<le> x \<and> x < ie_end e \<longrightarrow> flist_byte fs x \<noteq> None)))"

lemma insert_okD:
  assumes "insert_ok e ft d fs (r, s')"
  shows "flist_wf (cursor_list (is_cur s'))" "ft_bytes (is_ft s') = flist_size (cursor_list (is_cur s')) + d"
    "rejected ft r (is_ft s')" "r = FRAG_INSERT_OK \<Longrightarrow> ft_core (is_ft s') = ft_core ft"
    "r = FRAG_INSERT_OK \<Longrightarrow> flist_byte (cursor_list (is_cur s')) x =
       merge_byte (ft_policy ft) (ie_start e) (ie_end e) (\<lambda>x. pk_frag_start (ie_pkt e) ! nat (x - ie_start e)) fs x"
    "r \<in> {FRAG_INSERT_ANOMALY, FRAG_INSERT_ATTACK} \<Longrightarrow> flist_byte (cursor_list (is_cur s')) x = flist_byte fs x"
    "r \<noteq> FRAG_INSERT_OK \<Longrightarrow> flist_byte (cursor_list (is_cur s')) x = Some v \<Longrightarrow> flist_byte fs x = Some v"
    "r = FRAG_INSERT_ANOMALY \<Longrightarrow> ft_policy ft \<noteq> FRAG_POLICY_BSD \<Longrightarrow> ie_start e \<le> x \<Longrightarrow> x < ie_end e \<Longrightarrow>
       flist_byte fs x \<noteq> None"
  using assms unfolding insert_ok_def prod.case by blast+

lemma new_frag_props:
  assumes "env_ok e" "is_slide s = is_offset s - ie_start e" "0 \<le> is_slide s" "0 \<le> is_trunc s"
    "0 < ie_len e - is_slide s - is_trunc s"
  shows "frag_wf (new_frag e s b)" "fr_offset (new_frag e s b) = is_offset s"
    "fr_end (new_frag e s b) = ie_end e - is_trunc s"
    "fr_size (new_frag e s b) = ie_len e - is_slide s - is_trunc s"
    "\<forall>x. is_offset s \<le> x \<and> x < ie_end e - is_trunc s \<longrightarrow>
       fr_byte (new_frag e s b) x = pk_frag_start (ie_pkt e) ! nat (x - ie_start e)"
proof -
  show "frag_wf (new_frag e s b)" "fr_offset (new_frag e s b) = is_offset s"
    "fr_end (new_frag e s b) = ie_end e - is_trunc s"
    "fr_size (new_frag e s b) = ie_len e - is_slide s - is_trunc s"
    using assms by (auto simp: new_frag_def env_ok_def ie_start_def frag_wf_def fr_end_def)
  have "is_slide s + (x - is_offset s) = x - ie_start e" for x using assms(2) by simp
  then show "\<forall>x. is_offset s \<le> x \<and> x < ie_end e - is_trunc s \<longrightarrow>
       fr_byte (new_frag e s b) x = pk_frag_start (ie_pkt e) ! nat (x - ie_start e)"
    by (auto simp only: new_frag_def fr_byte_def frag3_frag.simps)
qed

lemma rejected_same: "ft_core (is_ft s) = ft_core ft \<Longrightarrow> rejected ft r (is_ft s)"
  by (simp add: rejected_def)

text \<open>A fragment of which nothing is left changed nothing.\<close>

lemma nothing_left:
  assumes l: "left_ok pol a b L R L' R' off" and o: "right_ok pol a b R' P t" and n: "b - t \<le> off" "a < b"
  shows "L' @ P = L @ R"
proof -
  note O = l [unfolded left_ok_def]
  have R'P: "R' = inside b R' @ beyond b R'" by (rule inside_beyond)
  have offs: "\<forall>f \<in> set R'. off \<le> fr_offset f \<and> fr_offset f < fr_end f"
    using O by (auto simp: flist_wf_append flist_wf_def frag_wf_size)
  have wR: "flist_wf R'" using O by (simp add: flist_wf_append)
  have i: "inside b R' = []"
  proof (cases "b \<le> off")
    case True
    then have "\<forall>f \<in> set R'. b \<le> fr_offset f" using offs by force
    with wR show ?thesis by (rule inside_none)
  next
    case False
    then obtain r P1 where "beyond b R' = r # P1" "t = b - fr_offset r"
      using o n unfolding right_ok_def by auto
    then show ?thesis using inside_empty [OF wR, of off b] offs n by auto
  qed
  then have b: "beyond b R' = R'" using R'P by simp
  from o show ?thesis
    unfolding right_ok_def
  proof (elim conjE disjE exE)
    assume "t = 0" "P = beyond b R'"
    then show ?thesis using O n b by auto
  next
    fix r P1 assume r: "beyond b R' = r # P1" "fr_offset r < b" "t = 0"
    then show ?thesis using offs n b by auto
  next
    fix r P1 assume r: "beyond b R' = r # P1" "t = b - fr_offset r" "P = r # P1"
    then have "r \<in> set R'" "fr_offset r \<le> off" using b n by auto
    then have "L' = L \<and> R' = R" using O by fastforce
    then show ?thesis using r b by simp
  qed
qed

lemma nothing_left_covered:
  assumes l: "left_ok pol a b L R L' R' off" and o: "right_ok pol a b R' P t" and n: "b - t \<le> off"
    and x: "a \<le> x" "x < b"
  shows "flist_byte (L @ R) x \<noteq> None"
proof -
  note O = l [unfolded left_ok_def]
  have w: "flist_wf R'" "\<forall>g \<in> set R'. off \<le> fr_offset g" "a \<le> off"
    using O by (auto simp: flist_wf_append)
  show ?thesis
  proof (cases "x < off")
    case True
    then obtain f where "f \<in> set L" "frag_covers f x" using O x(1) by blast
    then show ?thesis by (auto simp: flist_byte_None)
  next
    case False
    then obtain f where f: "f \<in> set R'" "frag_covers f x" using merge_right(6) [OF w o, of x] n x by auto
    then have "flist_byte R' x \<noteq> None" by (auto simp: flist_byte_None)
    moreover have "flist_byte R' x = flist_byte (L @ R) x" using O f by (auto simp: frag_covers_def)
    ultimately show ?thesis by simp
  qed
qed

text \<open>The policies decide as \<open>keeps_old\<close> says.\<close>

lemma keeps_inside:
  "drops_inside pol off b R \<Longrightarrow> \<forall>f \<in> set R. a \<le> fr_offset f \<Longrightarrow> f \<in> set (inside b R) \<Longrightarrow> \<not> keeps_old pol a b f"
  by (fastforce simp: inside_def drops_inside_def keeps_old_def dest!: set_takeWhileD)

lemma keeps_partial:
  assumes "a \<le> fr_offset r" "b < fr_end r"
  shows "keeps_old pol a b r \<longleftrightarrow> pol \<notin> {FRAG_POLICY_LAST, FRAG_POLICY_LINUX, FRAG_POLICY_BSD}"
  using assms by (cases pol) (auto simp: keeps_old_def)

lemma one_piece_drops:
  assumes l: "left_ok pol a b L R L' R' off" and p: "one_piece pol a b (L @ R)"
  shows "drops_inside pol off b R'"
  unfolding drops_inside_def
proof (intro ballI impI)
  fix f assume f: "f \<in> set R'" "fr_end f \<le> b"
  note O = l [unfolded left_ok_def]
  have fo: "off \<le> fr_offset f" "fr_offset f < fr_end f" "a \<le> off"
    using O f by (auto simp: flist_wf_append flist_wf_def frag_wf_size)
  then have "R' = R" using O f by force
  then have fR: "f \<in> set (L @ R)" using f by simp
  have "off < fr_offset f" if pol: "pol \<in> {FRAG_POLICY_BSD, FRAG_POLICY_SOLARIS}" "a < fr_offset f"
  proof (rule ccontr)
    assume "\<not> off < fr_offset f"
    then have eq: "fr_offset f = off" using fo by simp
    then obtain l where "l \<in> set L" "fr_end l = off" "fr_offset l < a" "a < fr_end l" using O pol(2) by blast
    then have "b \<le> fr_offset f" using p pol(1) fR eq by (force simp: one_piece_def)
    then show False using fo f by simp
  qed
  then show "pol \<in> {FRAG_POLICY_LAST, FRAG_POLICY_LINUX, FRAG_POLICY_BSD_RIGHT}
        \<or> pol \<in> {FRAG_POLICY_BSD, FRAG_POLICY_SOLARIS} \<and> off < fr_offset f"
  proof -
    have "a \<le> fr_offset f" using fo by simp
    then have "pol \<in> {FRAG_POLICY_LAST, FRAG_POLICY_LINUX, FRAG_POLICY_BSD_RIGHT}
        \<or> pol \<in> {FRAG_POLICY_BSD, FRAG_POLICY_SOLARIS} \<and> a < fr_offset f"
      using p fR f(2) unfolding one_piece_def by blast
    then show ?thesis using \<open>pol \<in> {FRAG_POLICY_BSD, FRAG_POLICY_SOLARIS} \<Longrightarrow> a < fr_offset f \<Longrightarrow> off < fr_offset f\<close> by blast
  qed
qed

lemma one_piece_partial:
  assumes l: "left_ok pol a b L R L' R' off" and p: "one_piece pol a b (L @ R)"
    and r: "r \<in> set R'" "fr_offset r = off" "off < b" "pol = FRAG_POLICY_BSD"
  shows "off = a"
proof (rule ccontr)
  note O = l [unfolded left_ok_def]
  assume "off \<noteq> a"
  then obtain l where "l \<in> set L" "fr_end l = off" "fr_offset l < a" "a < fr_end l" "R' = R" using O by blast
  then have "b \<le> fr_offset r" using p r by (force simp: one_piece_def)
  then show False using r by simp
qed

text \<open>The states the loop can end in.\<close>

lemma right_done:
  assumes e: "env_ok e" and i: "ins_start e ft d L R s0" and l: "left_done e ft d L R s"
    and p: "one_piece (ft_policy ft) (ie_start e) (ie_end e) (L @ R)" and td: "\<not> teardrop e s"
  shows "\<exists>s2 P. right_loop (Suc (length (fc_right (is_cur s)))) e s = Some (Inr s2)
    \<and> is_cur s2 = \<lparr>fc_left = fc_left (is_cur s), fc_mid = [], fc_right = P\<rparr> \<and> ft_core (is_ft s2) = ft_core ft
    \<and> ft_bytes (is_ft s2) = flist_size (fc_left (is_cur s) @ P) + d \<and> is_addthis s2
    \<and> (is_offset s2 = is_offset s \<and> is_slide s2 = is_slide s
         \<and> right_ok (ft_policy ft) (ie_start e) (ie_end e) (fc_right (is_cur s)) P (is_trunc s2)
       \<or> fc_left (is_cur s) @ P = L @ R \<and> is_trunc s2 = 0 \<and> ie_len e < is_slide s2 \<and> is_slide s2 < 32768
         \<and> ft_policy ft = FRAG_POLICY_BSD)"
proof -
  define L' R' a b off pol where "L' = fc_left (is_cur s)" "R' = fc_right (is_cur s)" "a = ie_start e"
    "b = ie_end e" "off = is_offset s" "pol = ft_policy ft"
  note defs = L'_R'_a_b_off_pol_def
  have ok: "left_ok pol a b L R L' R' off" using l by (simp add: left_done_def defs)
  note O = ok [unfolded left_ok_def]
  have D: "fc_mid (is_cur s) = []" "is_slide s = off - a" "is_trunc s = 0" "is_addthis s"
    "ft_core (is_ft s) = ft_core ft" "ft_bytes (is_ft s) = flist_size (L' @ R') + d" "0 \<le> d" "d < 65536"
    using l i by (auto simp: left_done_def ins_start_def defs)
  have ab: "0 \<le> a" "a < b" "b \<le> 65535" "b - a < 32768" "ie_len e = b - a"
    using e by (auto simp: env_ok_def ie_start_def defs)
  have pol: "ft_policy (is_ft s) = pol" using ft_core_fields [OF D(5)] by (simp add: defs)
  have w: "flist_wf L'" "flist_wf R'" "\<forall>f \<in> set R'. off \<le> fr_offset f" "a \<le> off"
    using O by (auto simp: flist_wf_append)
  have szL: "0 \<le> flist_size L'" "flist_size L' \<le> 65535" using flist_size_max [OF w(1)] by auto
  have di: "drops_inside pol off b R'" using one_piece_drops [OF ok] p by (simp add: defs)
  have aR: "\<forall>f \<in> set R'. a \<le> fr_offset f" using w by force
  have kin: "\<forall>f \<in> set (inside b R'). \<not> keeps_old pol a b f" using keeps_inside [OF di aR] by blast
  have "\<exists>s1. same_place s s1 \<and> fc_right (is_cur s1) = beyond b R' \<and> is_trunc s1 = 0
    \<and> ft_bytes (is_ft s1) = (flist_size L' + d) + flist_size (beyond b R')
    \<and> right_loop (Suc (length R')) e s = Some (Inr
        (case beyond b R' of
           [] \<Rightarrow> s1
         | r # _ \<Rightarrow> if fr_offset r < b then right_partial e r (b - fr_offset r) s1 else s1))"
    unfolding defs(4)
    by (rule right_loop_cases) (use td w di D szL ab pol in \<open>simp_all add: defs\<close>)
  then obtain s1 where s1: "same_place s s1" "fc_right (is_cur s1) = beyond b R'" "is_trunc s1 = 0"
    "ft_bytes (is_ft s1) = (flist_size L' + d) + flist_size (beyond b R')"
    "right_loop (Suc (length R')) e s = Some (Inr
        (case beyond b R' of
           [] \<Rightarrow> s1
         | r # _ \<Rightarrow> if fr_offset r < b then right_partial e r (b - fr_offset r) s1 else s1))"
    by blast
  have c1: "is_cur s1 = \<lparr>fc_left = L', fc_mid = [], fc_right = beyond b R'\<rparr>" "is_offset s1 = off"
    "is_slide s1 = off - a" "is_addthis s1" "ft_core (is_ft s1) = ft_core ft"
    using s1 D by (cases "is_cur s1"; simp add: same_place_def defs)+
  have pol1: "ft_policy (is_ft s1) = pol" using ft_core_fields [OF c1(5)] by (simp add: defs)
  have wb: "flist_wf (beyond b R')" using w(2) by (subst (asm) inside_beyond [of R' b]) (simp add: flist_wf_append)
  show ?thesis
  proof (cases "beyond b R' = [] \<or> b \<le> fr_offset (hd (beyond b R'))")
    case True
    have "\<forall>f \<in> set (beyond b R'). b \<le> fr_offset f"
      using True wb by (cases "beyond b R'") (force simp: flist_wf_Cons dest!: frag_wf_size)+
    then have "right_ok pol a b R' (beyond b R') 0" using kin by (simp add: right_ok_def)
    moreover have "right_loop (Suc (length R')) e s = Some (Inr s1)"
      using s1(5) True by (cases "beyond b R'") auto
    ultimately show ?thesis using s1 c1 D by (auto simp: defs simp del: right_loop.simps)
  next
    case False
    then obtain r P1 where r: "beyond b R' = r # P1" "fr_offset r < b" by (cases "beyond b R'") auto
    have rR: "r \<in> set R'" using r(1) by (subst inside_beyond [of R' b]) simp
    have re: "b < fr_end r" using r(1) unfolding beyond_def dropWhile_eq_Cons_conv by simp
    have rw: "frag_wf r" "off \<le> fr_offset r" using wb r rR w(3) by (auto simp: flist_wf_Cons)
    have B: "ft_bytes (is_ft s1) = (flist_size L' + d) + flist_size (r # P1)" using s1(4) r by simp
    define s2 where "s2 = right_partial e r (b - fr_offset r) s1"
    have loop: "right_loop (Suc (length R')) e s = Some (Inr s2)" using s1(5) r by (simp add: s2_def)
    note PC = right_partial_cases [OF rw(1) r(2) re, of s1 P1 "flist_size L' + d" e, folded s2_def,
        unfolded pol1 c1(2)]
    have pre: "off \<le> fr_offset r" "0 \<le> off" "b - off < 32768" "fc_right (is_cur s1) = r # P1"
        "0 \<le> flist_size L' + d" "flist_size L' + d < 1000000" "flist_wf (r # P1)"
      using rw w ab szL D s1 r wb by auto
    note PC = PC [OF pre(1-4) B pre(5-7) s1(3)]
    have keep: "keeps_old pol a b r \<longleftrightarrow> pol \<notin> {FRAG_POLICY_LAST, FRAG_POLICY_LINUX, FRAG_POLICY_BSD}"
      using keeps_partial [of a r b pol] rw w re by simp
    consider (skip) "pol = FRAG_POLICY_BSD" "fr_offset r = off"
      | (cut) "pol \<in> {FRAG_POLICY_LAST, FRAG_POLICY_LINUX, FRAG_POLICY_BSD}" "\<not> (pol = FRAG_POLICY_BSD \<and> fr_offset r = off)"
      | (trunc) "pol \<notin> {FRAG_POLICY_LAST, FRAG_POLICY_LINUX, FRAG_POLICY_BSD}" by blast
    then show ?thesis
    proof cases
      case skip
      have oa: "off = a" using one_piece_partial [OF ok] p rR skip r by (simp add: defs)
      note S = PC(1) [OF skip]
      have "inside b R' = []" using inside_empty [OF w(2,3) r(1)] skip by simp
      then have RP: "R' = r # P1" using inside_beyond [of R' b] r by simp
      have "L' = L \<and> R' = R" using O rR skip oa by fastforce
      then show ?thesis using S loop c1 B RP skip oa re ab rw(1) r
        by (auto simp: defs frag_wf_def fr_end_def simp del: right_loop.simps)
    next
      case cut
      note S = PC(2) [OF cut]
      have "right_ok pol a b R' (rest_of b r # P1) 0"
        using kin r re keep cut by (simp add: right_ok_def)
      moreover have "is_cur s2 = \<lparr>fc_left = L', fc_mid = [], fc_right = rest_of b r # P1\<rparr>"
        using S c1 by (cases "is_cur s2") (simp add: same_place_def)
      ultimately show ?thesis using S loop c1 D(2) by (auto simp: same_place_def defs simp del: right_loop.simps)
    next
      case trunc
      note S = PC(3) [OF trunc]
      have "right_ok pol a b R' (r # P1) (b - fr_offset r)"
        using kin r re keep trunc by (simp add: right_ok_def)
      moreover have "is_cur s2 = \<lparr>fc_left = L', fc_mid = [], fc_right = r # P1\<rparr>"
        using S c1 by (cases "is_cur s2") (simp add: same_place_def)
      ultimately show ?thesis using S loop c1 D(2) by (auto simp: same_place_def defs simp del: right_loop.simps)
    qed
  qed
qed

lemma right_loop_attack:
  assumes e: "env_ok e" and td: "teardrop e s" and w: "flist_wf (fc_right (is_cur s))"
  shows "(right_loop (Suc n) e s = Some (Inl (FRAG_INSERT_ATTACK, attack e (s\<lparr>is_trunc := 0\<rparr>))))
    \<or> (right_loop (Suc n) e s = Some (Inr s) \<and> (\<forall>f \<in> set (fc_right (is_cur s)). ie_end e \<le> fr_offset f))"
proof (cases "fc_right (is_cur s)")
  case (Cons r R)
  have r: "0 \<le> fr_offset r" "0 < fr_size r" "fr_end r \<le> 65535" "\<forall>f \<in> set R. fr_end r \<le> fr_offset f" "fr_offset r < fr_end r"
    using w Cons frag_wf_size [of r] by (auto simp: flist_wf_Cons frag_wf_def)
  have t: "teardrop e (s\<lparr>is_trunc := 0\<rparr>)" using td teardrop_core [of "s\<lparr>is_trunc := 0\<rparr>" s e] by simp
  have "0 \<le> ie_end e" "ie_end e \<le> 65535" using e by (auto simp: env_ok_def ie_start_def)
  then show ?thesis
    using Cons r t by (cases "fr_offset r < ie_end e") (force simp: cur_right_def right_step_def Let_def)+
qed (simp add: cur_right_def)

lemma finish_ok:
  assumes e: "env_ok e" and ok: "left_ok (ft_policy ft) (ie_start e) (ie_end e) L R L' R' off"
    and w: "flist_wf (L @ R)"
    and c: "is_cur s = \<lparr>fc_left = L', fc_mid = [], fc_right = P\<rparr>" and core: "ft_core (is_ft s) = ft_core ft"
    and B: "ft_bytes (is_ft s) = flist_size (L' @ P) + d" and at: "is_addthis s" and d: "0 \<le> d" "d < 65536"
    and o: "is_offset s = off \<and> is_slide s = off - ie_start e
         \<and> right_ok (ft_policy ft) (ie_start e) (ie_end e) R' P (is_trunc s)
       \<or> L' @ P = L @ R \<and> is_trunc s = 0 \<and> ie_len e < is_slide s \<and> is_slide s < 32768 \<and> ft_policy ft = FRAG_POLICY_BSD"
  shows "\<exists>x. insert_finish e s = Some x \<and> insert_ok e ft d (L @ R) x"
proof -
  define a b where "a = ie_start e" "b = ie_end e"
  have ab: "0 \<le> a" "a < b" "b \<le> 65535" "b - a < 32768" "ie_len e = b - a"
    using e by (auto simp: env_ok_def ie_start_def a_b_def)
  have O: "a \<le> off" "off \<le> b" "flist_wf L'" "flist_wf R'" "\<forall>f \<in> set R'. off \<le> fr_offset f" "\<forall>f \<in> set L'. fr_end f \<le> off"
    using ok by (auto simp: left_ok_def flist_wf_append a_b_def)
  have rng: "0 \<le> is_slide s \<and> is_slide s < 65536 \<and> 0 \<le> is_trunc s \<and> is_trunc s < 65536
      \<and> - 32768 \<le> ie_len e - is_slide s - is_trunc s"
    using o
  proof
    assume r: "is_offset s = off \<and> is_slide s = off - ie_start e
         \<and> right_ok (ft_policy ft) (ie_start e) (ie_end e) R' P (is_trunc s)"
    have "0 \<le> is_trunc s \<and> is_trunc s \<le> b - off"
    proof (cases "is_trunc s = 0")
      case False
      then obtain r P1 where "beyond b R' = r # P1" "is_trunc s = b - fr_offset r" "fr_offset r < b"
        using r by (auto simp: right_ok_def a_b_def)
      moreover have "r \<in> set R'" using calculation(1) inside_beyond [of R' b] by (metis in_set_conv_decomp)
      ultimately show ?thesis using O by auto
    qed (use O in auto)
    then show ?thesis using r ab O by (auto simp: a_b_def)
  qed (use ab in auto)
  have wP: "flist_wf (L' @ P)"
    using o
  proof
    assume r: "is_offset s = off \<and> is_slide s = off - ie_start e
         \<and> right_ok (ft_policy ft) (ie_start e) (ie_end e) R' P (is_trunc s)"
    show ?thesis using merge_right(1,2) [OF O(4,5,1) r [unfolded a_b_def [symmetric], THEN conjunct2, THEN conjunct2]] O
      by (fastforce simp: flist_wf_append)
  qed (use w in simp)
  have cl: "cursor_list (is_cur s) = L' @ P" using c by (simp add: cursor_list_def)
  have cut: "flist_byte (L @ R) x = Some v" if "flist_byte (L' @ P) x = Some v" for x v
    using o that cut_list [OF ok, of P "is_trunc s" x v] by (auto simp del: flist_byte_append)
  obtain r s' where f: "insert_finish e s = Some (r, s')" and
    cases: "r \<in> {FRAG_INSERT_OVERLAP_LIMIT, FRAG_INSERT_FAILED} \<and> is_cur s' = is_cur s \<and> is_ft s' = is_ft s
       \<or> r = FRAG_INSERT_ANOMALY \<and> ie_len e - is_slide s - is_trunc s \<le> 0 \<and> is_cur s' = is_cur s \<and> is_ft s' = is_ft s
       \<or> r = FRAG_INSERT_OK \<and> 0 < ie_len e - is_slide s - is_trunc s
         \<and> is_cur s' = Frag3FraglistAddNode (new_frag e s (ie_last e)) (is_cur s) \<and> ft_core (is_ft s') = ft_core (is_ft s)
         \<and> ft_bytes (is_ft s') = cu32 (ft_bytes (is_ft s) + fr_size (new_frag e s (ie_last e)))"
    using insert_finish_cases [OF e] rng at by blast
  from cases have "insert_ok e ft d (L @ R) (r, s')"
  proof (elim disjE conjE)
    assume "r = FRAG_INSERT_ANOMALY" "ie_len e - is_slide s - is_trunc s \<le> 0" "is_cur s' = is_cur s" "is_ft s' = is_ft s"
    moreover have "L' @ P = L @ R"
      using o nothing_left [OF ok, of P "is_trunc s"] calculation(2) ab by (auto simp: a_b_def)
    moreover have "flist_byte (L @ R) x \<noteq> None"
      if "ft_policy ft \<noteq> FRAG_POLICY_BSD" "ie_start e \<le> x" "x < ie_end e" for x
      using o nothing_left_covered [OF ok, of P "is_trunc s" x] calculation(2) ab that by (auto simp: a_b_def)
    ultimately show ?thesis using core B cl w rejected_same [OF core]
      by (simp add: insert_ok_def del: flist_byte_append)
  next
    assume r: "r = FRAG_INSERT_OK" "0 < ie_len e - is_slide s - is_trunc s"
      "is_cur s' = Frag3FraglistAddNode (new_frag e s (ie_last e)) (is_cur s)" "ft_core (is_ft s') = ft_core (is_ft s)"
      "ft_bytes (is_ft s') = cu32 (ft_bytes (is_ft s) + fr_size (new_frag e s (ie_last e)))"
    have R: "is_offset s = off" "is_slide s = off - ie_start e"
      "right_ok (ft_policy ft) (ie_start e) (ie_end e) R' P (is_trunc s)"
      using o r(2) by auto
    let ?f = "new_frag e s (ie_last e)"
    note N = new_frag_props [OF e _ _ _ r(2), of "ie_last e"]
    have N': "frag_wf ?f" "fr_offset ?f = off" "fr_end ?f = ie_end e - is_trunc s"
      "\<forall>x. off \<le> x \<and> x < ie_end e - is_trunc s \<longrightarrow> fr_byte ?f x = pk_frag_start (ie_pkt e) ! nat (x - ie_start e)"
      using N R rng by auto
    note M = merged_list [OF ok R(3) N']
    have cl': "cursor_list (is_cur s') = L' @ ?f # P" using r(3) c by (simp add: cursor_list_def Frag3FraglistAddNode_def)
    have "0 \<le> flist_size (L' @ P) \<and> flist_size (L' @ P) \<le> 65535" "0 < fr_size ?f" "fr_size ?f < 32768"
      using flist_size_max [OF wP] N'(1) by (auto simp: frag_wf_def)
    then have "ft_bytes (is_ft s') = flist_size (L' @ ?f # P) + d" using r(5) B d by simp
    then show ?thesis using r core cl' M rejected_same [of s' ft r] by (simp add: insert_ok_def)
  next
    assume "r \<in> {FRAG_INSERT_OVERLAP_LIMIT, FRAG_INSERT_FAILED}" "is_cur s' = is_cur s" "is_ft s' = is_ft s"
    moreover have "\<forall>x v. flist_byte (L' @ P) x = Some v \<longrightarrow> flist_byte (L @ R) x = Some v" using cut by blast
    ultimately show ?thesis using wP cl B core rejected_same [OF core]
      by (auto simp: insert_ok_def simp del: flist_byte_append)
  qed
  then show ?thesis using f by blast
qed

text \<open>The central fact: one insertion.\<close>

lemma insert_body_correct:
  assumes e: "env_ok e" and w: "flist_wf (ft_fraglist ft)"
    and B: "ft_bytes ft = flist_size (ft_fraglist ft) + d" "0 \<le> d" "d < 65536"
    and p: "one_piece (ft_policy ft) (ie_start e) (ie_end e) (ft_fraglist ft)"
  shows "\<exists>x. insert_body e (ie_start e) ft st = Some x \<and> insert_ok e ft d (ft_fraglist ft) x"
proof -
  define L where "L = takeWhile (\<lambda>f. fr_offset f < ie_start e) (ft_fraglist ft)"
  define R where "R = dropWhile (\<lambda>f. fr_offset f < ie_start e) (ft_fraglist ft)"
  have LR: "ft_fraglist ft = L @ R" by (simp add: L_def R_def)
  define s where "s = \<lparr>is_st = st, is_ft = ft, is_cur = \<lparr>fc_left = L, fc_mid = [], fc_right = R\<rparr>,
               is_offset = ie_start e, is_slide = 0, is_trunc = 0, is_alerted = False, is_addthis = True\<rparr>"
  have "\<forall>f \<in> set R. ie_start e \<le> fr_offset f"
  proof (cases R)
    case (Cons r R1)
    then have "ie_start e \<le> fr_offset r" unfolding R_def dropWhile_eq_Cons_conv by simp
    moreover have "frag_wf r" "\<forall>f \<in> set R1. fr_end r \<le> fr_offset f" using w LR Cons by (auto simp: flist_wf_simps)
    ultimately show ?thesis using Cons frag_wf_size by force
  qed simp
  moreover have "\<forall>f \<in> set L. fr_offset f < ie_start e" by (auto simp: L_def dest: set_takeWhileD)
  ultimately have i: "ins_start e ft d L R s" using w LR B by (simp add: ins_start_def s_def)
  have p': "one_piece (ft_policy ft) (ie_start e) (ie_end e) (L @ R)" using p LR by simp
  have body: "insert_body e (ie_start e) ft st =
      (case left_overlap e s of
        Inl x \<Rightarrow> Some x
      | Inr s1 \<Rightarrow> (case right_loop (Suc (length (fc_right (is_cur s1)))) e s1 of
                  None \<Rightarrow> None
                | Some (Inl x) \<Rightarrow> Some x
                | Some (Inr s2) \<Rightarrow> insert_finish e s2))"
    using e by (auto simp: insert_body_def Let_def s_def L_def R_def env_ok_def split: sum.split)
  have same: "insert_ok e ft d (ft_fraglist ft) (r, s')"
    if "cursor_list (is_cur s') = L @ R" "ft_bytes (is_ft s') = ft_bytes ft" "rejected ft r (is_ft s')" "r \<noteq> FRAG_INSERT_OK"
      "r = FRAG_INSERT_ANOMALY \<longrightarrow> (\<forall>x. ie_start e \<le> x \<and> x < ie_end e \<longrightarrow> flist_byte (L @ R) x \<noteq> None)" for r s'
    using that w LR B by (simp add: insert_ok_def del: flist_byte_append)
  from left_overlap_cases [OF e i] show ?thesis
  proof (elim disjE exE conjE)
    fix r s' assume "left_overlap e s = Inl (r, s')" "is_cur s' = is_cur s" "ft_bytes (is_ft s') = ft_bytes (is_ft s)"
      "rejected ft r (is_ft s')" "r \<in> {FRAG_INSERT_ANOMALY, FRAG_INSERT_ATTACK, FRAG_INSERT_FAILED}"
      "r = FRAG_INSERT_ANOMALY \<longrightarrow> (\<forall>x. ie_start e \<le> x \<and> x < ie_end e \<longrightarrow> flist_byte (L @ R) x \<noteq> None)"
    then show ?thesis using body same [of s' r] by (auto simp: s_def cursor_list_def simp del: flist_byte_append)
  next
    fix s1 assume s1: "left_overlap e s = Inr s1" "left_done e ft d L R s1" "teardrop e s1 \<longrightarrow> is_cur s1 = is_cur s"
    have core1: "ft_core (is_ft s1) = ft_core ft" using s1(2) by (simp add: left_done_def)
    have ok: "left_ok (ft_policy ft) (ie_start e) (ie_end e) L R (fc_left (is_cur s1)) (fc_right (is_cur s1)) (is_offset s1)"
      using s1(2) by (simp add: left_done_def)
    have sl: "is_slide s1 = is_offset s1 - ie_start e" using s1(2) by (simp add: left_done_def)
    have finish: ?thesis
      if s2: "right_loop (Suc (length (fc_right (is_cur s1)))) e s1 = Some (Inr s2)"
        "is_cur s2 = \<lparr>fc_left = fc_left (is_cur s1), fc_mid = [], fc_right = P\<rparr>" "ft_core (is_ft s2) = ft_core ft"
        "ft_bytes (is_ft s2) = flist_size (fc_left (is_cur s1) @ P) + d" "is_addthis s2"
        "is_offset s2 = is_offset s1 \<and> is_slide s2 = is_slide s1
           \<and> right_ok (ft_policy ft) (ie_start e) (ie_end e) (fc_right (is_cur s1)) P (is_trunc s2)
         \<or> fc_left (is_cur s1) @ P = L @ R \<and> is_trunc s2 = 0 \<and> ie_len e < is_slide s2 \<and> is_slide s2 < 32768
           \<and> ft_policy ft = FRAG_POLICY_BSD" for s2 P
    proof -
      have "\<exists>x. insert_finish e s2 = Some x \<and> insert_ok e ft d (L @ R) x"
        using finish_ok [OF e ok w [unfolded LR] s2(2-5)] s2(6) B sl by simp
      then show ?thesis using body s1(1) s2(1) LR by (simp del: right_loop.simps)
    qed
    show ?thesis
    proof (cases "teardrop e s1")
      case False
      then show ?thesis using right_done [OF e i s1(2) p' False] finish by blast
    next
      case True
      then have c: "is_cur s1 = is_cur s" using s1(3) by simp
      have wR: "flist_wf (fc_right (is_cur s1))" using ok by (simp add: left_ok_def flist_wf_append)
      from right_loop_attack [OF e True wR, of "length (fc_right (is_cur s1))"] show ?thesis
      proof (elim disjE conjE)
        assume a: "right_loop (Suc (length (fc_right (is_cur s1)))) e s1 =
            Some (Inl (FRAG_INSERT_ATTACK, attack e (s1\<lparr>is_trunc := 0\<rparr>)))"
        have "rejected ft FRAG_INSERT_ATTACK (is_ft (attack e (s1\<lparr>is_trunc := 0\<rparr>)))"
          using core1 by (intro rejected_attack) simp
        moreover have "ft_bytes (is_ft s1) = ft_bytes ft"
          using s1(2) c w B LR by (simp add: left_done_def s_def)
        ultimately show ?thesis
          using a body s1(1) c same [of "attack e (s1\<lparr>is_trunc := 0\<rparr>)" FRAG_INSERT_ATTACK]
          by (simp add: cursor_list_def s_def del: right_loop.simps)
      next
        assume a: "right_loop (Suc (length (fc_right (is_cur s1)))) e s1 = Some (Inr s1)"
          "\<forall>f \<in> set (fc_right (is_cur s1)). ie_end e \<le> fr_offset f"
        have "inside (ie_end e) (fc_right (is_cur s1)) = []"
          using wR a(2) by (rule inside_none)
        then have "right_ok (ft_policy ft) (ie_start e) (ie_end e) (fc_right (is_cur s1)) (fc_right (is_cur s1)) 0"
          using inside_beyond [of "fc_right (is_cur s1)" "ie_end e"] a(2) by (simp add: right_ok_def)
        then show ?thesis using s1(2) a(1)
          by (intro finish [of s1 "fc_right (is_cur s1)"]) (auto simp: left_done_def simp del: right_loop.simps)
      qed
    qed
  qed
qed

end
