(* ===== verification/Frag3Defrag.thy ===== *)
theory Frag3Defrag
  imports Frag3Insert
begin

text \<open>
  The trackers of \<open>spp_frag3.c\<close>: lookup, creation, expiry, completion, the rebuilt datagram
  and the entry point \<open>Frag3Defrag\<close>.

  Parameters: the policy of the destination in the host table (\<open>host_policy\<close>), the answer
  of \<open>Active_PacketWasDropped\<close> at the end (\<open>verdict\<close>: given whether the packet was blocked
  before and the datagram that went through detection, if any), and the contents of the
  packet buffer the datagram is rebuilt in (\<open>buf\<close>), which are not cleared before.
\<close>

section \<open>Lookup\<close>

definition frag_key :: "frag_pkt \<Rightarrow> fragkey" where
  "frag_key p =
     \<lparr>fk_sip = pk_sip p, fk_dip = pk_dip p, fk_id = pk_id p,
      fk_vlan_tag = (case pk_vlan p of Some v \<Rightarrow> cu16 v | None \<Rightarrow> 0),
      fk_proto = (if pk_ip6 p then 0 else pk_proto p), fk_ipver = (if pk_ip6 p then 6 else 4)\<rparr>"

definition cache_write :: "fragkey \<Rightarrow> frag_tracker \<Rightarrow> frag3 \<Rightarrow> frag3" where
  "cache_write key t st =
     st\<lparr>f3_cache := List.map (\<lambda>e. if fst e = key then (key, t) else e) (f3_cache st)\<rparr>"

definition Frag3GetTracker :: "fragkey \<Rightarrow> frag3 \<Rightarrow> frag_tracker option \<times> frag3" where
  "Frag3GetTracker key st =
     (case map_of (f3_cache st) key of
        None \<Rightarrow> (None, st)
      | Some t \<Rightarrow>
          (Some t, st\<lparr>f3_cache := (key, t) # filter (\<lambda>e. fst e \<noteq> key) (f3_cache st)\<rparr>))"

text \<open>
  \<open>sfxhash_get_node\<close> for a key that is not in the table: a node kept for reuse, a new node, or
  the node of the least recently used tracker, whose fragments \<open>Frag3AutoFree\<close> frees.
\<close>

definition cache_get_node :: "frag3_config \<Rightarrow> fragkey \<Rightarrow> frag_tracker \<Rightarrow> frag3 \<Rightarrow> frag3 option" where
  "cache_get_node cfg key t st =
     (if length (f3_cache st) < f3_nodes st then Some (st\<lparr>f3_cache := (key, t) # f3_cache st\<rparr>)
      else if f3_nodes st < f3_max_nodes st
           then Some (st\<lparr>f3_nodes := f3_nodes st + 1, f3_cache := (key, t) # f3_cache st\<rparr>)
      else if f3_cache st = [] then None
      else (case Frag3DeleteTracker cfg (snd (last (f3_cache st))) st of
              (_, st1) \<Rightarrow> Some (st1\<lparr>f3_cache := (key, t) # butlast (f3_cache st)\<rparr>)))"

section \<open>New trackers\<close>

definition FragGetPolicy :: "(frag_pkt \<Rightarrow> frag_policy option) \<Rightarrow> frag_pkt \<Rightarrow> frag3_context \<Rightarrow> frag_policy" where
  "FragGetPolicy host_policy p context =
     (case host_policy p of Some pol \<Rightarrow> pol | None \<Rightarrow> fx_policy context)"

definition new_tracker ::
    "(frag_pkt \<Rightarrow> frag_policy option) \<Rightarrow> frag_pkt \<Rightarrow> fragkey \<Rightarrow> frag3_context \<Rightarrow> frag_tracker" where
  "new_tracker host_policy p key context =
     \<lparr>ft_sip = fk_sip key, ft_dip = fk_dip key, ft_id = fk_id key,
      ft_protocol = (if \<not> pk_ip6 p then fk_proto key else if pk_frag_offset p = 0 then pk_ip6f_nxt p else 0),
      ft_ipver = (if pk_ip6 p then 6 else 4), ft_ttl = pk_ttl p, ft_flags = 0, ft_bytes = 0,
      ft_calculated_size = 0, ft_pkts = 0, ft_time = pk_time p, ft_fraglist = [], ft_options_len = 0,
      ft_option_count = 0, ft_options_data = None, ft_copied_option_count = 0, ft_context = context,
      ft_ordinal = 0, ft_policy = FragGetPolicy host_policy p context, ft_overlap_count = 0\<rparr>"

text \<open>The first node of a tracker.\<close>

definition first_frag :: "frag_pkt \<Rightarrow> frag3_frag" where
  "first_frag p =
     (let offset = cu16 (push_bit 3 (pk_frag_offset p));
          frag_end = cu16 (offset + pk_frag_len p)
      in \<lparr>fr_data = 0,
          fr_size = (if pk_mf p then cu16 ((frag_end AND NOT 7) - offset) else pk_frag_len p),
          fr_offset = offset, fr_fptr = take (nat (pk_frag_len p)) (pk_frag_start p),
          fr_flen = pk_frag_len p, fr_ord = 0, fr_last = (\<not> pk_mf p)\<rparr>)"

text \<open>The part of \<open>Frag3NewTracker\<close> after the node of the first fragment was found.\<close>

definition start_tracker :: "frag3_context \<Rightarrow> frag_pkt \<Rightarrow> frag_tracker \<Rightarrow> frag3 \<Rightarrow> frag_tracker \<times> frag3" where
  "start_tracker context p t0 st =
     (let short = pk_mf p \<and> cu16 (push_bit 3 (pk_frag_offset p) + pk_frag_len p) AND 7 \<noteq> 0;
          t1 = t0\<lparr>ft_ordinal := ft_ordinal t0 + 1, ft_fraglist := [first_frag p], ft_pkts := 1\<rparr>;
          t2 = snd (Frag3CheckFirstLast p t1);
          t3 = t2\<lparr>ft_bytes := cu32 (ft_bytes t2 + pk_frag_len p)\<rparr>
      in Frag3HandleIPOptions p t3 (if short then frag3_event context FRAG3_SHORT_FRAG st else st))"

definition Frag3NewTracker ::
    "int \<Rightarrow> (frag_pkt \<Rightarrow> frag_policy option) \<Rightarrow> frag3_config \<Rightarrow> frag3_context \<Rightarrow> fragkey \<Rightarrow> frag_pkt \<Rightarrow> frag3 \<Rightarrow>
     bool \<times> frag3" where
  "Frag3NewTracker snaplen host_policy cfg context key p st =
     (if pk_frag_len p > snaplen then (False, st)
      else (let t = new_tracker host_policy p key context in
        case cache_get_node cfg key t st of
          None \<Rightarrow> (False, st)
        | Some st1 \<Rightarrow>
            (case get_frag cfg key (pk_frag_len p) st1 of
               (False, st2) \<Rightarrow> (False, st2)
             | (True, st2) \<Rightarrow>
                 (case start_tracker context p t st2 of
                    (t', st3) \<Rightarrow> (True, cache_write key t' st3)))))"

section \<open>Expiry\<close>

definition TIMERSUB :: "int \<times> int \<Rightarrow> int \<times> int \<Rightarrow> int \<times> int" where
  "TIMERSUB a b =
     (if snd a - snd b < 0 then (fst a - fst b - 1, snd a - snd b + 1000000)
      else (fst a - fst b, snd a - snd b))"

text \<open>\<open>CheckTimeout\<close>: true for \<open>FRAG_TIMEOUT\<close>.\<close>

definition CheckTimeout :: "int \<times> int \<Rightarrow> int \<times> int \<Rightarrow> frag3_context \<Rightarrow> bool" where
  "CheckTimeout current_time start_time context =
     (fst (TIMERSUB current_time start_time) \<ge> ci32 (fx_timeout context))"

text \<open>\<open>Frag3Expire\<close>, and what \<open>Frag3Defrag\<close> resets when the tracker timed out.\<close>

definition Frag3Expire ::
    "frag3_config \<Rightarrow> frag_pkt \<Rightarrow> frag_tracker \<Rightarrow> frag3_context \<Rightarrow> frag3 \<Rightarrow> bool \<times> frag_tracker \<times> frag3" where
  "Frag3Expire cfg p t context st =
     (if CheckTimeout (pk_time p) (ft_time t) context
      then (True, Frag3DeleteTracker cfg t st) else (False, t, st))"

definition reset_tracker :: "frag_pkt \<Rightarrow> frag3_context \<Rightarrow> frag_tracker \<Rightarrow> frag_tracker" where
  "reset_tracker p context t =
     t\<lparr>ft_ttl := pk_ttl p, ft_calculated_size := 0, ft_flags := 0, ft_bytes := 0, ft_pkts := 0,
       ft_options_len := 0, ft_option_count := 0, ft_options_data := None,
       ft_copied_option_count := 0, ft_context := context, ft_ordinal := 0\<rparr>"

section \<open>Completion and the rebuilt datagram\<close>

definition Frag3IsComplete :: "frag_tracker \<Rightarrow> bool" where
  "Frag3IsComplete t =
     (ft_flags t AND FRAG_GOT_FIRST \<noteq> 0 \<and> ft_flags t AND FRAG_GOT_LAST \<noteq> 0
      \<and> (ft_bytes t = ft_calculated_size t \<or> ft_bytes t > ft_calculated_size t))"

definition IP_MAXPACKET :: nat where "IP_MAXPACKET = 65535"

text \<open>\<open>SafeMemcpy\<close> to position \<open>dst\<close> of a buffer that may be written from \<open>start\<close> to its end.\<close>

definition SafeMemcpy :: "nat \<Rightarrow> bytes \<Rightarrow> nat \<Rightarrow> bytes \<Rightarrow> bytes option" where
  "SafeMemcpy dst src start buf =
     (if src = [] then Some buf
      else if start \<le> dst \<and> dst < length buf \<and> dst + length src - 1 < length buf
      then Some (take dst buf @ src @ drop (dst + length src) buf) else None)"

datatype rebuild_result = Rebuilt bytes | SafememError | BadRead

text \<open>The walk of the fragment list; \<open>BadRead\<close> is a node that reaches outside its buffer.\<close>

fun rebuild_frags :: "nat \<Rightarrow> int \<Rightarrow> frag3_frag list \<Rightarrow> bytes \<Rightarrow> rebuild_result" where
  "rebuild_frags start calculated_size [] buf = Rebuilt buf"
| "rebuild_frags start calculated_size (f # fs) buf =
     (if fr_end f > cu16 calculated_size then rebuild_frags start calculated_size fs buf
      else if fr_size f = 0 then rebuild_frags start calculated_size fs buf
      else if fr_data f < 0 \<or> fr_data f + fr_size f > int (length (fr_fptr f)) then BadRead
      else (case SafeMemcpy (start + nat (fr_offset f))
                   (take (nat (fr_size f)) (drop (nat (fr_data f)) (fr_fptr f))) start buf of
              None \<Rightarrow> SafememError
            | Some buf' \<Rightarrow> rebuild_frags start calculated_size fs buf'))"

text \<open>
  \<open>Frag3Rebuild\<close>: the options and the payload of the datagram, \<open>dsize\<close> bytes.  The buffer has
  \<open>IP_MAXPACKET\<close> bytes.
\<close>

datatype rebuilt = Datagram bytes bytes | RebuildError | RebuildBadRead

definition Frag3Rebuild :: "bytes \<Rightarrow> frag_pkt \<Rightarrow> frag_tracker \<Rightarrow> rebuilt \<times> frag_tracker" where
  "Frag3Rebuild buf p t =
     (let options = (if pk_ip6 p then []
                     else case ft_options_data t of
                            Some d \<Rightarrow> if ft_options_len t \<noteq> 0 then d else []
                          | None \<Rightarrow> []);
          start = length options;
          t' = t\<lparr>ft_flags := ft_flags t OR FRAG_REBUILT\<rparr>
      in case SafeMemcpy 0 options 0 buf of
           None \<Rightarrow> (RebuildError, t')
         | Some buf1 \<Rightarrow>
             (case rebuild_frags start (ft_calculated_size t) (ft_fraglist t) buf1 of
                Rebuilt buf2 \<Rightarrow>
                  (Datagram options (take (nat (cu16 (ft_calculated_size t))) (drop start buf2)), t')
              | SafememError \<Rightarrow> (RebuildError, t')
              | BadRead \<Rightarrow> (RebuildBadRead, t)))"

section \<open>Frag3Defrag\<close>

definition find_context :: "frag3_config \<Rightarrow> frag_pkt \<Rightarrow> frag3_context option" where
  "find_context cfg p =
     (case find (\<lambda>c. case fx_bound_addrs c of Some inp \<Rightarrow> inp (pk_dip p) | None \<Rightarrow> False) (cfg_contexts cfg) of
        Some c \<Rightarrow> Some c
      | None \<Rightarrow> cfg_default_context cfg)"

definition IPPROTO_UDP :: int where "IPPROTO_UDP = 17"

text \<open>What becomes of a packet: detection is disabled for it, it is dropped, a datagram is rebuilt.\<close>

record defrag_out =
  do_disable :: bool
  do_drop :: bool
  do_rebuilt :: "rebuilt option"

definition no_out :: "bool \<Rightarrow> defrag_out" where
  "no_out disable = \<lparr>do_disable = disable, do_drop = False, do_rebuilt = None\<rparr>"

text \<open>Completion: rebuild unless bad, then keep an emptied tracker (verdict drop) or remove it.\<close>

definition defrag_complete ::
    "(bool \<Rightarrow> rebuilt option \<Rightarrow> bool) \<Rightarrow> bytes \<Rightarrow> frag3_config \<Rightarrow> fragkey \<Rightarrow> frag_pkt \<Rightarrow> bool \<Rightarrow>
     frag_tracker \<Rightarrow> frag3 \<Rightarrow> bool \<times> rebuilt option \<times> frag3" where
  "defrag_complete verdict buf cfg key p blocked t st =
     (let rb = (if ft_flags t AND FRAG_BAD = 0 then Some (fst (Frag3Rebuild buf p t)) else None);
          t1 = (if ft_flags t AND FRAG_BAD = 0 then snd (Frag3Rebuild buf p t) else t);
          disable = (rb \<noteq> None \<and> (pk_frag_offset p \<noteq> 0 \<or> pk_proto p \<noteq> IPPROTO_UDP
                                     \<and> ft_flags t1 AND FRAG_REBUILT \<noteq> 0))
      in if verdict blocked rb then
           (case Frag3DeleteTracker cfg t1 st of
              (t2, st1) \<Rightarrow>
                (disable, rb, cache_write key (t2\<lparr>ft_flags := ft_flags t2 OR FRAG_DROP_FRAGMENTS\<rparr>) st1))
         else (disable, rb, Frag3RemoveTracker cfg key (cache_write key t1 st)))"

text \<open>\<open>None\<close> is undefined behaviour inside the insertion.\<close>

definition Frag3Defrag ::
    "int \<Rightarrow> (frag_pkt \<Rightarrow> frag_policy option) \<Rightarrow> (bool \<Rightarrow> rebuilt option \<Rightarrow> bool) \<Rightarrow> bytes \<Rightarrow> frag3_config option \<Rightarrow>
     frag_pkt \<Rightarrow> frag3 \<Rightarrow> (defrag_out \<times> frag3) option" where
  "Frag3Defrag snaplen host_policy verdict buf eval_config p st0 =
     (if \<not> pk_frag_flag p then Some (no_out False, st0)
      else let key = frag_key p; found = Frag3GetTracker key st0; st = snd found in
      case eval_config of
        None \<Rightarrow> Some (no_out False, st)
      | Some cfg \<Rightarrow>
      case (case fst found of Some t \<Rightarrow> Some (ft_context t) | None \<Rightarrow> find_context cfg p) of
        None \<Rightarrow> Some (no_out False, st)
      | Some context \<Rightarrow>
          (let disable = (pk_frag_offset p \<noteq> 0 \<or> pk_proto p \<noteq> IPPROTO_UDP \<and> pk_mf p) in
           if pk_ttl p < fx_min_ttl context
           then Some (no_out disable, frag3_event context FRAG3_MIN_TTL_EVASION st)
           else case fst found of
             None \<Rightarrow> Some (no_out disable, snd (Frag3NewTracker snaplen host_policy cfg context key p st))
           | Some t0 \<Rightarrow>
               (case Frag3Expire cfg p t0 context st of
                  (expired, t1, st1) \<Rightarrow>
                    (let t2 = (if expired then reset_tracker p context t1 else t1)\<lparr>ft_time := pk_time p\<rparr>;
                         blocked = (ft_flags t2 AND FRAG_DROP_FRAGMENTS \<noteq> 0);
                         out = \<lparr>do_disable = disable \<or> blocked, do_drop = blocked, do_rebuilt = None\<rparr>
                     in case Frag3Insert snaplen cfg context key p t2 (cache_write key t2 st1) of
                          None \<Rightarrow> None
                        | Some (ret, t3, st2) \<Rightarrow>
                            if ret \<noteq> FRAG_INSERT_OK \<or> \<not> Frag3IsComplete t3
                            then Some (out, cache_write key t3 st2)
                            else (case defrag_complete verdict buf cfg key p blocked t3 (cache_write key t3 st2) of
                                    (dis, rb, st3) \<Rightarrow>
                                      Some (out\<lparr>do_disable := do_disable out \<or> dis, do_rebuilt := rb\<rparr>, st3))))))"

end
