(* ===== verification/Frag3Cache.thy ===== *)
theory Frag3Cache
  imports Frag3Defrag
begin

text \<open>
  The cache of trackers: inserting a fragment never changes another tracker, it can only
  prune some (\<open>cache_sub\<close>).
\<close>

definition cache_sub :: "frag3 \<Rightarrow> frag3 \<Rightarrow> bool" where
  "cache_sub st st' \<longleftrightarrow> set (f3_cache st') \<subseteq> set (f3_cache st)"

named_theorems cache_subs \<open>operations that only remove trackers\<close>

lemma cache_sub_refl [simp]: "cache_sub st st" by (simp add: cache_sub_def)
lemma cache_sub_trans: "cache_sub st st' \<Longrightarrow> cache_sub st' st'' \<Longrightarrow> cache_sub st st''" by (auto simp: cache_sub_def)

lemma cache_sub_updates [simp]:
  "cache_sub st (st'\<lparr>f3_mem := n\<rparr>) = cache_sub st st'" "cache_sub st (st'\<lparr>f3_events := es\<rparr>) = cache_sub st st'"
  "cache_sub st (frag3_event c ev st') = cache_sub st st'"
  "cache_sub st (Frag3DeleteFrag cfg f st') = cache_sub st st'"
  "cache_sub st (checkTinyFragments c p n st') = cache_sub st st'"
  by (simp_all add: cache_sub_def frag3_event_def checkTinyFragments_def)

lemma cache_events [simp]:
  "f3_cache (frag3_event c ev st) = f3_cache st" "f3_cache (checkTinyFragments c p n st) = f3_cache st"
  by (simp_all add: frag3_event_def checkTinyFragments_def)

lemma prune_loop_sub: "prune_loop cfg key found n st = (m, st') \<Longrightarrow> cache_sub st st'"
proof (induction cfg key found n st rule: prune_loop.induct)
  case (1 cfg not_me found pruned st)
  show ?case
  proof (cases "\<not> over_limit cfg st \<or> f3_cache st = []")
    case True
    then show ?thesis using "1.prems" by (simp add: prune_loop.simps [of cfg not_me found])
  next
    case False
    define h where "h = last (f3_cache st)"
    show ?thesis
    proof (cases "fst h = not_me")
      case True
      have "h # butlast (f3_cache st) \<noteq> [] \<and> set (h # butlast (f3_cache st)) \<subseteq> set (f3_cache st)"
        using False by (auto simp: h_def dest: in_set_butlastD)
      then show ?thesis using "1.prems" "1.IH"(1) [OF False h_def True] False True
        by (auto simp: prune_loop.simps [of cfg not_me found] h_def [symmetric] cache_sub_def split: if_splits)
    next
      case False': False
      have "cache_sub st (Frag3RemoveTracker cfg (fst h) st)" by (auto simp: cache_sub_def)
      then show ?thesis using "1.prems" "1.IH"(2) [OF False h_def False'] False False'
        by (simp add: prune_loop.simps [of cfg not_me found] h_def [symmetric]) (blast intro: cache_sub_trans)
    qed
  qed
qed

lemma Frag3Prune_sub [cache_subs]: "cache_sub st (snd (Frag3Prune cfg key st))"
  using prune_loop_sub by (metis Frag3Prune_def prod.collapse)

lemma prealloc_get_sub: "cache_sub st (snd (prealloc_get cfg key st))"
proof (induction cfg key st rule: prealloc_get.induct)
  case (1 cfg not_me st)
  show ?case
  proof (cases "Frag3PreallocPop st")
    case None
    then show ?thesis
      using "1.IH" [OF None refl] Frag3Prune_sub [of st cfg not_me]
      by (subst prealloc_get.simps) (auto simp: Let_def intro: cache_sub_trans)
  next
    case (Some st1)
    then show ?thesis
      by (subst prealloc_get.simps) (auto simp: Frag3PreallocPop_def cache_sub_def split: if_splits)
  qed
qed

lemma get_frag_sub [cache_subs]: "cache_sub st (snd (get_frag cfg key len st))"
  using prealloc_get_sub Frag3Prune_sub [of st cfg key] by (auto simp: get_frag_def Let_def)

section \<open>The insertion\<close>

definition st_sub :: "insert_state \<Rightarrow> insert_state \<Rightarrow> bool" where
  "st_sub s s' \<longleftrightarrow> cache_sub (is_st s) (is_st s')"

definition sum_sub :: "insert_state \<Rightarrow> (insert_ret \<times> insert_state) + insert_state \<Rightarrow> bool" where
  "sum_sub s x \<longleftrightarrow> (case x of Inl (r, s') \<Rightarrow> st_sub s s' | Inr s' \<Rightarrow> st_sub s s')"

lemma st_sub_trans: "st_sub s s' \<Longrightarrow> st_sub s' s'' \<Longrightarrow> st_sub s s''"
  by (auto simp: st_sub_def intro: cache_sub_trans)

lemma AddFragNode_sub: "AddFragNode e b s = Some (r, s') \<Longrightarrow> st_sub s s'"
  using get_frag_sub [of "is_st s" "ie_cfg e" "ie_key e" "ie_flen e"]
  by (auto simp: AddFragNode_def Let_def st_sub_def split: if_splits prod.splits bool.splits)

lemma DupFragNode_sub: "DupFragNode e l s = (r, s') \<Longrightarrow> st_sub s s'"
  using get_frag_sub [of "is_st s" "ie_cfg e" "ie_key e" "fr_flen l"]
  by (auto simp: DupFragNode_def Let_def st_sub_def split: prod.splits bool.splits)

lemma small_steps_sub [simp]:
  "st_sub s (move_new n s') = st_sub s s'" "st_sub s (cut_left l n s') = st_sub s s'"
  "st_sub s (delete_empty_left e s') = st_sub s s'" "st_sub s (attack e s') = st_sub s s'"
  "st_sub s (drop_right e f s') = st_sub s s'" "st_sub s (skip_right f s') = st_sub s s'"
  "st_sub s (cut_right e f n s') = st_sub s s'" "st_sub s (right_partial e f n s') = st_sub s s'"
  by (auto simp: st_sub_def move_new_def cut_left_def delete_empty_left_def attack_def drop_right_def
      delete_right_def skip_right_def cut_right_def right_partial_def Let_def split: option.split)

lemma left_policy_last_sub: "sum_sub s (left_policy_last e l n s)"
proof (cases "DupFragNode e l s")
  case (Pair r s1)
  have 1: "st_sub s s1" using DupFragNode_sub [OF Pair] .
  have 2: "st_sub s s" by (simp add: st_sub_def)
  show ?thesis
  proof (cases "fr_offset l < is_offset s \<and> fr_end l > is_offset s + ie_len e")
    case True
    show ?thesis
    proof (cases r)
      case FRAG_INSERT_OK
      then show ?thesis using 1 True Pair
        by (auto simp: left_policy_last_def sum_sub_def Let_def split: option.split)
           (simp_all add: st_sub_def cut_left_def)
    qed (use 1 True Pair in \<open>simp_all add: left_policy_last_def sum_sub_def\<close>)
  qed (use 2 in \<open>auto simp: left_policy_last_def sum_sub_def\<close>)
qed

lemma left_policy_sub: "sum_sub s (left_policy e l n s)"
proof -
  have 2: "st_sub s s" by (simp add: st_sub_def)
  have 3: "st_sub s (move_new n s\<lparr>is_st := frag3_event c ev (is_st (move_new n s))\<rparr>)" for c ev
    by (simp add: st_sub_def move_new_def)
  show ?thesis
    using left_policy_last_sub [of s e l n] 2 3
    by (cases "ft_policy (is_ft s)") (auto simp: left_policy_def sum_sub_def Let_def)
qed

lemma left_overlap_sub: "sum_sub s (left_overlap e s)"
proof (cases "cur_left (is_cur s)")
  case (Some l)
  define s1 where "s1 = s\<lparr>is_ft := count_overlap (is_ft s)\<rparr>"
  have 1: "st_sub s s1" "st_sub s s" by (simp_all add: st_sub_def s1_def)
  have 2: "st_sub s s2" if "st_sub s1 s2" for s2 using that by (simp add: st_sub_def s1_def)
  show ?thesis
    using left_policy_sub [of s1 e l "ci32 (fr_end l - is_offset s)"] 1 2
    by (auto simp: left_overlap_def Some Let_def s1_def [symmetric] sum_sub_def split: sum.splits prod.splits)
       (auto simp: st_sub_def)
qed (simp add: left_overlap_def sum_sub_def st_sub_def)

lemma next_chunk_sub: "next_chunk e s = Some x \<Longrightarrow> sum_sub s x"
  by (auto simp: next_chunk_def Let_def sum_sub_def st_sub_def split: if_splits option.splits)

lemma chunk_start_st [simp]: "is_st (chunk_start r n s) = is_st s"
  by (simp add: chunk_start_def skip_right_def Let_def)

lemma sum_sub_from: "sum_sub s' x \<Longrightarrow> st_sub s s' \<Longrightarrow> sum_sub s x"
  by (auto simp: sum_sub_def intro: st_sub_trans split: sum.splits)

lemma add_chunk_sub: "add_chunk e r n s = Some x \<Longrightarrow> sum_sub s x"
proof -
  assume a: "add_chunk e r n s = Some x"
  define s1 where "s1 = chunk_start r n s"
  define s2 where "s2 = s1\<lparr>is_st := checkTinyFragments (ie_context e) (ie_pkt e)
                                (ie_len e - is_slide s1 - is_trunc s1) (is_st s1)\<rparr>"
  have 1: "is_st s1 = is_st s" by (simp add: s1_def)
  have 2: "st_sub s s3" if "AddFragNode e False s2 = Some (r', s3)" for r' s3
    using AddFragNode_sub [OF that] by (simp add: st_sub_def s2_def 1 cache_sub_def)
  have eq: "add_chunk e r n s = (if cu32 (ie_end e - is_trunc s1) \<le> is_offset s1 then Some (Inl (FRAG_INSERT_ANOMALY, s1))
      else case AddFragNode e False s2 of
           None \<Rightarrow> None
         | Some (ret, s3) \<Rightarrow> if ret = FRAG_INSERT_OK then next_chunk e s3 else Some (Inl (ret, s3)))"
    by (simp add: add_chunk_def Let_def s1_def s2_def)
  show ?thesis
  proof (cases "cu32 (ie_end e - is_trunc s1) \<le> is_offset s1")
    case True
    then show ?thesis using a eq 1 by (auto simp: sum_sub_def st_sub_def)
  next
    case False
    then obtain r' s3 where y: "AddFragNode e False s2 = Some (r', s3)"
      using a eq by (cases "AddFragNode e False s2") auto
    show ?thesis
    proof (cases "r' = FRAG_INSERT_OK")
      case True
      then have "next_chunk e s3 = Some x" using a eq False y by simp
      then show ?thesis using sum_sub_from [OF next_chunk_sub 2 [OF y]] by blast
    next
      case False': False
      then have "x = Inl (r', s3)" using a eq False y by simp
      then show ?thesis using 2 [OF y] by (simp add: sum_sub_def)
    qed
  qed
qed

lemma right_full_sub: "right_full e r n s = Some x \<Longrightarrow> sum_sub s x"
proof -
  assume a: "right_full e r n s = Some x"
  define s1 where "s1 = (if \<not> is_alerted s \<and> fx_detect_anomalies (ie_context e)
               then s\<lparr>is_st := frag3_event (ie_context e) FRAG3_ANOMALY_OVLP (is_st s),
                       is_alerted := True, is_ft := count_overlap (is_ft s)\<rparr> else s)"
  have 1: "f3_cache (is_st s1) = f3_cache (is_st s)" by (simp add: s1_def)
  have 2: "sum_sub s y" if "sum_sub s1 y" for y
    using that by (auto simp: sum_sub_def st_sub_def cache_sub_def 1 split: sum.splits)
  have 3: "sum_sub s (Inr (drop_right e r s1))" by (simp add: sum_sub_def) (simp add: st_sub_def cache_sub_def 1)
  have "add_chunk e r n s1 = Some x \<or> x = Inr (drop_right e r s1)"
    using a by (auto simp: right_full_def Let_def s1_def [symmetric] split: if_splits)
  then show ?thesis using 2 3 add_chunk_sub by blast
qed

definition step_sub :: "insert_state \<Rightarrow> (insert_ret \<times> insert_state) + (bool \<times> insert_state) \<Rightarrow> bool" where
  "step_sub s x \<longleftrightarrow> (case x of Inl (r, s') \<Rightarrow> st_sub s s' | Inr (b, s') \<Rightarrow> st_sub s s')"

lemma right_step_sub: "right_step e r s = Some x \<Longrightarrow> step_sub s x"
proof -
  assume a: "right_step e r s = Some x"
  define n where "n = ci32 (ie_end e - fr_offset r)"
  have c: "st_sub s (s\<lparr>is_trunc := 0\<rparr>)" by (simp add: st_sub_def)
  consider "x = Inl (FRAG_INSERT_ATTACK, attack e (s\<lparr>is_trunc := 0\<rparr>))"
    | "x = Inr (True, right_partial e r n (s\<lparr>is_trunc := 0\<rparr>))"
    | y where "right_full e r n (s\<lparr>is_trunc := 0\<rparr>) = Some y" "x = map_sum (\<lambda>x. x) (Pair False) y"
    using a by (auto simp: right_step_def Let_def n_def [symmetric] split: if_splits)
  then show ?thesis
  proof cases
    case 3
    then show ?thesis using sum_sub_from [OF right_full_sub [OF 3(1)] c]
      by (cases y) (auto simp: step_sub_def sum_sub_def)
  qed (use c in \<open>auto simp: step_sub_def\<close>)
qed

lemma right_loop_sub: "right_loop n e s = Some x \<Longrightarrow> sum_sub s x"
proof (induction n arbitrary: s)
  case (Suc n)
  show ?case
  proof (cases "cur_right (is_cur s)")
    case None
    then show ?thesis using Suc.prems by (auto simp: sum_sub_def st_sub_def)
  next
    case (Some r)
    show ?thesis
    proof (cases "fr_offset r < ie_end e")
      case True
      with Suc.prems Some obtain y where y: "right_step e r s = Some y" by (cases "right_step e r s") auto
      note R = right_step_sub [OF y]
      show ?thesis
      proof (cases y)
        case (Inl z)
        then show ?thesis using Suc.prems Some True y R by (auto simp: step_sub_def sum_sub_def)
      next
        case (Inr z)
        obtain b s' where z: "z = (b, s')" by (cases z)
        then have ss: "st_sub s s'" using R Inr by (simp add: step_sub_def)
        show ?thesis
        proof (cases b)
          case True
          then show ?thesis using Suc.prems Some \<open>fr_offset r < ie_end e\<close> y Inr z ss by (auto simp: sum_sub_def)
        next
          case False
          then have "right_loop n e s' = Some x"
            using Suc.prems Some \<open>fr_offset r < ie_end e\<close> y Inr z by simp
          from Suc.IH [OF this] show ?thesis using ss
            by (auto simp: sum_sub_def intro: st_sub_trans split: sum.splits)
        qed
      qed
    qed (use Suc.prems Some in \<open>auto simp: sum_sub_def st_sub_def\<close>)
  qed
qed simp

lemma insert_finish_sub: "insert_finish e s = Some (r, s') \<Longrightarrow> st_sub s s'"
  by (auto simp: insert_finish_def Let_def st_sub_def cache_sub_def split: if_splits dest!: AddFragNode_sub)

lemma insert_body_sub: "insert_body e off ft st = Some (r, s') \<Longrightarrow> cache_sub st (is_st s')"
proof -
  assume a: "insert_body e off ft st = Some (r, s')"
  define s where "s = \<lparr>is_st = st, is_ft = ft, is_cur = \<lparr>fc_left = takeWhile (\<lambda>f. fr_offset f < off) (ft_fraglist ft),
      fc_mid = [], fc_right = dropWhile (\<lambda>f. fr_offset f < off) (ft_fraglist ft)\<rparr>,
      is_offset = off, is_slide = 0, is_trunc = 0, is_alerted = False, is_addthis = True\<rparr>"
  have body: "insert_body e off ft st = (case left_overlap e s of
        Inl x \<Rightarrow> Some x
      | Inr s1 \<Rightarrow>
          if cu16 (ie_flen e) > ie_snaplen e then Some (FRAG_INSERT_FAILED, s1)
          else (case right_loop (Suc (length (fc_right (is_cur s1)))) e s1 of
                  None \<Rightarrow> None
                | Some (Inl x) \<Rightarrow> Some x
                | Some (Inr s2) \<Rightarrow> insert_finish e s2))"
    by (simp add: insert_body_def s_def)
  have st: "is_st s = st" by (simp add: s_def)
  note L = left_overlap_sub [of s e]
  show ?thesis
  proof (cases "left_overlap e s")
    case (Inl x)
    then show ?thesis using a body L st by (auto simp: sum_sub_def st_sub_def)
  next
    case (Inr s1)
    then have s1: "st_sub s s1" using L by (simp add: sum_sub_def)
    show ?thesis
    proof (cases "cu16 (ie_flen e) > ie_snaplen e")
      case True
      then show ?thesis using a body Inr s1 st by (simp add: st_sub_def)
    next
      case False
      then obtain y where y: "right_loop (Suc (length (fc_right (is_cur s1)))) e s1 = Some y"
        using a body Inr by (cases "right_loop (Suc (length (fc_right (is_cur s1)))) e s1") auto
      have "sum_sub s1 y" using right_loop_sub [OF y] .
      then have "st_sub s1 s'" using a body Inr False y insert_finish_sub
        by (cases y) (auto simp: sum_sub_def simp del: right_loop.simps intro: st_sub_trans)
      then show ?thesis using s1 st st_sub_trans by (metis st_sub_def)
    qed
  qed
qed

lemma HandleIPOptions_cache [simp]: "f3_cache (snd (Frag3HandleIPOptions p t st)) = f3_cache st"
proof -
  have "f3_cache (fold (\<lambda>code st. if code AND 0x80 = 0 then frag3_event c FRAG3_IPOPTIONS st else st) xs st) = f3_cache st" for c and xs :: "int list"
    by (induction xs arbitrary: st) auto
  then show ?thesis by (simp add: Frag3HandleIPOptions_def Let_def split: option.split)
qed

lemma Frag3Insert_sub:
  assumes a: "Frag3Insert snaplen cfg context key p ft0 st0 = Some (r, t', st')"
  shows "cache_sub st0 st'"
proof -
  define ft where "ft = (if pk_ip6 p \<and> pk_frag_offset p = 0 then ft0\<lparr>ft_protocol := pk_ip6f_nxt p\<rparr> else ft0)"
  define fl ft1 where "fl = fst (Frag3CheckFirstLast p ft)" and "ft1 = snd (Frag3CheckFirstLast p ft)"
  define off where "off = (if fl = FRAG_LAST_OFFSET_ADJUST then cu16 (ft_calculated_size ft1) else cu16 (push_bit 3 (pk_frag_offset p)))"
  define end0 where "end0 = cu32 (off + ci16 (pk_frag_len p))"
  define b where "b = (if pk_mf p then end0 AND NOT 7 else end0)"
  define st1 where "st1 = (if pk_mf p \<and> end0 AND 7 \<noteq> 0 then frag3_event context FRAG3_SHORT_FRAG st0 else st0)"
  define ft2 where "ft2 = (if b > ft_calculated_size ft1 \<and> (pk_mf p \<or> fl = FRAG_LAST_OFFSET_ADJUST)
                 then ft1\<lparr>ft_calculated_size := b\<rparr> else ft1)"
  define e where "e = \<lparr>ie_cfg = cfg, ie_context = context, ie_key = key, ie_pkt = p,
     ie_len = (if pk_mf p then ci16 (ci16 (pk_frag_len p) - cu32 (cu16 end0 - b)) else ci16 (pk_frag_len p)),
     ie_end = b, ie_orig = cu16 (push_bit 3 (pk_frag_offset p)), ie_flen = ci16 (pk_frag_len p),
     ie_last = (\<not> pk_mf p), ie_snaplen = snaplen\<rparr>"
  have c: "f3_cache st1 = f3_cache st0" by (simp add: st1_def)
  have I: "Frag3Insert snaplen cfg context key p ft0 st0 =
      (if pk_mf p \<and> b > ft_calculated_size ft1 \<and> ft_flags ft1 AND FRAG_GOT_LAST \<noteq> 0 then
           Some (FRAG_INSERT_ANOMALY, ft1, frag3_event context FRAG3_ANOMALY_OVERSIZE st1)
         else if b = off then Some (FRAG_INSERT_ANOMALY, ft2, frag3_event context FRAG3_ANOMALY_ZERO st1)
         else if b > 65535 then
           Some (FRAG_INSERT_ANOMALY,
                 ft2\<lparr>ft_flags := ft_flags ft2 OR FRAG_BAD, ft_calculated_size := ft_calculated_size ft1\<rparr>,
                 frag3_event context FRAG3_ANOMALY_BADSIZE_LG st1)
         else map_option (\<lambda>(r, s). (r, (is_ft s)\<lparr>ft_fraglist := cursor_list (is_cur s)\<rparr>, is_st s))
                (insert_body e off ((fst (Frag3HandleIPOptions p ft2 st1))\<lparr>ft_pkts := cu32 (ft_pkts (fst (Frag3HandleIPOptions p ft2 st1)) + 1)\<rparr>)
                   (snd (Frag3HandleIPOptions p ft2 st1))))"
    unfolding Frag3Insert_def Let_def ft_def [symmetric] fl_def [symmetric] ft1_def [symmetric]
      off_def [symmetric] end0_def [symmetric] b_def [symmetric] st1_def [symmetric] ft2_def [symmetric] e_def
    by (simp split: prod.split)
  show ?thesis
  proof (cases "f3_cache st' = f3_cache st0")
    case False
    let ?h = "Frag3HandleIPOptions p ft2 st1"
    obtain s where "insert_body e off ((fst ?h)\<lparr>ft_pkts := cu32 (ft_pkts (fst ?h) + 1)\<rparr>) (snd ?h) = Some (r, s)"
      "st' = is_st s"
      using a False c unfolding I by (auto split: if_splits)
    then show ?thesis using insert_body_sub c by (fastforce simp: cache_sub_def)
  qed (simp add: cache_sub_def)
qed

end
