(* ===== verification/Frag3Props.thy ===== *)
theory Frag3Props
  imports Frag3Merge Frag3Cache
begin

text \<open>The properties of the defragmenter.\<close>

section \<open>One insertion\<close>

text \<open>A fragment as the decoder hands it over.\<close>

definition pkt_ok :: "int \<Rightarrow> frag_pkt \<Rightarrow> bool" where
  "pkt_ok snaplen p \<longleftrightarrow> 0 \<le> pk_frag_offset p \<and> pk_frag_offset p < 8192
     \<and> pk_frag_len p = int (length (pk_frag_start p)) \<and> pk_frag_len p < 32768 \<and> pk_frag_len p \<le> snaplen"

text \<open>Where the fragment starts and ends in the datagram.\<close>

definition insert_at :: "frag_pkt \<Rightarrow> frag_tracker \<Rightarrow> int" where
  "insert_at p t =
     (if fst (Frag3CheckFirstLast p t) = FRAG_LAST_OFFSET_ADJUST then ft_calculated_size t
      else 8 * pk_frag_offset p)"

definition insert_end :: "frag_pkt \<Rightarrow> frag_tracker \<Rightarrow> int" where
  "insert_end p t =
     (let e = insert_at p t + pk_frag_len p in if pk_mf p then e - e mod 8 else e)"

definition tracker_wf :: "int \<Rightarrow> frag_tracker \<Rightarrow> bool" where
  "tracker_wf d t \<longleftrightarrow> flist_wf (ft_fraglist t) \<and> ft_bytes t = flist_size (ft_fraglist t) + d
     \<and> 0 \<le> d \<and> d < 65536 \<and> 0 \<le> ft_calculated_size t"

lemma and_not_7: "x AND NOT 7 = x - x mod (8::int)"
proof -
  have "x AND NOT (mask 3) = push_bit 3 (drop_bit 3 x)"
    by (rule bit_eqI) (auto simp: bit_simps)
  then show ?thesis by (simp add: mask_eq_exp_minus_1 push_bit_eq_mult drop_bit_eq_div minus_mod_eq_div_mult)
qed

lemmas and_minus_8 = and_not_7 [simplified]

lemma push_bit_3: "push_bit 3 x = 8 * (x::int)"
  by (simp add: push_bit_eq_mult)

text \<open>Frag3CheckFirstLast touches the flags and the size only.\<close>

lemma CheckFirstLast_fields:
  "ft_fraglist (snd (Frag3CheckFirstLast p t)) = ft_fraglist t" "ft_bytes (snd (Frag3CheckFirstLast p t)) = ft_bytes t"
  "ft_policy (snd (Frag3CheckFirstLast p t)) = ft_policy t"
  "ft_options_data (snd (Frag3CheckFirstLast p t)) = ft_options_data t"
  "ft_context (snd (Frag3CheckFirstLast p t)) = ft_context t" "ft_time (snd (Frag3CheckFirstLast p t)) = ft_time t"
  by (auto simp: Frag3CheckFirstLast_def Let_def)

lemma CheckFirstLast_adjust:
  "fst (Frag3CheckFirstLast p t) = FRAG_LAST_OFFSET_ADJUST \<Longrightarrow>
   ft_calculated_size t < 65536 \<and> ft_calculated_size (snd (Frag3CheckFirstLast p t)) = ft_calculated_size t \<and> \<not> pk_mf p"
  using cu16_range(2) [of "push_bit 3 (pk_frag_offset p) + pk_frag_len p"]
  by (auto simp: Frag3CheckFirstLast_def Let_def split: if_splits)

lemma HandleIPOptions_fields:
  "ft_fraglist (fst (Frag3HandleIPOptions p t st)) = ft_fraglist t"
  "ft_bytes (fst (Frag3HandleIPOptions p t st)) = ft_bytes t"
  "ft_policy (fst (Frag3HandleIPOptions p t st)) = ft_policy t"
  "ft_flags (fst (Frag3HandleIPOptions p t st)) = ft_flags t"
  "ft_context (fst (Frag3HandleIPOptions p t st)) = ft_context t" "ft_time (fst (Frag3HandleIPOptions p t st)) = ft_time t"
  "ft_calculated_size (fst (Frag3HandleIPOptions p t st)) = ft_calculated_size t"
  by (auto simp: Frag3HandleIPOptions_def Let_def split: option.split)

lemma HandleIPOptions_data:
  "pk_options_len p = 0 \<Longrightarrow> ft_options_data (fst (Frag3HandleIPOptions p t st)) = ft_options_data t"
  by (auto simp: Frag3HandleIPOptions_def Let_def)

lemma HandleIPOptions_prealloc: "f3_prealloc (snd (Frag3HandleIPOptions p t st)) = f3_prealloc st"
proof -
  have "f3_prealloc (fold (\<lambda>code st. if code AND 0x80 = 0 then frag3_event c FRAG3_IPOPTIONS st else st) xs st) = f3_prealloc st"
    for c and xs :: "int list"
    by (induction xs arbitrary: st) (auto simp: frag3_event_def)
  then show ?thesis by (auto simp: Frag3HandleIPOptions_def Let_def frag3_event_def split: option.split)
qed

text \<open>The end of a fragment and its length, as the code computes them.\<close>

lemma insert_numbers:
  assumes "0 \<le> at" "at < 65536" "0 \<le> len" "len < 32768" "mf \<longrightarrow> 8 dvd at"
  defines "end0 \<equiv> cu32 (at + len)" and "fin \<equiv> (if mf then at + len - (at + len) mod 8 else at + len)"
  shows "end0 = at + len" "(if mf then end0 AND NOT 7 else end0) = fin" "at \<le> fin" "fin \<le> at + len"
    "fin \<le> 65535 \<Longrightarrow> (if mf then ci16 (len - cu32 (cu16 end0 - fin)) else len) = fin - at"
proof -
  show e: "end0 = at + len" using assms by (simp add: end0_def)
  show "(if mf then end0 AND NOT 7 else end0) = fin" by (simp add: e fin_def and_minus_8)
  have "at \<le> at + len - (at + len) mod 8" if "8 dvd at"
    using that assms by (elim dvdE) (simp add: mod_add_eq [symmetric] zmod_le_nonneg_dividend)
  then show at: "at \<le> fin" using assms by (auto simp: fin_def)
  show fl: "fin \<le> at + len" by (simp add: fin_def)
  assume fin: "fin \<le> 65535"
  have "cu16 end0 = at + len" if mf
  proof -
    have m: "fin = at + len - (at + len) mod 8" "0 \<le> at + len" using that assms by (simp_all add: fin_def)
    have "8 * ((at + len) div 8) \<le> 65535" using fin m minus_mod_eq_mult_div [of "at + len" 8] by simp
    then have "at + len \<le> 65535" by presburger
    then show ?thesis using e m by simp
  qed
  then have "cu32 (cu16 end0 - fin) = at + len - fin" if mf
    using that e fl at assms(1,4) by simp
  moreover have "ci16 (len - (at + len - fin)) = fin - at" using at fl assms(4) by simp
  ultimately have "ci16 (len - cu32 (cu16 end0 - fin)) = fin - at" if mf using that by simp
  moreover have "fin = at + len" if "\<not> mf" using that by (simp add: fin_def)
  ultimately show "(if mf then ci16 (len - cu32 (cu16 end0 - fin)) else len) = fin - at" by simp
qed

lemma CheckFirstLast_protocol:
  "Frag3CheckFirstLast p (t\<lparr>ft_protocol := n\<rparr>) =
     (fst (Frag3CheckFirstLast p t), (snd (Frag3CheckFirstLast p t))\<lparr>ft_protocol := n\<rparr>)"
  by (cases t) (simp add: Frag3CheckFirstLast_def Let_def)

text \<open>The tracker as an insertion finds it after the checks at its start.\<close>

lemma Frag3Insert_cases:
  assumes p: "pkt_ok snaplen p" and t: "0 \<le> ft_calculated_size ft"
  defines "s \<equiv> insert_at p ft" and "b \<equiv> insert_end p ft"
  shows "(\<exists>ft' st'. Frag3Insert snaplen cfg context key p ft st = Some (FRAG_INSERT_ANOMALY, ft', st')
        \<and> ft_fraglist ft' = ft_fraglist ft \<and> ft_bytes ft' = ft_bytes ft
        \<and> (b = s \<or> b > 65535 \<or> pk_mf p \<and> b > ft_calculated_size (snd (Frag3CheckFirstLast p ft))
             \<and> ft_flags (snd (Frag3CheckFirstLast p ft)) AND FRAG_GOT_LAST \<noteq> 0))
    \<or> (\<exists>e ft4 st4. Frag3Insert snaplen cfg context key p ft st =
          map_option (\<lambda>(r, s). (r, (is_ft s)\<lparr>ft_fraglist := cursor_list (is_cur s)\<rparr>, is_st s))
            (insert_body e (ie_start e) ft4 st4)
        \<and> env_ok e \<and> ie_start e = s \<and> ie_end e = b \<and> ie_pkt e = p
        \<and> ft_fraglist ft4 = ft_fraglist ft \<and> ft_bytes ft4 = ft_bytes ft \<and> ft_policy ft4 = ft_policy ft
        \<and> ft_flags ft4 = ft_flags (snd (Frag3CheckFirstLast p ft))
        \<and> ft_calculated_size ft4 = (if b > ft_calculated_size (snd (Frag3CheckFirstLast p ft))
             \<and> (pk_mf p \<or> fst (Frag3CheckFirstLast p ft) = FRAG_LAST_OFFSET_ADJUST)
           then b else ft_calculated_size (snd (Frag3CheckFirstLast p ft)))
        \<and> b \<le> 65535 \<and> s < b
        \<and> ie_cfg e = cfg \<and> ie_context e = context \<and> f3_prealloc st4 = f3_prealloc st \<and> f3_cache st4 = f3_cache st
        \<and> ft_context ft4 = ft_context ft \<and> ft_time ft4 = ft_time ft
        \<and> (pk_options_len p = 0 \<longrightarrow> ft_options_data ft4 = ft_options_data ft))"
proof -
  define ft0 where "ft0 = (if pk_ip6 p \<and> pk_frag_offset p = 0 then ft\<lparr>ft_protocol := pk_ip6f_nxt p\<rparr> else ft)"
  define fl where "fl = fst (Frag3CheckFirstLast p ft)"
  define ft1 where "ft1 = snd (Frag3CheckFirstLast p ft0)"
  have C: "fst (Frag3CheckFirstLast p ft0) = fl" by (simp add: ft0_def fl_def CheckFirstLast_protocol)
  have F1: "ft_fraglist ft1 = ft_fraglist ft" "ft_bytes ft1 = ft_bytes ft" "ft_policy ft1 = ft_policy ft"
    "ft_flags ft1 = ft_flags (snd (Frag3CheckFirstLast p ft))"
    "ft_calculated_size ft1 = ft_calculated_size (snd (Frag3CheckFirstLast p ft))"
    by (simp_all add: ft1_def ft0_def CheckFirstLast_fields CheckFirstLast_protocol)
  have P: "0 \<le> pk_frag_offset p" "pk_frag_offset p < 8192" "0 \<le> pk_frag_len p" "pk_frag_len p < 32768"
    using p by (auto simp: pkt_ok_def)
  have s: "(if fl = FRAG_LAST_OFFSET_ADJUST then cu16 (ft_calculated_size ft1) else cu16 (push_bit 3 (pk_frag_offset p))) = s"
    using CheckFirstLast_adjust [of p ft] t P F1 by (simp add: s_def insert_at_def fl_def [symmetric] push_bit_3)
  have s2: "0 \<le> s" "s < 65536" "pk_mf p \<longrightarrow> 8 dvd s"
    using CheckFirstLast_adjust [of p ft] t P by (auto simp: s_def insert_at_def)
  have b: "b = (if pk_mf p then s + pk_frag_len p - (s + pk_frag_len p) mod 8 else s + pk_frag_len p)"
    by (simp add: b_def insert_end_def s_def Let_def)
  note N = insert_numbers [OF s2(1,2) P(3,4) s2(3), folded b]
  have fl16: "ci16 (pk_frag_len p) = pk_frag_len p" using P by simp
  let ?len = "if pk_mf p then ci16 (pk_frag_len p - cu32 (cu16 (cu32 (s + pk_frag_len p)) - b)) else pk_frag_len p"
  define e where "e = \<lparr>ie_cfg = cfg, ie_context = context, ie_key = key, ie_pkt = p, ie_len = ?len, ie_end = b,
     ie_orig = cu16 (push_bit 3 (pk_frag_offset p)), ie_flen = pk_frag_len p, ie_last = (\<not> pk_mf p), ie_snaplen = snaplen\<rparr>"
  define ft2 where "ft2 = (if b > ft_calculated_size ft1 \<and> (pk_mf p \<or> fl = FRAG_LAST_OFFSET_ADJUST)
                 then ft1\<lparr>ft_calculated_size := b\<rparr> else ft1)"
  define st1 where "st1 = (if pk_mf p \<and> cu32 (s + pk_frag_len p) AND 7 \<noteq> 0 then frag3_event context FRAG3_SHORT_FRAG st else st)"
  define ft4 where "ft4 = (fst (Frag3HandleIPOptions p ft2 st1))\<lparr>ft_pkts := cu32 (ft_pkts (fst (Frag3HandleIPOptions p ft2 st1)) + 1)\<rparr>"
  have o2: "ft_options_data ft2 = ft_options_data ft"
    by (simp add: ft2_def ft1_def ft0_def CheckFirstLast_fields)
  have pr: "f3_prealloc (snd (Frag3HandleIPOptions p ft2 st1)) = f3_prealloc st"
    by (simp add: HandleIPOptions_prealloc st1_def frag3_event_def)
  have ca: "f3_cache (snd (Frag3HandleIPOptions p ft2 st1)) = f3_cache st" by (simp add: st1_def)
  have ct: "ft_context ft4 = ft_context ft" "ft_time ft4 = ft_time ft"
    by (simp_all add: ft4_def ft2_def ft1_def ft0_def CheckFirstLast_fields HandleIPOptions_fields)
  have op: "pk_options_len p = 0 \<longrightarrow> ft_options_data ft4 = ft_options_data ft"
    using HandleIPOptions_data o2 by (simp add: ft4_def)
  have F2: "ft_fraglist ft2 = ft_fraglist ft" "ft_bytes ft2 = ft_bytes ft" by (simp_all add: ft2_def F1)
  have I: "Frag3Insert snaplen cfg context key p ft st =
      (if pk_mf p \<and> b > ft_calculated_size ft1 \<and> ft_flags ft1 AND FRAG_GOT_LAST \<noteq> 0 then
           Some (FRAG_INSERT_ANOMALY, ft1, frag3_event context FRAG3_ANOMALY_OVERSIZE st1)
         else if b = s then Some (FRAG_INSERT_ANOMALY, ft2, frag3_event context FRAG3_ANOMALY_ZERO st1)
         else if b > 65535 then
           Some (FRAG_INSERT_ANOMALY,
                 ft2\<lparr>ft_flags := ft_flags ft2 OR FRAG_BAD, ft_calculated_size := ft_calculated_size ft1\<rparr>,
                 frag3_event context FRAG3_ANOMALY_BADSIZE_LG st1)
         else map_option (\<lambda>(r, s). (r, (is_ft s)\<lparr>ft_fraglist := cursor_list (is_cur s)\<rparr>, is_st s))
                (insert_body e s ft4 (snd (Frag3HandleIPOptions p ft2 st1))))"
    unfolding Frag3Insert_def Let_def ft0_def [symmetric] C ft1_def [symmetric] fl16 s N(2)
      e_def ft2_def [symmetric] st1_def [symmetric] ft4_def
    by (simp split: prod.split)
  show ?thesis
  proof (cases "(pk_mf p \<and> b > ft_calculated_size ft1 \<and> ft_flags ft1 AND FRAG_GOT_LAST \<noteq> 0) \<or> b = s \<or> b > 65535")
    case True
    then show ?thesis using I F1 F2 by (intro disjI1) (auto split: if_splits)
  next
    case False
    have l: "ie_len e = b - s" using N(5) False by (simp add: e_def)
    have "env_ok e" "ie_start e = s"
      using l p s2 N(3,4) False by (auto simp: env_ok_def ie_start_def e_def pkt_ok_def)
    then show ?thesis using I False F1 N(3) pr op ca ct
      by (intro disjI2 exI [of _ e] exI [of _ ft4] exI [of _ "snd (Frag3HandleIPOptions p ft2 st1)"])
         (auto simp: e_def ft4_def HandleIPOptions_fields ft2_def fl_def)
  qed
qed


end
