(* ===== verification/Frag3Safe.thy ===== *)
theory Frag3Safe
  imports Frag3Props Frag3Cache
begin

text \<open>
  Fragments cut from a datagram are put together to that datagram, whatever their order, their
  overlaps and their repetitions, and whatever is pruned or expires, under the policies that
  store a fragment in one piece.
\<close>

section \<open>Honest fragments\<close>

text \<open>The fragment \<open>p\<close> is a piece of the datagram \<open>D\<close>.\<close>

definition honest :: "bytes \<Rightarrow> int \<Rightarrow> frag_pkt \<Rightarrow> bool" where
  "honest D snaplen p \<longleftrightarrow>
     pkt_ok snaplen p \<and> int (length D) \<le> 65535 \<and> 0 < pk_frag_len p
     \<and> 8 * pk_frag_offset p + pk_frag_len p \<le> int (length D)
     \<and> (if pk_mf p then 8 dvd pk_frag_len p else 8 * pk_frag_offset p + pk_frag_len p = int (length D))
     \<and> pk_frag_start p = take (nat (pk_frag_len p)) (drop (nat (8 * pk_frag_offset p)) D)"

definition whole_policies :: "frag_policy set" where
  "whole_policies = {FRAG_POLICY_LAST, FRAG_POLICY_LINUX, FRAG_POLICY_BSD_RIGHT}"

text \<open>What a tracker keeps of \<open>D\<close>.\<close>

definition holds_of :: "bytes \<Rightarrow> frag_tracker \<Rightarrow> bool" where
  "holds_of D t \<longleftrightarrow>
     ft_policy t \<in> whole_policies \<and> flist_wf (ft_fraglist t) \<and> ft_bytes t = flist_size (ft_fraglist t)
     \<and> (\<forall>x v. flist_byte (ft_fraglist t) x = Some v \<longrightarrow> x < int (length D) \<and> v = D ! nat x)
     \<and> 0 \<le> ft_calculated_size t \<and> ft_calculated_size t \<le> int (length D)
     \<and> (ft_flags t AND FRAG_GOT_LAST \<noteq> 0 \<longrightarrow> ft_calculated_size t = int (length D))"

lemma holds_of_cong:
  "holds_of D t \<Longrightarrow> ft_policy t' = ft_policy t \<Longrightarrow> ft_fraglist t' = ft_fraglist t \<Longrightarrow> ft_bytes t' = ft_bytes t \<Longrightarrow>
   ft_calculated_size t' = ft_calculated_size t \<Longrightarrow> ft_flags t' AND FRAG_GOT_LAST = ft_flags t AND FRAG_GOT_LAST \<Longrightarrow>
   holds_of D t'"
  by (simp add: holds_of_def)

lemma or_and_last:
  "(x OR FRAG_GOT_FIRST) AND FRAG_GOT_LAST = x AND FRAG_GOT_LAST" "(x OR FRAG_BAD) AND FRAG_GOT_LAST = x AND FRAG_GOT_LAST"
  "(x OR FRAG_NO_BSD_VULN) AND FRAG_GOT_LAST = x AND FRAG_GOT_LAST"
  "(x OR FRAG_REBUILT) AND FRAG_GOT_LAST = x AND FRAG_GOT_LAST"
  unfolding frag_flag_defs bit.conj_disj_distrib2 by simp_all

lemma honest_numbers:
  assumes h: "honest D snaplen p"
  shows "0 \<le> pk_frag_offset p" "pk_frag_offset p < 8192" "0 < pk_frag_len p" "pk_frag_len p < 32768"
    "8 * pk_frag_offset p + pk_frag_len p \<le> int (length D)" "int (length D) \<le> 65535"
    "push_bit 3 (pk_frag_offset p) = 8 * pk_frag_offset p"
    "cu16 (8 * pk_frag_offset p) = 8 * pk_frag_offset p"
    "cu16 (8 * pk_frag_offset p + pk_frag_len p) = 8 * pk_frag_offset p + pk_frag_len p"
proof -
  have "pkt_ok snaplen p" "int (length D) \<le> 65535" "0 < pk_frag_len p"
    "8 * pk_frag_offset p + pk_frag_len p \<le> int (length D)"
    using h unfolding honest_def by blast+
  moreover from this(1) have "0 \<le> pk_frag_offset p" "pk_frag_offset p < 8192" "pk_frag_len p < 32768"
    unfolding pkt_ok_def by blast+
  ultimately show "0 \<le> pk_frag_offset p" "pk_frag_offset p < 8192" "0 < pk_frag_len p" "pk_frag_len p < 32768"
    "8 * pk_frag_offset p + pk_frag_len p \<le> int (length D)" "int (length D) \<le> 65535"
    "push_bit 3 (pk_frag_offset p) = 8 * pk_frag_offset p"
    "cu16 (8 * pk_frag_offset p) = 8 * pk_frag_offset p"
    "cu16 (8 * pk_frag_offset p + pk_frag_len p) = 8 * pk_frag_offset p + pk_frag_len p"
    by (simp_all add: push_bit_3)
qed

lemma honest_byte:
  assumes h: "honest D snaplen p" and x: "8 * pk_frag_offset p \<le> x" "x < 8 * pk_frag_offset p + pk_frag_len p"
  shows "pk_frag_start p ! nat (x - 8 * pk_frag_offset p) = D ! nat x"
proof -
  note N = honest_numbers [OF h]
  have "pk_frag_start p = take (nat (pk_frag_len p)) (drop (nat (8 * pk_frag_offset p)) D)"
    using h by (simp add: honest_def)
  moreover have "nat (x - 8 * pk_frag_offset p) < nat (pk_frag_len p)" using x N by simp
  moreover have "nat (8 * pk_frag_offset p) + nat (x - 8 * pk_frag_offset p) = nat x" using x N by simp
  ultimately show ?thesis using N by (simp add: nth_drop)
qed

lemma honest_mod: "honest D snaplen p \<Longrightarrow> pk_mf p \<Longrightarrow> (8 * pk_frag_offset p + pk_frag_len p) mod 8 = 0"
  by (auto simp: honest_def)

lemma honest_insert:
  assumes h: "honest D snaplen p" and t: "holds_of D t"
  shows "insert_at p t = 8 * pk_frag_offset p" "insert_end p t = 8 * pk_frag_offset p + pk_frag_len p"
proof -
  have "ft_policy t \<noteq> FRAG_POLICY_SOLARIS" using t by (auto simp: holds_of_def whole_policies_def)
  then have "fst (Frag3CheckFirstLast p t) \<noteq> FRAG_LAST_OFFSET_ADJUST"
    by (auto simp: Frag3CheckFirstLast_def Let_def)
  then show "insert_at p t = 8 * pk_frag_offset p" by (simp add: insert_at_def)
  then show "insert_end p t = 8 * pk_frag_offset p + pk_frag_len p"
    using honest_mod [OF h] by (simp add: insert_end_def Let_def)
qed

text \<open>The flags and the size after \<open>Frag3CheckFirstLast\<close>.\<close>

lemma honest_first_last:
  assumes h: "honest D snaplen p" and c: "0 \<le> ft_calculated_size t" "ft_calculated_size t \<le> int (length D)"
    "ft_flags t AND FRAG_GOT_LAST \<noteq> 0 \<longrightarrow> ft_calculated_size t = int (length D)" "ft_policy t \<noteq> FRAG_POLICY_SOLARIS"
  defines "t' \<equiv> snd (Frag3CheckFirstLast p t)"
  shows "0 \<le> ft_calculated_size t'" "ft_calculated_size t' \<le> int (length D)"
    "ft_flags t' AND FRAG_GOT_LAST \<noteq> 0 \<longrightarrow> ft_calculated_size t' = int (length D)"
proof -
  note N = honest_numbers [OF h]
  have L: "\<not> pk_mf p \<longrightarrow> 8 * pk_frag_offset p + pk_frag_len p = int (length D)" using h by (simp add: honest_def)
  have "0 \<le> ft_calculated_size t' \<and> ft_calculated_size t' \<le> int (length D)
    \<and> (ft_flags t' AND FRAG_GOT_LAST \<noteq> 0 \<longrightarrow> ft_calculated_size t' = int (length D))"
    using c L N by (auto simp: t'_def Frag3CheckFirstLast_def Let_def or_and_last)
  then show "0 \<le> ft_calculated_size t'" "ft_calculated_size t' \<le> int (length D)"
    "ft_flags t' AND FRAG_GOT_LAST \<noteq> 0 \<longrightarrow> ft_calculated_size t' = int (length D)" by auto
qed

section \<open>One insertion\<close>

lemma rejected_fields:
  assumes "rejected t r t'"
  shows "ft_policy t' = ft_policy t" "ft_calculated_size t' = ft_calculated_size t"
    "ft_flags t' AND FRAG_GOT_LAST = ft_flags t AND FRAG_GOT_LAST"
proof -
  have "ft_policy t' = ft_policy t \<and> ft_calculated_size t' = ft_calculated_size t
      \<and> (ft_flags t' = ft_flags t \<or> ft_flags t' = ft_flags t OR FRAG_BAD)"
    using assms ft_core_fields [of t' t] ft_core_fields [of t' "t\<lparr>ft_flags := ft_flags t OR FRAG_BAD\<rparr>"]
    unfolding rejected_def by (elim disjE conjE) simp_all
  then show "ft_policy t' = ft_policy t" "ft_calculated_size t' = ft_calculated_size t"
    "ft_flags t' AND FRAG_GOT_LAST = ft_flags t AND FRAG_GOT_LAST"
    by (auto simp: or_and_last)
qed

lemma insert_holds:
  assumes h: "honest D snaplen p" and t: "holds_of D t"
  shows "\<exists>r t' st'. Frag3Insert snaplen cfg context key p t st = Some (r, t', st') \<and> holds_of D t'"
proof -
  define s b where "s = 8 * pk_frag_offset p" and "b = 8 * pk_frag_offset p + pk_frag_len p"
  note N = honest_numbers [OF h]
  have T: "ft_policy t \<in> whole_policies" "flist_wf (ft_fraglist t)" "ft_bytes t = flist_size (ft_fraglist t)"
    "0 \<le> ft_calculated_size t" "ft_calculated_size t \<le> int (length D)"
    "ft_flags t AND FRAG_GOT_LAST \<noteq> 0 \<longrightarrow> ft_calculated_size t = int (length D)"
    and TB: "flist_byte (ft_fraglist t) x = Some v \<Longrightarrow> x < int (length D) \<and> v = D ! nat x" for x v
    using t by (auto simp: holds_of_def)
  have pol: "ft_policy t \<noteq> FRAG_POLICY_SOLARIS" using T(1) by (auto simp: whole_policies_def)
  have p: "pkt_ok snaplen p" using h by (simp add: honest_def)
  note F = honest_first_last [OF h T(4-6) pol]
  note E = honest_insert [OF h t, folded s_def b_def]
  have b: "s < b" "b \<le> int (length D)" "b \<le> 65535" using N by (simp_all add: s_def b_def)
  from Frag3Insert_cases [OF p T(4), of cfg "context" key st, unfolded E] show ?thesis
  proof (rule disjE, goal_cases)
    case 1
    then show ?thesis using b F(3)
      by (metis linorder_not_less order_less_irrefl)
  next
    case 2
    then obtain e ft4 st4 where e: "Frag3Insert snaplen cfg context key p t st =
          map_option (\<lambda>(r, s). (r, (is_ft s)\<lparr>ft_fraglist := cursor_list (is_cur s)\<rparr>, is_st s))
            (insert_body e (ie_start e) ft4 st4)" "env_ok e" "ie_start e = s" "ie_end e = b"
        "ie_pkt e = p" "ft_fraglist ft4 = ft_fraglist t" "ft_bytes ft4 = ft_bytes t" "ft_policy ft4 = ft_policy t"
        "ft_flags ft4 = ft_flags (snd (Frag3CheckFirstLast p t))"
        "ft_calculated_size ft4 = (if b > ft_calculated_size (snd (Frag3CheckFirstLast p t))
             \<and> (pk_mf p \<or> fst (Frag3CheckFirstLast p t) = FRAG_LAST_OFFSET_ADJUST)
           then b else ft_calculated_size (snd (Frag3CheckFirstLast p t)))" by blast
    have "one_piece (ft_policy ft4) (ie_start e) (ie_end e) (ft_fraglist ft4)"
      using T(1) e(8) by (auto simp: one_piece_def whole_policies_def)
    then obtain r s' where x: "insert_body e (ie_start e) ft4 st4 = Some (r, s')" "insert_ok e ft4 0 (ft_fraglist ft4) (r, s')"
      using insert_body_correct [OF e(2), of ft4 0 st4] T(2,3) e(6,7) by auto
    define t' where "t' = (is_ft s')\<lparr>ft_fraglist := cursor_list (is_cur s')\<rparr>"
    have I: "Frag3Insert snaplen cfg context key p t st = Some (r, t', is_st s')" using e(1) x(1) by (simp add: t'_def)
    note K = insert_okD [OF x(2), unfolded e(3-6,8)]
    have c4: "0 \<le> ft_calculated_size ft4" "ft_calculated_size ft4 \<le> int (length D)"
      "ft_flags ft4 AND FRAG_GOT_LAST \<noteq> 0 \<longrightarrow> ft_calculated_size ft4 = int (length D)"
      using F b e(9,10) by auto
    have c': "ft_policy t' = ft_policy ft4" "ft_calculated_size t' = ft_calculated_size ft4"
      "ft_flags t' AND FRAG_GOT_LAST = ft_flags ft4 AND FRAG_GOT_LAST"
      using rejected_fields [OF K(3)] by (simp_all add: t'_def)
    have B: "x < int (length D) \<and> v = D ! nat x" if v: "flist_byte (ft_fraglist t') x = Some v" for x v
    proof (cases "r = FRAG_INSERT_OK")
      case False
      then have "flist_byte (ft_fraglist t) x = Some v" using v K(7) by (simp add: t'_def)
      then show ?thesis by (rule TB)
    next
      case True
      then have m: "merge_byte (ft_policy ft4) s b (\<lambda>x. pk_frag_start p ! nat (x - s)) (ft_fraglist t) x = Some v"
        using v K(5) e(8) by (simp add: t'_def)
      show ?thesis
      proof (cases "s \<le> x \<and> x < b \<and> (\<forall>f \<in> set (ft_fraglist t). frag_covers f x \<longrightarrow> \<not> keeps_old (ft_policy ft4) s b f)")
        case True
        then have "v = pk_frag_start p ! nat (x - s)" using m by (simp add: merge_byte_def)
        then show ?thesis using honest_byte [OF h, of x] True b by (simp add: s_def b_def)
      next
        case False
        then have "flist_byte (ft_fraglist t) x = Some v"
          using m by (simp only: merge_byte_def if_not_P [OF False] if_False)
        then show ?thesis by (rule TB)
      qed
    qed
    have "holds_of D t'"
      unfolding holds_of_def using B c' c4 T(1) e(8) K(1,2) by (simp add: t'_def)
    then show ?thesis using I by blast
  qed
qed

section \<open>The rebuilt datagram\<close>

lemma SafeMemcpy_nth:
  assumes "SafeMemcpy dst src start buf = Some buf'"
  shows "length buf' = length buf" "i < length buf \<Longrightarrow>
    buf' ! i = (if dst \<le> i \<and> i < dst + length src then src ! (i - dst) else buf ! i)"
    "src \<noteq> [] \<Longrightarrow> dst + length src \<le> length buf"
  using assms by (auto simp: SafeMemcpy_def nth_append split: if_splits)

text \<open>The walk writes every byte of the list to its place.\<close>

lemma rebuild_frags_bytes:
  assumes "flist_wf fs" "\<forall>f \<in> set fs. fr_end f \<le> c" "0 \<le> c" "c < 65536"
  shows "rebuild_frags start c fs buf \<noteq> BadRead"
    "rebuild_frags start c fs buf = Rebuilt buf' \<Longrightarrow> length buf' = length buf \<and> (\<forall>i < length buf. buf' ! i =
       (case flist_byte fs (int i - int start) of Some v \<Rightarrow> v | None \<Rightarrow> buf ! i))
     \<and> (\<forall>f \<in> set fs. int start + fr_end f \<le> int (length buf))"
proof -
  have "rebuild_frags start c fs buf \<noteq> BadRead \<and>
     (rebuild_frags start c fs buf = Rebuilt buf' \<longrightarrow> length buf' = length buf \<and> (\<forall>i < length buf. buf' ! i =
       (case flist_byte fs (int i - int start) of Some v \<Rightarrow> v | None \<Rightarrow> buf ! i))
     \<and> (\<forall>f \<in> set fs. int start + fr_end f \<le> int (length buf)))"
    using assms(1,2)
  proof (induction fs arbitrary: buf)
    case (Cons f fs)
    define src where "src = take (nat (fr_size f)) (drop (nat (fr_data f)) (fr_fptr f))"
    have f: "0 \<le> fr_offset f" "0 < fr_size f" "fr_end f \<le> c" "fr_end f = fr_offset f + fr_size f" "0 \<le> fr_data f"
      "fr_data f + fr_size f \<le> int (length (fr_fptr f))" "flist_wf fs" "\<forall>g \<in> set fs. fr_end f \<le> fr_offset g"
      using Cons.prems by (auto simp: flist_wf_Cons frag_wf_def fr_end_def)
    have src: "length src = nat (fr_size f)" "src \<noteq> []"
      using f by (auto simp: src_def)
    have byte: "src ! (i - (start + nat (fr_offset f))) = fr_byte f (int i - int start)"
      if "start + nat (fr_offset f) \<le> i" "i < start + nat (fr_offset f) + nat (fr_size f)" for i
    proof -
      define j where "j = i - (start + nat (fr_offset f))"
      have j: "nat (fr_data f) + j = nat (fr_data f + (int i - int start - fr_offset f))" "j < nat (fr_size f)"
        "nat (fr_data f) \<le> length (fr_fptr f)"
        using that f by (simp_all add: j_def)
      show ?thesis
        unfolding src_def fr_byte_def j_def [symmetric] nth_take [OF j(2)] nth_drop [OF j(3)] j(1) ..
    qed
    show ?case
    proof (cases "SafeMemcpy (start + nat (fr_offset f)) src start buf")
      case None
      then show ?thesis using f assms(3,4) by (simp add: src_def)
    next
      case (Some buf1)
      note S = SafeMemcpy_nth [OF Some]
      have r: "rebuild_frags start c (f # fs) buf = rebuild_frags start c fs buf1"
        using Some f assms(3,4) by (simp add: src_def)
      note IH = Cons.IH [of buf1, OF f(7)]
      have tail: "flist_byte fs (int i - int start) = None" if "int i - int start < fr_end f" for i
        using f(8) that by (rule flist_byte_after)
      show ?thesis
        unfolding r
      proof (intro conjI impI allI ballI)
        show "rebuild_frags start c fs buf1 \<noteq> BadRead" using IH Cons.prems by simp
      next
        fix i assume R: "rebuild_frags start c fs buf1 = Rebuilt buf'" and i: "i < length buf"
        then have b': "buf' ! i = (case flist_byte fs (int i - int start) of Some v \<Rightarrow> v | None \<Rightarrow> buf1 ! i)"
          using IH Cons.prems S(1) by simp
        show "buf' ! i = (case flist_byte (f # fs) (int i - int start) of Some v \<Rightarrow> v | None \<Rightarrow> buf ! i)"
        proof (cases "frag_covers f (int i - int start)")
          case True
          then have ir: "start + nat (fr_offset f) \<le> i" "i < start + nat (fr_offset f) + nat (fr_size f)"
            "int i - int start < fr_end f"
            using f by (auto simp: frag_covers_def)
          then show ?thesis using b' tail [OF ir(3)] S(2) [OF i] byte [OF ir(1,2)] True src by simp
        next
          case False
          then have "\<not> (start + nat (fr_offset f) \<le> i \<and> i < start + nat (fr_offset f) + nat (fr_size f))"
            using f by (auto simp: frag_covers_def)
          then have "buf1 ! i = buf ! i" using S(2) [OF i] src(1) by auto
          then show ?thesis using b' False by (simp split: option.split)
        qed
      next
        fix g assume R: "rebuild_frags start c fs buf1 = Rebuilt buf'" and g: "g \<in> set (f # fs)"
        have "int start + fr_end f \<le> int (length buf)" using S(3) [OF src(2)] src f by simp
        then show "int start + fr_end g \<le> int (length buf)" using g IH Cons.prems R S(1) by auto
      qed (use IH Cons.prems S(1) in auto)
    qed
  qed simp
  then show "rebuild_frags start c fs buf \<noteq> BadRead"
    "rebuild_frags start c fs buf = Rebuilt buf' \<Longrightarrow> length buf' = length buf \<and> (\<forall>i < length buf. buf' ! i =
       (case flist_byte fs (int i - int start) of Some v \<Rightarrow> v | None \<Rightarrow> buf ! i))
     \<and> (\<forall>f \<in> set fs. int start + fr_end f \<le> int (length buf))" by blast+
qed

text \<open>What a rebuilt packet may be.\<close>

definition rebuilt_as :: "bytes \<Rightarrow> rebuilt option \<Rightarrow> bool" where
  "rebuilt_as D rb \<longleftrightarrow>
     (case rb of None \<Rightarrow> True | Some (Datagram options payload) \<Rightarrow> payload = D
      | Some RebuildError \<Rightarrow> True | Some RebuildBadRead \<Rightarrow> False)"

lemma holds_ends:
  assumes "holds_of D t" "f \<in> set (ft_fraglist t)"
  shows "fr_end f \<le> int (length D)"
proof -
  have "fr_offset f < fr_end f" using assms by (auto simp: holds_of_def flist_wf_def frag_wf_size)
  then have "frag_covers f (fr_end f - 1)" by (simp add: frag_covers_def)
  then have "flist_byte (ft_fraglist t) (fr_end f - 1) \<noteq> None" using assms(2) by (auto simp: flist_byte_None)
  then show ?thesis using assms(1) by (fastforce simp: holds_of_def)
qed

lemma complete_rebuilt:
  assumes t: "holds_of D t" and c: "Frag3IsComplete t" and D: "length D \<le> 65535"
  shows "rebuilt_as D (Some (fst (Frag3Rebuild buf p t)))"
proof -
  let ?fs = "ft_fraglist t" and ?n = "int (length D)"
  have T: "flist_wf ?fs" "ft_bytes t = flist_size ?fs" "ft_calculated_size t = ?n"
    and TB: "flist_byte ?fs x = Some v \<Longrightarrow> x < ?n \<and> v = D ! nat x" for x v
    using t c by (auto simp: holds_of_def Frag3IsComplete_def)
  have ends: "\<forall>f \<in> set ?fs. fr_end f \<le> ?n" using holds_ends [OF t] by blast
  have full: "flist_byte ?fs (int x) = Some (D ! x)" if "x < length D" for x
  proof -
    have "flist_byte ?fs (int x) \<noteq> None"
      using flist_covered [OF T(1) ends] T(2,3) c that by (auto simp: Frag3IsComplete_def)
    then show ?thesis using TB by fastforce
  qed
  define opts where "opts = (if pk_ip6 p then [] else case ft_options_data t of
        Some d \<Rightarrow> if ft_options_len t \<noteq> 0 then d else [] | None \<Rightarrow> [])"
  define t' where "t' = t\<lparr>ft_flags := ft_flags t OR FRAG_REBUILT\<rparr>"
  have n16: "nat (cu16 ?n) = length D" using D by simp
  have eq: "Frag3Rebuild buf p t = (case SafeMemcpy 0 opts 0 buf of
           None \<Rightarrow> (RebuildError, t')
         | Some buf1 \<Rightarrow>
             (case rebuild_frags (length opts) ?n ?fs buf1 of
                Rebuilt buf2 \<Rightarrow> (Datagram opts (take (length D) (drop (length opts) buf2)), t')
              | SafememError \<Rightarrow> (RebuildError, t')
              | BadRead \<Rightarrow> (RebuildBadRead, t)))"
    unfolding Frag3Rebuild_def Let_def opts_def [symmetric] t'_def [symmetric] T(3) n16 ..
  show ?thesis
  proof (cases "SafeMemcpy 0 opts 0 buf")
    case None
    then show ?thesis using eq by (simp add: rebuilt_as_def)
  next
    case (Some buf1)
    note R = rebuild_frags_bytes [OF T(1) ends, of "length opts" buf1]
    show ?thesis
    proof (cases "rebuild_frags (length opts) ?n ?fs buf1")
      case (Rebuilt buf2)
      have d: "0 \<le> ?n" "?n < 65536" using D by simp_all
      note r2 = R(2) [OF d Rebuilt]
      from r2 have B: "length buf2 = length buf1" "\<forall>f \<in> set ?fs. int (length opts) + fr_end f \<le> int (length buf1)"
        "\<And>i. i < length buf1 \<Longrightarrow> buf2 ! i = (case flist_byte ?fs (int i - int (length opts)) of Some v \<Rightarrow> v | None \<Rightarrow> buf1 ! i)"
        by blast+
      have n: "length opts + length D \<le> length buf1" if "D \<noteq> []"
      proof -
        have "flist_byte ?fs (int (length D - 1)) \<noteq> None" using full [of "length D - 1"] that by simp
        then obtain f where "f \<in> set ?fs" "frag_covers f (int (length D - 1))" by (auto simp: flist_byte_None)
        then show ?thesis using B(2) that by (fastforce simp: frag_covers_def)
      qed
      have "take (length D) (drop (length opts) buf2) = D"
      proof (cases "D = []")
        case False
        show ?thesis
        proof (rule nth_equalityI)
          fix x assume "x < length (take (length D) (drop (length opts) buf2))"
          then have "x < length D" by simp
          then show "take (length D) (drop (length opts) buf2) ! x = D ! x"
            using B(1) B(3) [of "length opts + x"] n [OF False] full [of x] by simp
        qed (use B(1) n [OF False] in simp)
      qed simp
      then show ?thesis using eq Some Rebuilt by (simp add: rebuilt_as_def)
    qed (use eq Some R(1) D in \<open>auto simp: rebuilt_as_def\<close>)
  qed
qed

section \<open>Trackers\<close>

lemma new_tracker_holds:
  "FragGetPolicy host_policy p context \<in> whole_policies \<Longrightarrow> holds_of D (new_tracker host_policy p key context)"
  by (simp add: holds_of_def new_tracker_def)

lemma first_frag_honest:
  assumes h: "honest D snaplen p"
  shows "flist_wf [first_frag p]" "fr_size (first_frag p) = pk_frag_len p"
    "frag_covers (first_frag p) x \<longleftrightarrow> 8 * pk_frag_offset p \<le> x \<and> x < 8 * pk_frag_offset p + pk_frag_len p"
    "flist_byte [first_frag p] x = Some v \<Longrightarrow> x < int (length D) \<and> v = D ! nat x"
proof -
  note N = honest_numbers [OF h]
  have pl: "pk_frag_len p = int (length (pk_frag_start p))" using h unfolding honest_def pkt_ok_def by blast
  have end8: "(8 * pk_frag_offset p + pk_frag_len p) AND NOT 7 = 8 * pk_frag_offset p + pk_frag_len p" if "pk_mf p"
    using honest_mod [OF h that] and_not_7 by simp
  have take: "take (nat (pk_frag_len p)) (pk_frag_start p) = pk_frag_start p" using pl by simp
  have f: "fr_offset (first_frag p) = 8 * pk_frag_offset p" "fr_size (first_frag p) = pk_frag_len p"
    "fr_data (first_frag p) = 0" "fr_fptr (first_frag p) = pk_frag_start p" "fr_flen (first_frag p) = pk_frag_len p"
    unfolding first_frag_def Let_def N(7-9) take using end8 N by simp_all
  have e: "fr_end (first_frag p) = 8 * pk_frag_offset p + pk_frag_len p" using f by (simp add: fr_end_def)
  have "frag_wf (first_frag p)" unfolding frag_wf_def e f pl [symmetric] using N pl by simp
  then show "flist_wf [first_frag p]" by (simp add: flist_wf_Cons)
  show "fr_size (first_frag p) = pk_frag_len p" using f by simp
  show c: "frag_covers (first_frag p) x \<longleftrightarrow> 8 * pk_frag_offset p \<le> x \<and> x < 8 * pk_frag_offset p + pk_frag_len p"
    by (simp add: frag_covers_def e f)
  assume v: "flist_byte [first_frag p] x = Some v"
  then have x: "8 * pk_frag_offset p \<le> x" "x < 8 * pk_frag_offset p + pk_frag_len p" and "v = fr_byte (first_frag p) x"
    using c by (auto split: if_splits)
  then have "v = pk_frag_start p ! nat (x - 8 * pk_frag_offset p)" using f by (simp add: fr_byte_def)
  then show "x < int (length D) \<and> v = D ! nat x" using honest_byte [OF h x] x N by simp
qed

lemma start_tracker_holds:
  assumes h: "honest D snaplen p" and pol: "FragGetPolicy host_policy p context \<in> whole_policies"
  shows "holds_of D (fst (start_tracker context p (new_tracker host_policy p key context) st))"
proof -
  let ?t0 = "new_tracker host_policy p key context"
  define t1 where "t1 = ?t0\<lparr>ft_ordinal := ft_ordinal ?t0 + 1, ft_fraglist := [first_frag p], ft_pkts := 1\<rparr>"
  define t2 where "t2 = snd (Frag3CheckFirstLast p t1)"
  define t3 where "t3 = t2\<lparr>ft_bytes := cu32 (ft_bytes t2 + pk_frag_len p)\<rparr>"
  note N = honest_numbers [OF h]
  note F0 = first_frag_honest [OF h]
  have t1: "ft_policy t1 = FragGetPolicy host_policy p context" "ft_flags t1 = 0" "ft_calculated_size t1 = 0"
    "ft_fraglist t1 = [first_frag p]" "ft_bytes t1 = 0"
    by (simp_all add: t1_def new_tracker_def)
  have "ft_policy t1 \<noteq> FRAG_POLICY_SOLARIS" using pol t1 by (auto simp: whole_policies_def)
  then have F: "0 \<le> ft_calculated_size t2" "ft_calculated_size t2 \<le> int (length D)"
    "ft_flags t2 AND FRAG_GOT_LAST \<noteq> 0 \<longrightarrow> ft_calculated_size t2 = int (length D)"
    using honest_first_last [OF h, of t1] t1 by (simp_all add: t2_def)
  have t3: "ft_policy t3 \<in> whole_policies" "ft_fraglist t3 = [first_frag p]" "ft_bytes t3 = pk_frag_len p"
    "ft_calculated_size t3 = ft_calculated_size t2" "ft_flags t3 = ft_flags t2"
    using pol t1 N by (simp_all add: t3_def t2_def CheckFirstLast_fields)
  have "holds_of D t3" unfolding holds_of_def using t3 F0(1,2,4) F by simp
  moreover have "start_tracker context p ?t0 st =
      Frag3HandleIPOptions p t3 (if pk_mf p \<and> cu16 (push_bit 3 (pk_frag_offset p) + pk_frag_len p) AND 7 \<noteq> 0
        then frag3_event context FRAG3_SHORT_FRAG st else st)"
    by (simp add: start_tracker_def Let_def t1_def t2_def t3_def)
  ultimately show ?thesis by (elim holds_of_cong) (simp_all add: HandleIPOptions_fields)
qed

text \<open>Every tracker holds bytes of the datagram its key stands for.\<close>

definition cache_holds :: "(fragkey \<Rightarrow> bytes) \<Rightarrow> frag3 \<Rightarrow> bool" where
  "cache_holds Ds st \<longleftrightarrow> (\<forall>e \<in> set (f3_cache st). holds_of (Ds (fst e)) (snd e))"

lemma cache_holds_sub: "cache_sub st st' \<Longrightarrow> cache_holds Ds st \<Longrightarrow> cache_holds Ds st'"
  by (auto simp: cache_sub_def cache_holds_def)

lemma cache_holds_same: "f3_cache st' = f3_cache st \<Longrightarrow> cache_holds Ds st \<Longrightarrow> cache_holds Ds st'"
  by (simp add: cache_holds_def)

lemma cache_holds_write: "cache_holds Ds st \<Longrightarrow> holds_of (Ds key) t \<Longrightarrow> cache_holds Ds (cache_write key t st)"
  by (auto simp: cache_holds_def cache_write_def)

lemma cache_holds_get:
  assumes "cache_holds Ds st"
  shows "cache_holds Ds (snd (Frag3GetTracker key st))"
    "fst (Frag3GetTracker key st) = Some t \<Longrightarrow> holds_of (Ds key) t"
proof -
  have E: "holds_of (Ds k) t" if "(k, t) \<in> set (f3_cache st)" for k t
    using assms that by (auto simp: cache_holds_def)
  then show "cache_holds Ds (snd (Frag3GetTracker key st))"
    "fst (Frag3GetTracker key st) = Some t \<Longrightarrow> holds_of (Ds key) t"
    by (auto simp: cache_holds_def Frag3GetTracker_def dest!: map_of_SomeD split: option.splits)
qed

lemma cache_holds_remove: "cache_holds Ds st \<Longrightarrow> cache_holds Ds (Frag3RemoveTracker cfg key st)"
  by (auto simp: cache_holds_def)

lemma DeleteTracker_cache [simp]: "f3_cache (snd (Frag3DeleteTracker cfg t st)) = f3_cache st"
  by (simp add: Frag3DeleteTracker_def)

lemma cache_get_node_holds:
  assumes "cache_get_node cfg key t st = Some st'" "cache_holds Ds st" "holds_of (Ds key) t"
  shows "cache_holds Ds st'"
proof -
  have E: "holds_of (Ds k) t" if "(k, t) \<in> set (f3_cache st)" for k t
    using assms(2) that by (auto simp: cache_holds_def)
  have "set (f3_cache st') \<subseteq> insert (key, t) (set (f3_cache st))"
    using assms(1) by (auto simp: cache_get_node_def Frag3DeleteTracker_def dest: in_set_butlastD split: if_splits)
  then show ?thesis using E assms(3) by (auto simp: cache_holds_def)
qed

lemma NewTracker_holds:
  assumes h: "honest (Ds key) snaplen p" and pol: "FragGetPolicy host_policy p context \<in> whole_policies"
    and st: "cache_holds Ds st"
  shows "cache_holds Ds (snd (Frag3NewTracker snaplen host_policy cfg context key p st))"
proof (cases "pk_frag_len p > snaplen \<or> cache_get_node cfg key (new_tracker host_policy p key context) st = None")
  case True
  then show ?thesis using st by (auto simp: Frag3NewTracker_def Let_def)
next
  case False
  then obtain st1 where st1: "cache_get_node cfg key (new_tracker host_policy p key context) st = Some st1" by auto
  obtain b st2 where st2: "get_frag cfg key (pk_frag_len p) st1 = (b, st2)" by fastforce
  obtain t' st3 where st3: "start_tracker context p (new_tracker host_policy p key context) st2 = (t', st3)" by fastforce
  have 1: "cache_holds Ds st1" using cache_get_node_holds [OF st1 st] new_tracker_holds [OF pol] by blast
  have 2: "cache_holds Ds st2" using cache_holds_sub [OF _ 1] get_frag_sub [of st1 cfg key "pk_frag_len p"] st2 by simp
  have "f3_cache (snd (start_tracker context p (new_tracker host_policy p key context) st2)) = f3_cache st2"
    by (simp add: start_tracker_def Let_def)
  then have 3: "cache_holds Ds st3" using cache_holds_same [OF _ 2] st3 by simp
  have "holds_of (Ds key) t'" using start_tracker_holds [OF h pol, of key st2] st3 by simp
  then show ?thesis using False st1 st2 st3 2 cache_holds_write [OF 3] by (cases b) (simp_all add: Frag3NewTracker_def Let_def)
qed

lemma reset_tracker_holds: "ft_policy t \<in> whole_policies \<Longrightarrow> ft_fraglist t = [] \<Longrightarrow> holds_of D (reset_tracker p context t)"
  by (simp add: holds_of_def reset_tracker_def)

section \<open>Whole runs\<close>

text \<open>The policies a configuration and the host table can give.\<close>

definition whole_config :: "(frag_pkt \<Rightarrow> frag_policy option) \<Rightarrow> frag3_config option \<Rightarrow> bool" where
  "whole_config host_policy eval_config \<longleftrightarrow>
     (\<forall>p. host_policy p = None \<or> the (host_policy p) \<in> whole_policies)
     \<and> (case eval_config of None \<Rightarrow> True | Some cfg \<Rightarrow>
          list_all (\<lambda>c. fx_policy c \<in> whole_policies) (cfg_contexts cfg)
          \<and> (case cfg_default_context cfg of None \<Rightarrow> True | Some c \<Rightarrow> fx_policy c \<in> whole_policies))"

lemma find_context_policy:
  assumes "whole_config host_policy (Some cfg)" "find_context cfg p = Some context"
  shows "FragGetPolicy host_policy p context \<in> whole_policies"
proof -
  have "fx_policy context \<in> whole_policies"
    using assms by (auto simp: whole_config_def find_context_def list_all_iff find_Some_iff split: option.splits)
  moreover have "host_policy p = None \<or> the (host_policy p) \<in> whole_policies"
    using assms(1) by (simp add: whole_config_def)
  ultimately show ?thesis by (auto simp: FragGetPolicy_def split: option.split)
qed

lemma rebuilt_as_none [simp]: "rebuilt_as D None" "do_rebuilt (no_out d) = None"
  by (simp_all add: rebuilt_as_def no_out_def)

text \<open>One packet: if its verdict is to drop it, the emptied tracker that stays is not described.\<close>

lemma Frag3Defrag_honest:
  assumes h: "pk_frag_flag p \<Longrightarrow> honest (Ds (frag_key p)) snaplen p"
    and c: "whole_config host_policy eval_config" and st: "cache_holds Ds st"
  shows "\<exists>out st'. Frag3Defrag snaplen host_policy verdict buf eval_config p st = Some (out, st')
    \<and> ((\<forall>b r. \<not> verdict b r) \<longrightarrow> cache_holds Ds st') \<and> rebuilt_as (Ds (frag_key p)) (do_rebuilt out)"
proof (cases "pk_frag_flag p")
  case False
  then show ?thesis using st by (simp add: Frag3Defrag_def no_out_def rebuilt_as_def)
next
  case True
  define key where "key = frag_key p"
  note h = h [OF True, folded key_def]
  define st1 where "st1 = snd (Frag3GetTracker key st)"
  note G = cache_holds_get [OF st, of key, folded st1_def]
  define found where "found = fst (Frag3GetTracker key st)"
  note F = Frag3Defrag_def [of snaplen host_policy verdict buf eval_config p st, unfolded Let_def,
      folded key_def, folded found_def st1_def]
  show ?thesis
  proof (cases eval_config)
    case None
    then show ?thesis using G(1) F True by simp
  next
    case (Some cfg)
    define ctxo where "ctxo = (case found of Some t \<Rightarrow> Some (ft_context t) | None \<Rightarrow> find_context cfg p)"
    show ?thesis
    proof (cases ctxo)
      case None
      then show ?thesis using G(1) F True Some by (simp add: ctxo_def)
    next
      case (Some "context")
      note C = \<open>eval_config = Some cfg\<close> Some
      show ?thesis
      proof (cases "pk_ttl p < fx_min_ttl context")
        case ttl: True
        then show ?thesis using cache_holds_same [OF cache_events(1) G(1)] F True C by (simp add: ctxo_def)
      next
        case ttl: False
        show ?thesis
        proof (cases found)
          case None
          have "find_context cfg p = Some context" using C(2) None by (simp add: ctxo_def)
          then have "FragGetPolicy host_policy p context \<in> whole_policies"
            using find_context_policy c C(1) by blast
          then show ?thesis using NewTracker_holds [OF h _ G(1)] F True C ttl None by (simp add: ctxo_def)
        next
          case (Some t0)
          have t0: "holds_of (Ds key) t0" using G(2) Some by (simp add: found_def)
          obtain expired t1 st2 where x: "Frag3Expire cfg p t0 context st1 = (expired, t1, st2)" by (metis prod_cases3)
          define t2 where "t2 = (if expired then reset_tracker p context t1 else t1)\<lparr>ft_time := pk_time p\<rparr>"
          have t2: "holds_of (Ds key) t2" and st2: "cache_holds Ds st2"
          proof -
            have "(if expired then t1 = t0\<lparr>ft_fraglist := [], ft_options_data := None\<rparr> else t1 = t0) \<and> f3_cache st2 = f3_cache st1"
              using x by (auto simp: Frag3Expire_def Frag3DeleteTracker_def split: if_splits)
            moreover have "ft_policy t0 \<in> whole_policies" using t0 by (simp add: holds_of_def)
            ultimately have "holds_of (Ds key) (if expired then reset_tracker p context t1 else t1)" "f3_cache st2 = f3_cache st1"
              using t0 reset_tracker_holds [of t1] by auto
            then show "holds_of (Ds key) t2" "cache_holds Ds st2"
              using cache_holds_same [OF _ G(1)] by (auto simp: t2_def elim: holds_of_cong)
          qed
          define blocked where "blocked = (ft_flags t2 AND FRAG_DROP_FRAGMENTS \<noteq> 0)"
          define out where "out = \<lparr>do_disable = (pk_frag_offset p \<noteq> 0 \<or> pk_proto p \<noteq> IPPROTO_UDP \<and> pk_mf p) \<or> blocked,
             do_drop = blocked, do_rebuilt = None\<rparr>"
          obtain ret t3 st3 where ins: "Frag3Insert snaplen cfg context key p t2 (cache_write key t2 st2) = Some (ret, t3, st3)"
            and t3: "holds_of (Ds key) t3" using insert_holds [OF h t2] by blast
          have st3: "cache_holds Ds st3"
            using cache_holds_sub [OF Frag3Insert_sub [OF ins]] cache_holds_write [OF st2 t2] by blast
          note st3w = cache_holds_write [OF st3 t3]
          have D: "Frag3Defrag snaplen host_policy verdict buf eval_config p st =
              (if ret \<noteq> FRAG_INSERT_OK \<or> \<not> Frag3IsComplete t3 then Some (out, cache_write key t3 st3)
               else case defrag_complete verdict buf cfg key p blocked t3 (cache_write key t3 st3) of
                    (dis, rb, st4) \<Rightarrow> Some (out\<lparr>do_disable := do_disable out \<or> dis, do_rebuilt := rb\<rparr>, st4))"
            unfolding F using True C ttl Some x ins
            by (simp add: ctxo_def t2_def [symmetric] blocked_def [symmetric] out_def)
          show ?thesis
          proof (cases "ret \<noteq> FRAG_INSERT_OK \<or> \<not> Frag3IsComplete t3")
            case True
            then show ?thesis using D st3w by (simp add: out_def rebuilt_as_def)
          next
            case False
            have len: "length (Ds key) \<le> 65535" using h by (simp add: honest_def)
            define rb where "rb = (if ft_flags t3 AND FRAG_BAD = 0 then Some (fst (Frag3Rebuild buf p t3)) else None)"
            define t4 where "t4 = (if ft_flags t3 AND FRAG_BAD = 0 then snd (Frag3Rebuild buf p t3) else t3)"
            have rb: "rebuilt_as (Ds key) rb"
              using complete_rebuilt [OF t3 _ len] False by (simp add: rb_def rebuilt_as_def)
            have "holds_of (Ds key) (t3\<lparr>ft_flags := ft_flags t3 OR FRAG_REBUILT\<rparr>)"
              using t3 by (rule holds_of_cong) (simp_all add: or_and_last)
            then have "holds_of (Ds key) t4"
              using t3 by (auto simp: t4_def Frag3Rebuild_def Let_def split: option.splits rebuild_result.splits)
            then have "cache_holds Ds (Frag3RemoveTracker cfg key (cache_write key t4 (cache_write key t3 st3)))"
              using cache_holds_remove [OF cache_holds_write [OF st3w]] by blast
            then show ?thesis
              using D False rb
              by (auto simp: defrag_complete_def Let_def rb_def [symmetric] t4_def [symmetric] key_def [symmetric] split: prod.split)
          qed
        qed
      qed
    qed
  qed
qed

text \<open>A sequence of packets, each with the contents of the buffer when it arrives; whether a packet
  was dropped when its datagram has been rebuilt and inspected is asked of \<open>verdict\<close>.\<close>

primrec defrag_all ::
    "int \<Rightarrow> (frag_pkt \<Rightarrow> frag_policy option) \<Rightarrow> (frag_pkt \<Rightarrow> bool \<Rightarrow> rebuilt option \<Rightarrow> bool) \<Rightarrow> frag3_config option \<Rightarrow>
     (frag_pkt \<times> bytes) list \<Rightarrow> frag3 \<Rightarrow> (defrag_out list \<times> frag3) option" where
  "defrag_all snaplen host_policy verdict eval_config [] st = Some ([], st)"
| "defrag_all snaplen host_policy verdict eval_config (pb # ps) st =
     (case Frag3Defrag snaplen host_policy (verdict (fst pb)) (snd pb) eval_config (fst pb) st of
        None \<Rightarrow> None
      | Some (out, st1) \<Rightarrow>
          map_option (\<lambda>(outs, st2). (out # outs, st2)) (defrag_all snaplen host_policy verdict eval_config ps st1))"

definition undropped :: "(frag_pkt \<Rightarrow> bool \<Rightarrow> rebuilt option \<Rightarrow> bool) \<Rightarrow> (frag_pkt \<times> bytes) list \<Rightarrow> bool" where
  "undropped verdict ps \<longleftrightarrow> (\<forall>pb \<in> set ps. \<forall>b r. \<not> verdict (fst pb) b r)"

lemma undropped_simps [simp]:
  "undropped verdict []"
  "undropped verdict (pb # ps) \<longleftrightarrow> (\<forall>b r. \<not> verdict (fst pb) b r) \<and> undropped verdict ps"
  by (simp_all add: undropped_def)

lemma defrag_all_undropped:
  "undropped verdict ps \<Longrightarrow>
    defrag_all snaplen host_policy verdict eval_config ps st = defrag_all snaplen host_policy (\<lambda>_ _ _. False) eval_config ps st"
proof (induction ps arbitrary: st)
  case (Cons pb ps)
  then have "verdict (fst pb) = (\<lambda>_ _. False)" by (simp add: fun_eq_iff)
  then show ?case using Cons by (simp split: option.split)
qed simp

lemma defrag_all_honest:
  assumes "\<forall>pb \<in> set ps. pk_frag_flag (fst pb) \<longrightarrow> honest (Ds (frag_key (fst pb))) snaplen (fst pb)"
    and c: "whole_config host_policy eval_config" and st: "cache_holds Ds st" and v: "undropped verdict (butlast ps)"
  shows "\<exists>outs st'. defrag_all snaplen host_policy verdict eval_config ps st = Some (outs, st')
    \<and> list_all2 (\<lambda>pb out. rebuilt_as (Ds (frag_key (fst pb))) (do_rebuilt out)) ps outs"
  using assms(1) st v
proof (induction ps arbitrary: st)
  case (Cons pb ps)
  obtain out st1 where 1: "Frag3Defrag snaplen host_policy (verdict (fst pb)) (snd pb) eval_config (fst pb) st = Some (out, st1)"
    "(\<forall>b r. \<not> verdict (fst pb) b r) \<longrightarrow> cache_holds Ds st1" "rebuilt_as (Ds (frag_key (fst pb))) (do_rebuilt out)"
    using Frag3Defrag_honest [OF _ c Cons.prems(2), of "fst pb" snaplen "verdict (fst pb)"] Cons.prems(1) by force
  show ?case
  proof (cases "ps = []")
    case True
    then show ?thesis using 1(1,3) by simp
  next
    case False
    then have "cache_holds Ds st1" "undropped verdict (butlast ps)" using 1(2) Cons.prems(3) by simp_all
    then show ?thesis using Cons.IH [of st1] Cons.prems(1) 1(1,3) by auto
  qed
qed simp

end
