(* ===== verification/Frag3Calm.thy ===== *)
theory Frag3Calm
  imports Frag3Safe
begin

text \<open>
  An insertion with enough preallocated nodes, no limit of overlaps and no contradiction about the
  end of the datagram is accepted, or the fragment had nothing new; it takes two nodes at most.
\<close>

definition calm_env :: "insert_env \<Rightarrow> frag_tracker \<Rightarrow> bool" where
  "calm_env e ft \<longleftrightarrow>
     cfg_use_prealloc (ie_cfg e) \<and> fx_overlap_limit (ie_context e) = 0 \<and> cu16 (ie_flen e) \<le> ie_snaplen e
     \<and> ft_policy ft \<in> whole_policies
     \<and> (pk_mf (ie_pkt e) \<or> ie_end e \<ge> ft_calculated_size ft
          \<and> (ft_flags ft AND FRAG_GOT_LAST = 0 \<or> ie_end e = ft_calculated_size ft))"

definition calm :: "frag_tracker \<Rightarrow> (fragkey \<times> frag_tracker) list \<Rightarrow> nat \<Rightarrow> insert_state \<Rightarrow> bool" where
  "calm ft C n s \<longleftrightarrow> ft_core (is_ft s) = ft_core ft \<and> n \<le> f3_prealloc (is_st s) \<and> f3_cache (is_st s) = C"

lemma calm_mono: "calm ft C n s \<Longrightarrow> m \<le> n \<Longrightarrow> calm ft C m s"
  by (simp add: calm_def)

lemma calm_no_teardrop: "calm_env e ft \<Longrightarrow> calm ft C n s \<Longrightarrow> \<not> teardrop e s"
  using ft_core_fields [of "is_ft s" ft] by (auto simp: calm_env_def calm_def teardrop_def)

lemma calm_policy: "calm_env e ft \<Longrightarrow> calm ft C n s \<Longrightarrow> ft_policy (is_ft s) \<in> whole_policies"
  using ft_core_fields [of "is_ft s" ft] by (auto simp: calm_env_def calm_def)

lemma get_frag_calm:
  assumes "cfg_use_prealloc cfg" "Suc n \<le> f3_prealloc st"
  shows "\<exists>st'. get_frag cfg key len st = (True, st') \<and> n \<le> f3_prealloc st' \<and> f3_cache st' = f3_cache st"
  using assms by (subst get_frag_def, subst prealloc_get.simps) (auto simp: Frag3PreallocPop_def)

lemma prealloc_events [simp]:
  "f3_prealloc (frag3_event c ev st) = f3_prealloc st" "f3_prealloc (checkTinyFragments c p n st) = f3_prealloc st"
  by (simp_all add: frag3_event_def checkTinyFragments_def)

lemma calm_steps:
  assumes "calm ft C n s"
  shows "calm ft C n (move_new k s)" "calm ft C n (cut_left l k s)" "calm ft C n (skip_right r s)"
    "cfg_use_prealloc (ie_cfg e) \<Longrightarrow> calm ft C n (delete_empty_left e s)"
    "cfg_use_prealloc (ie_cfg e) \<Longrightarrow> calm ft C n (drop_right e r s)"
    "cfg_use_prealloc (ie_cfg e) \<Longrightarrow> calm ft C n (right_partial e r k s)"
  using assms
  by (auto simp: calm_def move_new_def cut_left_def skip_right_def delete_empty_left_def drop_right_def delete_right_def
      right_partial_def cut_right_def Let_def Frag3DeleteFrag_def Frag3PreallocPush_def split: option.split)

lemma AddFragNode_calm:
  assumes "calm_env e ft" "calm ft C (Suc n) s" "AddFragNode e b s = Some (r, s')"
  shows "r \<in> {FRAG_INSERT_OK, FRAG_INSERT_ANOMALY} \<and> calm ft C n s'"
proof -
  obtain st1 where "get_frag (ie_cfg e) (ie_key e) (ie_flen e) (is_st s) = (True, st1)" "n \<le> f3_prealloc st1"
      "f3_cache st1 = f3_cache (is_st s)"
    using get_frag_calm [of "ie_cfg e" n "is_st s"] assms by (auto simp: calm_env_def calm_def)
  then show ?thesis using assms(2,3)
    by (auto simp: AddFragNode_def Let_def calm_def split: if_splits)
qed

lemma DupFragNode_calm:
  assumes "calm_env e ft" "calm ft C (Suc n) s"
  shows "\<exists>s'. DupFragNode e l s = (FRAG_INSERT_OK, s') \<and> calm ft C n s'"
proof -
  obtain st1 where "get_frag (ie_cfg e) (ie_key e) (fr_flen l) (is_st s) = (True, st1)" "n \<le> f3_prealloc st1"
      "f3_cache st1 = f3_cache (is_st s)"
    using get_frag_calm [of "ie_cfg e" n "is_st s"] assms by (auto simp: calm_env_def calm_def)
  then show ?thesis using assms(2) by (simp add: DupFragNode_def Let_def calm_def)
qed

lemma calm_updates [simp]:
  "calm ft C n (s\<lparr>is_cur := c\<rparr>) = calm ft C n s" "calm ft C n (s\<lparr>is_trunc := k\<rparr>) = calm ft C n s"
  "calm ft C n (s\<lparr>is_alerted := a\<rparr>) = calm ft C n s" "calm ft C n (s\<lparr>is_ft := less_bytes k (is_ft s)\<rparr>) = calm ft C n s"
  "calm ft C n (s\<lparr>is_ft := count_overlap (is_ft s)\<rparr>) = calm ft C n s"
  "calm ft C n (s\<lparr>is_cur := c, is_ft := less_bytes k (is_ft s)\<rparr>) = calm ft C n s"
  "calm ft C n (s\<lparr>is_st := frag3_event ctx ev (is_st s)\<rparr>) = calm ft C n s"
  "calm ft C n (s\<lparr>is_st := frag3_event ctx ev (is_st s), is_alerted := a, is_ft := count_overlap (is_ft s)\<rparr>) = calm ft C n s"
  "calm ft C n (s\<lparr>is_st := checkTinyFragments ctx p m (is_st s)\<rparr>) = calm ft C n s"
  by (simp_all add: calm_def)

lemma left_policy_last_calm:
  assumes e: "calm_env e ft" and c: "calm ft C (Suc n) s"
  shows "\<exists>s'. left_policy_last e l k s = Inr s' \<and> calm ft C n s'"
proof -
  have p: "cfg_use_prealloc (ie_cfg e)" using e by (simp add: calm_env_def)
  have c': "calm ft C n s" using calm_mono [OF c] by simp
  show ?thesis
  proof (cases "fr_offset l < is_offset s \<and> fr_end l > is_offset s + ie_len e")
    case True
    obtain s1 where s1: "DupFragNode e l s = (FRAG_INSERT_OK, s1)" "calm ft C n s1"
      using DupFragNode_calm [OF e c] by blast
    note c2 = calm_steps(2) [OF s1(2), of l k]
    show ?thesis using True s1(1) c2 calm_steps(4) [OF _ p]
      by (auto simp: left_policy_last_def Let_def split: option.split)
  next
    case False
    then show ?thesis using calm_steps(4) [OF calm_steps(2) [OF c'] p]
      by (auto simp: left_policy_last_def)
  qed
qed

definition sum_calm :: "frag_tracker \<Rightarrow> (fragkey \<times> frag_tracker) list \<Rightarrow> nat \<Rightarrow> (insert_ret \<times> insert_state) + insert_state \<Rightarrow> bool" where
  "sum_calm ft C n x \<longleftrightarrow> (case x of Inl (r, s') \<Rightarrow> r = FRAG_INSERT_ANOMALY \<and> calm ft C n s' | Inr s' \<Rightarrow> calm ft C n s')"

lemma left_policy_calm:
  assumes e: "calm_env e ft" and c: "calm ft C (Suc n) s"
  shows "sum_calm ft C n (left_policy e l k s)"
proof -
  have p: "cfg_use_prealloc (ie_cfg e)" using e by (simp add: calm_env_def)
  have c': "calm ft C n s" using calm_mono [OF c] by simp
  note m = calm_steps(1) [OF c', of k]
  have "ft_policy (is_ft s) \<in> whole_policies" using calm_policy [OF e c] .
  then show ?thesis
    using left_policy_last_calm [OF e c, of l k] m calm_steps(4) [OF m p]
    by (auto simp: whole_policies_def left_policy_def sum_calm_def Let_def)
qed

lemma left_overlap_calm:
  assumes e: "calm_env e ft" and c: "calm ft C (Suc n) s"
  shows "sum_calm ft C n (left_overlap e s)"
proof -
  have c': "calm ft C n s" using calm_mono [OF c] by simp
  define s1 where "s1 = s\<lparr>is_ft := count_overlap (is_ft s)\<rparr>"
  have c1: "calm ft C (Suc n) s1" using c by (simp add: s1_def)
  show ?thesis
  proof (cases "cur_left (is_cur s)")
    case (Some l)
    define k where "k = ci32 (fr_end l - is_offset s)"
    note P = left_policy_calm [OF e c1, of l k]
    show ?thesis
    proof (cases "k \<le> 0")
      case False
      then have eq: "left_overlap e s = (case left_policy e l k s1 of Inl r \<Rightarrow> Inl r
          | Inr s2 \<Rightarrow> if ie_end e < is_offset s2
              then Inl (FRAG_INSERT_ANOMALY, s2\<lparr>is_st := frag3_event (ie_context e) FRAG3_ANOMALY_BADSIZE_SM (is_st s2)\<rparr>)
              else Inr s2)"
        using Some calm_no_teardrop [OF e c1] by (simp add: left_overlap_def Let_def k_def s1_def)
      then show ?thesis using P by (cases "left_policy e l k s1") (auto simp: sum_calm_def)
    qed (use Some c' in \<open>simp add: left_overlap_def Let_def k_def sum_calm_def\<close>)
  qed (use c' in \<open>simp add: left_overlap_def sum_calm_def\<close>)
qed

lemma right_step_calm:
  assumes e: "calm_env e ft" and c: "calm ft C n s" and x: "right_step e r s = Some x"
  shows "\<exists>b s'. x = Inr (b, s') \<and> calm ft C n s'"
proof -
  have p: "cfg_use_prealloc (ie_cfg e)" using e by (simp add: calm_env_def)
  define s0 where "s0 = s\<lparr>is_trunc := 0\<rparr>"
  define s1 where "s1 = (if \<not> is_alerted s0 \<and> fx_detect_anomalies (ie_context e)
               then s0\<lparr>is_st := frag3_event (ie_context e) FRAG3_ANOMALY_OVLP (is_st s0),
                       is_alerted := True, is_ft := count_overlap (is_ft s0)\<rparr> else s0)"
  have c0: "calm ft C n s0" "calm ft C n s1" using c by (simp_all add: s0_def s1_def calm_def)
  have "ft_policy (is_ft s1) \<in> whole_policies" using calm_policy [OF e c0(2)] .
  then have "right_full e r k s0 = Some (Inr (drop_right e r s1))" for k
    by (auto simp: right_full_def Let_def s1_def [symmetric] whole_policies_def)
  then show ?thesis
    using x calm_no_teardrop [OF e c0(1)] calm_steps(5) [OF c0(2) p] calm_steps(6) [OF c0(1) p]
    by (auto simp: right_step_def Let_def s0_def [symmetric] split: if_splits)
qed

lemma right_loop_calm:
  assumes e: "calm_env e ft"
  shows "calm ft C n s \<Longrightarrow> right_loop m e s = Some x \<Longrightarrow> \<exists>s'. x = Inr s' \<and> calm ft C n s'"
proof (induction m arbitrary: s)
  case (Suc m)
  show ?case
  proof (cases "cur_right (is_cur s)")
    case (Some r)
    show ?thesis
    proof (cases "fr_offset r < ie_end e")
      case True
      with Suc.prems Some obtain y where y: "right_step e r s = Some y" by (cases "right_step e r s") auto
      then obtain b s' where b: "y = Inr (b, s')" "calm ft C n s'" using right_step_calm [OF e Suc.prems(1)] by blast
      show ?thesis using Suc.prems(2) Suc.IH [OF b(2)] b y Some True by (cases b) auto
    qed (use Suc.prems Some in auto)
  qed (use Suc.prems in auto)
qed simp

lemma insert_finish_calm:
  assumes e: "calm_env e ft" and c: "calm ft C (Suc n) s" and x: "insert_finish e s = Some (r, s')"
  shows "r \<in> {FRAG_INSERT_OK, FRAG_INSERT_ANOMALY} \<and> calm ft C n s'"
proof -
  define s1 where "s1 = s\<lparr>is_st := checkTinyFragments (ie_context e) (ie_pkt e)
                            (ie_len e - is_slide s - is_trunc s) (is_st s)\<rparr>"
  have c1: "calm ft C (Suc n) s1" using c by (simp add: s1_def)
  have "fx_overlap_limit (ie_context e) = 0" using e by (simp add: calm_env_def)
  then have "insert_finish e s = (if is_addthis s1 then AddFragNode e (ie_last e) s1 else Some (FRAG_INSERT_OK, s1))"
    by (simp add: insert_finish_def s1_def [symmetric])
  then have "AddFragNode e (ie_last e) s1 = Some (r, s') \<or> r = FRAG_INSERT_OK \<and> s' = s1"
    using x by (auto split: if_splits)
  then show ?thesis using AddFragNode_calm [OF e c1] calm_mono [OF c1, of n] by auto
qed

lemma insert_body_calm:
  assumes e: "calm_env e ft" and n: "Suc (Suc n) \<le> f3_prealloc st" and x: "insert_body e off ft st = Some (r, s')"
  shows "r \<in> {FRAG_INSERT_OK, FRAG_INSERT_ANOMALY} \<and> n \<le> f3_prealloc (is_st s') \<and> f3_cache (is_st s') = f3_cache st"
proof -
  define s where "s = \<lparr>is_st = st, is_ft = ft, is_cur = \<lparr>fc_left = takeWhile (\<lambda>f. fr_offset f < off) (ft_fraglist ft),
      fc_mid = [], fc_right = dropWhile (\<lambda>f. fr_offset f < off) (ft_fraglist ft)\<rparr>,
      is_offset = off, is_slide = 0, is_trunc = 0, is_alerted = False, is_addthis = True\<rparr>"
  have c: "calm ft (f3_cache st) (Suc (Suc n)) s" using n by (simp add: s_def calm_def)
  have body: "insert_body e off ft st = (case left_overlap e s of
        Inl x \<Rightarrow> Some x
      | Inr s1 \<Rightarrow> (case right_loop (Suc (length (fc_right (is_cur s1)))) e s1 of
                  None \<Rightarrow> None
                | Some (Inl x) \<Rightarrow> Some x
                | Some (Inr s2) \<Rightarrow> insert_finish e s2))"
    using e by (simp add: insert_body_def s_def calm_env_def split: sum.split)
  note L = left_overlap_calm [OF e c]
  show ?thesis
  proof (cases "left_overlap e s")
    case (Inl y)
    then show ?thesis using L x body by (auto simp: sum_calm_def calm_def)
  next
    case (Inr s1)
    then have c1: "calm ft (f3_cache st) (Suc n) s1" using L by (simp add: sum_calm_def)
    obtain y where y: "right_loop (Suc (length (fc_right (is_cur s1)))) e s1 = Some y"
      using x body Inr by (cases "right_loop (Suc (length (fc_right (is_cur s1)))) e s1") auto
    then obtain s2 where s2: "y = Inr s2" "calm ft (f3_cache st) (Suc n) s2" using right_loop_calm [OF e c1] by blast
    have "insert_finish e s2 = Some (r, s')" using x body Inr y s2 by (simp del: right_loop.simps)
    then show ?thesis using insert_finish_calm [OF e s2(2)] by (simp add: calm_def)
  qed
qed

end
