(* ===== verification/Frag3Live.thy ===== *)
theory Frag3Live
  imports Frag3Calm
begin

text \<open>
  Once all bytes of a datagram have arrived it is rebuilt, when there are nodes enough, no fragment
  is late and the overlaps are not limited.
\<close>

section \<open>One insertion\<close>

definition has_byte :: "frag_tracker \<Rightarrow> int \<Rightarrow> bool" where
  "has_byte t x \<longleftrightarrow> flist_byte (ft_fraglist t) x \<noteq> None"

definition in_frag :: "frag_pkt \<Rightarrow> int \<Rightarrow> bool" where
  "in_frag p x \<longleftrightarrow> 8 * pk_frag_offset p \<le> x \<and> x < 8 * pk_frag_offset p + pk_frag_len p"

text \<open>A true fragment of \<open>D\<close>: only the last one ends where \<open>D\<close> ends, and it is not the first.\<close>

definition proper :: "bytes \<Rightarrow> int \<Rightarrow> frag_pkt \<Rightarrow> bool" where
  "proper D snaplen p \<longleftrightarrow>
     honest D snaplen p \<and> pk_frag_flag p \<and> pk_options_len p = 0
     \<and> (if pk_mf p then 8 * pk_frag_offset p + pk_frag_len p < int (length D) else 0 < pk_frag_offset p)"

definition live :: "bytes \<Rightarrow> frag_tracker \<Rightarrow> bool" where
  "live D t \<longleftrightarrow>
     holds_of D t \<and> ft_flags t AND FRAG_BAD = 0 \<and> ft_options_data t = None
     \<and> (has_byte t 0 \<longrightarrow> ft_flags t AND FRAG_GOT_FIRST \<noteq> 0)
     \<and> (has_byte t (int (length D) - 1) \<longrightarrow> ft_flags t AND FRAG_GOT_LAST \<noteq> 0)"

lemma first_last_flags:
  fixes p t
  defines "t' \<equiv> snd (Frag3CheckFirstLast p t)"
  shows "ft_flags t AND FRAG_GOT_FIRST \<noteq> 0 \<or> pk_mf p \<and> pk_frag_offset p = 0 \<Longrightarrow> ft_flags t' AND FRAG_GOT_FIRST \<noteq> 0"
    "ft_flags t AND FRAG_GOT_LAST \<noteq> 0 \<or> \<not> pk_mf p \<and> 0 < pk_frag_offset p \<Longrightarrow> ft_flags t' AND FRAG_GOT_LAST \<noteq> 0"
    "ft_flags t' AND FRAG_BAD = ft_flags t AND FRAG_BAD"
  by (auto simp: t'_def Frag3CheckFirstLast_def Let_def frag_flag_defs bit.conj_disj_distrib2 or_eq_0_iff)

lemma merge_byte_None:
  "merge_byte pol s b new fs x = None \<longleftrightarrow> flist_byte fs x = None \<and> \<not> (s \<le> x \<and> x < b)"
  by (auto simp: merge_byte_def flist_byte_None)

lemma insert_live:
  assumes h: "proper D snaplen p" and t: "live D t"
    and c: "cfg_use_prealloc cfg" "fx_overlap_limit context = 0" "Suc (Suc n) \<le> f3_prealloc st"
  shows "\<exists>r t' st'. Frag3Insert snaplen cfg context key p t st = Some (r, t', st') \<and> live D t' \<and> n \<le> f3_prealloc st'
    \<and> f3_cache st' = f3_cache st \<and> ft_context t' = ft_context t \<and> ft_time t' = ft_time t
    \<and> (\<forall>x. has_byte t' x \<longleftrightarrow> has_byte t x \<or> in_frag p x)
    \<and> (r = FRAG_INSERT_OK \<or> (\<forall>x. in_frag p x \<longrightarrow> has_byte t x))"
proof -
  define s b where "s = 8 * pk_frag_offset p" and "b = 8 * pk_frag_offset p + pk_frag_len p"
  have h': "honest D snaplen p" "pk_options_len p = 0" and t': "holds_of D t"
    using h t by (auto simp: proper_def live_def)
  note N = honest_numbers [OF h'(1)]
  have T: "ft_policy t \<in> whole_policies" "flist_wf (ft_fraglist t)" "ft_bytes t = flist_size (ft_fraglist t)"
    "0 \<le> ft_calculated_size t" "ft_calculated_size t \<le> int (length D)"
    "ft_flags t AND FRAG_GOT_LAST \<noteq> 0 \<longrightarrow> ft_calculated_size t = int (length D)"
    using t' by (auto simp: holds_of_def)
  have pol: "ft_policy t \<noteq> FRAG_POLICY_SOLARIS" "ft_policy t \<noteq> FRAG_POLICY_BSD" using T(1) by (auto simp: whole_policies_def)
  have p: "pkt_ok snaplen p" using h' by (simp add: honest_def)
  note F = honest_first_last [OF h'(1) T(4-6) pol(1)]
  note E = honest_insert [OF h'(1) t', folded s_def b_def]
  have b: "s < b" "b \<le> int (length D)" "b \<le> 65535" using N by (simp_all add: s_def b_def)
  obtain r t2 st2 where I: "Frag3Insert snaplen cfg context key p t st = Some (r, t2, st2)" and ho: "holds_of D t2"
    using insert_holds [OF h'(1) t'] by blast
  from Frag3Insert_cases [OF p T(4), of cfg "context" key st, unfolded E] show ?thesis
  proof (rule disjE, goal_cases)
    case 1
    then show ?thesis using b F(3) by (metis linorder_not_less order_less_irrefl)
  next
    case 2
    then obtain e ft4 st4 where e: "Frag3Insert snaplen cfg context key p t st =
          map_option (\<lambda>(r, s). (r, (is_ft s)\<lparr>ft_fraglist := cursor_list (is_cur s)\<rparr>, is_st s))
            (insert_body e (ie_start e) ft4 st4)" "env_ok e" "ie_start e = s" "ie_end e = b"
        "ie_pkt e = p" "ft_fraglist ft4 = ft_fraglist t" "ft_bytes ft4 = ft_bytes t" "ft_policy ft4 = ft_policy t"
        "ft_flags ft4 = ft_flags (snd (Frag3CheckFirstLast p t))"
        "ft_calculated_size ft4 = (if b > ft_calculated_size (snd (Frag3CheckFirstLast p t))
             \<and> (pk_mf p \<or> fst (Frag3CheckFirstLast p t) = FRAG_LAST_OFFSET_ADJUST)
           then b else ft_calculated_size (snd (Frag3CheckFirstLast p t)))"
        "ie_cfg e = cfg" "ie_context e = context" "f3_prealloc st4 = f3_prealloc st"
        "ft_options_data ft4 = ft_options_data t" "f3_cache st4 = f3_cache st" "ft_context ft4 = ft_context t"
        "ft_time ft4 = ft_time t" using h'(2) by blast
    have op: "one_piece (ft_policy ft4) (ie_start e) (ie_end e) (ft_fraglist ft4)"
      using T(1) e(8) by (auto simp: one_piece_def whole_policies_def)
    obtain s' where x: "insert_body e (ie_start e) ft4 st4 = Some (r, s')" "insert_ok e ft4 0 (ft_fraglist ft4) (r, s')"
      and t2: "t2 = (is_ft s')\<lparr>ft_fraglist := cursor_list (is_cur s')\<rparr>" "st2 = is_st s'"
      using insert_body_correct [OF e(2) _ _ _ _ op, of 0 st4] T(2,3) e(1,6,7) I by auto
    note K = insert_okD [OF x(2), unfolded e(3-6,8)]
    have nl: "\<not> pk_mf p \<longrightarrow> b = int (length D)" using h' by (simp add: honest_def b_def)
    have "calm_env e ft4"
    proof -
      have "pk_mf p \<or> b \<ge> ft_calculated_size ft4 \<and> (ft_flags ft4 AND FRAG_GOT_LAST = 0 \<or> b = ft_calculated_size ft4)"
        using nl F e(9,10) by auto
      moreover have "cu16 (ie_flen e) \<le> ie_snaplen e" using e(2) by (simp add: env_ok_def ie_start_def)
      ultimately show ?thesis using c T(1) e(4,5,8,11,12) by (simp add: calm_env_def)
    qed
    then have r: "r \<in> {FRAG_INSERT_OK, FRAG_INSERT_ANOMALY}" and n: "n \<le> f3_prealloc st2" "f3_cache st2 = f3_cache st"
      using insert_body_calm [of e ft4 n st4 "ie_start e" r s'] c(3) e(13,15) x(1) t2(2) by auto
    have "ft_core (is_ft s') = ft_core ft4" using K(3) r by (auto simp: rejected_def)
    then have core: "ft_flags t2 = ft_flags (snd (Frag3CheckFirstLast p t))" "ft_options_data t2 = ft_options_data t"
      "ft_context t2 = ft_context t" "ft_time t2 = ft_time t"
      using ft_core_fields [of "is_ft s'" ft4] e(9,14,16,17) by (auto simp: t2(1))
    have anomaly: "has_byte t x" if "r \<noteq> FRAG_INSERT_OK" "in_frag p x" for x
      using K(8) [of x] r that pol(2) by (auto simp: has_byte_def in_frag_def s_def b_def)
    have bytes: "has_byte t2 x \<longleftrightarrow> has_byte t x \<or> in_frag p x" for x
    proof (cases "r = FRAG_INSERT_OK")
      case True
      have "flist_byte (ft_fraglist t2) x = merge_byte (ft_policy t) s b (\<lambda>x. pk_frag_start p ! nat (x - s)) (ft_fraglist t) x"
        using K(5) [OF True, of x] by (simp add: t2(1))
      then have "has_byte t2 x \<longleftrightarrow> \<not> (flist_byte (ft_fraglist t) x = None \<and> \<not> (s \<le> x \<and> x < b))"
        by (simp only: has_byte_def merge_byte_None)
      then show ?thesis by (simp add: has_byte_def in_frag_def s_def b_def)
    next
      case False
      then have "flist_byte (ft_fraglist t2) x = flist_byte (ft_fraglist t) x" using K(6) [of x] r by (simp add: t2(1))
      then show ?thesis using anomaly [OF False] by (auto simp: has_byte_def)
    qed
    have fl: "in_frag p 0 \<Longrightarrow> pk_mf p \<and> pk_frag_offset p = 0" "in_frag p (int (length D) - 1) \<Longrightarrow> \<not> pk_mf p \<and> 0 < pk_frag_offset p"
      using h N by (auto simp: in_frag_def proper_def split: if_splits)
    note G = first_last_flags [where t = t and p = p, folded core(1)]
    have "ft_flags t2 AND FRAG_GOT_FIRST \<noteq> 0" if "has_byte t2 0"
      using that bytes fl(1) t G(1) by (auto simp: live_def)
    moreover have "ft_flags t2 AND FRAG_GOT_LAST \<noteq> 0" if "has_byte t2 (int (length D) - 1)"
      using that bytes fl(2) t G(2) by (auto simp: live_def)
    moreover have "ft_flags t2 AND FRAG_BAD = 0 \<and> ft_options_data t2 = None" using t G(3) core(2) by (simp add: live_def)
    ultimately have "live D t2" using ho by (simp add: live_def)
    then show ?thesis using I bytes n anomaly core(3,4) by (intro exI [of _ r] exI [of _ t2] exI [of _ st2]) blast
  qed
qed

section \<open>Completion\<close>

lemma all_bytes_complete:
  assumes t: "live D t" and D: "D \<noteq> []" and all: "\<And>x. 0 \<le> x \<Longrightarrow> x < int (length D) \<Longrightarrow> has_byte t x"
  shows "Frag3IsComplete t"
proof -
  have T: "holds_of D t" using t by (simp add: live_def)
  then have w: "flist_wf (ft_fraglist t)" by (simp add: holds_of_def)
  have b: "\<forall>f \<in> set (ft_fraglist t). 0 \<le> fr_offset f \<and> fr_end f \<le> int (length D)"
    using holds_ends [OF T] flist_wf_bounds [OF w] by auto
  have "flist_size (ft_fraglist t) = int (length D) - 0"
    by (rule flist_size_full [OF w b]) (use all in \<open>auto simp: has_byte_def\<close>)
  moreover have "ft_flags t AND FRAG_GOT_FIRST \<noteq> 0" "ft_flags t AND FRAG_GOT_LAST \<noteq> 0"
    using t D all [of 0] all [of "int (length D) - 1"] by (auto simp: live_def)
  ultimately show ?thesis using T by (simp add: Frag3IsComplete_def holds_of_def)
qed

lemma SafeMemcpy_fits:
  "start \<le> dst \<Longrightarrow> dst + length src \<le> length buf \<Longrightarrow> \<exists>buf'. SafeMemcpy dst src start buf = Some buf' \<and> length buf' = length buf"
  by (cases src) (auto simp: SafeMemcpy_def)

lemma rebuild_frags_fits:
  "flist_wf fs \<Longrightarrow> \<forall>f \<in> set fs. fr_end f \<le> int (length buf) \<Longrightarrow> rebuild_frags 0 c fs buf \<noteq> SafememError"
proof (induction fs arbitrary: buf)
  case (Cons f fs)
  define src where "src = take (nat (fr_size f)) (drop (nat (fr_data f)) (fr_fptr f))"
  have f: "0 \<le> fr_offset f" "fr_end f = fr_offset f + fr_size f" "0 < fr_size f" "fr_end f \<le> int (length buf)" "flist_wf fs"
    using Cons.prems by (auto simp: flist_wf_Cons frag_wf_def fr_end_def)
  have "nat (fr_offset f) + length src \<le> length buf" using f by (simp add: src_def)
  then obtain buf' where "SafeMemcpy (nat (fr_offset f)) src 0 buf = Some buf'" "length buf' = length buf"
    using SafeMemcpy_fits [of 0 "nat (fr_offset f)" src buf] by auto
  then show ?case using Cons.IH [of buf'] Cons.IH [of buf] Cons.prems f by (simp add: src_def)
qed simp

lemma complete_datagram:
  assumes t: "live D t" and c: "Frag3IsComplete t" and D: "length D \<le> 65535" "length D \<le> length buf"
  shows "fst (Frag3Rebuild buf p t) = Datagram [] D"
proof -
  have T: "holds_of D t" "ft_options_data t = None" using t by (simp_all add: live_def)
  then have w: "flist_wf (ft_fraglist t)" by (simp add: holds_of_def)
  have "\<forall>f \<in> set (ft_fraglist t). fr_end f \<le> int (length buf)"
    using holds_ends [OF T(1)] D(2) by fastforce
  then have "rebuild_frags 0 (ft_calculated_size t) (ft_fraglist t) buf \<noteq> SafememError"
    by (rule rebuild_frags_fits [OF w])
  then have "fst (Frag3Rebuild buf p t) \<noteq> RebuildError" "\<forall>o1 d. fst (Frag3Rebuild buf p t) = Datagram o1 d \<longrightarrow> o1 = []"
    by (auto simp: Frag3Rebuild_def Let_def T(2) SafeMemcpy_def split: rebuild_result.splits)
  moreover have "rebuilt_as D (Some (fst (Frag3Rebuild buf p t)))" using complete_rebuilt [OF T(1) c D(1)] .
  ultimately show ?thesis by (cases "fst (Frag3Rebuild buf p t)") (auto simp: rebuilt_as_def)
qed

section \<open>One packet\<close>

text \<open>The tracker of \<open>D\<close> is the only one and misses a byte.\<close>

definition waiting :: "bytes \<Rightarrow> fragkey \<Rightarrow> frag3_context \<Rightarrow> nat \<Rightarrow> frag_tracker \<Rightarrow> frag3 \<Rightarrow> bool" where
  "waiting D key context n t st \<longleftrightarrow>
     f3_cache st = [(key, t)] \<and> live D t \<and> ft_context t = context \<and> n \<le> f3_prealloc st
     \<and> (\<exists>x. 0 \<le> x \<and> x < int (length D) \<and> \<not> has_byte t x)"

lemma live_time: "live D (t\<lparr>ft_time := n\<rparr>) = live D t" "has_byte (t\<lparr>ft_time := n\<rparr>) x = has_byte t x"
  by (simp_all add: live_def has_byte_def holds_of_def)

lemma Frag3Defrag_waiting:
  assumes w: "waiting D (frag_key p) context (Suc (Suc n)) t st" and p: "proper D snaplen p" "length D \<le> length buf"
    and c: "cfg_use_prealloc cfg" "fx_overlap_limit context = 0" "\<not> pk_ttl p < fx_min_ttl context"
    and time: "\<not> CheckTimeout (pk_time p) (ft_time t) context"
  shows "\<exists>out st'. Frag3Defrag snaplen host_policy (\<lambda>_ _. False) buf (Some cfg) p st = Some (out, st')
    \<and> (do_rebuilt out = Some (Datagram [] D)
       \<or> (\<exists>t'. waiting D (frag_key p) context n t' st' \<and> ft_time t' = pk_time p
            \<and> (\<forall>x. has_byte t' x \<longleftrightarrow> has_byte t x \<or> in_frag p x)))"
proof -
  define key where "key = frag_key p"
  have W: "f3_cache st = [(key, t)]" "live D t" "ft_context t = context" "Suc (Suc n) \<le> f3_prealloc st"
    using w by (simp_all add: waiting_def key_def)
  obtain miss where miss: "0 \<le> miss" "miss < int (length D)" "\<not> has_byte t miss" using w by (auto simp: waiting_def)
  have fr: "pk_frag_flag p" "honest D snaplen p" using p(1) by (simp_all add: proper_def)
  have D: "length D \<le> 65535" using fr(2) by (simp add: honest_def)
  have st: "Frag3GetTracker key st = (Some t, st)" by (simp add: Frag3GetTracker_def W(1))
  define t2 where "t2 = t\<lparr>ft_time := pk_time p\<rparr>"
  define st2 where "st2 = cache_write key t2 st"
  have s2: "f3_cache st2 = [(key, t2)]" "f3_prealloc st2 = f3_prealloc st"
    using W(1) by (simp_all add: st2_def cache_write_def)
  have l2: "live D t2" using W(2) by (simp add: t2_def live_time)
  obtain r t3 st3 where I: "Frag3Insert snaplen cfg context key p t2 st2 = Some (r, t3, st3)" "live D t3" "n \<le> f3_prealloc st3"
      "f3_cache st3 = f3_cache st2" "ft_context t3 = ft_context t2" "ft_time t3 = ft_time t2"
      "\<forall>x. has_byte t3 x \<longleftrightarrow> has_byte t2 x \<or> in_frag p x"
      "r = FRAG_INSERT_OK \<or> (\<forall>x. in_frag p x \<longrightarrow> has_byte t2 x)"
    using insert_live [OF p(1) l2 c(1,2), of n st2 key] s2(2) W(4) by auto
  have b3: "has_byte t3 x \<longleftrightarrow> has_byte t x \<or> in_frag p x" for x using I(7) by (simp add: t2_def live_time)
  define blocked where "blocked = (ft_flags t2 AND FRAG_DROP_FRAGMENTS \<noteq> 0)"
  define out where "out = \<lparr>do_disable = (pk_frag_offset p \<noteq> 0 \<or> pk_proto p \<noteq> IPPROTO_UDP \<and> pk_mf p) \<or> blocked,
             do_drop = blocked, do_rebuilt = None\<rparr>"
  have F: "Frag3Defrag snaplen host_policy (\<lambda>_ _. False) buf (Some cfg) p st =
      (if r \<noteq> FRAG_INSERT_OK \<or> \<not> Frag3IsComplete t3 then Some (out, cache_write key t3 st3)
       else case defrag_complete (\<lambda>_ _. False) buf cfg key p blocked t3 (cache_write key t3 st3) of
            (dis, rb, st4) \<Rightarrow> Some (out\<lparr>do_disable := do_disable out \<or> dis, do_rebuilt := rb\<rparr>, st4))"
    using fr(1) W(3) c(3) time I(1)
    by (simp add: Frag3Defrag_def Let_def key_def [symmetric] st Frag3Expire_def t2_def [symmetric] st2_def [symmetric]
        blocked_def [symmetric] out_def)
  have wait: "waiting D key context n t3 (cache_write key t3 st3)" if "\<exists>x. 0 \<le> x \<and> x < int (length D) \<and> \<not> has_byte t3 x"
    using that I s2 W(3) by (simp add: waiting_def cache_write_def t2_def)
  have tm: "ft_time t3 = pk_time p" using I(6) by (simp add: t2_def)
  show ?thesis
  proof (cases "r = FRAG_INSERT_OK \<and> Frag3IsComplete t3")
    case True
    have "ft_flags t3 AND FRAG_BAD = 0" using I(2) by (simp add: live_def)
    then show ?thesis
      using F True complete_datagram [OF I(2) _ D p(2), of p] by (simp add: defrag_complete_def Let_def)
  next
    case False
    have "\<exists>x. 0 \<le> x \<and> x < int (length D) \<and> \<not> has_byte t3 x"
    proof (cases "r = FRAG_INSERT_OK")
      case True
      then have "\<not> Frag3IsComplete t3" using False by simp
      moreover have "D \<noteq> []" using miss by auto
      ultimately show ?thesis using all_bytes_complete [OF I(2)] by blast
    next
      case False
      then have "\<not> has_byte t3 miss" using I(8) miss(3) b3 by (auto simp: t2_def live_time)
      then show ?thesis using miss by blast
    qed
    then show ?thesis using F False wait tm b3 by (auto simp: key_def)
  qed
qed

text \<open>The first packet starts the tracker.\<close>

lemma start_tracker_live:
  fixes key st
  assumes p: "proper D snaplen p" and pol: "FragGetPolicy host_policy p context \<in> whole_policies"
  defines "t \<equiv> fst (start_tracker context p (new_tracker host_policy p key context) st)"
  shows "live D t" "ft_context t = context" "ft_time t = pk_time p" "has_byte t x \<longleftrightarrow> in_frag p x"
proof -
  let ?t0 = "new_tracker host_policy p key context"
  define t1 where "t1 = ?t0\<lparr>ft_ordinal := ft_ordinal ?t0 + 1, ft_fraglist := [first_frag p], ft_pkts := 1\<rparr>"
  have h: "honest D snaplen p" "pk_options_len p = 0" using p by (simp_all add: proper_def)
  note N = honest_numbers [OF h(1)]
  have t: "ft_fraglist t = [first_frag p]" "ft_flags t = ft_flags (snd (Frag3CheckFirstLast p t1))"
    "ft_options_data t = None" "ft_context t = context" "ft_time t = pk_time p"
    using h(2) by (simp_all add: t_def start_tracker_def Let_def HandleIPOptions_fields HandleIPOptions_data
        CheckFirstLast_fields t1_def) (simp_all add: new_tracker_def)
  have b: "has_byte t x \<longleftrightarrow> in_frag p x" for x
    using first_frag_honest(3) [OF h(1)] by (simp add: has_byte_def in_frag_def t)
  have fl: "in_frag p 0 \<Longrightarrow> pk_mf p \<and> pk_frag_offset p = 0" "in_frag p (int (length D) - 1) \<Longrightarrow> \<not> pk_mf p \<and> 0 < pk_frag_offset p"
    using p N by (auto simp: in_frag_def proper_def split: if_splits)
  note G = first_last_flags [where t = t1 and p = p, folded t(2)]
  have "ft_flags t1 AND FRAG_BAD = 0" by (simp add: t1_def new_tracker_def)
  then show "live D t"
    using start_tracker_holds [OF h(1) pol, of key st, folded t_def] b fl G t(3) by (auto simp: live_def)
  show "ft_context t = context" "ft_time t = pk_time p" "has_byte t x \<longleftrightarrow> in_frag p x" using t b by auto
qed

lemma proper_misses: "proper D snaplen p \<Longrightarrow> \<exists>x. 0 \<le> x \<and> x < int (length D) \<and> \<not> in_frag p x"
proof -
  assume p: "proper D snaplen p"
  then have N: "0 \<le> pk_frag_offset p" "0 < pk_frag_len p" "8 * pk_frag_offset p + pk_frag_len p \<le> int (length D)"
    using honest_numbers [of D snaplen p] by (auto simp: proper_def)
  show ?thesis
  proof (cases "pk_mf p")
    case True
    then show ?thesis using p N by (intro exI [of _ "int (length D) - 1"]) (auto simp: proper_def in_frag_def)
  next
    case False
    then show ?thesis using p N by (intro exI [of _ 0]) (auto simp: proper_def in_frag_def)
  qed
qed

lemma Frag3Defrag_first:
  assumes p: "proper D snaplen p" and c: "cfg_use_prealloc cfg" "\<not> pk_ttl p < fx_min_ttl context"
    and ctx: "find_context cfg p = Some context" and pol: "FragGetPolicy host_policy p context \<in> whole_policies"
    and st: "f3_cache st = []" "0 < f3_max_nodes st" "Suc n \<le> f3_prealloc st"
  shows "\<exists>out t st'. Frag3Defrag snaplen host_policy (\<lambda>_ _. False) buf (Some cfg) p st = Some (out, st')
    \<and> waiting D (frag_key p) context n t st' \<and> ft_time t = pk_time p \<and> (\<forall>x. has_byte t x \<longleftrightarrow> in_frag p x)"
proof -
  define key where "key = frag_key p"
  let ?t0 = "new_tracker host_policy p key context"
  have fr: "pk_frag_flag p" "honest D snaplen p" using p by (simp_all add: proper_def)
  then have len: "\<not> pk_frag_len p > snaplen" unfolding honest_def pkt_ok_def by linarith
  have g: "Frag3GetTracker key st = (None, st)" by (simp add: Frag3GetTracker_def st(1))
  obtain st1 where st1: "cache_get_node cfg key ?t0 st = Some st1" "f3_cache st1 = [(key, ?t0)]" "f3_prealloc st1 = f3_prealloc st"
    using st(1,2) by (cases "0 < f3_nodes st") (auto simp: cache_get_node_def)
  obtain st2 where st2: "get_frag cfg key (pk_frag_len p) st1 = (True, st2)" "n \<le> f3_prealloc st2" "f3_cache st2 = f3_cache st1"
    using get_frag_calm [OF c(1), of n st1 key "pk_frag_len p"] st1(3) st(3) by auto
  define t where "t = fst (start_tracker context p ?t0 st2)"
  define st3 where "st3 = snd (start_tracker context p ?t0 st2)"
  have st3: "f3_cache st3 = f3_cache st2" "f3_prealloc st3 = f3_prealloc st2"
    by (simp_all add: st3_def start_tracker_def Let_def HandleIPOptions_prealloc)
  note S = start_tracker_live [OF p pol, of key st2, folded t_def]
  have "Frag3NewTracker snaplen host_policy cfg context key p st = (True, cache_write key t st3)"
    using len st1(1) st2(1) by (simp add: Frag3NewTracker_def Let_def t_def st3_def split: prod.split)
  then have D: "Frag3Defrag snaplen host_policy (\<lambda>_ _. False) buf (Some cfg) p st =
      Some (no_out (pk_frag_offset p \<noteq> 0 \<or> pk_proto p \<noteq> IPPROTO_UDP \<and> pk_mf p), cache_write key t st3)"
    using fr(1) c(2) ctx by (simp add: Frag3Defrag_def Let_def key_def [symmetric] g)
  have "waiting D key context n t (cache_write key t st3)"
    using S proper_misses [OF p] st1 st2 st3 by (simp add: waiting_def cache_write_def)
  then show ?thesis using D S by (auto simp: key_def)
qed

section \<open>The whole run\<close>

definition run_ok :: "bytes \<Rightarrow> fragkey \<Rightarrow> int \<Rightarrow> frag3_config \<Rightarrow> frag3_context \<Rightarrow> (frag_pkt \<times> bytes) list \<Rightarrow> bool" where
  "run_ok D key snaplen cfg context ps \<longleftrightarrow>
     list_all (\<lambda>(p, buf). proper D snaplen p \<and> frag_key p = key \<and> length D \<le> length buf
       \<and> find_context cfg p = Some context \<and> fx_min_ttl context \<le> pk_ttl p) ps
     \<and> list_all (\<lambda>(p, _). list_all (\<lambda>(q, _). \<not> CheckTimeout (pk_time q) (pk_time p) context) ps) ps"

lemma run_waiting:
  assumes c: "cfg_use_prealloc cfg" "fx_overlap_limit context = 0" and wc: "whole_config host_policy (Some cfg)"
    and ps: "\<forall>(p, buf) \<in> set ps. proper D snaplen p \<and> frag_key p = key \<and> length D \<le> length buf \<and> fx_min_ttl context \<le> pk_ttl p"
    and time: "\<forall>(p, buf) \<in> set ps. \<forall>tm \<in> T. pk_time p \<in> T \<and> \<not> CheckTimeout (pk_time p) tm context"
  shows "waiting D key context (2 * length ps) t st \<Longrightarrow> ft_time t \<in> T \<Longrightarrow>
    (\<forall>x. 0 \<le> x \<and> x < int (length D) \<longrightarrow> has_byte t x \<or> (\<exists>(p, buf) \<in> set ps. in_frag p x)) \<Longrightarrow>
    \<exists>outs st'. defrag_all snaplen host_policy (\<lambda>_ _ _. False) (Some cfg) ps st = Some (outs, st')
      \<and> Some (Datagram [] D) \<in> do_rebuilt ` set outs"
  using ps time
proof (induction ps arbitrary: t st)
  case Nil
  then show ?case by (auto simp: waiting_def)
next
  case (Cons pb ps)
  obtain p buf where pb: "pb = (p, buf)" by (cases pb)
  have P: "proper D snaplen p" "frag_key p = key" "length D \<le> length buf" "\<not> pk_ttl p < fx_min_ttl context"
    and tm: "\<not> CheckTimeout (pk_time p) (ft_time t) context" "pk_time p \<in> T"
    using Cons.prems pb by auto
  have w: "waiting D (frag_key p) context (Suc (Suc (2 * length ps))) t st" using Cons.prems(1) P(2) by simp
  obtain out st1 where D: "Frag3Defrag snaplen host_policy (\<lambda>_ _. False) buf (Some cfg) p st = Some (out, st1)"
    and or: "do_rebuilt out = Some (Datagram [] D)
       \<or> (\<exists>t'. waiting D (frag_key p) context (2 * length ps) t' st1 \<and> ft_time t' = pk_time p
            \<and> (\<forall>x. has_byte t' x \<longleftrightarrow> has_byte t x \<or> in_frag p x))"
    using Frag3Defrag_waiting [OF w P(1,3) c P(4) tm(1), of host_policy] by blast
  have st: "cache_holds (\<lambda>_. D) st" using Cons.prems(1) by (simp add: waiting_def live_def cache_holds_def)
  have h: "honest D snaplen p" using P(1) by (simp add: proper_def)
  have st1: "cache_holds (\<lambda>_. D) st1"
    using Frag3Defrag_honest [of p "\<lambda>_. D", OF h wc st, of "\<lambda>_ _. False" buf] D by auto
  have rest: "\<forall>pb \<in> set ps. pk_frag_flag (fst pb) \<longrightarrow> honest ((\<lambda>_. D) (frag_key (fst pb))) snaplen (fst pb)"
    using Cons.prems(4) by (auto simp: proper_def)
  from or show ?case
  proof
    assume o: "do_rebuilt out = Some (Datagram [] D)"
    obtain outs st2 where "defrag_all snaplen host_policy (\<lambda>_ _ _. False) (Some cfg) ps st1 = Some (outs, st2)"
      using defrag_all_honest [OF rest wc st1, of "\<lambda>_ _ _. False"] by (auto simp: undropped_def)
    then show ?thesis using D o pb by (intro exI [of _ "out # outs"] exI [of _ st2]) force
  next
    assume "\<exists>t'. waiting D (frag_key p) context (2 * length ps) t' st1 \<and> ft_time t' = pk_time p
            \<and> (\<forall>x. has_byte t' x \<longleftrightarrow> has_byte t x \<or> in_frag p x)"
    then obtain t' where t': "waiting D key context (2 * length ps) t' st1" "ft_time t' \<in> T"
        "\<forall>x. has_byte t' x \<longleftrightarrow> has_byte t x \<or> in_frag p x" using P(2) tm(2) by auto
    have cov: "\<forall>x. 0 \<le> x \<and> x < int (length D) \<longrightarrow> has_byte t' x \<or> (\<exists>(p, buf) \<in> set ps. in_frag p x)"
      using Cons.prems(3) t'(3) pb by auto
    have ih4: "\<forall>(p, buf) \<in> set ps. proper D snaplen p \<and> frag_key p = key \<and> length D \<le> length buf \<and> fx_min_ttl context \<le> pk_ttl p"
      using Cons.prems(4) by simp
    have ih5: "\<forall>(p, buf) \<in> set ps. \<forall>tm \<in> T. pk_time p \<in> T \<and> \<not> CheckTimeout (pk_time p) tm context"
      using Cons.prems(5) by simp
    from Cons.IH [OF t'(1,2) cov ih4 ih5]
    obtain outs st2 where "defrag_all snaplen host_policy (\<lambda>_ _ _. False) (Some cfg) ps st1 = Some (outs, st2)"
      "Some (Datagram [] D) \<in> do_rebuilt ` set outs" by blast
    then show ?thesis using D pb by (intro exI [of _ "out # outs"] exI [of _ st2]) auto
  qed
qed

lemma run_rebuilds:
  assumes ok: "run_ok D key snaplen cfg context ps"
    and c: "cfg_use_prealloc cfg" "fx_overlap_limit context = 0" and wc: "whole_config host_policy (Some cfg)"
    and st: "f3_cache st = []" "0 < f3_max_nodes st" "2 * length ps \<le> f3_prealloc st"
    and all: "D \<noteq> []" "list_all (\<lambda>x. list_ex (\<lambda>(p, _). in_frag p (int x)) ps) [0..<length D]"
  shows "\<exists>outs st'. defrag_all snaplen host_policy (\<lambda>_ _ _. False) (Some cfg) ps st = Some (outs, st')
      \<and> Some (Datagram [] D) \<in> do_rebuilt ` set outs"
proof (cases ps)
  case Nil
  have "0 \<in> set [0..<length D]" using all(1) by simp
  then show ?thesis using all(2) Nil by (simp add: list_all_iff del: set_upt)
next
  case (Cons pb qs)
  obtain p buf where pb: "pb = (p, buf)" by (cases pb)
  have P: "proper D snaplen p" "frag_key p = key" "\<not> pk_ttl p < fx_min_ttl context" "find_context cfg p = Some context"
    using ok Cons pb by (auto simp: run_ok_def)
  have pol: "FragGetPolicy host_policy p context \<in> whole_policies" using find_context_policy [OF wc P(4)] .
  obtain out t st1 where 1: "Frag3Defrag snaplen host_policy (\<lambda>_ _. False) buf (Some cfg) p st = Some (out, st1)"
    "waiting D key context (2 * length qs) t st1" "ft_time t = pk_time p" "\<forall>x. has_byte t x \<longleftrightarrow> in_frag p x"
    using Frag3Defrag_first [OF P(1) c(1) P(3,4) pol st(1,2), of "2 * length qs" buf] st(3) P(2) Cons by auto
  have cov: "\<forall>x. 0 \<le> x \<and> x < int (length D) \<longrightarrow> has_byte t x \<or> (\<exists>(p, buf) \<in> set qs. in_frag p x)"
  proof (intro allI impI)
    fix x assume x: "0 \<le> x \<and> x < int (length D)"
    then obtain m where m: "x = int m" "m \<in> set [0..<length D]" by (auto elim!: nonneg_int_cases)
    have "\<exists>(p, buf) \<in> set ps. in_frag p x" using all(2) m unfolding list_all_iff list_ex_iff by blast
    then show "has_byte t x \<or> (\<exists>(p, buf) \<in> set qs. in_frag p x)" using x 1(4) Cons pb by auto
  qed
  have qs: "\<forall>(p, buf) \<in> set qs. proper D snaplen p \<and> frag_key p = key \<and> length D \<le> length buf \<and> fx_min_ttl context \<le> pk_ttl p"
    using ok Cons by (auto simp: run_ok_def list_all_iff)
  have tm: "\<forall>(p, buf) \<in> set qs. \<forall>tm \<in> (\<lambda>pb. pk_time (fst pb)) ` set ps.
      pk_time p \<in> (\<lambda>pb. pk_time (fst pb)) ` set ps \<and> \<not> CheckTimeout (pk_time p) tm context"
  proof -
    have late: "\<not> CheckTimeout (pk_time (fst q)) (pk_time (fst r)) context" if "q \<in> set ps" "r \<in> set ps" for q r
      using ok that by (fastforce simp: run_ok_def list_all_iff)
    have "pk_time q \<in> (\<lambda>pb. pk_time (fst pb)) ` set ps \<and> \<not> CheckTimeout (pk_time q) tm context"
      if q: "(q, b) \<in> set qs" and tm: "tm \<in> (\<lambda>pb. pk_time (fst pb)) ` set ps" for q b tm
    proof
      have m: "(q, b) \<in> set ps" using q Cons by simp
      then show "pk_time q \<in> (\<lambda>pb. pk_time (fst pb)) ` set ps" by (rule rev_image_eqI) simp
      obtain r where "r \<in> set ps" "tm = pk_time (fst r)" using tm by blast
      then show "\<not> CheckTimeout (pk_time q) tm context" using late [OF m] by simp
    qed
    then show ?thesis by blast
  qed
  have "ft_time t \<in> (\<lambda>pb. pk_time (fst pb)) ` set ps" using 1(3) Cons pb by force
  from run_waiting [OF c wc qs tm 1(2) this cov] obtain outs st2 where
    "defrag_all snaplen host_policy (\<lambda>_ _ _. False) (Some cfg) qs st1 = Some (outs, st2)" "Some (Datagram [] D) \<in> do_rebuilt ` set outs" by blast
  then show ?thesis using 1(1) Cons pb by (intro exI [of _ "out # outs"] exI [of _ st2]) auto
qed

end
