(* ===== verification/Frag3Claims.thy ===== *)
theory Frag3Claims
  imports Frag3Live
begin

text \<open>What the defragmenter does with the fragments of honest senders: theorems and examples.\<close>

section \<open>Example packets\<close>

definition demo_context :: "frag_policy \<Rightarrow> frag3_context" where
  "demo_context pol = \<lparr>fx_policy = pol, fx_timeout = 60, fx_min_ttl = 1, fx_detect_anomalies = True,
     fx_bound_addrs = None, fx_overlap_limit = 0, fx_min_fragment_length = 0\<rparr>"

definition demo_config :: "frag_policy \<Rightarrow> frag3_config" where
  "demo_config pol = \<lparr>cfg_max_frags = 8192, cfg_memcap = 4194304, cfg_ten_percent = 0, cfg_static_frags = 0,
     cfg_use_prealloc = False, cfg_default_context = Some (demo_context pol), cfg_contexts = []\<rparr>"

definition demo_start :: frag3 where
  "demo_start = \<lparr>f3_cache = [], f3_nodes = 0, f3_max_nodes = 8, f3_mem = 0, f3_prealloc = 0, f3_in_use = 0, f3_events = []\<rparr>"

text \<open>The fragment of the datagram \<open>D\<close> with \<open>n\<close> bytes from \<open>8 * off\<close> on; a datagram.\<close>

definition demo_frag :: "bytes \<Rightarrow> nat \<Rightarrow> nat \<Rightarrow> bool \<Rightarrow> frag_pkt" where
  "demo_frag D off n mf = \<lparr>pk_ip6 = False, pk_frag_flag = True, pk_mf = mf, pk_frag_offset = int off,
     pk_frag_len = int n, pk_frag_start = take n (drop (8 * off) D), pk_sip = [], pk_dip = [],
     pk_id = 7, pk_vlan = None, pk_proto = 6, pk_ip6f_nxt = 0, pk_ttl = 64, pk_time = (0, 0),
     pk_options_len = 0, pk_options_data = [], pk_options = []\<rparr>"

definition demo_data :: "nat \<Rightarrow> bytes" where
  "demo_data n = map of_nat [0..<n]"

text \<open>The packets rebuilt while a sequence of fragments arrives, of which the inspection drops
  those in \<open>dropped\<close>; the buffer holds bytes 255.\<close>

definition demo_arrivals :: "frag_pkt list \<Rightarrow> (frag_pkt \<times> bytes) list" where
  "demo_arrivals ps = map (\<lambda>p. (p, replicate 64 255)) ps"

definition demo_run :: "(frag_pkt \<Rightarrow> bool) \<Rightarrow> frag_policy \<Rightarrow> frag_pkt list \<Rightarrow> rebuilt option list" where
  "demo_run dropped pol ps =
     (case defrag_all 1500 (\<lambda>_. None) (\<lambda>p _ _. dropped p) (Some (demo_config pol)) (demo_arrivals ps) demo_start of
        None \<Rightarrow> [] | Some (outs, _) \<Rightarrow> map do_rebuilt outs)"

definition hole_frags :: "frag_pkt list" where
  "hole_frags = (let D = demo_data 45 in
     [demo_frag D 1 8 True, demo_frag D 3 8 True, demo_frag D 5 5 False, demo_frag D 0 40 True])"

definition tail_frags :: "frag_pkt list" where
  "tail_frags = (let D = demo_data 56 in
     [demo_frag D 1 24 True, demo_frag D 4 16 True, demo_frag D 2 24 True, demo_frag D 6 8 False, demo_frag D 0 8 True])"

section \<open>One insertion\<close>

definition demo_tracker :: "frag_policy \<Rightarrow> frag_tracker" where
  "demo_tracker pol =
     (let p = demo_frag (demo_data 16) 1 8 True
      in fst (start_tracker (demo_context pol) p (new_tracker (\<lambda>_. None) p (frag_key p) (demo_context pol)) demo_start))"

lemma demo_insert: "pkt_ok 1500 (demo_frag (demo_data 16) 0 16 False)" "tracker_wf 0 (demo_tracker FRAG_POLICY_LAST)"
  "one_piece (ft_policy (demo_tracker FRAG_POLICY_LAST)) (insert_at (demo_frag (demo_data 16) 0 16 False) (demo_tracker FRAG_POLICY_LAST))
     (insert_end (demo_frag (demo_data 16) 0 16 False) (demo_tracker FRAG_POLICY_LAST)) (ft_fraglist (demo_tracker FRAG_POLICY_LAST))"
  by code_simp+

lemma demo_insert_ok:
  "map_option fst (Frag3Insert 1500 (demo_config FRAG_POLICY_LAST) (demo_context FRAG_POLICY_LAST) (frag_key (demo_frag (demo_data 16) 0 16 False))
     (demo_frag (demo_data 16) 0 16 False) (demo_tracker FRAG_POLICY_LAST) (demo_start\<lparr>f3_mem := 64\<rparr>)) = Some FRAG_INSERT_OK"
  by code_simp


section \<open>Whole datagrams\<close>


lemma demo_honest: "list_all (\<lambda>pb. honest (demo_data 45) 1500 (fst pb)) (demo_arrivals hole_frags)"
  by code_simp

lemma demo_whole: "whole_config (\<lambda>_. None) (Some (demo_config FRAG_POLICY_LAST))"
  by (simp add: whole_config_def demo_config_def demo_context_def whole_policies_def)

text \<open>The inspection drops the packet with offset 0, the last one.\<close>

lemma demo_undropped: "undropped (\<lambda>p _ _. pk_frag_offset p = 0) (butlast (demo_arrivals hole_frags))"
  by (simp add: demo_arrivals_def hole_frags_def Let_def demo_frag_def)

lemma demo_rebuilds:
  "demo_run (\<lambda>p. pk_frag_offset p = 0) FRAG_POLICY_LAST hole_frags = [None, None, None, Some (Datagram [] (demo_data 45))]"
  by code_simp



definition demo_prealloc :: frag3_config where
  "demo_prealloc = (demo_config FRAG_POLICY_LINUX)\<lparr>cfg_use_prealloc := True, cfg_static_frags := 40\<rparr>"

lemma demo_run_ok:
  "run_ok (demo_data 45) (frag_key (demo_frag (demo_data 45) 0 40 True)) 1500 demo_prealloc (demo_context FRAG_POLICY_LINUX)
     (demo_arrivals hole_frags)"
proof -
  have 1: "list_all (\<lambda>(p, buf). proper (demo_data 45) 1500 p \<and> frag_key p = frag_key (demo_frag (demo_data 45) 0 40 True)
      \<and> length (demo_data 45) \<le> length buf \<and> fx_min_ttl (demo_context FRAG_POLICY_LINUX) \<le> pk_ttl p) (demo_arrivals hole_frags)"
    by code_simp
  have 2: "list_all (\<lambda>(p, _). list_all (\<lambda>(q, _). \<not> CheckTimeout (pk_time q) (pk_time p) (demo_context FRAG_POLICY_LINUX))
      (demo_arrivals hole_frags)) (demo_arrivals hole_frags)"
    by (simp add: demo_arrivals_def hole_frags_def Let_def demo_frag_def CheckTimeout_def TIMERSUB_def demo_context_def)
  have "find_context demo_prealloc p = Some (demo_context FRAG_POLICY_LINUX)" for p
    by (simp add: find_context_def demo_prealloc_def demo_config_def)
  with 1 2 show ?thesis by (simp add: run_ok_def)
qed

lemma demo_covers: "list_all (\<lambda>x. list_ex (\<lambda>(p, _). in_frag p (int x)) (demo_arrivals hole_frags)) [0..<length (demo_data 45)]"
  by (auto simp: demo_arrivals_def hole_frags_def Let_def demo_frag_def in_frag_def demo_data_def list_all_iff)

lemma demo_prealloc_whole: "whole_config (\<lambda>_. None) (Some demo_prealloc)"
  by (simp add: whole_config_def demo_prealloc_def demo_config_def demo_context_def whole_policies_def)


section \<open>Where honest fragments are not put together\<close>

text \<open>Under FIRST, four honest fragments of one datagram, the last of which covers two
  earlier ones: the piece behind the second is placed 8 bytes too far in the fragment and ends
  beyond the datagram, the byte count says complete, and the rebuilt datagram has 8 bytes of whatever
  was in the packet buffer.\<close>

lemma frag3_first_hole:
  "list_all (honest (demo_data 45) 1500) hole_frags
   \<and> demo_run (\<lambda>_. False) FRAG_POLICY_FIRST hole_frags =
       [None, None, None, Some (Datagram [] (take 32 (demo_data 45) @ replicate 8 255 @ drop 40 (demo_data 45)))]"
  by code_simp

text \<open>Under BSD, the default policy, an honest retransmission that overlaps a fragment on its
  left and the fragment adjacent to it stores bytes of its middle behind both; the true bytes
  that arrive for that place are refused, and the datagram is rebuilt with the wrong ones.\<close>

lemma frag3_bsd_tail:
  "list_all (honest (demo_data 56) 1500) tail_frags
   \<and> demo_run (\<lambda>_. False) FRAG_POLICY_BSD tail_frags =
       [None, None, None, None, Some (Datagram [] (take 48 (demo_data 56) @ take 8 (drop 32 (demo_data 56))))]"
  by code_simp

text \<open>After a drop the emptied tracker keeps its byte count and the flags of a complete datagram:
  the next fragment alone completes it, and what is rebuilt has that fragment and otherwise bytes
  of the packet buffer.\<close>

lemma frag3_after_drop:
  "demo_run (\<lambda>p. pk_frag_offset p = 0) FRAG_POLICY_LAST (hole_frags @ [hole_frags ! 0]) =
     [None, None, None, Some (Datagram [] (demo_data 45)),
      Some (Datagram [] (replicate 8 255 @ take 8 (drop 8 (demo_data 45)) @ replicate 29 255))]"
  by code_simp

end
